(* ===== verification/Prelude.thy ===== *)
theory Prelude
  imports Complex_Main "HOL-Library.AList" "HOL-Library.Multiset" "HOL-Library.Char_ord"
    "HOL-Library.List_Lexorder"
begin

text \<open>
  The part of JavaScript the fabric's kernel uses, shared by every component theory.

  \<^item> Numbers.  A \<open>number\<close> that a guard of the source may reject as non-finite, fractional or
    NaN is a \<open>jsnum\<close>: a rational or one of the three special values.  Once the guard has run the
    model keeps an \<open>int\<close>, a \<open>nat\<close> or a \<open>rat\<close>.  Sums, products and comparisons are exact; binary64
    rounding is not modelled (millisecond clocks and counters are integers below \<open>2 ^ 53\<close>, where
    the two agree).
  \<^item> Strings are lists of characters compared by code unit, which is what \<open><\<close> and a bare
    \<open>.sort()\<close> do.  \<open>localeCompare\<close> depends on the host's collation tables, so it is a
    parameter \<open>lc\<close> of the definitions that call it, with the contract of the locale \<open>collation\<close>.
  \<^item> \<open>Map\<close> iterates in insertion order: an association list with \<open>AList.update\<close> (in place, or at
    the end) and \<open>AList.delete\<close>.  \<open>Set\<close> is a list without duplicates, in insertion order.
  \<^item> \<open>Array.prototype.sort\<close> is stable: insertion sort by the comparator.  Its contract, a
    consistent comparator, is the locale \<open>comparator\<close>.
\<close>

named_theorems js_map "facts about insertion-ordered maps and sets"
named_theorems js_array "facts about array operations that keep the elements"

section \<open>Numbers\<close>

datatype jsnum = Fin rat | PosInf | NegInf | NaN

text \<open>The relational operators on finite bounds; every comparison with NaN is false.\<close>

fun js_gt :: "jsnum \<Rightarrow> rat \<Rightarrow> bool" where
  "js_gt (Fin x) b = (x > b)"
| "js_gt PosInf b = True"
| "js_gt NegInf b = False"
| "js_gt NaN b = False"

fun js_ge :: "jsnum \<Rightarrow> rat \<Rightarrow> bool" where
  "js_ge (Fin x) b = (x \<ge> b)"
| "js_ge PosInf b = True"
| "js_ge NegInf b = False"
| "js_ge NaN b = False"

fun js_le :: "jsnum \<Rightarrow> rat \<Rightarrow> bool" where
  "js_le (Fin x) b = (x \<le> b)"
| "js_le PosInf b = False"
| "js_le NegInf b = True"
| "js_le NaN b = False"

fun js_lt :: "jsnum \<Rightarrow> rat \<Rightarrow> bool" where
  "js_lt (Fin x) b = (x < b)"
| "js_lt PosInf b = False"
| "js_lt NegInf b = True"
| "js_lt NaN b = False"

text \<open>\<open>Number.isInteger\<close> and \<open>Number.isFinite\<close>.\<close>

fun is_integer :: "jsnum \<Rightarrow> bool" where
  "is_integer (Fin x) = (of_int \<lfloor>x\<rfloor> = x)"
| "is_integer PosInf = False"
| "is_integer NegInf = False"
| "is_integer NaN = False"

fun is_finite :: "jsnum \<Rightarrow> bool" where
  "is_finite (Fin x) = True"
| "is_finite PosInf = False"
| "is_finite NegInf = False"
| "is_finite NaN = False"

text \<open>The integer a checked \<open>number\<close> holds.\<close>

fun int_of_num :: "jsnum \<Rightarrow> int" where
  "int_of_num (Fin x) = \<lfloor>x\<rfloor>"
| "int_of_num PosInf = 0"
| "int_of_num NegInf = 0"
| "int_of_num NaN = 0"

text \<open>Addition and subtraction of a finite number.\<close>

fun js_plus :: "rat \<Rightarrow> jsnum \<Rightarrow> jsnum" where
  "js_plus a (Fin x) = Fin (a + x)"
| "js_plus a PosInf = PosInf"
| "js_plus a NegInf = NegInf"
| "js_plus a NaN = NaN"

fun js_minus :: "jsnum \<Rightarrow> rat \<Rightarrow> jsnum" where
  "js_minus (Fin x) a = Fin (x - a)"
| "js_minus PosInf a = PosInf"
| "js_minus NegInf a = NegInf"
| "js_minus NaN a = NaN"

fun js_neg :: "jsnum \<Rightarrow> jsnum" where
  "js_neg (Fin x) = Fin (- x)"
| "js_neg PosInf = NegInf"
| "js_neg NegInf = PosInf"
| "js_neg NaN = NaN"

lemma js_le_gt: "x \<noteq> NaN \<Longrightarrow> js_le x b \<longleftrightarrow> \<not> js_gt x b"
  by (cases x) auto

lemma js_gt_plus: "js_gt (js_plus a x) a \<longleftrightarrow> js_gt x 0"
  by (cases x) auto

lemma js_plus_NaN [simp]: "js_plus a x = NaN \<longleftrightarrow> x = NaN"
  by (cases x) auto

lemma js_gt_not_NaN [dest]: "js_gt x b \<Longrightarrow> x \<noteq> NaN"
  by (cases x) auto

abbreviation num_of_nat :: "nat \<Rightarrow> jsnum" where
  "num_of_nat n \<equiv> Fin (of_nat n)"

abbreviation num_of_int :: "int \<Rightarrow> jsnum" where
  "num_of_int n \<equiv> Fin (of_int n)"

lemma is_integer_int [simp]: "is_integer (num_of_int n)"
  by simp

lemma is_integer_nat [simp]: "is_integer (num_of_nat n)"
  by (metis is_integer.simps(1) floor_of_nat of_int_of_nat_eq)

lemma is_integer_iff: "is_integer x \<longleftrightarrow> (\<exists>n. x = num_of_int n)"
proof (cases x)
  case (Fin r)
  then show ?thesis by (auto intro: exI [of _ "\<lfloor>r\<rfloor>"])
qed auto

lemma int_of_num_int [simp]: "int_of_num (num_of_int n) = n"
  by simp

section \<open>Insertion-ordered maps and sets\<close>

type_synonym ('k, 'v) jsmap = "('k \<times> 'v) list"

fun map_get :: "('k, 'v) jsmap \<Rightarrow> 'k \<Rightarrow> 'v option" where
  "map_get [] k = None"
| "map_get ((a, b) # m) k = (if a = k then Some b else map_get m k)"

abbreviation map_set :: "'k \<Rightarrow> 'v \<Rightarrow> ('k, 'v) jsmap \<Rightarrow> ('k, 'v) jsmap" where
  "map_set k v m \<equiv> AList.update k v m"

abbreviation map_delete :: "'k \<Rightarrow> ('k, 'v) jsmap \<Rightarrow> ('k, 'v) jsmap" where
  "map_delete k m \<equiv> AList.delete k m"

abbreviation map_values :: "('k, 'v) jsmap \<Rightarrow> 'v list" where
  "map_values m \<equiv> map snd m"

abbreviation map_keys :: "('k, 'v) jsmap \<Rightarrow> 'k list" where
  "map_keys m \<equiv> map fst m"

abbreviation map_ok :: "('k, 'v) jsmap \<Rightarrow> bool" where
  "map_ok m \<equiv> distinct (map fst m)"

definition set_add :: "'a \<Rightarrow> 'a list \<Rightarrow> 'a list" where
  "set_add x xs = (if x \<in> set xs then xs else xs @ [x])"

definition set_of_list :: "'a list \<Rightarrow> 'a list" where
  "set_of_list xs = foldl (\<lambda>s x. set_add x s) [] xs"

lemma map_get_map_of: "map_get m k = map_of m k"
  by (induction m) auto

lemma map_get_set [js_map, simp]: "map_get (map_set k v m) k' = (if k' = k then Some v else map_get m k')"
  by (simp add: map_get_map_of update_conv)

lemma map_get_delete [js_map, simp]:
  "map_get (map_delete k m) k' = (if k' = k then None else map_get m k')"
  by (simp add: map_get_map_of delete_conv')

lemma map_delete_filter: "map_delete k m = filter (\<lambda>p. fst p \<noteq> k) m"
  by (induction m) auto

lemma map_ok_set [js_map, simp]: "map_ok m \<Longrightarrow> map_ok (map_set k v m)"
  by (rule distinct_update)

lemma map_ok_delete [js_map, simp]: "map_ok m \<Longrightarrow> map_ok (map_delete k m)"
  by (rule distinct_delete)

lemma map_get_mem: "map_get m k = Some v \<Longrightarrow> (k, v) \<in> set m"
  by (simp add: map_get_map_of map_of_SomeD)

lemma map_get_iff: "map_ok m \<Longrightarrow> map_get m k = Some v \<longleftrightarrow> (k, v) \<in> set m"
  by (simp add: map_get_map_of)

lemma map_set_mem:
  assumes "map_ok m"
  shows "(k', v') \<in> set (map_set k v m) \<longleftrightarrow> (if k' = k then v' = v else (k', v') \<in> set m)"
  using map_get_iff [OF map_ok_set [OF assms], of k v k' v'] map_get_iff [OF assms, of k' v']
  by auto

lemma map_get_None_iff: "map_get m k = None \<longleftrightarrow> k \<notin> set (map_keys m)"
  by (simp add: map_get_map_of map_of_eq_None_iff)

lemma map_keys_delete [js_map]: "set (map_keys (map_delete k m)) = set (map_keys m) - {k}"
  by (induction m) auto

lemma map_keys_set [js_map]: "set (map_keys (map_set k v m)) = insert k (set (map_keys m))"
  by (simp add: update_keys) blast

lemma set_set_add [simp]: "set (set_add x xs) = insert x (set xs)"
  by (auto simp: set_add_def)

lemma distinct_set_add [simp]: "distinct (set_add x xs) = distinct xs"
  by (auto simp: set_add_def)

lemma set_foldl_add: "set (foldl (\<lambda>s x. set_add x s) acc xs) = set acc \<union> set xs"
  by (induction xs arbitrary: acc) auto

lemma distinct_foldl_add: "distinct (foldl (\<lambda>s x. set_add x s) acc xs) = distinct acc"
  by (induction xs arbitrary: acc) auto

lemma set_set_of_list [simp]: "set (set_of_list xs) = set xs"
  by (simp add: set_of_list_def set_foldl_add)

lemma distinct_set_of_list [simp]: "distinct (set_of_list xs)"
  by (simp add: set_of_list_def distinct_foldl_add)

lemma length_set_of_list: "length (set_of_list xs) = card (set xs)"
  by (metis distinct_card distinct_set_of_list set_set_of_list)

lemma foldl_add_distinct:
  "distinct (acc @ xs) \<Longrightarrow> foldl (\<lambda>s x. set_add x s) acc xs = acc @ xs"
  by (induction xs arbitrary: acc) (auto simp: set_add_def)

lemma set_of_list_distinct [simp]: "distinct xs \<Longrightarrow> set_of_list xs = xs"
  by (simp add: set_of_list_def foldl_add_distinct)

lemma set_of_list_Nil_iff [simp]: "set_of_list xs = [] \<longleftrightarrow> xs = []"
  by (metis set_empty set_set_of_list)

text \<open>A composite key, two texts with a NUL between them, is unambiguous when the second has none.\<close>

lemma nul_key_inj:
  assumes "CHR 0x00 \<notin> set s" "CHR 0x00 \<notin> set t" "p @ [CHR 0x00] @ s = q @ [CHR 0x00] @ t"
  shows "p = q \<and> s = t"
proof -
  have t: "takeWhile (\<lambda>c. c \<noteq> CHR 0x00) (r @ CHR 0x00 # x) = r" if "CHR 0x00 \<notin> set r" for r x
    using that by (induction r) auto
  have eq: "rev s @ CHR 0x00 # rev p = rev t @ CHR 0x00 # rev q" using assms(3) by (metis append_Cons append_Nil rev.simps(2) rev_append append_assoc)
  have "rev s = rev t" using t [of "rev s" "rev p"] t [of "rev t" "rev q"] eq assms(1,2) by simp
  with eq show ?thesis by simp
qed

section \<open>Sorting\<close>

text \<open>
  A comparator's sign decides: \<open>js_or\<close> is \<open>a || b\<close> on numbers, \<open>num_cmp\<close> the sign of \<open>a - b\<close>,
  \<open>unit_cmp\<close> the code-unit comparison that the source writes as two \<open><\<close> tests.
\<close>

definition js_or :: "int \<Rightarrow> int \<Rightarrow> int" where
  "js_or a b = (if a \<noteq> 0 then a else b)"

definition num_cmp :: "'a::linorder \<Rightarrow> 'a \<Rightarrow> int" where
  "num_cmp a b = (if a < b then -1 else if a > b then 1 else 0)"

abbreviation unit_cmp :: "string \<Rightarrow> string \<Rightarrow> int" where
  "unit_cmp \<equiv> num_cmp"

fun js_insert :: "('a \<Rightarrow> 'a \<Rightarrow> int) \<Rightarrow> 'a \<Rightarrow> 'a list \<Rightarrow> 'a list" where
  "js_insert cmp x [] = [x]"
| "js_insert cmp x (y # ys) = (if cmp x y \<le> 0 then x # y # ys else y # js_insert cmp x ys)"

fun js_sort :: "('a \<Rightarrow> 'a \<Rightarrow> int) \<Rightarrow> 'a list \<Rightarrow> 'a list" where
  "js_sort cmp [] = []"
| "js_sort cmp (x # xs) = js_insert cmp x (js_sort cmp xs)"

lemma mset_js_insert [simp]: "mset (js_insert cmp x xs) = add_mset x (mset xs)"
  by (induction xs) auto

lemma mset_js_sort [simp, js_array]: "mset (js_sort cmp xs) = mset xs"
  by (induction xs) auto

lemma set_js_sort [simp, js_array]: "set (js_sort cmp xs) = set xs"
  by (metis mset_js_sort set_mset_mset)

lemma length_js_sort [simp, js_array]: "length (js_sort cmp xs) = length xs"
  by (metis mset_js_sort size_mset)

lemma distinct_js_sort [simp, js_array]: "distinct (js_sort cmp xs) = distinct xs"
  by (metis mset_js_sort mset_eq_imp_distinct_iff)

lemma js_sort_Nil_iff [simp]: "js_sort cmp xs = [] \<longleftrightarrow> xs = []"
  by (metis length_0_conv length_js_sort)

text \<open>The contract \<open>sort\<close> asks of a comparator, and what it gives back.\<close>

locale comparator =
  fixes cmp :: "'a \<Rightarrow> 'a \<Rightarrow> int"
  assumes cmp_total: "cmp x y \<le> 0 \<or> cmp y x \<le> 0"
    and cmp_trans: "cmp x y \<le> 0 \<Longrightarrow> cmp y z \<le> 0 \<Longrightarrow> cmp x z \<le> 0"
begin

lemma cmp_refl: "cmp x x \<le> 0"
  using cmp_total by blast

lemma sorted_insert:
  "sorted_wrt (\<lambda>x y. cmp x y \<le> 0) ys \<Longrightarrow> sorted_wrt (\<lambda>x y. cmp x y \<le> 0) (js_insert cmp x ys)"
proof (induction ys)
  case (Cons y ys)
  have set_ins: "set (js_insert cmp x ys) = insert x (set ys)"
    by (metis mset_js_insert set_mset_add_mset_insert set_mset_mset)
  show ?case
  proof (cases "cmp x y \<le> 0")
    case True
    with Cons.prems show ?thesis by (auto intro: cmp_trans)
  next
    case False
    with Cons cmp_total [of x y] show ?thesis by (auto simp: set_ins)
  qed
qed simp

lemma sorted_sort: "sorted_wrt (\<lambda>x y. cmp x y \<le> 0) (js_sort cmp xs)"
  by (induction xs) (auto intro: sorted_insert)

lemma sort_hd_least: "js_sort cmp xs = y # ys \<Longrightarrow> x \<in> set xs \<Longrightarrow> cmp y x \<le> 0"
  using sorted_sort [of xs] cmp_refl
  by (metis list.set_cases set_ConsD set_js_sort sorted_wrt.simps(2))

lemma sorted_unique:
  assumes "sorted_wrt (\<lambda>x y. cmp x y \<le> 0) xs" "sorted_wrt (\<lambda>x y. cmp x y \<le> 0) ys"
    and "mset xs = mset ys"
    and "\<And>x y. x \<in> set xs \<Longrightarrow> y \<in> set xs \<Longrightarrow> cmp x y \<le> 0 \<Longrightarrow> cmp y x \<le> 0 \<Longrightarrow> x = y"
  shows "xs = ys"
  using assms
proof (induction xs arbitrary: ys)
  case (Cons x xs)
  then obtain y zs where ys: "ys = y # zs" by (cases ys) auto
  have mem: "set (x # xs) = set (y # zs)"
    using Cons.prems(3) ys by (metis set_mset_mset)
  have "cmp x y \<le> 0" using Cons.prems(1) mem cmp_refl by (metis list.set_intros(1) set_ConsD sorted_wrt.simps(2))
  moreover have "cmp y x \<le> 0" using Cons.prems(2) ys mem cmp_refl
    by (metis list.set_intros(1) set_ConsD sorted_wrt.simps(2))
  ultimately have "x = y" using Cons.prems(4) mem by (metis list.set_intros(1))
  with Cons ys show ?case by simp
qed simp

text \<open>Where ties are only between equal elements, the result does not depend on the input's order.\<close>

lemma sort_order_independent:
  assumes "mset xs = mset ys"
    and "\<And>x y. x \<in> set xs \<Longrightarrow> y \<in> set xs \<Longrightarrow> cmp x y \<le> 0 \<Longrightarrow> cmp y x \<le> 0 \<Longrightarrow> x = y"
  shows "js_sort cmp xs = js_sort cmp ys"
  using assms by (intro sorted_unique) (auto simp: sorted_sort)

text \<open>A stable sort commutes with dropping elements.\<close>

lemma insert_before_all:
  "\<forall>y \<in> set ys. cmp x y \<le> 0 \<Longrightarrow> js_insert cmp x ys = x # ys"
  by (cases ys) auto

lemma insert_filter:
  assumes "sorted_wrt (\<lambda>x y. cmp x y \<le> 0) ys"
  shows "filter P (js_insert cmp x ys) = (if P x then js_insert cmp x (filter P ys) else filter P ys)"
  using assms
proof (induction ys)
  case (Cons y ys)
  show ?case
  proof (cases "cmp x y \<le> 0")
    case True
    with Cons.prems have "\<forall>z \<in> set (filter P (y # ys)). cmp x z \<le> 0" by (auto intro: cmp_trans)
    then have "js_insert cmp x (filter P (y # ys)) = x # filter P (y # ys)" by (rule insert_before_all)
    with True show ?thesis by simp
  next
    case False
    with Cons show ?thesis by auto
  qed
qed simp

lemma sort_filter: "js_sort cmp (filter P xs) = filter P (js_sort cmp xs)"
  by (induction xs) (simp_all add: insert_filter sorted_sort)

end

text \<open>The default \<open>.sort()\<close> on strings and the explicit \<open><\<close> comparator are the code-unit order.\<close>

interpretation unit_order: comparator "num_cmp :: 'a::linorder \<Rightarrow> 'a \<Rightarrow> int"
  by unfold_locales (auto simp: num_cmp_def split: if_splits)

lemma num_cmp_antisym: "num_cmp x y \<le> 0 \<Longrightarrow> num_cmp y x \<le> 0 \<Longrightarrow> x = y"
  by (auto simp: num_cmp_def split: if_splits)

lemma js_sort_is_sort: "js_sort num_cmp xs = sort xs"
proof (rule unit_order.sorted_unique)
  have "sorted_wrt (\<le>) (sort xs)" by (rule sorted_sort)
  then show "sorted_wrt (\<lambda>x y. num_cmp x y \<le> 0) (sort xs)"
    by (rule sorted_wrt_mono_rel [rotated]) (auto simp: num_cmp_def)
qed (auto simp: unit_order.sorted_sort num_cmp_antisym)

text \<open>
  A comparator built the way the source builds them: a primary key, then a tie-break.  The
  collation is the interface to the host's \<open>localeCompare\<close>.
\<close>

locale collation =
  fixes lc :: "string \<Rightarrow> string \<Rightarrow> int"
  assumes lc_swap: "lc x y < 0 \<longleftrightarrow> 0 < lc y x"
    and lc_trans: "lc x y \<le> 0 \<Longrightarrow> lc y z \<le> 0 \<Longrightarrow> lc x z \<le> 0"
begin

lemma lc_refl: "lc x x = 0"
  using lc_swap [of x x] by linarith

lemma lc_total: "lc x y \<le> 0 \<or> lc y x \<le> 0"
  using lc_swap [of y x] by linarith

lemma then_by_trans:
  fixes key :: "'b \<Rightarrow> 'k::linorder"
  assumes "js_or (num_cmp (key a) (key b)) (lc (nm a) (nm b)) \<le> 0"
    and "js_or (num_cmp (key b) (key c)) (lc (nm b) (nm c)) \<le> 0"
  shows "js_or (num_cmp (key a) (key c)) (lc (nm a) (nm c)) \<le> 0"
  using assms lc_trans [of "nm a" "nm b" "nm c"]
  by (auto simp: js_or_def num_cmp_def split: if_splits)

lemma then_by_total:
  fixes key :: "'b \<Rightarrow> 'k::linorder"
  shows "js_or (num_cmp (key a) (key b)) (lc (nm a) (nm b)) \<le> 0 \<or>
    js_or (num_cmp (key b) (key a)) (lc (nm b) (nm a)) \<le> 0"
  using lc_total [of "nm a" "nm b"] by (auto simp: js_or_def num_cmp_def)

lemma comparator_by: "comparator (\<lambda>a b. lc (f a) (f b))"
  by unfold_locales (use lc_total lc_trans in blast)+

lemma comparator_then_by:
  fixes key :: "'b \<Rightarrow> 'k::linorder"
  shows "comparator (\<lambda>a b. js_or (num_cmp (key a) (key b)) (lc (nm a) (nm b)))"
proof unfold_locales
  show "js_or (num_cmp (key a) (key b)) (lc (nm a) (nm b)) \<le> 0 \<or>
      js_or (num_cmp (key b) (key a)) (lc (nm b) (nm a)) \<le> 0" for a b
    by (rule then_by_total)
qed (rule then_by_trans)

end

sublocale collation \<subseteq> by_name: comparator lc
  by unfold_locales (use lc_total lc_trans in blast)+

text \<open>A host whose collation is the code-unit order (the \<open>C\<close> locale) meets the contract.\<close>

interpretation unit_collation: collation unit_cmp
  by unfold_locales (auto simp: num_cmp_def split: if_splits)

section \<open>Lists and options the components share\<close>

definition sum_by :: "('a \<Rightarrow> nat) \<Rightarrow> 'a list \<Rightarrow> nat" where
  "sum_by f xs = foldl (\<lambda>s x. s + f x) 0 xs"

lemma foldl_plus_start: "foldl (\<lambda>s x. s + f x) (a::nat) xs = a + foldl (\<lambda>s x. s + f x) 0 xs"
proof (induction xs arbitrary: a)
  case (Cons x xs)
  from Cons.IH [of "a + f x"] Cons.IH [of "f x"] show ?case by simp
qed simp

lemma sum_by_Nil [simp]: "sum_by f [] = 0"
  by (simp add: sum_by_def)

lemma sum_by_Cons [simp]: "sum_by f (x # xs) = f x + sum_by f xs"
  unfolding sum_by_def by (subst foldl_Cons, subst foldl_plus_start) simp

lemma sum_by_append [simp]: "sum_by f (xs @ ys) = sum_by f xs + sum_by f ys"
  by (induction xs) auto

lemma sum_by_member: "x \<in> set xs \<Longrightarrow> f x \<le> sum_by f xs"
  by (induction xs) auto

text \<open>\<open>Array.prototype.join\<close>.\<close>

fun js_join :: "string \<Rightarrow> string list \<Rightarrow> string" where
  "js_join sep [] = []"
| "js_join sep [x] = x"
| "js_join sep (x # y # ys) = x @ sep @ js_join sep (y # ys)"

text \<open>The grouping loop: \<open>get\<close>, then \<open>push\<close> or \<open>set\<close>; groups in order of first appearance.\<close>

definition group_add :: "('a \<Rightarrow> 'k) \<Rightarrow> ('k, 'a list) jsmap \<Rightarrow> 'a \<Rightarrow> ('k, 'a list) jsmap" where
  "group_add key m x =
     (case map_get m (key x) of None \<Rightarrow> map_set (key x) [x] m | Some g \<Rightarrow> map_set (key x) (g @ [x]) m)"

definition group_by :: "('a \<Rightarrow> 'k) \<Rightarrow> 'a list \<Rightarrow> ('k, 'a list) jsmap" where
  "group_by key xs = foldl (group_add key) [] xs"

lemma map_ok_group_add: "map_ok m \<Longrightarrow> map_ok (group_add key m x)"
  by (simp add: group_add_def split: option.split)

lemma map_ok_group_by [simp]: "map_ok (group_by key xs)"
proof -
  have "map_ok m \<Longrightarrow> map_ok (foldl (group_add key) m xs)" for m
    by (induction xs arbitrary: m) (simp_all add: map_ok_group_add)
  then show ?thesis by (simp add: group_by_def)
qed

lemma map_get_group_by:
  "map_get (group_by key xs) k =
     (if \<exists>x \<in> set xs. key x = k then Some (filter (\<lambda>x. key x = k) xs) else None)"
proof (induction xs rule: rev_induct)
  case (snoc x xs)
  have "group_by key (xs @ [x]) = group_add key (group_by key xs) x" by (simp add: group_by_def)
  with snoc show ?case by (auto simp: group_add_def filter_empty_conv split: option.splits)
qed (simp add: group_by_def)

lemma group_by_mem: "(k, g) \<in> set (group_by key xs) \<longleftrightarrow> g = filter (\<lambda>x. key x = k) xs \<and> g \<noteq> []"
proof -
  have "(k, g) \<in> set (group_by key xs) \<longleftrightarrow> map_get (group_by key xs) k = Some g"
    by (rule map_get_iff [symmetric]) simp
  also have "\<dots> \<longleftrightarrow> g = filter (\<lambda>x. key x = k) xs \<and> g \<noteq> []"
    by (auto simp: map_get_group_by filter_empty_conv)
  finally show ?thesis .
qed

lemma map_set_new: "map_get m k = None \<Longrightarrow> map_set k v m = m @ [(k, v)]"
  by (induction m) (auto split: if_splits)

lemma map_set_fresh: "k \<notin> set (map_keys m) \<Longrightarrow> map_set k v m = m @ [(k, v)]"
  by (intro map_set_new) (simp add: map_get_None_iff)

lemma mset_push_group:
  "map_get m k = Some g \<Longrightarrow> mset (concat (map_values (map_set k (g @ [x]) m))) = add_mset x (mset (concat (map_values m)))"
  by (induction m) (auto split: if_splits)

lemma mset_group_by: "mset (concat (map_values (group_by key xs))) = mset xs"
proof (induction xs rule: rev_induct)
  case (snoc x xs)
  have "group_by key (xs @ [x]) = group_add key (group_by key xs) x" by (simp add: group_by_def)
  with snoc show ?case
    by (cases "map_get (group_by key xs) (key x)") (simp_all add: group_add_def map_set_new mset_push_group)
qed (simp add: group_by_def)

end
