(* ===== verification/Lease.thy ===== *)
theory Lease
  imports Prelude
begin

text \<open>
  Task leases, \<open>packages/core/src/lease.ts\<close>: the table of who holds which task until when, its
  five operations (grant, renew, complete, surrender, reap) and the worker-side checks.  The class
  \<open>LeaseTable\<close> is the record \<open>lease_table\<close>; its private maps keep their insertion order, its
  history is the list of events, oldest first.  Clock readings are finite; a deadline is a
  \<open>jsnum\<close> because an infinite \<open>leaseMs\<close> passes the constructor's guard.
\<close>

section \<open>State and operations\<close>

record lease =
  l_taskId :: string
  l_nodeId :: string
  l_grantedAt :: rat
  l_renewedAt :: "rat option"
  l_expiresAt :: jsnum
  l_generation :: nat

datatype lease_event =
    Granted string string rat nat
  | Renewed string string rat jsnum
  | Completed string string rat nat
  | Expired string string rat nat
  | Surrendered string string rat nat
  | Stale_completion string string rat "string option"
  | Abandoned string rat nat

record lease_table =
  leaseMs :: jsnum
  maxGenerations :: nat
  held :: "(string, lease) jsmap"
  generations :: "(string, nat) jsmap"
  abandoned :: "string list"
  completed :: "string list"
  history :: "lease_event list"

record reaped =
  r_taskId :: string
  r_previousHolder :: string
  r_generation :: nat
  r_redispatchable :: bool

datatype lease_error = LeaseMs_not_positive jsnum | MaxGenerations_not_positive_integer jsnum

definition DEFAULT_LEASE_MS :: jsnum where
  "DEFAULT_LEASE_MS = Fin 30000"

definition DEFAULT_MAX_GENERATIONS :: jsnum where
  "DEFAULT_MAX_GENERATIONS = Fin 3"

definition new_lease_table :: "jsnum option \<Rightarrow> jsnum option \<Rightarrow> lease_error + lease_table" where
  "new_lease_table leaseMs_opt maxGenerations_opt =
     (let ms = (case leaseMs_opt of None \<Rightarrow> DEFAULT_LEASE_MS | Some x \<Rightarrow> x);
          mg = (case maxGenerations_opt of None \<Rightarrow> DEFAULT_MAX_GENERATIONS | Some x \<Rightarrow> x)
      in if \<not> js_gt ms 0 then Inl (LeaseMs_not_positive ms)
         else if \<not> is_integer mg \<or> js_lt mg 1 then Inl (MaxGenerations_not_positive_integer mg)
         else Inr \<lparr>leaseMs = ms, maxGenerations = nat (int_of_num mg), held = [], generations = [],
                abandoned = [], completed = [], history = []\<rparr>)"

definition push :: "lease_event \<Rightarrow> lease_table \<Rightarrow> lease_table" where
  "push e t = t\<lparr>history := history t @ [e]\<rparr>"

text \<open>\<open>#expire\<close> and \<open>#abandon\<close>.\<close>

definition expire :: "lease \<Rightarrow> rat \<Rightarrow> lease_table \<Rightarrow> lease_table" where
  "expire l now t =
     push (Expired (l_taskId l) (l_nodeId l) now (l_generation l))
       (t\<lparr>held := map_delete (l_taskId l) (held t)\<rparr>)"

definition abandon :: "string \<Rightarrow> rat \<Rightarrow> nat \<Rightarrow> lease_table \<Rightarrow> lease_table" where
  "abandon taskId now gens t =
     (if taskId \<in> set (abandoned t) then t
      else push (Abandoned taskId now gens) (t\<lparr>abandoned := set_add taskId (abandoned t)\<rparr>))"

definition generation_of :: "lease_table \<Rightarrow> string \<Rightarrow> nat" where
  "generation_of t taskId = (case map_get (generations t) taskId of None \<Rightarrow> 0 | Some g \<Rightarrow> g)"

text \<open>The second half of \<open>grant\<close>, once no live lease stands in the way.\<close>

definition grant_next :: "string \<Rightarrow> string \<Rightarrow> rat \<Rightarrow> lease_table \<Rightarrow> lease option \<times> lease_table" where
  "grant_next taskId nodeId now t =
     (let generation = generation_of t taskId + 1
      in if generation > maxGenerations t then (None, abandon taskId now (generation - 1) t)
         else let l = \<lparr>l_taskId = taskId, l_nodeId = nodeId, l_grantedAt = now, l_renewedAt = None,
                       l_expiresAt = js_plus now (leaseMs t), l_generation = generation\<rparr>
              in (Some l, push (Granted taskId nodeId now generation)
                    (t\<lparr>held := map_set taskId l (held t),
                       generations := map_set taskId generation (generations t)\<rparr>)))"

definition grant :: "string \<Rightarrow> string \<Rightarrow> rat \<Rightarrow> lease_table \<Rightarrow> lease option \<times> lease_table" where
  "grant taskId nodeId now t =
     (if taskId \<in> set (completed t) \<or> taskId \<in> set (abandoned t) then (None, t)
      else case map_get (held t) taskId of
        None \<Rightarrow> grant_next taskId nodeId now t
      | Some existing \<Rightarrow>
          if js_gt (l_expiresAt existing) now then (None, t)
          else grant_next taskId nodeId now (expire existing now t))"

definition renew :: "string \<Rightarrow> string \<Rightarrow> rat \<Rightarrow> lease_table \<Rightarrow> lease option \<times> lease_table" where
  "renew taskId nodeId now t =
     (case map_get (held t) taskId of
        None \<Rightarrow> (None, t)
      | Some l \<Rightarrow>
          if l_nodeId l \<noteq> nodeId then (None, t)
          else if js_le (l_expiresAt l) now then (None, t)
          else let r = l\<lparr>l_renewedAt := Some now, l_expiresAt := js_plus now (leaseMs t)\<rparr>
               in (Some r, push (Renewed taskId nodeId now (l_expiresAt r))
                     (t\<lparr>held := map_set taskId r (held t)\<rparr>)))"

definition complete_task :: "string \<Rightarrow> string \<Rightarrow> rat \<Rightarrow> lease_table \<Rightarrow> bool \<times> lease_table" where
  "complete_task taskId nodeId now t =
     (case map_get (held t) taskId of
        None \<Rightarrow> (False, push (Stale_completion taskId nodeId now None) t)
      | Some l \<Rightarrow>
          if l_nodeId l \<noteq> nodeId \<or> js_le (l_expiresAt l) now
          then (False, push (Stale_completion taskId nodeId now (Some (l_nodeId l)))
                 (if l_nodeId l = nodeId then t\<lparr>held := map_delete taskId (held t)\<rparr> else t))
          else (True, push (Completed taskId nodeId now (l_generation l))
                 (t\<lparr>held := map_delete taskId (held t),
                    completed := set_add taskId (completed t)\<rparr>)))"

definition surrender :: "string \<Rightarrow> string \<Rightarrow> rat \<Rightarrow> lease_table \<Rightarrow> bool \<times> lease_table" where
  "surrender taskId nodeId now t =
     (case map_get (held t) taskId of
        None \<Rightarrow> (False, t)
      | Some l \<Rightarrow>
          if l_nodeId l \<noteq> nodeId then (False, t)
          else let t' = push (Surrendered taskId nodeId now (l_generation l))
                          (t\<lparr>held := map_delete taskId (held t)\<rparr>)
               in (True, if l_generation l \<ge> maxGenerations t'
                         then abandon taskId now (l_generation l) t' else t'))"

text \<open>\<open>reap\<close>: the loop over the leases in scope, then the result sorted by task.\<close>

definition reap_one :: "rat \<Rightarrow> lease \<Rightarrow> reaped list \<times> lease_table \<Rightarrow> reaped list \<times> lease_table" where
  "reap_one now l st =
     (let (out, t) = st
      in if js_gt (l_expiresAt l) now then (out, t)
         else let t1 = expire l now t;
                  redispatchable = (l_generation l < maxGenerations t1);
                  t2 = (if \<not> redispatchable then abandon (l_taskId l) now (l_generation l) t1 else t1)
              in (out @ [\<lparr>r_taskId = l_taskId l, r_previousHolder = l_nodeId l,
                          r_generation = l_generation l, r_redispatchable = redispatchable\<rparr>], t2))"

definition reap_scope :: "string option \<Rightarrow> lease_table \<Rightarrow> lease list" where
  "reap_scope task t =
     (case task of
        None \<Rightarrow> map_values (held t)
      | Some k \<Rightarrow> (case map_get (held t) k of None \<Rightarrow> [] | Some l \<Rightarrow> [l]))"

definition reap ::
  "(string \<Rightarrow> string \<Rightarrow> int) \<Rightarrow> rat \<Rightarrow> string option \<Rightarrow> lease_table \<Rightarrow> reaped list \<times> lease_table" where
  "reap lc now task t =
     (let (out, t') = foldl (\<lambda>st l. reap_one now l st) ([], t) (reap_scope task t)
      in (js_sort (\<lambda>a b. lc (r_taskId a) (r_taskId b)) out, t'))"

text \<open>The getters.\<close>

definition holder :: "string \<Rightarrow> lease_table \<Rightarrow> lease option" where
  "holder taskId t = map_get (held t) taskId"

definition outstanding :: "lease_table \<Rightarrow> lease list" where
  "outstanding t = map_values (held t)"

definition abandoned_tasks :: "lease_table \<Rightarrow> string list" where
  "abandoned_tasks t = sort (abandoned t)"

definition redispatches :: "lease_table \<Rightarrow> int" where
  "redispatches t = foldl (\<lambda>total g. total + (int g - 1)) 0 (map_values (generations t))"

text \<open>The worker's own view of its lease.\<close>

datatype lease_check = Still_valid jsnum | Overdue jsnum

definition checkLease :: "lease \<Rightarrow> rat \<Rightarrow> lease_check" where
  "checkLease l now =
     (if js_gt (l_expiresAt l) now then Still_valid (js_minus (l_expiresAt l) now)
      else Overdue (js_neg (js_minus (l_expiresAt l) now)))"

definition RENEW_AT :: rat where
  "RENEW_AT = 2 / 3"

definition shouldRenew :: "lease \<Rightarrow> rat \<Rightarrow> bool" where
  "shouldRenew l now =
     (let termStart = (case l_renewedAt l of None \<Rightarrow> l_grantedAt l | Some r \<Rightarrow> r);
          elapsed = now - termStart
      in case js_minus (l_expiresAt l) termStart of
           Fin term_len \<Rightarrow> term_len > 0 \<and> elapsed \<ge> term_len * RENEW_AT \<and> js_gt (l_expiresAt l) now
         | _ \<Rightarrow> False)"

section \<open>The invariant\<close>

text \<open>
  What the table keeps true between its fields: every held lease is filed under its own task, is
  the task's latest dispatch, and its task is neither finished nor given up.
\<close>

definition lease_ok :: "lease_table \<Rightarrow> string \<Rightarrow> lease \<Rightarrow> bool" where
  "lease_ok t k l \<longleftrightarrow> l_taskId l = k \<and> map_get (generations t) k = Some (l_generation l) \<and>
     k \<notin> set (completed t) \<and> k \<notin> set (abandoned t)"

definition lease_inv :: "lease_table \<Rightarrow> bool" where
  "lease_inv t \<longleftrightarrow> map_ok (held t) \<and> map_ok (generations t) \<and>
     distinct (completed t) \<and> distinct (abandoned t) \<and> set (completed t) \<inter> set (abandoned t) = {} \<and>
     1 \<le> maxGenerations t \<and> js_gt (leaseMs t) 0 \<and>
     (\<forall>k l. map_get (held t) k = Some l \<longrightarrow> lease_ok t k l) \<and>
     (\<forall>k g. map_get (generations t) k = Some g \<longrightarrow> 1 \<le> g \<and> g \<le> maxGenerations t)"

lemma push_sel [simp]:
  "held (push e t) = held t" "generations (push e t) = generations t"
  "abandoned (push e t) = abandoned t" "completed (push e t) = completed t"
  "leaseMs (push e t) = leaseMs t" "maxGenerations (push e t) = maxGenerations t"
  "history (push e t) = history t @ [e]"
  by (simp_all add: push_def)

lemma expire_sel [simp]:
  "held (expire l now t) = map_delete (l_taskId l) (held t)"
  "generations (expire l now t) = generations t" "abandoned (expire l now t) = abandoned t"
  "completed (expire l now t) = completed t" "leaseMs (expire l now t) = leaseMs t"
  "maxGenerations (expire l now t) = maxGenerations t"
  by (simp_all add: expire_def)

lemma abandon_sel [simp]:
  "held (abandon k now g t) = held t" "generations (abandon k now g t) = generations t"
  "set (abandoned (abandon k now g t)) = insert k (set (abandoned t))"
  "completed (abandon k now g t) = completed t" "leaseMs (abandon k now g t) = leaseMs t"
  "maxGenerations (abandon k now g t) = maxGenerations t"
  "distinct (abandoned (abandon k now g t)) = distinct (abandoned t)"
  by (auto simp: abandon_def)

lemma lease_inv_push [simp]: "lease_inv (push e t) = lease_inv t"
  by (simp add: lease_inv_def lease_ok_def)

lemma new_lease_table_inv: "new_lease_table a b = Inr t \<Longrightarrow> lease_inv t"
proof -
  assume new: "new_lease_table a b = Inr t"
  obtain mg where mg: "is_integer mg" "\<not> js_lt mg 1" "maxGenerations t = nat (int_of_num mg)"
    and rest: "js_gt (leaseMs t) 0" "held t = []" "generations t = []" "abandoned t = []"
      "completed t = []"
    using new by (auto simp: new_lease_table_def Let_def split: if_splits)
  from mg(1) obtain n where "mg = num_of_int n" by (auto simp: is_integer_iff)
  with mg have "1 \<le> maxGenerations t" by simp
  with rest show ?thesis by (simp add: lease_inv_def)
qed

lemma lease_inv_held:
  assumes "lease_inv t" "map_get (held t) k = Some l"
  shows "l_taskId l = k" "k \<notin> set (completed t)" "k \<notin> set (abandoned t)"
    "map_get (generations t) k = Some (l_generation l)"
  using assms by (simp_all add: lease_inv_def lease_ok_def)

lemma lease_inv_drop:
  "lease_inv t \<Longrightarrow> lease_inv (t\<lparr>held := map_delete k (held t)\<rparr>)"
  by (auto simp: lease_inv_def lease_ok_def js_map)

lemma lease_inv_expire: "lease_inv t \<Longrightarrow> lease_inv (expire l now t)"
  by (simp add: expire_def lease_inv_drop)

lemma lease_inv_abandon:
  "lease_inv t \<Longrightarrow> map_get (held t) k = None \<Longrightarrow> k \<notin> set (completed t) \<Longrightarrow>
   lease_inv (abandon k now g t)"
  unfolding lease_inv_def lease_ok_def by (simp, metis option.distinct(1))

lemma lease_inv_grant_next:
  assumes "lease_inv t" "map_get (held t) k = None" "k \<notin> set (completed t)" "k \<notin> set (abandoned t)"
  shows "lease_inv (snd (grant_next k n now t))"
proof (cases "generation_of t k + 1 > maxGenerations t")
  case True
  with assms show ?thesis by (simp add: grant_next_def Let_def lease_inv_abandon)
next
  case False
  with assms show ?thesis
    by (simp add: grant_next_def Let_def lease_inv_def lease_ok_def js_map split: if_splits)
qed

lemma lease_inv_grant: "lease_inv t \<Longrightarrow> lease_inv (snd (grant k n now t))"
proof -
  assume inv: "lease_inv t"
  { fix l assume "map_get (held t) k = Some l" "k \<notin> set (completed t)" "k \<notin> set (abandoned t)"
    moreover from this inv have "l_taskId l = k" by (simp add: lease_inv_held)
    ultimately have "lease_inv (snd (grant_next k n now (expire l now t)))"
      using inv by (intro lease_inv_grant_next) (simp_all add: lease_inv_expire js_map) }
  with inv show ?thesis
    by (auto simp: grant_def lease_inv_grant_next split: option.splits)
qed

lemma lease_inv_renew: "lease_inv t \<Longrightarrow> lease_inv (snd (renew k n now t))"
  by (auto simp: renew_def Let_def lease_inv_def lease_ok_def js_map split: option.splits if_splits)

lemma lease_inv_complete: "lease_inv t \<Longrightarrow> lease_inv (snd (complete_task k n now t))"
  by (auto simp: complete_task_def lease_inv_def lease_ok_def js_map split: option.splits if_splits)

lemma lease_inv_surrender: "lease_inv t \<Longrightarrow> lease_inv (snd (surrender k n now t))"
proof -
  assume inv: "lease_inv t"
  { fix l assume "map_get (held t) k = Some l"
    with inv have "k \<notin> set (completed t)" by (simp add: lease_inv_held)
    with inv have "lease_inv (abandon k now g (push e (t\<lparr>held := map_delete k (held t)\<rparr>)))" for g e
      by (intro lease_inv_abandon) (simp_all add: lease_inv_drop js_map) }
  with inv show ?thesis
    by (auto simp: surrender_def Let_def lease_inv_drop split: option.splits)
qed

text \<open>The sweep: each lease in scope is visited while it is still the held one.\<close>

lemma snd_reap_one:
  "js_gt (l_expiresAt l) now \<Longrightarrow> snd (reap_one now l (out, t)) = t"
  "\<not> js_gt (l_expiresAt l) now \<Longrightarrow> l_generation l < maxGenerations t \<Longrightarrow>
     snd (reap_one now l (out, t)) = expire l now t"
  "\<not> js_gt (l_expiresAt l) now \<Longrightarrow> \<not> l_generation l < maxGenerations t \<Longrightarrow>
     snd (reap_one now l (out, t)) = abandon (l_taskId l) now (l_generation l) (expire l now t)"
  by (simp_all add: reap_one_def Let_def)

lemma reap_one_cases:
  assumes "P t" "P (expire l now t)"
    and "P (abandon (l_taskId l) now (l_generation l) (expire l now t))"
  shows "P (snd (reap_one now l (out, t)))"
proof (cases "js_gt (l_expiresAt l) now")
  case True
  show ?thesis unfolding snd_reap_one(1) [OF True] by (rule assms(1))
next
  case late: False
  show ?thesis
  proof (cases "l_generation l < maxGenerations t")
    case True
    show ?thesis unfolding snd_reap_one(2) [OF late True] by (rule assms(2))
  next
    case False
    show ?thesis unfolding snd_reap_one(3) [OF late False] by (rule assms(3))
  qed
qed

lemma snd_reap_one_out: "snd (reap_one now l (out, t)) = snd (reap_one now l ([], t))"
  by (simp add: reap_one_def Let_def)

lemma held_reap_one:
  "held (snd (reap_one now l (out, t))) =
     (if js_gt (l_expiresAt l) now then held t else map_delete (l_taskId l) (held t))"
proof (cases "js_gt (l_expiresAt l) now")
  case True
  then show ?thesis by (simp add: snd_reap_one(1))
next
  case late: False
  then show ?thesis
    by (cases "l_generation l < maxGenerations t") (simp_all add: snd_reap_one(2,3))
qed

lemma lease_inv_reap_one:
  assumes "lease_inv t" "map_get (held t) (l_taskId l) = Some l"
  shows "lease_inv (snd (reap_one now l (out, t)))"
proof -
  have "l_taskId l \<notin> set (completed t)" using assms by (rule lease_inv_held)
  then have "lease_inv (abandon (l_taskId l) now g (expire l now t))" for g
    using assms(1) by (intro lease_inv_abandon lease_inv_expire) simp_all
  then show ?thesis
    using assms(1) lease_inv_expire by (intro reap_one_cases [where P = lease_inv]) blast+
qed

lemma reap_scope_held:
  assumes "lease_inv t"
  shows "\<forall>l \<in> set (reap_scope task t). map_get (held t) (l_taskId l) = Some l"
    and "distinct (map l_taskId (reap_scope task t))"
proof -
  have key: "map_get (held t) k = Some l \<Longrightarrow> l_taskId l = k" for k l
    using assms by (rule lease_inv_held)
  have ok: "map_ok (held t)" using assms by (simp add: lease_inv_def)
  have kv: "(k, l) \<in> set (held t) \<Longrightarrow> l_taskId l = k" for k l
    using key ok by (simp add: map_get_iff)
  then have "map (l_taskId \<circ> snd) (held t) = map fst (held t)" by (intro map_cong) auto
  with ok have "distinct (map (l_taskId \<circ> snd) (held t))" by (simp only:)
  then show "distinct (map l_taskId (reap_scope task t))"
    by (simp add: reap_scope_def split: option.splits)
  show "\<forall>l \<in> set (reap_scope task t). map_get (held t) (l_taskId l) = Some l"
  proof
    fix l assume "l \<in> set (reap_scope task t)"
    then obtain k where "map_get (held t) k = Some l"
    proof (cases task)
      case None
      with \<open>l \<in> set (reap_scope task t)\<close> ok that show ?thesis
        by (auto simp: reap_scope_def map_get_iff)
    next
      case (Some k)
      with \<open>l \<in> set (reap_scope task t)\<close> that show ?thesis
        by (auto simp: reap_scope_def split: option.splits)
    qed
    with key [OF this] show "map_get (held t) (l_taskId l) = Some l" by simp
  qed
qed

lemma reap_loop_preserves:
  assumes step: "\<And>t l. lease_inv t \<Longrightarrow> P t \<Longrightarrow> map_get (held t) (l_taskId l) = Some l \<Longrightarrow>
      P (snd (reap_one now l ([], t)))"
    and "lease_inv t" "P t"
    and "\<forall>l \<in> set ls. map_get (held t) (l_taskId l) = Some l" "distinct (map l_taskId ls)"
  shows "lease_inv (snd (foldl (\<lambda>st l. reap_one now l st) (out, t) ls)) \<and>
    P (snd (foldl (\<lambda>st l. reap_one now l st) (out, t) ls))"
  using assms(2-)
proof (induction ls arbitrary: out t)
  case (Cons l ls)
  obtain out' t' where one: "reap_one now l (out, t) = (out', t')" by fastforce
  have t': "t' = snd (reap_one now l ([], t))" by (metis one snd_conv snd_reap_one_out)
  have held_l: "map_get (held t) (l_taskId l) = Some l" using Cons.prems(3) by simp
  have "lease_inv t'" unfolding t' using Cons.prems(1) held_l by (rule lease_inv_reap_one)
  moreover have "P t'" unfolding t' using Cons.prems(1,2) held_l by (rule step)
  moreover have "map_get (held t') (l_taskId x) = Some x" if "x \<in> set ls" for x
  proof -
    have "l_taskId l \<notin> l_taskId ` set ls" using Cons.prems(4) by simp
    with that have "l_taskId x \<noteq> l_taskId l" by (metis imageI)
    with that Cons.prems(3) show ?thesis unfolding t' held_reap_one by simp
  qed
  moreover have "distinct (map l_taskId ls)" using Cons.prems(4) by simp
  ultimately show ?case unfolding foldl_Cons one by (intro Cons.IH) auto
qed simp

lemma reap_preserves:
  assumes "\<And>t l. lease_inv t \<Longrightarrow> P t \<Longrightarrow> map_get (held t) (l_taskId l) = Some l \<Longrightarrow>
      P (snd (reap_one now l ([], t)))"
    and "lease_inv t" "P t"
  shows "P (snd (reap lc now task t))"
  using reap_loop_preserves [where P = P and now = now and t = t and ls = "reap_scope task t" and out = "[]"]
    assms reap_scope_held [OF assms(2)]
  by (simp add: reap_def case_prod_beta)

lemma lease_inv_reap: "lease_inv t \<Longrightarrow> lease_inv (snd (reap lc now task t))"
  by (rule reap_preserves) (auto intro: lease_inv_reap_one)

section \<open>The table as a state machine\<close>

text \<open>One step is one call of an operation, with any arguments and any clock reading.\<close>

inductive lease_step :: "lease_table \<Rightarrow> lease_table \<Rightarrow> bool" where
  step_grant: "lease_step t (snd (grant k n now t))"
| step_renew: "lease_step t (snd (renew k n now t))"
| step_complete: "lease_step t (snd (complete_task k n now t))"
| step_surrender: "lease_step t (snd (surrender k n now t))"
| step_reap: "lease_step t (snd (reap lc now task t))"

inductive lease_reachable :: "lease_table \<Rightarrow> bool" where
  reach_new: "new_lease_table a b = Inr t \<Longrightarrow> lease_reachable t"
| reach_step: "lease_reachable t \<Longrightarrow> lease_step t t' \<Longrightarrow> lease_reachable t'"

inductive_cases lease_stepE: "lease_step t t'"

lemmas lease_inv_ops =
  lease_inv_grant lease_inv_renew lease_inv_complete lease_inv_surrender lease_inv_reap

lemma lease_inv_step: "lease_step t t' \<Longrightarrow> lease_inv t \<Longrightarrow> lease_inv t'"
  by (induction rule: lease_step.induct) (simp_all add: lease_inv_ops)

lemma reachable_inv: "lease_reachable t \<Longrightarrow> lease_inv t"
  by (induction rule: lease_reachable.induct) (auto intro: new_lease_table_inv lease_inv_step)

text \<open>
  A property of tables that every operation keeps is shown for the table updates the operations
  are made of; \<open>lease_ops_preserve\<close> puts them together once.
\<close>

lemma lease_ops_preserve:
  assumes drop_expire: "\<And>t l now. lease_inv t \<Longrightarrow> P t \<Longrightarrow> map_get (held t) (l_taskId l) = Some l \<Longrightarrow>
      P (expire l now t)"
    and give_up: "\<And>t k now g. lease_inv t \<Longrightarrow> P t \<Longrightarrow> P (abandon k now g t)"
    and granted: "\<And>t k n now. lease_inv t \<Longrightarrow> P t \<Longrightarrow> map_get (held t) k = None \<Longrightarrow>
      k \<notin> set (completed t) \<Longrightarrow> k \<notin> set (abandoned t) \<Longrightarrow> P (snd (grant_next k n now t))"
    and renewed: "\<And>t k n now. lease_inv t \<Longrightarrow> P t \<Longrightarrow> P (snd (renew k n now t))"
    and finished: "\<And>t k n now. lease_inv t \<Longrightarrow> P t \<Longrightarrow> P (snd (complete_task k n now t))"
    and returned: "\<And>t k l now. lease_inv t \<Longrightarrow> P t \<Longrightarrow> map_get (held t) k = Some l \<Longrightarrow>
      P (push (Surrendered k (l_nodeId l) now (l_generation l)) (t\<lparr>held := map_delete k (held t)\<rparr>))"
    and "lease_inv t" "P t" "lease_step t t'"
  shows "P t'"
  using assms(9)
proof cases
  case (step_grant k n now)
  { fix l assume l: "map_get (held t) k = Some l" "k \<notin> set (completed t)" "k \<notin> set (abandoned t)"
    moreover from this assms(7) have "l_taskId l = k" by (simp add: lease_inv_held)
    ultimately have "P (snd (grant_next k n now (expire l now t)))"
      using assms(7,8) by (intro granted lease_inv_expire drop_expire) auto }
  with step_grant assms(7,8) granted show ?thesis
    by (auto simp: grant_def split: option.splits)
next
  case (step_surrender k n now)
  show ?thesis
  proof (cases "map_get (held t) k")
    case None
    with step_surrender assms(8) show ?thesis by (simp add: surrender_def)
  next
    case (Some l)
    let ?t = "push (Surrendered k (l_nodeId l) now (l_generation l)) (t\<lparr>held := map_delete k (held t)\<rparr>)"
    have given: "P ?t" using assms(7,8) Some by (rule returned)
    have "P (abandon k now (l_generation l) ?t)"
      using given lease_inv_drop [OF assms(7)] by (intro give_up) simp_all
    with given Some step_surrender assms(8) show ?thesis
      by (cases "l_nodeId l = n") (auto simp: surrender_def Let_def)
  qed
next
  case (step_reap lc now task)
  have "P (snd (reap lc now task t))"
  proof (rule reap_preserves [where P = P])
    fix t l assume "lease_inv t" "P t" "map_get (held t) (l_taskId l) = Some l"
    then show "P (snd (reap_one now l ([], t)))"
      by (intro reap_one_cases [where P = P] drop_expire give_up lease_inv_expire)
  qed (use assms(7,8) in simp_all)
  with step_reap show ?thesis by simp
qed (use assms(7,8) renewed finished in auto)

section \<open>The history is the table\<close>

text \<open>
  The comment over the class calls the history "the audit trail".  \<open>replay_event\<close> rebuilds the
  four private maps from one event; \<open>replay\<close> folds it over a history.
\<close>

record table_view =
  v_held :: "(string, lease) jsmap"
  v_generations :: "(string, nat) jsmap"
  v_abandoned :: "string list"
  v_completed :: "string list"

definition view_of :: "lease_table \<Rightarrow> table_view" where
  "view_of t = \<lparr>v_held = held t, v_generations = generations t, v_abandoned = abandoned t,
     v_completed = completed t\<rparr>"

fun replay_event :: "jsnum \<Rightarrow> lease_event \<Rightarrow> table_view \<Rightarrow> table_view" where
  "replay_event ms (Granted k n w g) v =
     v\<lparr>v_held := map_set k \<lparr>l_taskId = k, l_nodeId = n, l_grantedAt = w, l_renewedAt = None,
         l_expiresAt = js_plus w ms, l_generation = g\<rparr> (v_held v),
       v_generations := map_set k g (v_generations v)\<rparr>"
| "replay_event ms (Renewed k n w expires) v =
     (case map_get (v_held v) k of
        None \<Rightarrow> v
      | Some l \<Rightarrow>
          v\<lparr>v_held := map_set k (l\<lparr>l_renewedAt := Some w, l_expiresAt := expires\<rparr>) (v_held v)\<rparr>)"
| "replay_event ms (Completed k n w g) v =
     v\<lparr>v_held := map_delete k (v_held v), v_completed := set_add k (v_completed v)\<rparr>"
| "replay_event ms (Expired k n w g) v = v\<lparr>v_held := map_delete k (v_held v)\<rparr>"
| "replay_event ms (Surrendered k n w g) v = v\<lparr>v_held := map_delete k (v_held v)\<rparr>"
| "replay_event ms (Stale_completion k n w by_node) v =
     (if by_node = Some n then v\<lparr>v_held := map_delete k (v_held v)\<rparr> else v)"
| "replay_event ms (Abandoned k w g) v = v\<lparr>v_abandoned := set_add k (v_abandoned v)\<rparr>"

definition replay :: "jsnum \<Rightarrow> lease_event list \<Rightarrow> table_view" where
  "replay ms es = foldl (\<lambda>v e. replay_event ms e v)
     \<lparr>v_held = [], v_generations = [], v_abandoned = [], v_completed = []\<rparr> es"

definition audited :: "lease_table \<Rightarrow> bool" where
  "audited t \<longleftrightarrow> replay (leaseMs t) (history t) = view_of t"

lemma audited_push:
  "audited t \<Longrightarrow> leaseMs t' = leaseMs t \<Longrightarrow> history t' = history t \<Longrightarrow>
   view_of t' = replay_event (leaseMs t) e (view_of t) \<Longrightarrow> audited (push e t')"
  by (simp add: audited_def replay_def view_of_def)

lemma audited_step:
  assumes "lease_inv t" "audited t" "lease_step t t'"
  shows "audited t'"
proof (rule lease_ops_preserve [where P = audited])
  fix t l now assume "audited t"
  then show "audited (expire l now t)"
    unfolding expire_def by (rule audited_push) (simp_all add: view_of_def)
next
  fix t k now g assume "audited t"
  then show "audited (abandon k now g t)"
    unfolding abandon_def by (auto intro!: audited_push simp: view_of_def)
next
  fix t k n now
  assume "audited t" "map_get (held t) k = None" "k \<notin> set (completed t)" "k \<notin> set (abandoned t)"
  then show "audited (snd (grant_next k n now t))"
    by (auto simp: grant_next_def Let_def abandon_def view_of_def intro!: audited_push)
next
  fix t k n now assume "audited t"
  then show "audited (snd (renew k n now t))"
    by (auto simp: renew_def Let_def view_of_def intro!: audited_push split: option.splits)
next
  fix t k n now assume "audited t"
  then show "audited (snd (complete_task k n now t))"
    by (auto simp: complete_task_def view_of_def intro!: audited_push split: option.splits)
next
  fix t k l now assume "audited t" "map_get (held t) k = Some l"
  then show "audited (push (Surrendered k (l_nodeId l) now (l_generation l))
      (t\<lparr>held := map_delete k (held t)\<rparr>))"
    by (intro audited_push) (auto simp: view_of_def)
qed (use assms in simp_all)

section \<open>Counting dispatches and completions\<close>

fun is_grant :: "string \<Rightarrow> lease_event \<Rightarrow> bool" where
  "is_grant k (Granted k' n w g) = (k = k')"
| "is_grant k _ = False"

fun is_completion :: "string \<Rightarrow> lease_event \<Rightarrow> bool" where
  "is_completion k (Completed k' n w g) = (k = k')"
| "is_completion k _ = False"

definition grants :: "string \<Rightarrow> lease_table \<Rightarrow> nat" where
  "grants k t = length (filter (is_grant k) (history t))"

definition completions :: "string \<Rightarrow> lease_table \<Rightarrow> nat" where
  "completions k t = length (filter (is_completion k) (history t))"

definition counted :: "lease_table \<Rightarrow> bool" where
  "counted t \<longleftrightarrow> (\<forall>k. grants k t = generation_of t k \<and>
     completions k t = (if k \<in> set (completed t) then 1 else 0))"

lemma counted_push:
  "counted t \<Longrightarrow> history t' = history t \<Longrightarrow>
   (\<And>k. generation_of t' k = generation_of t k + (if is_grant k e then 1 else 0)) \<Longrightarrow>
   (\<And>k. (k \<in> set (completed t')) = (k \<in> set (completed t) \<or> is_completion k e)) \<Longrightarrow>
   (\<And>k. is_completion k e \<Longrightarrow> k \<notin> set (completed t)) \<Longrightarrow> counted (push e t')"
  by (auto simp: counted_def grants_def completions_def generation_of_def)

lemma counted_step:
  assumes "lease_inv t" "counted t" "lease_step t t'"
  shows "counted t'"
proof (rule lease_ops_preserve [where P = counted])
  fix t l now assume "counted t"
  then show "counted (expire l now t)"
    unfolding expire_def by (rule counted_push) (simp_all add: generation_of_def)
next
  fix t k now g assume "counted t"
  then show "counted (abandon k now g t)"
    unfolding abandon_def by (auto intro!: counted_push simp: generation_of_def)
next
  fix t k n now
  assume "counted t" "map_get (held t) k = None" "k \<notin> set (completed t)" "k \<notin> set (abandoned t)"
  then show "counted (snd (grant_next k n now t))"
    by (auto simp: grant_next_def Let_def abandon_def generation_of_def intro!: counted_push
        split: option.splits)
next
  fix t k n now assume "counted t"
  then show "counted (snd (renew k n now t))"
    by (auto simp: renew_def Let_def generation_of_def intro!: counted_push split: option.splits)
next
  fix t k n now assume "lease_inv t" "counted t"
  then show "counted (snd (complete_task k n now t))"
    by (auto simp: complete_task_def generation_of_def dest: lease_inv_held(2) intro!: counted_push
        split: option.splits)
next
  fix t k l now assume "counted t" "map_get (held t) k = Some l"
  then show "counted (push (Surrendered k (l_nodeId l) now (l_generation l))
      (t\<lparr>held := map_delete k (held t)\<rparr>))"
    by (intro counted_push) (auto simp: generation_of_def)
qed (use assms in simp_all)

lemma reachable_audited_counted: "lease_reachable t \<Longrightarrow> audited t \<and> counted t"
proof (induction rule: lease_reachable.induct)
  case (reach_new a b t)
  then have "history t = []" "view_of t = replay (leaseMs t) []" "generations t = []" "completed t = []"
    by (auto simp: new_lease_table_def Let_def view_of_def replay_def split: if_splits)
  then show ?case
    by (simp add: audited_def counted_def grants_def completions_def generation_of_def)
next
  case (reach_step t t')
  then show ?case by (blast intro: audited_step counted_step reachable_inv)
qed

section \<open>What a sweep does\<close>

definition reaped_of :: "nat \<Rightarrow> lease \<Rightarrow> reaped" where
  "reaped_of maxGens l = \<lparr>r_taskId = l_taskId l, r_previousHolder = l_nodeId l,
     r_generation = l_generation l, r_redispatchable = (l_generation l < maxGens)\<rparr>"

lemma reap_one_eq:
  "reap_one now l (out, t) =
     (if js_gt (l_expiresAt l) now then (out, t)
      else (out @ [reaped_of (maxGenerations t) l], snd (reap_one now l ([], t))))"
  by (simp add: reap_one_def Let_def reaped_of_def)

lemma reap_one_frame:
  "maxGenerations (snd (reap_one now l (out, t))) = maxGenerations t"
  "set (abandoned (snd (reap_one now l (out, t)))) = set (abandoned t) \<union>
     (if \<not> js_gt (l_expiresAt l) now \<and> maxGenerations t \<le> l_generation l then {l_taskId l} else {})"
  by (simp_all add: reap_one_def Let_def)

lemma reap_loop_spec:
  fixes now ls out t
  defines "late \<equiv> \<lambda>l. \<not> js_gt (l_expiresAt l) now"
  defines "r \<equiv> foldl (\<lambda>st l. reap_one now l st) (out, t) ls"
  shows "fst r = out @ map (reaped_of (maxGenerations t)) (filter late ls)"
    and "held (snd r) = filter (\<lambda>p. fst p \<notin> l_taskId ` set (filter late ls)) (held t)"
    and "set (abandoned (snd r)) = set (abandoned t) \<union>
      {l_taskId l | l. l \<in> set ls \<and> late l \<and> maxGenerations t \<le> l_generation l}"
proof -
  have "fst r = out @ map (reaped_of (maxGenerations t)) (filter late ls) \<and>
    held (snd r) = filter (\<lambda>p. fst p \<notin> l_taskId ` set (filter late ls)) (held t) \<and>
    set (abandoned (snd r)) = set (abandoned t) \<union>
      {l_taskId l | l. l \<in> set ls \<and> late l \<and> maxGenerations t \<le> l_generation l}"
    unfolding r_def
  proof (induction ls arbitrary: out t)
    case (Cons l ls)
    obtain out' t' where one: "reap_one now l (out, t) = (out', t')" by fastforce
    have t': "t' = snd (reap_one now l (out, t))" and out': "out' = fst (reap_one now l (out, t))"
      by (simp_all add: one)
    have mg: "maxGenerations t' = maxGenerations t" by (simp add: t' reap_one_frame)
    show ?case
    proof (cases "late l")
      case True
      have "out' = out @ [reaped_of (maxGenerations t) l]"
        using True by (simp add: out' late_def reap_one_def Let_def reaped_of_def)
      moreover have "held t' = filter (\<lambda>p. fst p \<noteq> l_taskId l) (held t)"
        using True by (simp add: t' late_def held_reap_one map_delete_filter)
      moreover have "set (abandoned t') = set (abandoned t) \<union>
          (if maxGenerations t \<le> l_generation l then {l_taskId l} else {})"
        using True by (simp add: t' late_def reap_one_frame)
      ultimately show ?thesis
        using Cons.IH [of out' t'] True by (auto simp: one mg)
    next
      case False
      then have "out' = out" "t' = t" by (simp_all add: out' t' late_def reap_one_def)
      with Cons.IH [of out' t'] False show ?thesis by (auto simp: one)
    qed
  qed simp
  then show "fst r = out @ map (reaped_of (maxGenerations t)) (filter late ls)"
    and "held (snd r) = filter (\<lambda>p. fst p \<notin> l_taskId ` set (filter late ls)) (held t)"
    and "set (abandoned (snd r)) = set (abandoned t) \<union>
      {l_taskId l | l. l \<in> set ls \<and> late l \<and> maxGenerations t \<le> l_generation l}"
    by blast+
qed

lemma grant_next_fresh:
  assumes "generation_of t k + 1 \<le> maxGenerations t"
  shows "fst (grant_next k n now t) = Some \<lparr>l_taskId = k, l_nodeId = n, l_grantedAt = now,
      l_renewedAt = None, l_expiresAt = js_plus now (leaseMs t), l_generation = generation_of t k + 1\<rparr>"
    and "map_get (held (snd (grant_next k n now t))) k = fst (grant_next k n now t)"
  using assms by (simp_all add: grant_next_def Let_def)

lemma grant_next_exhausted:
  assumes "maxGenerations t < generation_of t k + 1"
  shows "grant_next k n now t = (None, abandon k now (generation_of t k) t)"
  using assms by (simp add: grant_next_def Let_def)

lemma grant_free:
  assumes "k \<notin> set (completed t)" "k \<notin> set (abandoned t)"
    and "\<And>l. map_get (held t) k = Some l \<Longrightarrow> \<not> js_gt (l_expiresAt l) now"
  obtains t0 where "grant k n now t = grant_next k n now t0" "generations t0 = generations t"
    "maxGenerations t0 = maxGenerations t" "leaseMs t0 = leaseMs t"
proof (cases "map_get (held t) k")
  case None
  with assms that [of t] show ?thesis by (simp add: grant_def)
next
  case (Some l)
  with assms that [of "expire l now t"] show ?thesis by (simp add: grant_def)
qed

lemma grant_SomeD:
  assumes "grant k n now t = (Some l, t')"
  shows "map_get (held t') k = Some l" "l_nodeId l = n"
  using assms
  by (auto simp: grant_def grant_next_def Let_def split: option.splits if_splits)

section \<open>Properties\<close>

text \<open>C1: The append-only history is a complete audit trail: replaying the events of any reachable
  table from the empty one gives back exactly what it holds, every generation counter, and the
  sets of completed and abandoned tasks.\<close>

theorem lease_history_rebuilds_table:
  "lease_reachable t \<Longrightarrow> replay (leaseMs t) (history t) = view_of t"
  using reachable_audited_counted [of t] by (simp add: audited_def)

text \<open>Re-dispatch is bounded: in every reachable table a task has been granted exactly as often
  as its generation says and never more than \<open>maxGenerations\<close> times, it has completed at most
  once, and once completed it is never granted again.\<close>

theorem lease_dispatch_bounded:
  assumes "lease_reachable t"
  shows "grants k t = generation_of t k \<and> grants k t \<le> maxGenerations t \<and> completions k t \<le> 1 \<and>
    (completions k t = 1 \<longrightarrow> grant k n now t = (None, t))"
proof -
  have counts: "grants k t = generation_of t k"
      "completions k t = (if k \<in> set (completed t) then 1 else 0)"
    using reachable_audited_counted [OF assms] by (simp_all add: counted_def)
  moreover have "generation_of t k \<le> maxGenerations t"
    using reachable_inv [OF assms] by (simp add: lease_inv_def generation_of_def split: option.splits)
  ultimately show ?thesis by (simp add: grant_def)
qed

text \<open>What \<open>grant\<close> answers when nothing live stands in the way: while the task has dispatches
  left the asking node becomes the holder for one more generation and one full lease, and when it
  has none left the task is abandoned instead.\<close>

theorem lease_grant_outcome:
  assumes "lease_reachable t" "k \<notin> set (completed t)" "k \<notin> set (abandoned t)"
    and free: "\<And>l. holder k t = Some l \<Longrightarrow> \<not> js_gt (l_expiresAt l) now"
  shows "(grants k t < maxGenerations t \<longrightarrow>
      (\<exists>l. fst (grant k n now t) = Some l \<and> holder k (snd (grant k n now t)) = Some l \<and>
         l_nodeId l = n \<and> l_generation l = grants k t + 1 \<and>
         l_expiresAt l = js_plus now (leaseMs t))) \<and>
    (grants k t = maxGenerations t \<longrightarrow>
      fst (grant k n now t) = None \<and> k \<in> set (abandoned (snd (grant k n now t))))"
proof -
  have gen: "grants k t = generation_of t k"
    using reachable_audited_counted [OF assms(1)] by (simp add: counted_def)
  obtain t0 where t0: "grant k n now t = grant_next k n now t0" "generations t0 = generations t"
      "maxGenerations t0 = maxGenerations t" "leaseMs t0 = leaseMs t"
    using grant_free [OF assms(2,3), of now n] free by (auto simp: holder_def)
  then have gen0: "generation_of t0 k = grants k t" by (simp add: gen generation_of_def)
  show ?thesis
    using grant_next_fresh [of t0 k n now] grant_next_exhausted [of t0 k n now] t0 gen0
    by (auto simp: holder_def)
qed

text \<open>Once a task has been granted to a node, no other node can complete it, renew it or give it
  back: a late report is recorded as stale and leaves the holder's lease alone.\<close>

theorem lease_late_report_refused:
  assumes "grant k m now t = (Some l, t')" and "n \<noteq> m"
  shows "complete_task k n later t' = (False, push (Stale_completion k n later (Some m)) t') \<and>
    holder k (snd (complete_task k n later t')) = Some l \<and>
    renew k n later t' = (None, t') \<and> surrender k n later t' = (False, t')"
  using grant_SomeD [OF assms(1)] assms(2)
  by (auto simp: complete_task_def renew_def surrender_def holder_def)

text \<open>A sweep over the whole table releases exactly the leases whose deadline has passed, reports
  each of them once, in task order, as re-dispatchable just when it has generations left, and
  abandons the tasks of the others.\<close>

theorem lease_sweep_exact:
  assumes "lease_reachable t" and "collation lc"
  shows "held (snd (reap lc now None t)) = filter (\<lambda>p. js_gt (l_expiresAt (snd p)) now) (held t) \<and>
    mset (fst (reap lc now None t)) = mset (map (reaped_of (maxGenerations t))
        (filter (\<lambda>l. \<not> js_gt (l_expiresAt l) now) (outstanding t))) \<and>
    sorted_wrt (\<lambda>a b. lc (r_taskId a) (r_taskId b) \<le> 0) (fst (reap lc now None t)) \<and>
    set (abandoned (snd (reap lc now None t))) = set (abandoned t) \<union>
      {l_taskId l | l. l \<in> set (outstanding t) \<and> \<not> js_gt (l_expiresAt l) now \<and>
         maxGenerations t \<le> l_generation l}"
proof -
  note inv = reachable_inv [OF assms(1)]
  note spec = reap_loop_spec [where now = now and ls = "map_values (held t)" and out = "[]" and t = t]
  have ok: "map_ok (held t)" using inv by (simp add: lease_inv_def)
  have late_key: "fst p \<in> l_taskId ` {l \<in> snd ` set (held t). \<not> js_gt (l_expiresAt l) now} \<longleftrightarrow>
      \<not> js_gt (l_expiresAt (snd p)) now" if "p \<in> set (held t)" for p
  proof -
    have filed: "l_taskId (snd q) = fst q" if "q \<in> set (held t)" for q
      using lease_inv_held(1) [OF inv, of "fst q" "snd q"] that by (simp add: map_get_iff [OF ok])
    have "q = p" if "q \<in> set (held t)" "fst q = fst p" for q
      using that \<open>p \<in> set (held t)\<close> ok by (meson distinct_map inj_onD)
    note same = this
    show ?thesis
    proof
      assume "fst p \<in> l_taskId ` {l \<in> snd ` set (held t). \<not> js_gt (l_expiresAt l) now}"
      then obtain q where "q \<in> set (held t)" "\<not> js_gt (l_expiresAt (snd q)) now"
          "fst p = l_taskId (snd q)" by auto
      with filed same show "\<not> js_gt (l_expiresAt (snd p)) now" by metis
    next
      assume "\<not> js_gt (l_expiresAt (snd p)) now"
      with that have "snd p \<in> {l \<in> snd ` set (held t). \<not> js_gt (l_expiresAt l) now}" by simp
      then have "l_taskId (snd p) \<in> l_taskId ` {l \<in> snd ` set (held t). \<not> js_gt (l_expiresAt l) now}"
        by (rule imageI)
      with filed [OF that] show
        "fst p \<in> l_taskId ` {l \<in> snd ` set (held t). \<not> js_gt (l_expiresAt l) now}" by simp
    qed
  qed
  have "held (snd (reap lc now None t)) = filter (\<lambda>p. js_gt (l_expiresAt (snd p)) now) (held t)"
    using spec(2) late_key
    by (auto simp: reap_def reap_scope_def case_prod_beta intro!: filter_cong)
  moreover have "sorted_wrt (\<lambda>a b. lc (r_taskId a) (r_taskId b) \<le> 0) (fst (reap lc now None t))"
    using comparator.sorted_sort [OF collation.comparator_by [OF assms(2), of r_taskId]]
    by (simp add: reap_def case_prod_beta)
  ultimately show ?thesis
    using spec(1,3) by (simp add: reap_def reap_scope_def case_prod_beta outstanding_def)
qed

text \<open>A worker's heartbeat is measured over the current term: after a renewal at \<open>r\<close>, and for a
  finite lease, \<open>shouldRenew\<close> holds from two thirds of a lease after \<open>r\<close> until the deadline and at
  no other time, so a poll right after a renewal never renews again.\<close>

theorem lease_heartbeat_window:
  assumes "renew k n r t = (Some l, t')" and "leaseMs t = Fin ms" and "0 < ms"
  shows "shouldRenew l now \<longleftrightarrow> r + 2 / 3 * ms \<le> now \<and> now < r + ms"
proof -
  have "l_renewedAt l = Some r" "l_expiresAt l = Fin (r + ms)"
    using assms by (auto simp: renew_def Let_def split: option.splits if_splits)
  with assms(3) show ?thesis
    by (auto simp: shouldRenew_def Let_def RENEW_AT_def)
qed

section \<open>Witnesses\<close>

definition demo_table :: lease_table where
  "demo_table = \<lparr>leaseMs = Fin 10, maxGenerations = 2, held = [], generations = [],
     abandoned = [], completed = [], history = []\<rparr>"

lemma demo_reachable: "lease_reachable demo_table"
  by (rule reach_new [of "Some (Fin 10)" "Some (Fin 2)"])
    (simp add: new_lease_table_def demo_table_def)

definition demo_lease :: lease where
  "demo_lease = \<lparr>l_taskId = ''a'', l_nodeId = ''n1'', l_grantedAt = 0, l_renewedAt = None,
     l_expiresAt = Fin 10, l_generation = 1\<rparr>"

definition demo_granted :: lease_table where
  "demo_granted = demo_table\<lparr>held := [(''a'', demo_lease)], generations := [(''a'', 1)],
     history := [Granted ''a'' ''n1'' 0 1]\<rparr>"

lemma demo_grant: "grant ''a'' ''n1'' 0 demo_table = (Some demo_lease, demo_granted)"
  by (simp add: grant_def grant_next_def Let_def generation_of_def demo_table_def demo_granted_def
      demo_lease_def push_def)

lemma demo_granted_reachable: "lease_reachable demo_granted"
  using reach_step [OF demo_reachable step_grant, of "''a''" "''n1''" 0] by (simp add: demo_grant)

lemmas demo_defs = demo_granted_def demo_table_def demo_lease_def

theorem lease_history_rebuilds_table_witness:
  "v_held (replay (Fin 10) [Granted ''a'' ''n1'' 0 1]) = [(''a'', demo_lease)]"
  using lease_history_rebuilds_table [OF demo_granted_reachable]
  by (simp add: demo_granted_def demo_table_def view_of_def)

theorem lease_dispatch_bounded_witness: "grants ''a'' demo_granted = 1"
  using lease_dispatch_bounded [OF demo_granted_reachable, of "''a''"]
  by (simp add: demo_defs generation_of_def)

theorem lease_grant_outcome_witness:
  "\<exists>l. fst (grant ''a'' ''n2'' 10 demo_granted) = Some l \<and> l_generation l = 2"
proof -
  have "\<exists>l. fst (grant ''a'' ''n2'' 10 demo_granted) = Some l \<and>
      l_generation l = grants ''a'' demo_granted + 1"
    using lease_grant_outcome [OF demo_granted_reachable, of "''a''" 10 "''n2''"]
    by (auto simp: demo_defs holder_def grants_def)
  then show ?thesis by (simp add: demo_defs grants_def numeral_2_eq_2)
qed

theorem lease_late_report_refused_witness:
  "fst (complete_task ''a'' ''n2'' 5 demo_granted) = False"
  using lease_late_report_refused [OF demo_grant, of "''n2''" 5] by simp

theorem lease_sweep_exact_witness: "held (snd (reap unit_cmp 10 None demo_granted)) = []"
  using lease_sweep_exact [OF demo_granted_reachable unit_collation.collation_axioms, of 10]
  by (simp add: demo_defs)

theorem lease_heartbeat_window_witness:
  "shouldRenew (demo_lease\<lparr>l_renewedAt := Some 6, l_expiresAt := Fin 16\<rparr>) 13"
proof -
  have "renew ''a'' ''n1'' 6 demo_granted =
      (Some (demo_lease\<lparr>l_renewedAt := Some 6, l_expiresAt := Fin 16\<rparr>),
       snd (renew ''a'' ''n1'' 6 demo_granted))"
    by (simp add: renew_def Let_def demo_defs)
  from lease_heartbeat_window [OF this, of 10 13] show ?thesis
    by (simp add: demo_defs)
qed

end
