(* ===== verification/Sovereignty.thy ===== *)
theory Sovereignty
  imports Prelude
begin

text \<open>
  Placement of shards by data sovereignty: \<open>packages/core/src/sovereignty.ts\<close>, with the
  certificate a node descriptor carries (\<open>NodeCertificate\<close> of \<open>enrollment.ts\<close>).

  A node is a \<open>node_descriptor\<close>, a shard to place a \<open>placement_request\<close>; \<open>eligibleNodes\<close> is the
  policy and \<open>planPlacement\<close> the planner.  Loads are finite numbers.  The lemmas show which nodes a
  plan may name, that it names the least loaded ones, and that it does not depend on the order the
  nodes are listed in.
\<close>

section \<open>The data\<close>

type_synonym public_key = string

datatype discoverability = Seed | Via_relay

record node_certificate =
  c_nodeKey :: public_key
  c_userKey :: public_key
  c_operatorId :: string
  c_discoverability :: discoverability
  c_relayIds :: "string list"
  c_issuedAt :: rat
  c_expiresAt :: rat
  c_issuer :: public_key
  c_signature :: string
  c_x509 :: "string option"
  c_nextKeyCommitment :: "string option"

datatype sovereignty = Public | Sovereign

text \<open>A certificate of \<open>None\<close> is the literal \<open>carries-no-certificate\<close>.\<close>

record node_descriptor =
  nd_nodeId :: string
  nd_ownerId :: string
  canExecuteSovereign :: bool
  nd_load :: rat
  nd_certificate :: "node_certificate option"

definition publicNodes :: "string list \<Rightarrow> node_descriptor list" where
  "publicNodes executors =
     map (\<lambda>e. \<lparr>nd_nodeId = e, nd_ownerId = ''public'', canExecuteSovereign = True, nd_load = 0,
               nd_certificate = None\<rparr>) executors"

record placement_request =
  pr_shardId :: string
  pr_label :: sovereignty
  pr_ownerId :: "string option"
  pr_redundancy :: jsnum

text \<open>The reason strings of a refusal, with the values they interpolate.\<close>

datatype unplaceable_reason =
    Redundancy_not_positive jsnum
  | No_executable_node_for string
  | No_nodes_available

datatype placement =
    Placed (p_shardId: string) (p_nodeIds: "string list") (p_replicas: nat) (p_degraded: bool)
  | Unplaceable (p_shardId: string) (p_reason: unplaceable_reason)

record placement_plan =
  plan_placements :: "placement list"
  plan_complete :: bool

section \<open>The operations\<close>

definition eligibleNodes :: "placement_request \<Rightarrow> node_descriptor list \<Rightarrow> node_descriptor list" where
  "eligibleNodes request nodes =
     (if pr_label request = Public then nodes
      else case pr_ownerId request of
             None \<Rightarrow> []
           | Some ownerId \<Rightarrow> filter (\<lambda>n. nd_ownerId n = ownerId \<and> canExecuteSovereign n) nodes)"

definition by_load :: "(string \<Rightarrow> string \<Rightarrow> int) \<Rightarrow> node_descriptor \<Rightarrow> node_descriptor \<Rightarrow> int" where
  "by_load lc a b = js_or (num_cmp (nd_load a) (nd_load b)) (lc (nd_nodeId a) (nd_nodeId b))"

definition no_eligible_reason :: "placement_request \<Rightarrow> unplaceable_reason" where
  "no_eligible_reason request =
     (if pr_label request = Sovereign
      then No_executable_node_for (case pr_ownerId request of None \<Rightarrow> ''(unspecified)'' | Some x \<Rightarrow> x)
      else No_nodes_available)"

definition bad_redundancy :: "placement_request \<Rightarrow> bool" where
  "bad_redundancy request \<longleftrightarrow> \<not> is_integer (pr_redundancy request) \<or> js_lt (pr_redundancy request) 1"

definition place_one ::
  "(string \<Rightarrow> string \<Rightarrow> int) \<Rightarrow> node_descriptor list \<Rightarrow> placement_request \<Rightarrow> placement" where
  "place_one lc nodes request =
     (if bad_redundancy request
      then Unplaceable (pr_shardId request) (Redundancy_not_positive (pr_redundancy request))
      else let eligible = eligibleNodes request nodes
           in if eligible = [] then Unplaceable (pr_shardId request) (no_eligible_reason request)
              else let ordered = js_sort (by_load lc) eligible;
                       redundancy = nat (int_of_num (pr_redundancy request));
                       chosen = take redundancy ordered
                   in Placed (pr_shardId request) (map nd_nodeId chosen) (length chosen)
                        (length chosen < redundancy))"

definition planPlacement ::
  "(string \<Rightarrow> string \<Rightarrow> int) \<Rightarrow> placement_request list \<Rightarrow> node_descriptor list \<Rightarrow> placement_plan" where
  "planPlacement lc requests nodes =
     (let placements = map (place_one lc nodes) requests
      in \<lparr>plan_placements = placements,
          plan_complete = list_all (\<lambda>p. case p of Placed _ _ _ degraded \<Rightarrow> \<not> degraded
                                                | Unplaceable _ _ \<Rightarrow> False) placements\<rparr>)"

section \<open>The policy and the order\<close>

abbreviation wanted_replicas :: "placement_request \<Rightarrow> nat" where
  "wanted_replicas request \<equiv> nat (int_of_num (pr_redundancy request))"

lemma wanted_replicas_pos: "\<not> bad_redundancy r \<Longrightarrow> 1 \<le> wanted_replicas r"
  by (auto simp: bad_redundancy_def is_integer_iff)

lemma eligible_subset: "set (eligibleNodes r nodes) \<subseteq> set nodes"
  by (auto simp: eligibleNodes_def split: option.splits)

lemma eligible_filter:
  "eligibleNodes r nodes = filter (\<lambda>n. pr_label r = Public \<or>
     (pr_ownerId r = Some (nd_ownerId n) \<and> canExecuteSovereign n)) nodes"
  by (cases "pr_label r"; cases "pr_ownerId r")
    (auto simp: eligibleNodes_def intro: filter_cong)

lemma distinct_map_filter: "distinct (map f xs) \<Longrightarrow> distinct (map f (filter P xs))"
  by (induction xs) auto

lemma eligible_distinct:
  "distinct (map nd_nodeId nodes) \<Longrightarrow> distinct (map nd_nodeId (eligibleNodes r nodes))"
  unfolding eligible_filter by (rule distinct_map_filter)

lemma eligible_mset: "mset nodes = mset nodes' \<Longrightarrow> mset (eligibleNodes r nodes) = mset (eligibleNodes r nodes')"
  by (simp add: eligibleNodes_def split: option.splits)

lemma sovereign_eligible:
  assumes "pr_label r = Sovereign" "n \<in> set (eligibleNodes r nodes)"
  shows "pr_ownerId r = Some (nd_ownerId n)" "canExecuteSovereign n" "n \<in> set nodes"
  using assms by (auto simp: eligibleNodes_def split: option.splits)

lemma by_load_comparator: "collation lc \<Longrightarrow> comparator (by_load lc)"
  unfolding by_load_def [abs_def] by (rule collation.comparator_then_by)

lemma by_load_ties:
  assumes "collation lc" "\<And>x y. lc x y = 0 \<Longrightarrow> x = y" "by_load lc a b \<le> 0" "by_load lc b a \<le> 0"
  shows "nd_nodeId a = nd_nodeId b"
proof -
  from assms(3,4) have "lc (nd_nodeId a) (nd_nodeId b) \<le> 0" "lc (nd_nodeId b) (nd_nodeId a) \<le> 0"
    by (auto simp: by_load_def js_or_def num_cmp_def split: if_splits)
  with collation.lc_swap [OF assms(1)] have "lc (nd_nodeId a) (nd_nodeId b) = 0"
    by (metis linorder_not_less order_antisym_conv)
  with assms(2) show ?thesis .
qed

lemma by_load_load: "by_load lc a b \<le> 0 \<Longrightarrow> nd_load a \<le> nd_load b"
  by (auto simp: by_load_def js_or_def num_cmp_def split: if_splits)

text \<open>Sorting by load does not depend on the order of the nodes.\<close>

lemma by_load_order_independent:
  assumes "collation lc" "\<And>x y. lc x y = 0 \<Longrightarrow> x = y"
    and "mset xs = mset ys" "distinct (map nd_nodeId xs)"
  shows "js_sort (by_load lc) xs = js_sort (by_load lc) ys"
proof (rule comparator.sort_order_independent [OF by_load_comparator [OF assms(1)] assms(3)])
  fix a b assume "a \<in> set xs" "b \<in> set xs" "by_load lc a b \<le> 0" "by_load lc b a \<le> 0"
  moreover from this assms(1,2) have "nd_nodeId a = nd_nodeId b" by (blast intro: by_load_ties)
  ultimately show "a = b" using assms(4) by (auto simp: distinct_map inj_on_def)
qed

lemma take_drop_sorted:
  "sorted_wrt R xs \<Longrightarrow> a \<in> set (take n xs) \<Longrightarrow> b \<in> set (drop n xs) \<Longrightarrow> R a b"
  by (metis append_take_drop_id sorted_wrt_append)

lemma place_one_placed:
  assumes "place_one lc nodes r = Placed s ids k d"
  defines "ordered \<equiv> js_sort (by_load lc) (eligibleNodes r nodes)"
  shows "\<not> bad_redundancy r" "s = pr_shardId r" "ids = map nd_nodeId (take (wanted_replicas r) ordered)"
    "k = length ids" "d \<longleftrightarrow> k < wanted_replicas r" "eligibleNodes r nodes \<noteq> []"
  using assms by (auto simp: place_one_def Let_def split: if_splits)

section \<open>Properties\<close>

text \<open>Sovereign data never leaves its owner: whatever the load, a plan that places a sovereign
  shard names at least one node, and every node it names is one of the nodes given, is owned by
  the owner the request states and may execute sovereign work.\<close>

theorem sovereign_shard_stays_with_owner:
  assumes "pr_label r = Sovereign" "place_one lc nodes r = Placed s ids k d"
  shows "ids \<noteq> [] \<and> (\<forall>i \<in> set ids. \<exists>n \<in> set nodes. nd_nodeId n = i \<and>
           pr_ownerId r = Some (nd_ownerId n) \<and> canExecuteSovereign n)"
proof -
  let ?o = "js_sort (by_load lc) (eligibleNodes r nodes)"
  note placed = place_one_placed [OF assms(2)]
  have "n \<in> set (eligibleNodes r nodes)" if "n \<in> set (take (wanted_replicas r) ?o)" for n
    using that by (metis in_set_takeD set_js_sort)
  with sovereign_eligible [OF assms(1)] placed(3)
  have "\<forall>i \<in> set ids. \<exists>n \<in> set nodes. nd_nodeId n = i \<and> pr_ownerId r = Some (nd_ownerId n) \<and> canExecuteSovereign n"
    by (auto simp: image_iff Ball_def) blast
  moreover have "ids \<noteq> []" using placed(3,6) wanted_replicas_pos [OF placed(1)] by auto
  ultimately show ?thesis by blast
qed

definition demo_node :: "string \<Rightarrow> string \<Rightarrow> rat \<Rightarrow> node_descriptor" where
  "demo_node i owner l = \<lparr>nd_nodeId = i, nd_ownerId = owner, canExecuteSovereign = True, nd_load = l,
                          nd_certificate = None\<rparr>"

definition demo_nodes :: "node_descriptor list" where
  "demo_nodes = [demo_node ''b'' ''ann'' 2, demo_node ''c'' ''bob'' 0, demo_node ''a'' ''ann'' 1]"

definition demo_request :: placement_request where
  "demo_request = \<lparr>pr_shardId = ''s'', pr_label = Sovereign, pr_ownerId = Some ''ann'', pr_redundancy = Fin 1\<rparr>"

lemma demo_place: "place_one unit_cmp demo_nodes demo_request = Placed ''s'' [''a''] 1 False"
  by (simp add: place_one_def demo_nodes_def demo_request_def demo_node_def bad_redundancy_def
      eligibleNodes_def by_load_def js_or_def num_cmp_def)

theorem sovereign_shard_stays_with_owner_witness:
  "\<exists>n \<in> set demo_nodes. nd_nodeId n = ''a'' \<and> nd_ownerId n = ''ann'' \<and> canExecuteSovereign n"
  using sovereign_shard_stays_with_owner [OF _ demo_place] by (auto simp: demo_request_def)

text \<open>A placed shard goes to the least loaded eligible nodes: the plan names exactly as many of
  them as were asked for, or all of them and says it is degraded, and no eligible node it passed
  over is less loaded than one it chose.\<close>

theorem plan_takes_least_loaded:
  assumes "collation lc" "place_one lc nodes r = Placed s ids k d"
  shows "\<exists>chosen rest. mset chosen + mset rest = mset (eligibleNodes r nodes) \<and>
           ids = map nd_nodeId chosen \<and> length chosen = min (wanted_replicas r) (length (eligibleNodes r nodes)) \<and>
           (d \<longleftrightarrow> length (eligibleNodes r nodes) < wanted_replicas r) \<and>
           (\<forall>a \<in> set chosen. \<forall>b \<in> set rest. nd_load a \<le> nd_load b)"
proof -
  let ?o = "js_sort (by_load lc) (eligibleNodes r nodes)" and ?n = "wanted_replicas r"
  have "mset (take ?n ?o) + mset (drop ?n ?o) = mset (eligibleNodes r nodes)"
    by (metis append_take_drop_id mset_append mset_js_sort)
  moreover have "nd_load a \<le> nd_load b" if "a \<in> set (take ?n ?o)" "b \<in> set (drop ?n ?o)" for a b
    using comparator.sorted_sort [OF by_load_comparator [OF assms(1)]] that
    by (blast intro: by_load_load dest: take_drop_sorted)
  moreover note place_one_placed [OF assms(2)]
  ultimately show ?thesis by (intro exI [of _ "take ?n ?o"] exI [of _ "drop ?n ?o"]) auto
qed

theorem plan_takes_least_loaded_witness:
  "\<exists>chosen rest. mset chosen + mset rest = mset (eligibleNodes demo_request demo_nodes) \<and>
     [''a''] = map nd_nodeId chosen \<and>
     length chosen = min (wanted_replicas demo_request) (length (eligibleNodes demo_request demo_nodes)) \<and>
     (False \<longleftrightarrow> length (eligibleNodes demo_request demo_nodes) < wanted_replicas demo_request) \<and>
     (\<forall>a \<in> set chosen. \<forall>b \<in> set rest. nd_load a \<le> nd_load b)"
  by (rule plan_takes_least_loaded [OF unit_collation.collation_axioms demo_place])

text \<open>Every planner draws the same plan: whatever order the nodes are listed in, the placements
  and the completeness verdict are the same, when node ids are unique and the host's collation
  tells different ids apart.\<close>

theorem plan_order_independent:
  assumes "collation lc" "\<And>x y. lc x y = 0 \<Longrightarrow> x = y"
    and "mset nodes = mset nodes'" "distinct (map nd_nodeId nodes)"
  shows "planPlacement lc requests nodes = planPlacement lc requests nodes'"
proof -
  have "place_one lc nodes r = place_one lc nodes' r" for r
  proof -
    have e: "mset (eligibleNodes r nodes) = mset (eligibleNodes r nodes')"
      using assms(3) by (rule eligible_mset)
    then have "js_sort (by_load lc) (eligibleNodes r nodes) = js_sort (by_load lc) (eligibleNodes r nodes')"
      using assms by (intro by_load_order_independent eligible_distinct)
    moreover from e have "eligibleNodes r nodes = [] \<longleftrightarrow> eligibleNodes r nodes' = []"
      by (metis mset_zero_iff)
    ultimately show ?thesis by (simp add: place_one_def Let_def)
  qed
  then have "place_one lc nodes = place_one lc nodes'" by (rule ext)
  then show ?thesis by (simp add: planPlacement_def)
qed

theorem plan_order_independent_witness:
  "planPlacement unit_cmp [demo_request] demo_nodes = planPlacement unit_cmp [demo_request] (rev demo_nodes)"
  by (rule plan_order_independent [OF unit_collation.collation_axioms])
    (auto simp: num_cmp_def demo_nodes_def demo_node_def split: if_splits)

end
