(* ===== verification/Reduce_Tree.thy ===== *)
theory Reduce_Tree
  imports Prelude
begin

text \<open>
  The shape of a fabric reduce: \<open>deriveReduceTree\<close> and \<open>rendezvousRank\<close> of
  \<open>packages/core/src/reduce.ts\<close>.

  \<open>hashOf\<close> is SHA-256 of the UTF-8 text in hex; the digest is a third-party package, so it is the
  parameter \<open>hash\<close>.  A CID is its text form.  The loop over the layers is the function
  \<open>tree_layers\<close>; it ends because a fan-out of two or more shrinks every layer.  The lemmas show that
  the tree depends on the set of contributions only, that its leaves stand under the root exactly
  once and in order, how wide and deep it is, and what the rank promises when a node leaves.
\<close>

section \<open>The data\<close>

definition DEFAULT_FANOUT :: nat where
  "DEFAULT_FANOUT = 4"

record reduce_contribution =
  contributorId :: string
  rc_cid :: string

record reduce_leaf =
  leaf_id :: string
  leaf_cid :: string

record reduce_tree_node =
  rn_id :: string
  rn_children :: "string list"
  rn_level :: nat

record reduce_tree =
  rt_leaves :: "reduce_leaf list"
  rt_nodes :: "reduce_tree_node list"
  rt_rootId :: string
  rt_fanout :: nat
  rt_depth :: nat

datatype reduce_error = Fanout_too_small jsnum | No_partials

section \<open>The operations\<close>

definition leafId :: "string \<Rightarrow> string \<Rightarrow> string" where
  "leafId contributor cid = contributor @ CHR 0x00 # cid"

definition leaf_of :: "reduce_contribution \<Rightarrow> reduce_leaf" where
  "leaf_of c = \<lparr>leaf_id = leafId (contributorId c) (rc_cid c), leaf_cid = rc_cid c\<rparr>"

definition leaves_of :: "reduce_contribution list \<Rightarrow> reduce_leaf list" where
  "leaves_of contributions =
     (let byId = foldl (\<lambda>m c. let leaf = leaf_of c in map_set (leaf_id leaf) leaf m) [] contributions
      in js_sort (\<lambda>a b. unit_cmp (leaf_id a) (leaf_id b)) (map_values byId))"

text \<open>
  One pass of the inner loop: \<open>slice(i, i + fanout)\<close> for \<open>i = 0, fanout, ...\<close>.  The fan-out is at
  least two here, so the slice at a non-empty rest holds its head and the next one starts
  \<open>fanout - 1\<close> past it.
\<close>

function combine_groups ::
  "(string \<Rightarrow> string) \<Rightarrow> nat \<Rightarrow> nat \<Rightarrow> string list \<Rightarrow> reduce_tree_node list \<times> string list" where
  "combine_groups hash fanout level [] = ([], [])"
| "combine_groups hash fanout level (x # xs) =
     (let children = take fanout (x # xs);
          (nodes, next) = combine_groups hash fanout level (drop (fanout - 1) xs)
      in if length children = 1 then (nodes, x # next)
         else let i = hash (js_join ''|'' children)
              in (\<lparr>rn_id = i, rn_children = children, rn_level = level\<rparr> # nodes, i # next))"
  by pat_completeness auto
termination
  by (relation "measure (\<lambda>(h, k, l, xs). length xs)") auto

lemma length_combine_groups:
  "1 \<le> k \<Longrightarrow> length (snd (combine_groups h k l xs)) = (length xs + k - 1) div k"
proof (induction h k l xs rule: combine_groups.induct)
  case (2 h k l x xs)
  let ?r = "drop (k - 1) xs"
  have "length (snd (combine_groups h k l (x # xs))) = Suc (length (snd (combine_groups h k l ?r)))"
    by (simp add: Let_def split_beta)
  also have "\<dots> = Suc ((length ?r + k - 1) div k)" using 2 by simp
  also have "\<dots> = (length (x # xs) + k - 1) div k"
  proof (cases "length xs \<le> k - 1")
    case True
    with 2(2) have "(length (x # xs) + k - 1) div k = (length xs + k) div k" "length ?r = 0" by auto
    moreover have "(length xs + k) div k = Suc (length xs div k)" using 2(2) by simp
    moreover have "length xs div k = 0" using True 2(2) by (intro div_less) linarith
    ultimately show ?thesis using 2(2) by simp
  next
    case False
    with 2(2) have "length (x # xs) + k - 1 = length ?r + k - 1 + k" by simp
    with 2(2) show ?thesis by (metis div_add_self2 not_one_le_zero Suc_eq_plus1)
  qed
  finally show ?case .
qed simp

lemma combine_groups_shrinks:
  "2 \<le> k \<Longrightarrow> 1 < length xs \<Longrightarrow> length (snd (combine_groups h k l xs)) < length xs"
proof -
  assume k: "2 \<le> k" and n: "1 < length xs"
  have "length xs + k - 1 < length xs * k"
  proof -
    obtain a b where "length xs = a + 2" "k = b + 2" by (metis k n Suc_1 Suc_leI add.commute le_Suc_ex)
    then show ?thesis by (simp add: algebra_simps)
  qed
  then have "(length xs + k - 1) div k < length xs" using k by (metis less_mult_imp_div_less)
  with k show ?thesis by (simp add: length_combine_groups)
qed

text \<open>The \<open>while\<close> over the layers.  The caller has refused a fan-out below two.\<close>

function tree_layers ::
  "(string \<Rightarrow> string) \<Rightarrow> nat \<Rightarrow> nat \<Rightarrow> reduce_tree_node list \<Rightarrow> string list \<Rightarrow>
   reduce_tree_node list \<times> string list \<times> nat" where
  "tree_layers hash fanout level nodes layer =
     (if 1 < length layer \<and> 2 \<le> fanout
      then let (new, next) = combine_groups hash fanout level layer
           in tree_layers hash fanout (level + 1) (nodes @ new) next
      else (nodes, layer, level))"
  by pat_completeness auto
termination
proof (relation "measure (\<lambda>(h, k, l, ns, xs). length xs)", goal_cases)
  case (2 hash fanout level nodes layer x new nxt)
  then have "2 \<le> fanout" "1 < length layer" "nxt = snd (combine_groups hash fanout level layer)"
    by (simp_all add: prod_eq_iff)
  with combine_groups_shrinks [of fanout layer hash level] show ?case by simp
qed simp

declare tree_layers.simps [simp del]

definition deriveReduceTree ::
  "(string \<Rightarrow> string) \<Rightarrow> reduce_contribution list \<Rightarrow> jsnum \<Rightarrow> reduce_error + reduce_tree" where
  "deriveReduceTree hash contributions fanout =
     (if \<not> is_integer fanout \<or> js_lt fanout 2 then Inl (Fanout_too_small fanout)
      else if contributions = [] then Inl No_partials
      else let leaves = leaves_of contributions;
               k = nat (int_of_num fanout);
               (nodes, layer, level) = tree_layers hash k 1 [] (map leaf_id leaves)
           in Inr \<lparr>rt_leaves = leaves, rt_nodes = nodes, rt_rootId = hd layer, rt_fanout = k,
                   rt_depth = level - 1\<rparr>)"

definition by_score ::
  "(string \<Rightarrow> string \<Rightarrow> int) \<Rightarrow> string \<times> string \<Rightarrow> string \<times> string \<Rightarrow> int" where
  "by_score lc a b =
     (if snd a < snd b then 1 else if snd a > snd b then -1 else lc (fst a) (fst b))"

definition rendezvousRank ::
  "(string \<Rightarrow> string) \<Rightarrow> (string \<Rightarrow> string \<Rightarrow> int) \<Rightarrow> string \<Rightarrow> string list \<Rightarrow> string list" where
  "rendezvousRank hash lc key nodeIds =
     map fst (js_sort (by_score lc) (map (\<lambda>n. (n, hash (key @ ''|'' @ n))) nodeIds))"

section \<open>The leaves\<close>

lemma leafId_inj:
  assumes "leafId a c = leafId b d" "CHR 0x00 \<notin> set c" "CHR 0x00 \<notin> set d"
  shows "a = b \<and> c = d"
proof -
  have "rev c @ CHR 0x00 # rev a = rev d @ CHR 0x00 # rev b"
    using arg_cong [OF assms(1), of rev] by (simp add: leafId_def)
  moreover have "takeWhile (\<lambda>x. x \<noteq> CHR 0x00) (rev c @ CHR 0x00 # rev a) = rev c" 
    using assms(2) by (subst takeWhile_append2) auto
  moreover have "takeWhile (\<lambda>x. x \<noteq> CHR 0x00) (rev d @ CHR 0x00 # rev b) = rev d"
    using assms(3) by (subst takeWhile_append2) auto
  ultimately show ?thesis by simp
qed

abbreviation by_id_step :: "(string, reduce_leaf) jsmap \<Rightarrow> reduce_contribution \<Rightarrow> (string, reduce_leaf) jsmap" where
  "by_id_step m c \<equiv> (let leaf = leaf_of c in map_set (leaf_id leaf) leaf m)"

abbreviation cids_ok :: "reduce_contribution list \<Rightarrow> bool" where
  "cids_ok cs \<equiv> (\<forall>c \<in> set cs. CHR 0x00 \<notin> set (rc_cid c))"

lemma by_id_keys: "map_ok m \<Longrightarrow> map_ok (foldl by_id_step m cs)"
  by (induction cs arbitrary: m) (simp_all add: Let_def)

lemma by_id_consistent:
  "(\<forall>(k, l) \<in> set m. k = leaf_id l) \<Longrightarrow> map_ok m \<Longrightarrow> (\<forall>(k, l) \<in> set (foldl by_id_step m cs). k = leaf_id l)"
proof (induction cs arbitrary: m)
  case (Cons c cs)
  have "\<forall>(k, l) \<in> set (by_id_step m c). k = leaf_id l"
    using Cons.prems by (auto simp: Let_def map_set_mem split: if_splits)
  with Cons show ?case by (simp add: Let_def)
qed simp

lemma by_id_values:
  assumes "cids_ok (cs0 @ cs)" "map_ok m" "\<forall>(k, l) \<in> set m. k = leaf_id l" "snd ` set m = leaf_of ` set cs0"
  shows "snd ` set (foldl by_id_step m cs) = leaf_of ` set (cs0 @ cs)"
  using assms
proof (induction cs arbitrary: m cs0)
  case (Cons c cs)
  let ?m = "by_id_step m c"
  have same: "l = leaf_of c" if "(leaf_id (leaf_of c), l) \<in> set m" for l
  proof -
    from that Cons.prems(4) obtain d where d: "d \<in> set cs0" "l = leaf_of d" by force
    moreover from that Cons.prems(3) have "leaf_id l = leaf_id (leaf_of c)" by auto
    ultimately show ?thesis using Cons.prems(1) leafId_inj [of "contributorId d" "rc_cid d" "contributorId c" "rc_cid c"]
      by (auto simp: leaf_of_def)
  qed
  have mem: "(k, l) \<in> set ?m \<longleftrightarrow> (k, l) \<in> set m \<or> (k = leaf_id (leaf_of c) \<and> l = leaf_of c)" for k l
    using Cons.prems(2) same by (auto simp: map_set_mem Let_def)
  have "snd ` set ?m = insert (leaf_of c) (snd ` set m)"
  proof (intro set_eqI iffI)
    fix l assume "l \<in> snd ` set ?m"
    then show "l \<in> insert (leaf_of c) (snd ` set m)" using mem by force
  next
    fix l assume "l \<in> insert (leaf_of c) (snd ` set m)"
    then obtain k where "(k, l) \<in> set ?m" using mem by force
    then show "l \<in> snd ` set ?m" by force
  qed
  moreover have "\<forall>(k, l) \<in> set ?m. k = leaf_id l" using Cons.prems(3) mem by auto
  ultimately show ?case using Cons.prems Cons.IH [of "cs0 @ [c]" ?m] by (simp add: Let_def)
qed simp

lemma leaves_of_set: "cids_ok cs \<Longrightarrow> set (leaves_of cs) = leaf_of ` set cs"
  using by_id_values [of "[]" cs "[]"] by (simp add: leaves_of_def Let_def)

lemma leaves_of_distinct: "distinct (map leaf_id (leaves_of cs))"
proof -
  let ?m = "foldl by_id_step [] cs"
  have ok: "map_ok ?m" by (rule by_id_keys) simp
  have "\<forall>(k, l) \<in> set ?m. k = leaf_id l" by (rule by_id_consistent) simp_all
  then have "map leaf_id (map_values ?m) = map_keys ?m" by (auto simp: case_prod_beta)
  with ok have d: "distinct (map leaf_id (map_values ?m))" by metis
  have "mset (map leaf_id (leaves_of cs)) = mset (map leaf_id (map_values ?m))"
    by (simp add: leaves_of_def Let_def mset_map multiset.map_comp)
  from mset_eq_imp_distinct_iff [OF this] d show ?thesis by blast
qed

interpretation by_leaf_id: comparator "\<lambda>a b. unit_cmp (leaf_id a) (leaf_id b)"
  by (rule unit_collation.comparator_by)

lemma leaves_of_sorted: "sorted (map leaf_id (leaves_of cs))"
proof -
  have "sorted_wrt (\<lambda>a b. unit_cmp (leaf_id a) (leaf_id b) \<le> 0) (leaves_of cs)"
    by (simp add: leaves_of_def Let_def by_leaf_id.sorted_sort)
  then have "sorted_wrt (\<lambda>a b. leaf_id a \<le> leaf_id b) (leaves_of cs)"
    by (rule sorted_wrt_mono_rel [rotated]) (auto simp: num_cmp_def split: if_splits)
  then show ?thesis by (simp add: sorted_wrt_map)
qed

lemma leaves_of_cong:
  assumes "set cs = set ds" "cids_ok cs"
  shows "leaves_of cs = leaves_of ds"
proof -
  have eq: "set (leaves_of cs) = set (leaves_of ds)" using assms by (simp add: leaves_of_set)
  have inj: "inj_on leaf_id (set (leaves_of cs))" using leaves_of_distinct by (simp add: distinct_map)
  have ids: "map leaf_id (leaves_of cs) = map leaf_id (leaves_of ds)"
    using eq by (intro sorted_distinct_set_unique) (simp_all add: leaves_of_sorted leaves_of_distinct)
  show ?thesis by (rule map_inj_on [OF ids]) (use inj eq in simp)
qed

lemma by_id_Nil: "foldl by_id_step m cs = [] \<Longrightarrow> m = [] \<and> cs = []"
proof (induction cs arbitrary: m)
  case (Cons c cs)
  have "by_id_step m c \<noteq> []" by (cases m) (auto simp: Let_def)
  moreover have "by_id_step m c = []" using Cons.IH [of "by_id_step m c"] Cons.prems by simp
  ultimately show ?case by blast
qed simp

lemma leaves_of_Nil: "cs \<noteq> [] \<Longrightarrow> leaves_of cs \<noteq> []"
  using by_id_Nil [of "[]" cs] by (auto simp: leaves_of_def Let_def)

section \<open>The layers\<close>

text \<open>\<open>covers ns ls i fs\<close>: the leaves \<open>fs\<close>, in this order, are what stands under \<open>i\<close>.\<close>

inductive covers :: "reduce_tree_node list \<Rightarrow> string list \<Rightarrow> string \<Rightarrow> string list \<Rightarrow> bool"
  for ns ls where
  covers_leaf: "i \<in> set ls \<Longrightarrow> covers ns ls i [i]"
| covers_node: "n \<in> set ns \<Longrightarrow> list_all2 (covers ns ls) (rn_children n) fss \<Longrightarrow> covers ns ls (rn_id n) (concat fss)"

lemma combine_groups_covers:
  assumes "list_all2 (covers N ls) xs fss" "set (fst (combine_groups h k l xs)) \<subseteq> set N" "1 \<le> k"
  shows "\<exists>gss. list_all2 (covers N ls) (snd (combine_groups h k l xs)) gss \<and> concat gss = concat fss"
  using assms
proof (induction h k l xs arbitrary: fss rule: combine_groups.induct)
  case (2 h k l x xs)
  let ?c = "take k (x # xs)" and ?r = "drop (k - 1) xs"
  have r: "?r = drop k (x # xs)" using 2(4) by (cases k) auto
  have l1: "list_all2 (covers N ls) ?c (take k fss)" and l2: "list_all2 (covers N ls) ?r (drop k fss)"
    using 2(2) by (simp_all only: r list_all2_takeI list_all2_dropI)
  have "set (fst (combine_groups h k l ?r)) \<subseteq> set N"
    using 2(3) by (auto simp: Let_def split_beta split: if_splits)
  with 2(1) [OF refl l2 _ 2(4)] obtain gss where
    gss: "list_all2 (covers N ls) (snd (combine_groups h k l ?r)) gss" "concat gss = concat (drop k fss)"
    by auto
  have cat: "concat fss = concat (take k fss) @ concat (drop k fss)"
    by (metis append_take_drop_id concat_append)
  show ?case
  proof (cases "length ?c = 1")
    case True
    then have "?c = [x]" using 2(4) by (cases k; cases xs) auto
    then obtain f where "take k fss = [f]" "covers N ls x f"
      using l1 by (auto simp: list_all2_Cons1)
    with True gss cat show ?thesis
      by (intro exI [of _ "f # gss"]) (simp add: Let_def split_beta)
  next
    case False
    let ?n = "\<lparr>rn_id = h (js_join ''|'' ?c), rn_children = ?c, rn_level = l\<rparr>"
    have "?n \<in> set N" using 2(3) False by (simp add: Let_def split_beta)
    from covers_node [OF this] l1 have "covers N ls (rn_id ?n) (concat (take k fss))" by simp
    with False gss cat show ?thesis
      by (intro exI [of _ "concat (take k fss) # gss"]) (simp add: Let_def split_beta)
  qed
qed simp

lemma tree_layers_done:
  "\<not> (1 < length xs \<and> 2 \<le> k) \<Longrightarrow> tree_layers h k l ns xs = (ns, xs, l)"
  by (subst tree_layers.simps) (rule if_not_P)

lemma tree_layers_step:
  "1 < length xs \<Longrightarrow> 2 \<le> k \<Longrightarrow> tree_layers h k l ns xs =
     tree_layers h k (Suc l) (ns @ fst (combine_groups h k l xs)) (snd (combine_groups h k l xs))"
  by (subst tree_layers.simps) (simp add: split_beta)

lemma tree_layers_rule [consumes 1, case_names step stop]:
  assumes "2 \<le> k"
    and "\<And>l ns xs. 1 < length xs \<Longrightarrow>
      P (Suc l) (ns @ fst (combine_groups h k l xs)) (snd (combine_groups h k l xs)) \<Longrightarrow> P l ns xs"
    and "\<And>l ns xs. \<not> 1 < length xs \<Longrightarrow> P l ns xs"
  shows "P l ns xs"
proof (induction xs arbitrary: l ns rule: length_induct)
  case (1 xs)
  show ?case
  proof (cases "1 < length xs")
    case True
    then have "length (snd (combine_groups h k l xs)) < length xs"
      by (rule combine_groups_shrinks [OF assms(1)])
    then have "P (Suc l) (ns @ fst (combine_groups h k l xs)) (snd (combine_groups h k l xs))"
      using 1 by blast
    with True show ?thesis by (rule assms(2))
  qed (rule assms(3))
qed

abbreviation layer_nodes :: "reduce_tree_node list \<times> string list \<times> nat \<Rightarrow> reduce_tree_node list" where
  "layer_nodes t \<equiv> fst t"

abbreviation layer_last :: "reduce_tree_node list \<times> string list \<times> nat \<Rightarrow> string list" where
  "layer_last t \<equiv> fst (snd t)"

abbreviation layer_level :: "reduce_tree_node list \<times> string list \<times> nat \<Rightarrow> nat" where
  "layer_level t \<equiv> snd (snd t)"

lemma tree_layers_extends:
  assumes "2 \<le> k"
  shows "set ns \<subseteq> set (layer_nodes (tree_layers h k l ns xs))"
  using assms
proof (induction l ns xs rule: tree_layers_rule [where h = h])
  case (step l ns xs)
  then show ?case by (auto simp: tree_layers_step assms)
qed (simp add: tree_layers_done)

lemma combine_groups_nonempty: "xs \<noteq> [] \<Longrightarrow> snd (combine_groups h k l xs) \<noteq> []"
  by (cases xs) (simp_all add: Let_def split_beta)

lemma tree_layers_last:
  assumes "2 \<le> k" "xs \<noteq> []"
  shows "\<exists>r. layer_last (tree_layers h k l ns xs) = [r]"
  using assms
proof (induction l ns xs rule: tree_layers_rule [where h = h])
  case (step l ns xs)
  then show ?case by (simp add: tree_layers_step assms combine_groups_nonempty)
next
  case (stop l ns xs)
  then have "length xs = 1" by (cases xs) auto
  then show ?case using stop by (simp add: tree_layers_done length_Suc_conv)
qed

lemma tree_layers_covers:
  assumes "2 \<le> k" "set (layer_nodes (tree_layers h k l ns xs)) \<subseteq> set N" "list_all2 (covers N ls) xs fss"
  shows "\<exists>gss. list_all2 (covers N ls) (layer_last (tree_layers h k l ns xs)) gss \<and> concat gss = concat fss"
  using assms
proof (induction l ns xs arbitrary: fss rule: tree_layers_rule [where h = h])
  case (step l ns xs)
  let ?g = "combine_groups h k l xs"
  note eq = tree_layers_step [OF step.hyps assms(1), of h l ns]
  have "set (ns @ fst ?g) \<subseteq> set N"
    using tree_layers_extends [OF assms(1), of "ns @ fst ?g" h "Suc l" "snd ?g"] step.prems(1)
    unfolding eq by (rule subset_trans)
  then obtain gss where "list_all2 (covers N ls) (snd ?g) gss" "concat gss = concat fss"
    using combine_groups_covers [OF step.prems(2), of h k l] assms(1) by auto
  with step.IH [of gss] step.prems(1) show ?case unfolding eq by metis
next
  case (stop l ns xs)
  then show ?case by (auto simp: tree_layers_done)
qed

text \<open>Depth: the number of layers is the logarithm of the number of leaves, rounded up.\<close>

lemma ceiling_bounds:
  assumes "1 \<le> (k::nat)" "m = (n + k - 1) div k"
  shows "n \<le> k * m" "j < m \<Longrightarrow> k * j < n"
proof -
  have lo: "m * k \<le> n + k - 1" unfolding assms(2) by simp
  have hi: "n + k - 1 < (m + 1) * k" unfolding assms(2) using assms(1)
    by (metis Suc_eq_plus1 dividend_less_times_div mult.commute mult_Suc_right zero_less_iff_neq_zero not_one_le_zero add.commute)
  show "n \<le> k * m" using hi by (simp add: algebra_simps)
  show "k * j < n" if "j < m"
  proof -
    have "(j + 1) * k \<le> m * k" using that by (intro mult_right_mono) simp_all
    with lo assms(1) show ?thesis by (simp add: algebra_simps)
  qed
qed

lemma tree_layers_depth:
  assumes "2 \<le> k" "xs \<noteq> []"
  shows "\<exists>d. layer_level (tree_layers h k l ns xs) = l + d \<and> length xs \<le> k ^ d \<and>
             (d \<noteq> 0 \<longrightarrow> k ^ (d - 1) < length xs)"
  using assms
proof (induction l ns xs rule: tree_layers_rule [where h = h])
  case (step l ns xs)
  let ?nxt = "snd (combine_groups h k l xs)"
  note eq = tree_layers_step [OF step.hyps assms(1), of h l ns]
  have len: "length ?nxt = (length xs + k - 1) div k" using assms(1) by (intro length_combine_groups) simp
  note bounds = ceiling_bounds [OF _ len]
  have "?nxt \<noteq> []" using step.prems by (rule combine_groups_nonempty)
  with step.IH obtain d where d: "layer_level (tree_layers h k l ns xs) = l + Suc d"
    "length ?nxt \<le> k ^ d" "d \<noteq> 0 \<longrightarrow> k ^ (d - 1) < length ?nxt"
    unfolding eq by auto
  have "length xs \<le> k * length ?nxt" using bounds(1) assms(1) by simp
  also have "\<dots> \<le> k ^ Suc d" using d(2) by simp
  finally have "length xs \<le> k ^ Suc d" .
  moreover have "k ^ d < length xs"
  proof (cases d)
    case (Suc e)
    with d(3) bounds(2) [of "k ^ e"] assms(1) show ?thesis by simp
  qed (use step.hyps in simp)
  ultimately show ?case using d(1) by (intro exI [of _ "Suc d"]) simp
next
  case (stop l ns xs)
  then have "length xs = 1" by (cases xs) auto
  with stop show ?case by (simp add: tree_layers_done)
qed

text \<open>Width: every combine has between two and \<open>fanout\<close> inputs, and shortens its layer.\<close>

lemma combine_groups_width:
  "1 \<le> k \<Longrightarrow> n \<in> set (fst (combine_groups h k l xs)) \<Longrightarrow>
   2 \<le> length (rn_children n) \<and> length (rn_children n) \<le> k \<and> set (rn_children n) \<subseteq> set xs \<and> rn_level n = l"
proof (induction h k l xs rule: combine_groups.induct)
  case (2 h k l x xs)
  let ?r = "drop (k - 1) xs" and ?c = "take k (x # xs)"
  have new: "n \<in> set (fst (combine_groups h k l ?r)) \<or>
      (length ?c \<noteq> 1 \<and> rn_children n = ?c \<and> rn_level n = l)"
    using 2(3) by (auto simp: Let_def split_beta split: if_splits)
  then show ?case
  proof
    assume "n \<in> set (fst (combine_groups h k l ?r))"
    with 2(1) [OF refl 2(2)] show ?thesis by (auto dest: in_set_dropD)
  next
    assume c: "length ?c \<noteq> 1 \<and> rn_children n = ?c \<and> rn_level n = l"
    moreover have "1 \<le> length ?c" using 2(2) by (cases k) auto
    moreover have "length ?c \<le> k" by simp
    moreover have "set ?c \<subseteq> set (x # xs)" by (rule set_take_subset)
    ultimately show ?thesis by (metis One_nat_def Suc_1 Suc_leI le_neq_implies_less)
  qed
qed simp

lemma combine_groups_next:
  "1 \<le> k \<Longrightarrow> i \<in> set (snd (combine_groups h k l xs)) \<Longrightarrow>
   i \<in> set xs \<or> (\<exists>n \<in> set (fst (combine_groups h k l xs)). rn_id n = i)"
proof (induction h k l xs rule: combine_groups.induct)
  case (2 h k l x xs)
  then show ?case by (auto simp: Let_def split_beta split: if_splits dest: in_set_dropD)
qed simp

lemma combine_groups_count:
  "length (fst (combine_groups h k l xs)) + length (snd (combine_groups h k l xs)) \<le> length xs \<or> k < 2"
proof (induction h k l xs rule: combine_groups.induct)
  case (2 h k l x xs)
  then show ?case by (cases k; cases xs; cases "k - 1") (auto simp: Let_def split_beta)
qed simp

lemma tree_layers_nodes:
  assumes "2 \<le> k" "xs \<noteq> []"
    and "\<And>n. n \<in> set ns \<Longrightarrow> 2 \<le> length (rn_children n) \<and> length (rn_children n) \<le> k"
  shows "(\<forall>n \<in> set (layer_nodes (tree_layers h k l ns xs)). 2 \<le> length (rn_children n) \<and> length (rn_children n) \<le> k) \<and>
    length (layer_nodes (tree_layers h k l ns xs)) < length ns + length xs"
  using assms
proof (induction l ns xs rule: tree_layers_rule [where h = h])
  case (step l ns xs)
  let ?g = "combine_groups h k l xs"
  have "2 \<le> length (rn_children n) \<and> length (rn_children n) \<le> k" if "n \<in> set (ns @ fst ?g)" for n
    using that step.prems(2) combine_groups_width [of k n h l xs] assms(1) by auto
  then show ?case
    using step.IH [OF combine_groups_nonempty [OF step.prems(1)]] combine_groups_count [of h k l xs] assms(1)
    unfolding tree_layers_step [OF step.hyps assms(1), of h l ns] by fastforce
next
  case (stop l ns xs)
  then show ?case by (simp add: tree_layers_done)
qed

text \<open>Levels: what a combine takes in is a leaf, or was produced at a lower level.\<close>

definition available :: "string list \<Rightarrow> reduce_tree_node list \<Rightarrow> nat \<Rightarrow> string \<Rightarrow> bool" where
  "available ls ns level i \<longleftrightarrow> i \<in> set ls \<or> (\<exists>m \<in> set ns. rn_id m = i \<and> rn_level m < level)"

definition levels_ok :: "string list \<Rightarrow> reduce_tree_node list \<Rightarrow> bool" where
  "levels_ok ls ns \<longleftrightarrow> (\<forall>n \<in> set ns. 1 \<le> rn_level n \<and> (\<forall>c \<in> set (rn_children n). available ls ns (rn_level n) c))"

lemma available_mono:
  "available ls ns l i \<Longrightarrow> set ns \<subseteq> set ns' \<Longrightarrow> l \<le> l' \<Longrightarrow> available ls ns' l' i"
  unfolding available_def by (meson less_le_trans subsetD)

lemma tree_layers_levels:
  assumes "2 \<le> k" "levels_ok ls ns" "\<forall>i \<in> set xs. available ls ns l i" "1 \<le> l"
  shows "levels_ok ls (layer_nodes (tree_layers h k l ns xs)) \<and>
    (\<forall>i \<in> set (layer_last (tree_layers h k l ns xs)).
       available ls (layer_nodes (tree_layers h k l ns xs)) (layer_level (tree_layers h k l ns xs)) i)"
  using assms
proof (induction l ns xs rule: tree_layers_rule [where h = h])
  case (step l ns xs)
  let ?g = "combine_groups h k l xs"
  let ?ns = "ns @ fst ?g"
  have k: "1 \<le> k" using assms(1) by simp
  note width = combine_groups_width [OF k, of _ h l xs]
  have xs: "available ls ?ns l i" if "i \<in> set xs" for i
    using that step.prems(2) by (auto intro: available_mono)
  have "levels_ok ls ?ns"
    unfolding levels_ok_def
  proof (intro ballI)
    fix n assume "n \<in> set ?ns"
    then show "1 \<le> rn_level n \<and> (\<forall>c \<in> set (rn_children n). available ls ?ns (rn_level n) c)"
    proof (cases "n \<in> set ns")
      case True
      have "set ns \<subseteq> set ?ns" by simp
      with True step.prems(1) show ?thesis unfolding levels_ok_def by (blast intro: available_mono)
    next
      case False
      with \<open>n \<in> set ?ns\<close> width [of n] xs step.prems(3) show ?thesis by auto
    qed
  qed
  moreover have "available ls ?ns (Suc l) i" if "i \<in> set (snd ?g)" for i
  proof (cases "i \<in> set xs")
    case True
    with xs show ?thesis by (blast intro: available_mono le_SucI)
  next
    case False
    with combine_groups_next [OF k that] obtain n where "n \<in> set (fst ?g)" "rn_id n = i" by blast
    with width [of n] show ?thesis by (auto simp: available_def)
  qed
  ultimately show ?case
    using step.IH step.prems(3) unfolding tree_layers_step [OF step.hyps assms(1), of h l ns] by simp
next
  case (stop l ns xs)
  then show ?case by (simp add: tree_layers_done)
qed

section \<open>The tree\<close>

abbreviation tree_leaf_ids :: "reduce_tree \<Rightarrow> string list" where
  "tree_leaf_ids t \<equiv> map leaf_id (rt_leaves t)"

lemma derive_Inr:
  assumes "deriveReduceTree hash cs f = Inr t"
  defines "out \<equiv> tree_layers hash (rt_fanout t) 1 [] (tree_leaf_ids t)"
  shows "2 \<le> rt_fanout t" "tree_leaf_ids t \<noteq> []" "rt_leaves t = leaves_of cs" "rt_nodes t = layer_nodes out"
    "layer_last out = [rt_rootId t]" "layer_level out = Suc (rt_depth t)"
proof -
  have f: "is_integer f" "\<not> js_lt f 2" and cs: "cs \<noteq> []"
    using assms(1) by (auto simp: deriveReduceTree_def split: if_splits)
  let ?out = "tree_layers hash (nat (int_of_num f)) 1 [] (map leaf_id (leaves_of cs))"
  have t: "rt_leaves t = leaves_of cs" "rt_nodes t = layer_nodes ?out" "rt_rootId t = hd (layer_last ?out)"
    "rt_depth t = layer_level ?out - 1" "rt_fanout t = nat (int_of_num f)"
    using assms(1) f cs by (auto simp: deriveReduceTree_def Let_def split_beta)
  have out: "out = ?out" by (simp add: out_def t)
  obtain n where "f = num_of_int n" using f(1) by (auto simp: is_integer_iff)
  with f(2) t(5) show k: "2 \<le> rt_fanout t" by simp
  from leaves_of_Nil [OF cs] t(1) show ne: "tree_leaf_ids t \<noteq> []" by simp
  show "rt_leaves t = leaves_of cs" "rt_nodes t = layer_nodes out" by (simp_all add: t out)
  show "layer_last out = [rt_rootId t]"
    using tree_layers_last [OF k ne, of hash 1 "[]"] t(3) unfolding out [symmetric] out_def [symmetric] by auto
  show "layer_level out = Suc (rt_depth t)"
    using tree_layers_depth [OF k ne, of hash 1 "[]"] t(4) unfolding out [symmetric] by (auto simp: out_def)
qed

lemma derive_levels:
  assumes "deriveReduceTree hash cs f = Inr t"
  shows "levels_ok (tree_leaf_ids t) (rt_nodes t)"
    "available (tree_leaf_ids t) (rt_nodes t) (Suc (rt_depth t)) (rt_rootId t)"
  using tree_layers_levels [OF derive_Inr(1) [OF assms], of "tree_leaf_ids t" "[]" "tree_leaf_ids t" 1 hash]
    derive_Inr [OF assms]
  by (simp_all add: levels_ok_def available_def)

section \<open>The rank\<close>

lemma by_score_comparator: "collation lc \<Longrightarrow> comparator (by_score lc)"
proof -
  assume "collation lc"
  note total = collation.lc_total [OF this] and trans = collation.lc_trans [OF this]
  show ?thesis
  proof unfold_locales
    show "by_score lc x y \<le> 0 \<or> by_score lc y x \<le> 0" for x y
      using total [of "fst x" "fst y"] by (auto simp: by_score_def)
    show "by_score lc x z \<le> 0" if "by_score lc x y \<le> 0" "by_score lc y z \<le> 0" for x y z
      using that trans [of "fst x" "fst y" "fst z"] by (auto simp: by_score_def split: if_splits)
  qed
qed

lemma mset_rendezvousRank [simp]: "mset (rendezvousRank hash lc key ids) = mset ids"
proof -
  have "mset (rendezvousRank hash lc key ids) = image_mset fst (mset (map (\<lambda>n. (n, hash (key @ ''|'' @ n))) ids))"
    unfolding rendezvousRank_def mset_map mset_js_sort ..
  also have "\<dots> = mset ids" by (induction ids) simp_all
  finally show ?thesis .
qed

lemma set_rendezvousRank [simp]: "set (rendezvousRank hash lc key ids) = set ids"
  by (metis mset_rendezvousRank set_mset_mset)

lemma length_rendezvousRank [simp]: "length (rendezvousRank hash lc key ids) = length ids"
  by (metis mset_rendezvousRank size_mset)

lemma distinct_rendezvousRank [simp]: "distinct (rendezvousRank hash lc key ids) = distinct ids"
  by (metis mset_rendezvousRank mset_eq_imp_distinct_iff)

section \<open>Properties\<close>

text \<open>Every node derives the same tree: the tree depends only on the set of contributions, not
  on the order they arrived in nor on how often one was repeated.\<close>

theorem reduce_tree_depends_on_set:
  assumes "set cs = set ds" "\<forall>c \<in> set cs. CHR 0x00 \<notin> set (rc_cid c)"
  shows "deriveReduceTree hash cs f = deriveReduceTree hash ds f"
proof -
  have "leaves_of cs = leaves_of ds" using assms by (rule leaves_of_cong)
  moreover have "cs = [] \<longleftrightarrow> ds = []" using assms(1) by (metis set_empty)
  ultimately show ?thesis unfolding deriveReduceTree_def by simp
qed

definition demo_contribution :: "string \<Rightarrow> reduce_contribution" where
  "demo_contribution n = \<lparr>contributorId = n, rc_cid = ''cid-'' @ n\<rparr>"

theorem reduce_tree_depends_on_set_witness:
  "deriveReduceTree id (map demo_contribution [''b'', ''a'', ''b'']) (Fin 2) =
   deriveReduceTree id (map demo_contribution [''a'', ''b'']) (Fin 2)"
  by (rule reduce_tree_depends_on_set) (auto simp: demo_contribution_def)

lemma derived_covers:
  assumes "deriveReduceTree hash cs f = Inr t" "\<forall>c \<in> set cs. CHR 0x00 \<notin> set (rc_cid c)"
  shows "set (rt_leaves t) = leaf_of ` set cs \<and> distinct (tree_leaf_ids t) \<and> sorted (tree_leaf_ids t) \<and>
    covers (rt_nodes t) (tree_leaf_ids t) (rt_rootId t) (tree_leaf_ids t)"
proof -
  note t = derive_Inr [OF assms(1)]
  let ?ids = "tree_leaf_ids t"
  have "list_all2 (covers (rt_nodes t) ?ids) ?ids (map (\<lambda>i. [i]) ?ids)"
    by (simp add: list_all2_conv_all_nth covers_leaf)
  from tree_layers_covers [OF t(1) _ this, of hash 1 "[]"] t(4,5)
  obtain gss where "list_all2 (covers (rt_nodes t) ?ids) [rt_rootId t] gss"
    and cat: "concat gss = concat (map (\<lambda>i. [i]) ?ids)" by auto
  then obtain g where "gss = [g]" "covers (rt_nodes t) ?ids (rt_rootId t) g"
    by (auto simp: list_all2_Cons1)
  moreover have "concat (map (\<lambda>i. [i]) ?ids) = ?ids" by (simp only: concat_map_singleton map_ident)
  ultimately have "covers (rt_nodes t) ?ids (rt_rootId t) ?ids" using cat by simp
  with assms(2) t(3) show ?thesis
    by (simp only: leaves_of_set leaves_of_distinct leaves_of_sorted)
qed

text \<open>Nothing is dropped and nothing is counted twice: there is one leaf per distinct
  contribution, and unfolding the combines from the root gives exactly these leaves, each once, in
  the order of their ids.\<close>

theorem reduce_root_covers_leaves_once:
  assumes "deriveReduceTree hash cs f = Inr t" "\<forall>c \<in> set cs. CHR 0x00 \<notin> set (rc_cid c)"
  shows "set (rt_leaves t) = leaf_of ` set cs \<and> distinct (tree_leaf_ids t) \<and> sorted (tree_leaf_ids t) \<and>
    covers (rt_nodes t) (tree_leaf_ids t) (rt_rootId t) (tree_leaf_ids t)"
  using derived_covers [OF assms] .

text \<open>A digest stand-in for the examples; \<open>mark\<close> is not a digest but keeps the ids apart.\<close>

definition mark :: "string \<Rightarrow> string" where
  "mark s = CHR ''#'' # s"

definition demo_tree :: reduce_tree where
  "demo_tree = (case deriveReduceTree mark (map demo_contribution [''b'', ''a'', ''c'']) (Fin 2) of Inr t \<Rightarrow> t)"

lemma demo_leaves:
  "leaves_of (map demo_contribution [''b'', ''a'', ''c'']) = map leaf_of (map demo_contribution [''a'', ''b'', ''c''])"
  by (simp add: leaves_of_def demo_contribution_def leaf_of_def leafId_def num_cmp_def)

lemma demo_tree_derived:
  "deriveReduceTree mark (map demo_contribution [''b'', ''a'', ''c'']) (Fin 2) = Inr demo_tree"
  by (simp add: demo_tree_def deriveReduceTree_def split_beta Let_def)

theorem reduce_root_covers_leaves_once_witness:
  "set (rt_leaves demo_tree) = leaf_of ` set (map demo_contribution [''b'', ''a'', ''c'']) \<and>
   distinct (tree_leaf_ids demo_tree) \<and> sorted (tree_leaf_ids demo_tree) \<and>
   covers (rt_nodes demo_tree) (tree_leaf_ids demo_tree) (rt_rootId demo_tree) (tree_leaf_ids demo_tree)"
  by (rule reduce_root_covers_leaves_once [OF demo_tree_derived]) (simp add: demo_contribution_def)

text \<open>The tree is as shallow and as narrow as promised: its depth is the logarithm of the number
  of leaves to the base of the fan-out, rounded up; every combine merges at least two and at most
  \<open>fanout\<close> inputs; and there are fewer combines than leaves.\<close>

theorem reduce_tree_shape:
  assumes "deriveReduceTree hash cs f = Inr t"
  shows "length (rt_leaves t) \<le> rt_fanout t ^ rt_depth t \<and>
    (rt_depth t \<noteq> 0 \<longrightarrow> rt_fanout t ^ (rt_depth t - 1) < length (rt_leaves t)) \<and>
    (\<forall>n \<in> set (rt_nodes t). 2 \<le> length (rn_children n) \<and> length (rn_children n) \<le> rt_fanout t) \<and>
    length (rt_nodes t) < length (rt_leaves t)"
proof -
  note t = derive_Inr [OF assms]
  from tree_layers_depth [OF t(1,2), of hash 1 "[]"] t(6)
  have "length (rt_leaves t) \<le> rt_fanout t ^ rt_depth t"
    "rt_depth t \<noteq> 0 \<longrightarrow> rt_fanout t ^ (rt_depth t - 1) < length (rt_leaves t)" by auto
  moreover from tree_layers_nodes [OF t(1,2), of "[]" hash 1] t(4)
  have "\<forall>n \<in> set (rt_nodes t). 2 \<le> length (rn_children n) \<and> length (rn_children n) \<le> rt_fanout t"
    "length (rt_nodes t) < length (rt_leaves t)" by auto
  ultimately show ?thesis by blast
qed

theorem reduce_tree_shape_witness:
  "length (rt_leaves demo_tree) \<le> rt_fanout demo_tree ^ rt_depth demo_tree \<and>
    length (rt_nodes demo_tree) < length (rt_leaves demo_tree)"
  using reduce_tree_shape [OF demo_tree_derived] by blast

text \<open>Losing nodes moves only their own work: the rank of the nodes that remain is the old rank
  with the lost ones struck out, so a task whose first choice survives keeps it.\<close>

theorem rendezvous_minimal_disruption:
  assumes "collation lc"
  shows "rendezvousRank hash lc key (filter P ids) = filter P (rendezvousRank hash lc key ids)"
proof -
  let ?s = "map (\<lambda>n. (n, hash (key @ ''|'' @ n)))"
  have "?s (filter P ids) = filter (\<lambda>p. P (fst p)) (?s ids)" by (induction ids) simp_all
  then have "js_sort (by_score lc) (?s (filter P ids)) = filter (\<lambda>p. P (fst p)) (js_sort (by_score lc) (?s ids))"
    by (simp only: comparator.sort_filter [OF by_score_comparator [OF assms]])
  then show ?thesis by (simp add: rendezvousRank_def filter_map o_def)
qed

theorem rendezvous_minimal_disruption_witness:
  "rendezvousRank rev unit_cmp ''k'' (filter (\<lambda>n. n \<noteq> ''b'') [''a'', ''b'', ''c'']) =
   filter (\<lambda>n. n \<noteq> ''b'') (rendezvousRank rev unit_cmp ''k'' [''a'', ''b'', ''c''])"
  by (rule rendezvous_minimal_disruption [OF unit_collation.collation_axioms])

end
