(* ===== verification/Placement.thy ===== *)
theory Placement
  imports Sovereignty Reduce_Tree
begin

text \<open>
  Placement by offers: \<open>packages/core/src/placement.ts\<close> up to \<open>planWithOffers\<close>.

  A node is asked before it is used.  The admission control is a callback that answers with what the
  node will do and changes state elsewhere; it is a function \<open>offer \<Rightarrow> 's \<Rightarrow> 'r admission \<times> 's\<close> over a
  state \<open>'s\<close> the planner only threads, with refusal reasons of type \<open>'r\<close>.  The \<open>while\<close> loop of
  \<open>placeWithOffers\<close> is \<open>offer_loop\<close>; it ends because each round drops its candidate from the pool.
  The locale \<open>admission_control\<close> is the contract of a provider whose state has an invariant; the
  provider in the code is \<open>LocalCapacity\<close>, in the theory \<open>Capacity\<close>.
\<close>

section \<open>The data\<close>

definition MIN_D :: rat where "MIN_D = 2"
definition MAX_D :: rat where "MAX_D = 4"
definition DEFAULT_D :: jsnum where "DEFAULT_D = Fin 2"

record 'r rejection =
  rj_nodeId :: string
  rj_reason :: 'r

record node_capacity =
  cap_slots :: rat
  cap_inFlight :: rat

datatype offer_standing = Declining_this_offer | Declining_all_work

text \<open>A capacity of \<open>None\<close> is \<open>states-no-capacity\<close>.\<close>

datatype 'r admission =
    Accepted (capacity_of: "node_capacity option")
  | Refused (refusal_of: 'r) (capacity_of: "node_capacity option") (standing_of: offer_standing)

record offer =
  of_shardId :: string
  of_nodeId :: string

type_synonym ('r, 's) admit = "offer \<Rightarrow> 's \<Rightarrow> 'r admission \<times> 's"

datatype offer_failure =
    D_out_of_range jsnum
  | Bad_redundancy jsnum
  | No_eligible unplaceable_reason
  | Every_node_refused string nat
  | No_eligible_node_for string
  | All_at_capacity string nat
  | All_stepped_out string nat
  | Full_or_stepped_out string nat nat

datatype 'r offered_placement =
    Offered_placed string (op_nodeIds: "string list") (op_replicas: nat) (op_degraded: bool)
      (op_rejections: "'r rejection list") (op_probed: nat)
  | Offered_unplaceable string (op_failure: offer_failure) (op_rejections: "'r rejection list") (op_probed: nat)

record ('r, 's) offer_options =
  oo_d :: "jsnum option"
  oo_admit :: "('r, 's) admit option"

section \<open>One shard\<close>

definition by_id_map :: "node_descriptor list \<Rightarrow> (string, node_descriptor) jsmap" where
  "by_id_map eligible = foldl (\<lambda>m n. map_set (nd_nodeId n) n m) [] eligible"

definition sampleCandidates ::
  "(string \<Rightarrow> string) \<Rightarrow> (string \<Rightarrow> string \<Rightarrow> int) \<Rightarrow> string \<Rightarrow> node_descriptor list \<Rightarrow> nat \<Rightarrow> node_descriptor list" where
  "sampleCandidates hash lc shardId eligible d =
     (let byId = by_id_map eligible
      in map (\<lambda>i. the (map_get byId i)) (take d (rendezvousRank hash lc shardId (map_keys byId))))"

definition leastLoaded :: "(string \<Rightarrow> string \<Rightarrow> int) \<Rightarrow> node_descriptor list \<Rightarrow> node_descriptor option" where
  "leastLoaded lc sample = (case js_sort (by_load lc) sample of [] \<Rightarrow> None | n # _ \<Rightarrow> Some n)"

text \<open>Asking one node; without an admission control every node accepts.\<close>

definition ask :: "('r, 's) admit option \<Rightarrow> offer \<Rightarrow> 's \<Rightarrow> 'r option \<times> 's" where
  "ask admit off s =
     (case admit of
        None \<Rightarrow> (None, s)
      | Some f \<Rightarrow> (case f off s of (Accepted _, s') \<Rightarrow> (None, s') | (Refused r _ _, s') \<Rightarrow> (Some r, s')))"

lemma by_id_map_keys:
  "map_ok m \<Longrightarrow> map_ok (foldl (\<lambda>m n. map_set (nd_nodeId n) n m) m ns) \<and>
   set (map_keys (foldl (\<lambda>m n. map_set (nd_nodeId n) n m) m ns)) = set (map_keys m) \<union> nd_nodeId ` set ns"
  by (induction ns arbitrary: m) (simp, simp add: map_keys_set del: set_map)

lemma by_id_map_mem:
  "map_ok m \<Longrightarrow> (k, v) \<in> set (foldl (\<lambda>m n. map_set (nd_nodeId n) n m) m ns) \<Longrightarrow>
   (k, v) \<in> set m \<or> (v \<in> set ns \<and> nd_nodeId v = k)"
proof (induction ns arbitrary: m)
  case (Cons n ns)
  have "map_ok (map_set (nd_nodeId n) n m)" using Cons.prems(1) by simp
  from Cons.IH [OF this] Cons.prems have
    "(k, v) \<in> set (map_set (nd_nodeId n) n m) \<or> (v \<in> set ns \<and> nd_nodeId v = k)" by simp
  then show ?case using map_set_mem [OF Cons.prems(1)] by (auto split: if_splits)
qed simp

lemma sample_mem:
  assumes "v \<in> set (sampleCandidates hash lc k ns d)"
  shows "v \<in> set ns"
proof -
  let ?m = "by_id_map ns"
  from assms obtain i where v: "v = the (map_get ?m i)"
    and i: "i \<in> set (take d (rendezvousRank hash lc k (map_keys ?m)))"
    by (auto simp: sampleCandidates_def Let_def)
  from i have "i \<in> set (map_keys ?m)" by (metis in_set_takeD set_rendezvousRank)
  then obtain w where w: "map_get ?m i = Some w" by (metis map_get_None_iff not_Some_eq)
  then have "(i, w) \<in> set ?m" by (rule map_get_mem)
  then have "w \<in> set ns" using by_id_map_mem [of "[]" i w ns] by (simp add: by_id_map_def)
  with v w show ?thesis by simp
qed

lemma sample_Nil:
  assumes "sampleCandidates hash lc k ns d = []" "1 \<le> d"
  shows "ns = []"
proof -
  from assms have "rendezvousRank hash lc k (map_keys (by_id_map ns)) = []"
    by (simp add: sampleCandidates_def Let_def)
  then have "map_keys (by_id_map ns) = []" by (metis length_0_conv length_rendezvousRank)
  then have "nd_nodeId ` set ns = {}" using by_id_map_keys [of "[]" ns] by (simp add: by_id_map_def)
  then show ?thesis by simp
qed

lemma leastLoaded_mem: "leastLoaded lc sample = Some n \<Longrightarrow> n \<in> set sample"
  unfolding leastLoaded_def by (metis list.case_eq_if list.set_sel(1) option.distinct(1) option.inject set_js_sort)

lemma leastLoaded_None: "leastLoaded lc sample = None \<longleftrightarrow> sample = []"
  by (cases "js_sort (by_load lc) sample") (auto simp: leastLoaded_def)

abbreviation without_node :: "string \<Rightarrow> node_descriptor list \<Rightarrow> node_descriptor list" where
  "without_node i pool \<equiv> filter (\<lambda>n. nd_nodeId n \<noteq> i) pool"

function offer_loop ::
  "(string \<Rightarrow> string) \<Rightarrow> (string \<Rightarrow> string \<Rightarrow> int) \<Rightarrow> ('r, 's) admit option \<Rightarrow> string \<Rightarrow> nat \<Rightarrow> nat \<Rightarrow>
   node_descriptor list \<Rightarrow> string list \<Rightarrow> 'r rejection list \<Rightarrow> nat \<Rightarrow> 's \<Rightarrow>
   string list \<times> 'r rejection list \<times> nat \<times> 's" where
  "offer_loop hash lc admit shardId redundancy d pool chosen rejections probed s =
     (if length chosen < redundancy \<and> pool \<noteq> []
      then case leastLoaded lc (sampleCandidates hash lc shardId pool d) of
             None \<Rightarrow> (chosen, rejections, probed, s)
           | Some candidate \<Rightarrow>
               let i = nd_nodeId candidate;
                   (decision, s') = ask admit \<lparr>of_shardId = shardId, of_nodeId = i\<rparr> s
               in case decision of
                    None \<Rightarrow> offer_loop hash lc admit shardId redundancy d (without_node i pool)
                              (chosen @ [i]) rejections (probed + 1) s'
                  | Some reason \<Rightarrow> offer_loop hash lc admit shardId redundancy d (without_node i pool)
                              chosen (rejections @ [\<lparr>rj_nodeId = i, rj_reason = reason\<rparr>]) (probed + 1) s'
      else (chosen, rejections, probed, s))"
  by pat_completeness auto
termination
proof (relation "measure (\<lambda>(h, lc, a, sh, r, d, pool, c, rj, p, s). length pool)", goal_cases)
  case (2 hash lc admit shardId redundancy d pool)
  then show ?case
    by (auto intro!: length_filter_less dest!: leastLoaded_mem sample_mem)
next
  case (3 hash lc admit shardId redundancy d pool)
  then show ?case
    by (auto intro!: length_filter_less dest!: leastLoaded_mem sample_mem)
qed simp

declare offer_loop.simps [simp del]

definition placeWithOffers ::
  "(string \<Rightarrow> string) \<Rightarrow> (string \<Rightarrow> string \<Rightarrow> int) \<Rightarrow> placement_request \<Rightarrow> node_descriptor list \<Rightarrow>
   ('r, 's) offer_options \<Rightarrow> 's \<Rightarrow> 'r offered_placement \<times> 's" where
  "placeWithOffers hash lc request nodes options s =
     (let d = (case oo_d options of None \<Rightarrow> DEFAULT_D | Some d \<Rightarrow> d);
          shardId = pr_shardId request
      in if \<not> is_integer d \<or> js_lt d MIN_D \<or> js_gt d MAX_D
         then (Offered_unplaceable shardId (D_out_of_range d) [] 0, s)
         else if bad_redundancy request
         then (Offered_unplaceable shardId (Bad_redundancy (pr_redundancy request)) [] 0, s)
         else let pool = eligibleNodes request nodes
              in if pool = []
                 then (Offered_unplaceable shardId (No_eligible (no_eligible_reason request)) [] 0, s)
                 else let redundancy = nat (int_of_num (pr_redundancy request));
                          (chosen, rejections, probed, s') =
                            offer_loop hash lc (oo_admit options) shardId redundancy
                              (nat (int_of_num d)) pool [] [] 0 s
                      in if chosen = []
                         then (Offered_unplaceable shardId
                                 (if rejections \<noteq> [] then Every_node_refused shardId (length rejections)
                                  else No_eligible_node_for shardId) rejections probed, s')
                         else (Offered_placed shardId chosen (length chosen)
                                 (length chosen < redundancy) rejections probed, s'))"

section \<open>A plan over many shards\<close>

record 's plan_state =
  headroom :: "(string, jsnum) jsmap"
  stoodDown :: "string list"
  inner :: 's

definition js_max0 :: "jsnum \<Rightarrow> jsnum" where
  "js_max0 x = (case x of Fin r \<Rightarrow> Fin (max 0 r) | PosInf \<Rightarrow> PosInf | NegInf \<Rightarrow> Fin 0 | NaN \<Rightarrow> NaN)"

definition headroom_of :: "'s plan_state \<Rightarrow> string \<Rightarrow> jsnum" where
  "headroom_of p i = (case map_get (headroom p) i of None \<Rightarrow> PosInf | Some h \<Rightarrow> h)"

text \<open>The three updates of \<open>recording\<close>, in its order.\<close>

definition note_capacity :: "string \<Rightarrow> 'r admission \<Rightarrow> 's plan_state \<Rightarrow> 's plan_state" where
  "note_capacity i decision p =
     (case capacity_of decision of
        None \<Rightarrow> p
      | Some c \<Rightarrow> p\<lparr>headroom := map_set i (Fin (max 0 (cap_slots c - cap_inFlight c))) (headroom p)\<rparr>)"

definition note_standing :: "string \<Rightarrow> 'r admission \<Rightarrow> 's plan_state \<Rightarrow> 's plan_state" where
  "note_standing i decision p =
     (case decision of
        Refused _ _ Declining_all_work \<Rightarrow> p\<lparr>stoodDown := set_add i (stoodDown p)\<rparr>
      | _ \<Rightarrow> p)"

definition note_accepted :: "string \<Rightarrow> 'r admission \<Rightarrow> 's plan_state \<Rightarrow> 's plan_state" where
  "note_accepted i decision p =
     (case decision of
        Accepted _ \<Rightarrow> p\<lparr>headroom := map_set i (js_max0 (js_minus (headroom_of p i) 1)) (headroom p)\<rparr>
      | Refused _ _ _ \<Rightarrow> p)"

definition recording :: "('r, 's) admit \<Rightarrow> ('r, 's plan_state) admit" where
  "recording admit off p =
     (let (decision, s') = admit off (inner p); i = of_nodeId off
      in (decision, note_accepted i decision (note_standing i decision (note_capacity i decision (p\<lparr>inner := s'\<rparr>)))))"

definition still_open :: "'s plan_state \<Rightarrow> node_descriptor \<Rightarrow> bool" where
  "still_open p n \<longleftrightarrow> nd_nodeId n \<notin> set (stoodDown p) \<and> js_gt (headroom_of p (nd_nodeId n)) 0"

definition plan_shard ::
  "(string \<Rightarrow> string) \<Rightarrow> (string \<Rightarrow> string \<Rightarrow> int) \<Rightarrow> node_descriptor list \<Rightarrow> ('r, 's) offer_options \<Rightarrow>
   placement_request \<Rightarrow> 's plan_state \<Rightarrow> 'r offered_placement \<times> 's plan_state" where
  "plan_shard hash lc nodes options request p =
     (let available = filter (still_open p) nodes; shardId = pr_shardId request
      in if available = [] \<and> nodes \<noteq> []
         then let out = length (filter (\<lambda>n. nd_nodeId n \<in> set (stoodDown p)) nodes);
                  full = length nodes - out
              in (Offered_unplaceable shardId
                    (if out = 0 then All_at_capacity shardId full
                     else if full = 0 then All_stepped_out shardId out
                     else Full_or_stepped_out shardId full out) [] 0, p)
         else placeWithOffers hash lc request available
                \<lparr>oo_d = oo_d options, oo_admit = map_option recording (oo_admit options)\<rparr> p)"

fun plan_shards ::
  "(string \<Rightarrow> string) \<Rightarrow> (string \<Rightarrow> string \<Rightarrow> int) \<Rightarrow> node_descriptor list \<Rightarrow> ('r, 's) offer_options \<Rightarrow>
   placement_request list \<Rightarrow> 's plan_state \<Rightarrow> 'r offered_placement list \<times> 's plan_state" where
  "plan_shards hash lc nodes options [] p = ([], p)"
| "plan_shards hash lc nodes options (request # requests) p =
     (let (placement, p1) = plan_shard hash lc nodes options request p;
          (placements, p2) = plan_shards hash lc nodes options requests p1
      in (placement # placements, p2))"

definition planWithOffers ::
  "(string \<Rightarrow> string) \<Rightarrow> (string \<Rightarrow> string \<Rightarrow> int) \<Rightarrow> placement_request list \<Rightarrow> node_descriptor list \<Rightarrow>
   ('r, 's) offer_options \<Rightarrow> 's \<Rightarrow> 'r offered_placement list \<times> 's" where
  "planWithOffers hash lc requests nodes options s =
     (let (placements, p) = plan_shards hash lc nodes options requests
                              \<lparr>headroom = [], stoodDown = [], inner = s\<rparr>
      in (placements, inner p))"

section \<open>The offer loop\<close>

lemma offer_loop_stop:
  "\<not> (length chosen < redundancy \<and> pool \<noteq> []) \<Longrightarrow>
   offer_loop hash lc admit k redundancy d pool chosen rejections probed s = (chosen, rejections, probed, s)"
  by (subst offer_loop.simps) (rule if_not_P)

lemma offer_loop_round:
  assumes "length chosen < redundancy" "pool \<noteq> []" "1 \<le> d"
  obtains c decision s' where "c \<in> set pool"
    "leastLoaded lc (sampleCandidates hash lc k pool d) = Some c"
    "ask admit \<lparr>of_shardId = k, of_nodeId = nd_nodeId c\<rparr> s = (decision, s')"
proof -
  have "sampleCandidates hash lc k pool d \<noteq> []" using sample_Nil assms by blast
  then obtain c where c: "leastLoaded lc (sampleCandidates hash lc k pool d) = Some c"
    by (metis leastLoaded_None not_Some_eq)
  then have "c \<in> set pool" by (blast dest: leastLoaded_mem sample_mem)
  with c that show ?thesis by (metis prod.exhaust)
qed

lemma offer_loop_accept:
  assumes "length chosen < redundancy" "pool \<noteq> []"
    "leastLoaded lc (sampleCandidates hash lc k pool d) = Some c"
    "ask admit \<lparr>of_shardId = k, of_nodeId = nd_nodeId c\<rparr> s = (None, s')"
  shows "offer_loop hash lc admit k redundancy d pool chosen rejections probed s =
     offer_loop hash lc admit k redundancy d (without_node (nd_nodeId c) pool)
       (chosen @ [nd_nodeId c]) rejections (probed + 1) s'"
  by (subst offer_loop.simps) (simp add: assms Let_def)

lemma offer_loop_refuse:
  assumes "length chosen < redundancy" "pool \<noteq> []"
    "leastLoaded lc (sampleCandidates hash lc k pool d) = Some c"
    "ask admit \<lparr>of_shardId = k, of_nodeId = nd_nodeId c\<rparr> s = (Some r, s')"
  shows "offer_loop hash lc admit k redundancy d pool chosen rejections probed s =
     offer_loop hash lc admit k redundancy d (without_node (nd_nodeId c) pool)
       chosen (rejections @ [\<lparr>rj_nodeId = nd_nodeId c, rj_reason = r\<rparr>]) (probed + 1) s'"
  by (subst offer_loop.simps) (simp add: assms Let_def)

text \<open>The rule for the loop: what every round keeps holds when it stops, and it stops only with
  enough nodes or with nobody left to ask.\<close>

lemma offer_loop_rule:
  assumes "1 \<le> d" "I pool chosen rejections probed s"
    and accept: "\<And>pool chosen rejections probed s c s'. I pool chosen rejections probed s \<Longrightarrow>
      length chosen < redundancy \<Longrightarrow> c \<in> set pool \<Longrightarrow>
      ask admit \<lparr>of_shardId = k, of_nodeId = nd_nodeId c\<rparr> s = (None, s') \<Longrightarrow>
      I (without_node (nd_nodeId c) pool) (chosen @ [nd_nodeId c]) rejections (probed + 1) s'"
    and refuse: "\<And>pool chosen rejections probed s c r s'. I pool chosen rejections probed s \<Longrightarrow>
      length chosen < redundancy \<Longrightarrow> c \<in> set pool \<Longrightarrow>
      ask admit \<lparr>of_shardId = k, of_nodeId = nd_nodeId c\<rparr> s = (Some r, s') \<Longrightarrow>
      I (without_node (nd_nodeId c) pool) chosen (rejections @ [\<lparr>rj_nodeId = nd_nodeId c, rj_reason = r\<rparr>])
        (probed + 1) s'"
  shows "\<exists>pool' c r p s'. offer_loop hash lc admit k redundancy d pool chosen rejections probed s = (c, r, p, s') \<and>
    I pool' c r p s' \<and> (redundancy \<le> length c \<or> pool' = [])"
  using assms(2)
proof (induction pool arbitrary: chosen rejections probed s rule: length_induct)
  case (1 pool)
  show ?case
  proof (cases "length chosen < redundancy \<and> pool \<noteq> []")
    case True
    obtain c decision s' where c: "c \<in> set pool"
      "leastLoaded lc (sampleCandidates hash lc k pool d) = Some c"
      "ask admit \<lparr>of_shardId = k, of_nodeId = nd_nodeId c\<rparr> s = (decision, s')"
      using True assms(1) by (elim conjE offer_loop_round)
    have less: "length (without_node (nd_nodeId c) pool) < length pool"
      using c(1) by (auto intro!: length_filter_less)
    show ?thesis
    proof (cases decision)
      case None
      note c' = c(2) c(3) [unfolded None]
      have "I (without_node (nd_nodeId c) pool) (chosen @ [nd_nodeId c]) rejections (probed + 1) s'"
        using True by (intro accept [OF 1(2) _ c(1) c'(2)]) simp
      with less 1(1) show ?thesis
        unfolding offer_loop_accept [OF conjunct1 [OF True] conjunct2 [OF True] c'] by blast
    next
      case (Some r)
      note c' = c(2) c(3) [unfolded Some]
      have "I (without_node (nd_nodeId c) pool) chosen (rejections @ [\<lparr>rj_nodeId = nd_nodeId c, rj_reason = r\<rparr>])
          (probed + 1) s'"
        using True by (intro refuse [OF 1(2) _ c(1) c'(2)]) simp
      with less 1(1) show ?thesis
        unfolding offer_loop_refuse [OF conjunct1 [OF True] conjunct2 [OF True] c'] by blast
    qed
  next
    case False
    with 1(2) show ?thesis by (auto simp: offer_loop_stop)
  qed
qed

text \<open>The books of one placement: everyone asked is either chosen or rejected, once.\<close>

abbreviation asked :: "string list \<Rightarrow> 'r rejection list \<Rightarrow> string list" where
  "asked chosen rejections \<equiv> chosen @ map rj_nodeId rejections"

definition books_ok ::
  "nat \<Rightarrow> string set \<Rightarrow> node_descriptor list \<Rightarrow> string list \<Rightarrow> 'r rejection list \<Rightarrow> nat \<Rightarrow> bool" where
  "books_ok redundancy ids pool chosen rejections probed \<longleftrightarrow>
     distinct (asked chosen rejections) \<and> set (asked chosen rejections) \<inter> nd_nodeId ` set pool = {} \<and>
     set (asked chosen rejections) \<union> nd_nodeId ` set pool = ids \<and>
     probed = length (asked chosen rejections) \<and> length chosen \<le> redundancy"

lemma books_round:
  assumes "books_ok red ids pool ch rj p" "c \<in> set pool"
  shows "length ch < red \<Longrightarrow> books_ok red ids (without_node (nd_nodeId c) pool) (ch @ [nd_nodeId c]) rj (p + 1)"
    "books_ok red ids (without_node (nd_nodeId c) pool) ch (rj @ [\<lparr>rj_nodeId = nd_nodeId c, rj_reason = r\<rparr>]) (p + 1)"
proof -
  have "nd_nodeId c \<notin> set (asked ch rj)" using assms unfolding books_ok_def by blast
  moreover have "insert (nd_nodeId c) (nd_nodeId ` set (without_node (nd_nodeId c) pool)) = nd_nodeId ` set pool"
    using assms(2) by auto
  ultimately show "length ch < red \<Longrightarrow> books_ok red ids (without_node (nd_nodeId c) pool) (ch @ [nd_nodeId c]) rj (p + 1)"
    "books_ok red ids (without_node (nd_nodeId c) pool) ch (rj @ [\<lparr>rj_nodeId = nd_nodeId c, rj_reason = r\<rparr>]) (p + 1)"
    using assms(1) unfolding books_ok_def by auto
qed

lemma offer_loop_books:
  assumes "1 \<le> d"
  shows "\<exists>pool' c r p s'. offer_loop hash lc admit k red d pool [] [] 0 s = (c, r, p, s') \<and>
    books_ok red (nd_nodeId ` set pool) pool' c r p \<and> (red \<le> length c \<or> pool' = [])"
  by (rule offer_loop_rule [OF assms, where I = "\<lambda>pool' c r p s. books_ok red (nd_nodeId ` set pool) pool' c r p"])
    (simp add: books_ok_def, (erule books_round; assumption)+)

lemma offer_loop_keeps:
  assumes "1 \<le> d" "J s" "\<And>off s. J s \<Longrightarrow> J (snd (ask admit off s))"
  shows "J (snd (snd (snd (offer_loop hash lc admit k red d pool [] [] 0 s))))"
proof -
  have J: "J s'" if "ask admit off s = (x, s')" "J s" for off s x s'
    using assms(3) [OF that(2), of off] that(1) by simp
  have "\<exists>(pool' :: node_descriptor list) c r p s'. offer_loop hash lc admit k red d pool [] [] 0 s = (c, r, p, s') \<and> J s' \<and>
      (red \<le> length c \<or> pool' = [])"
    by (rule offer_loop_rule [OF assms(1), where I = "\<lambda>_ _ _ _ s. J s"]) (auto intro: assms(2) J)
  then show ?thesis by auto
qed

section \<open>One placement\<close>

text \<open>A request the guards let through; a fan-out of probes that is a checked small integer.\<close>

definition probes :: "('r, 's) offer_options \<Rightarrow> jsnum" where
  "probes options = (case oo_d options of None \<Rightarrow> DEFAULT_D | Some d \<Rightarrow> d)"

definition probes_ok :: "('r, 's) offer_options \<Rightarrow> bool" where
  "probes_ok options \<longleftrightarrow> is_integer (probes options) \<and> \<not> js_lt (probes options) MIN_D \<and> \<not> js_gt (probes options) MAX_D"

lemma probes_pos: "probes_ok options \<Longrightarrow> 1 \<le> nat (int_of_num (probes options))"
  by (auto simp: probes_ok_def is_integer_iff MIN_D_def)

lemma place_loop:
  assumes "probes_ok options" "\<not> bad_redundancy r" "eligibleNodes r nodes \<noteq> []"
    and "offer_loop hash lc (oo_admit options) (pr_shardId r) (wanted_replicas r)
      (nat (int_of_num (probes options))) (eligibleNodes r nodes) [] [] 0 s = (c, rj, p, s')"
  shows "placeWithOffers hash lc r nodes options s =
    (if c = [] then Offered_unplaceable (pr_shardId r)
         (if rj \<noteq> [] then Every_node_refused (pr_shardId r) (length rj) else No_eligible_node_for (pr_shardId r)) rj p
     else Offered_placed (pr_shardId r) c (length c) (length c < wanted_replicas r) rj p, s')"
  using assms by (auto simp: placeWithOffers_def Let_def probes_ok_def probes_def)

lemma place_refused_early:
  "\<not> probes_ok options \<or> bad_redundancy r \<or> eligibleNodes r nodes = [] \<Longrightarrow>
   \<exists>f. placeWithOffers hash lc r nodes options s = (Offered_unplaceable (pr_shardId r) f [] 0, s)"
  by (auto simp: placeWithOffers_def Let_def probes_ok_def probes_def)

lemma place_cases:
  obtains f where "placeWithOffers hash lc r nodes options s = (Offered_unplaceable (pr_shardId r) f [] 0, s)"
    "\<not> probes_ok options \<or> bad_redundancy r \<or> eligibleNodes r nodes = []"
  | pool' c rj p s' where "probes_ok options" "\<not> bad_redundancy r"
    "offer_loop hash lc (oo_admit options) (pr_shardId r) (wanted_replicas r)
      (nat (int_of_num (probes options))) (eligibleNodes r nodes) [] [] 0 s = (c, rj, p, s')"
    "books_ok (wanted_replicas r) (nd_nodeId ` set (eligibleNodes r nodes)) pool' c rj p"
    "wanted_replicas r \<le> length c \<or> pool' = []"
    "placeWithOffers hash lc r nodes options s =
      (if c = [] then Offered_unplaceable (pr_shardId r)
           (if rj \<noteq> [] then Every_node_refused (pr_shardId r) (length rj) else No_eligible_node_for (pr_shardId r)) rj p
       else Offered_placed (pr_shardId r) c (length c) (length c < wanted_replicas r) rj p, s')"
proof (cases "probes_ok options \<and> \<not> bad_redundancy r \<and> eligibleNodes r nodes \<noteq> []")
  case True
  then have go: "probes_ok options" "\<not> bad_redundancy r" "eligibleNodes r nodes \<noteq> []" by auto
  from offer_loop_books [OF probes_pos [OF go(1)]] obtain pool' c rj p s' where
    "offer_loop hash lc (oo_admit options) (pr_shardId r) (wanted_replicas r)
      (nat (int_of_num (probes options))) (eligibleNodes r nodes) [] [] 0 s = (c, rj, p, s')"
    "books_ok (wanted_replicas r) (nd_nodeId ` set (eligibleNodes r nodes)) pool' c rj p"
    "wanted_replicas r \<le> length c \<or> pool' = []" by metis
  with that(2) go place_loop [OF go] show ?thesis by blast
next
  case False
  then show ?thesis using place_refused_early [of options r nodes] that(1) by blast
qed

lemma place_keeps:
  assumes "J s" "\<And>off s. J s \<Longrightarrow> J (snd (ask (oo_admit options) off s))"
  shows "J (snd (placeWithOffers hash lc r nodes options s))"
proof (cases rule: place_cases [of hash lc r nodes options s])
  case (1 f)
  with assms(1) show ?thesis by simp
next
  case (2 pool' c rj p s')
  have "J (snd (snd (snd (offer_loop hash lc (oo_admit options) (pr_shardId r) (wanted_replicas r)
      (nat (int_of_num (probes options))) (eligibleNodes r nodes) [] [] 0 s))))"
    by (rule offer_loop_keeps [where J = J, OF probes_pos [OF 2(1)] assms])
  with 2(3,6) show ?thesis by simp
qed

text \<open>A placement by offers keeps its books: the nodes it names are distinct, eligible and no more
  than were asked for; every node it asked is either named or among the refusals, never both and
  never twice, and \<open>probed\<close> counts them; it is degraded exactly when it names fewer nodes than
  asked for, and then every eligible node was asked.\<close>

theorem placement_by_offers_books:
  assumes "placeWithOffers hash lc r nodes options s = (Offered_placed k ids n deg rjs probed, s')"
  shows "ids \<noteq> [] \<and> distinct (ids @ map rj_nodeId rjs) \<and>
    set (ids @ map rj_nodeId rjs) \<subseteq> nd_nodeId ` set (eligibleNodes r nodes) \<and>
    n = length ids \<and> n \<le> wanted_replicas r \<and> probed = n + length rjs \<and> (deg \<longleftrightarrow> n < wanted_replicas r) \<and>
    (deg \<longrightarrow> set (ids @ map rj_nodeId rjs) = nd_nodeId ` set (eligibleNodes r nodes))"
proof (cases rule: place_cases [of hash lc r nodes options s])
  case (1 f)
  with assms show ?thesis by simp
next
  case (2 pool' c rj p s'')
  from assms 2(6) have eq: "c \<noteq> []" "ids = c" "n = length c" "deg = (length c < wanted_replicas r)" "rjs = rj"
    "probed = p" by (auto split: if_splits)
  from 2(4) have books: "distinct (asked c rj)" "set (asked c rj) \<union> nd_nodeId ` set pool' = nd_nodeId ` set (eligibleNodes r nodes)"
    "p = length (asked c rj)" "length c \<le> wanted_replicas r" by (simp_all add: books_ok_def)
  have "set (asked c rj) = nd_nodeId ` set (eligibleNodes r nodes)" if "length c < wanted_replicas r"
    using that 2(5) books(2) by auto
  with books eq show ?thesis by auto
qed

definition refuse_b :: "(string, nat) admit" where
  "refuse_b off s = (if of_nodeId off = ''b'' then Refused ''busy'' None Declining_this_offer else Accepted None, s + 1)"

definition demo_options :: "(string, nat) offer_options" where
  "demo_options = \<lparr>oo_d = None, oo_admit = Some refuse_b\<rparr>"

definition demo_offer_request :: placement_request where
  "demo_offer_request = demo_request\<lparr>pr_redundancy := Fin 2\<rparr>"

lemma demo_offer_placement:
  "placeWithOffers id unit_cmp demo_offer_request demo_nodes demo_options 0 =
    (Offered_placed ''s'' [''a''] 1 True [\<lparr>rj_nodeId = ''b'', rj_reason = ''busy''\<rparr>] 2, 2)"
  by (simp add: placeWithOffers_def demo_offer_request_def demo_request_def demo_nodes_def demo_node_def
      demo_options_def DEFAULT_D_def MIN_D_def MAX_D_def bad_redundancy_def eligibleNodes_def offer_loop.simps
      sampleCandidates_def by_id_map_def rendezvousRank_def leastLoaded_def by_load_def by_score_def js_or_def
      num_cmp_def ask_def refuse_b_def Let_def)

theorem placement_by_offers_books_witness:
  "[''a''] \<noteq> [] \<and> distinct ([''a''] @ map rj_nodeId [\<lparr>rj_nodeId = ''b'', rj_reason = ''busy''\<rparr>]) \<and>
    set ([''a''] @ map rj_nodeId [\<lparr>rj_nodeId = ''b'', rj_reason = ''busy''\<rparr>]) \<subseteq>
      nd_nodeId ` set (eligibleNodes demo_offer_request demo_nodes) \<and>
    1 = length [''a''] \<and> 1 \<le> wanted_replicas demo_offer_request \<and>
    1 < wanted_replicas demo_offer_request \<and> {''a'', ''b''} = nd_nodeId ` set (eligibleNodes demo_offer_request demo_nodes)"
  using placement_by_offers_books [OF demo_offer_placement] by auto

text \<open>A shard is given up only when everybody refused: when the request and the fan-out of probes
  are sound and some node is eligible, an unplaceable verdict lists every eligible node as a
  refusal, once each, and says so.\<close>

theorem unplaceable_means_all_refused:
  assumes "probes_ok options" "\<not> bad_redundancy r" "eligibleNodes r nodes \<noteq> []"
    and "placeWithOffers hash lc r nodes options s = (Offered_unplaceable k f rjs probed, s')"
  shows "set (map rj_nodeId rjs) = nd_nodeId ` set (eligibleNodes r nodes) \<and> distinct (map rj_nodeId rjs) \<and>
    probed = length rjs \<and> f = Every_node_refused (pr_shardId r) (length rjs)"
proof (cases rule: place_cases [of hash lc r nodes options s])
  case (1 g)
  with assms(1-3) show ?thesis by simp
next
  case (2 pool' c rj p s'')
  from assms(4) 2(6) have eq: "c = []" "rjs = rj" "probed = p"
    "f = (if rj \<noteq> [] then Every_node_refused (pr_shardId r) (length rj) else No_eligible_node_for (pr_shardId r))"
    by (auto split: if_splits)
  have "\<not> wanted_replicas r \<le> length c"
    using eq(1) wanted_replicas_pos [OF assms(2)] by (metis list.size(3) not_one_le_zero le_zero_eq)
  with 2(5) have "pool' = []" by blast
  with 2(4) eq(1) have "set (map rj_nodeId rj) = nd_nodeId ` set (eligibleNodes r nodes)"
    "distinct (map rj_nodeId rj)" "p = length rj" by (simp_all add: books_ok_def)
  moreover from this(1) assms(3) have "rj \<noteq> []" by auto
  ultimately show ?thesis using eq by simp
qed

definition refuse_all :: "(string, nat) admit" where
  "refuse_all off s = (Refused ''busy'' None Declining_this_offer, s + 1)"

theorem unplaceable_means_all_refused_witness:
  "set (map rj_nodeId [\<lparr>rj_nodeId = ''a'', rj_reason = ''busy''\<rparr>, \<lparr>rj_nodeId = ''b'', rj_reason = ''busy''\<rparr>]) =
     nd_nodeId ` set (eligibleNodes demo_offer_request demo_nodes) \<and>
   distinct (map rj_nodeId [\<lparr>rj_nodeId = ''a'', rj_reason = ''busy''\<rparr>, \<lparr>rj_nodeId = ''b'', rj_reason = ''busy''\<rparr>]) \<and>
   2 = length [\<lparr>rj_nodeId = ''a'', rj_reason = ''busy''\<rparr>, \<lparr>rj_nodeId = ''b'', rj_reason = ''busy''\<rparr>] \<and>
   Every_node_refused ''s'' 2 = Every_node_refused (pr_shardId demo_offer_request)
     (length [\<lparr>rj_nodeId = ''a'', rj_reason = ''busy''\<rparr>, \<lparr>rj_nodeId = ''b'', rj_reason = ''busy''\<rparr>])"
  by (rule unplaceable_means_all_refused [where options = "\<lparr>oo_d = None, oo_admit = Some refuse_all\<rparr>"
        and hash = id and lc = unit_cmp and s = 0 and s' = 2 and k = "''s''"])
    (simp_all add: placeWithOffers_def demo_offer_request_def demo_request_def demo_nodes_def demo_node_def
      DEFAULT_D_def MIN_D_def MAX_D_def bad_redundancy_def eligibleNodes_def offer_loop.simps
      sampleCandidates_def by_id_map_def rendezvousRank_def leastLoaded_def by_load_def by_score_def js_or_def
      num_cmp_def ask_def refuse_all_def Let_def probes_ok_def probes_def)

section \<open>The plan and its trace\<close>

text \<open>Observing a run: an admission control that also writes down what it was asked and answered.\<close>

definition logged :: "('r, 's) admit \<Rightarrow> ('r, 's \<times> (offer \<times> 'r admission) list) admit" where
  "logged f off st = (let (d, s') = f off (fst st) in (d, (s', snd st @ [(off, d)])))"

text \<open>An answer after which the node has nothing more to give in this plan: it declines all work, or
  the capacity it states leaves no room for another task.\<close>

definition room_left :: "'r admission \<Rightarrow> bool" where
  "room_left d = (case capacity_of d of
     None \<Rightarrow> True
   | Some c \<Rightarrow> cap_slots c - cap_inFlight c > (case d of Accepted _ \<Rightarrow> 1 | Refused _ _ _ \<Rightarrow> 0))"

definition exhausts :: "'r admission \<Rightarrow> bool" where
  "exhausts d \<longleftrightarrow> (\<exists>r c. d = Refused r c Declining_all_work) \<or> \<not> room_left d"

definition open_id :: "'s plan_state \<Rightarrow> string \<Rightarrow> bool" where
  "open_id p i \<longleftrightarrow> i \<notin> set (stoodDown p) \<and> js_gt (headroom_of p i) 0"

lemma still_open_id: "still_open p n = open_id p (nd_nodeId n)"
  by (simp add: still_open_def open_id_def)

lemma notes_other:
  "j \<noteq> i \<Longrightarrow> open_id (note_accepted i d (note_standing i d (note_capacity i d (p\<lparr>inner := s'\<rparr>)))) j = open_id p j"
  by (cases d) (auto simp: open_id_def headroom_of_def note_accepted_def note_standing_def note_capacity_def
      split: option.splits offer_standing.splits)

lemma notes_exhausted:
  "exhausts d \<Longrightarrow> \<not> open_id (note_accepted i d (note_standing i d (note_capacity i d (p\<lparr>inner := s'\<rparr>)))) i"
  by (cases d) (auto simp: open_id_def headroom_of_def note_accepted_def note_standing_def note_capacity_def
      exhausts_def room_left_def js_max0_def split: option.splits offer_standing.splits)

lemma notes_inner [simp]:
  "inner (note_accepted i d (note_standing i d (note_capacity i d p))) = inner p"
  by (cases d) (auto simp: note_accepted_def note_standing_def note_capacity_def
      split: option.splits offer_standing.splits)

definition no_reoffer :: "(offer \<times> 'r admission) list \<Rightarrow> bool" where
  "no_reoffer tr \<longleftrightarrow>
     sorted_wrt (\<lambda>x y. exhausts (snd x) \<longrightarrow> of_nodeId (fst y) \<noteq> of_nodeId (fst x)) tr"

definition trace_ok :: "('s \<times> (offer \<times> 'r admission) list) plan_state \<Rightarrow> bool" where
  "trace_ok p \<longleftrightarrow> no_reoffer (snd (inner p)) \<and>
     (\<forall>e \<in> set (snd (inner p)). exhausts (snd e) \<longrightarrow> \<not> open_id p (of_nodeId (fst e)))"

lemma trace_ok_offer:
  assumes "trace_ok p" "\<forall>e \<in> set (snd (inner p)). exhausts (snd e) \<longrightarrow> of_nodeId (fst e) \<noteq> of_nodeId off"
    and "recording (logged f) off p = (d, p')"
  shows "trace_ok p'" "snd (inner p') = snd (inner p) @ [(off, d)]"
proof -
  obtain d' s' where f': "f off (fst (inner p)) = (d', s')" by force
  with assms(3) have f: "f off (fst (inner p)) = (d, s')" by (simp add: recording_def logged_def Let_def)
  let ?i = "of_nodeId off"
  have p': "p' = note_accepted ?i d (note_standing ?i d (note_capacity ?i d (p\<lparr>inner := (s', snd (inner p) @ [(off, d)])\<rparr>)))"
    using assms(3) f by (simp add: recording_def logged_def Let_def)
  show log: "snd (inner p') = snd (inner p) @ [(off, d)]" by (simp add: p')
  have "no_reoffer (snd (inner p'))"
    using assms(1,2) unfolding log by (auto simp: no_reoffer_def trace_ok_def sorted_wrt_append)
  moreover have "\<not> open_id p' (of_nodeId (fst e))" if "e \<in> set (snd (inner p'))" "exhausts (snd e)" for e
  proof (cases "e \<in> set (snd (inner p))")
    case True
    with assms(2) that(2) have "of_nodeId (fst e) \<noteq> ?i" by blast
    with notes_other [where j = "of_nodeId (fst e)" and i = ?i and d = d and p = p] p' assms(1) True that(2) show ?thesis
      by (simp add: trace_ok_def)
  next
    case False
    with that log have "e = (off, d)" by simp
    with that(2) notes_exhausted [where d = d and i = ?i and p = p] p' show ?thesis by simp
  qed
  ultimately show "trace_ok p'" by (simp add: trace_ok_def)
qed

lemma ask_recording:
  "ask (Some (recording g)) off p = (out, p') \<Longrightarrow> \<exists>d. recording g off p = (d, p')"
  by (auto simp: ask_def split: prod.splits admission.splits)

text \<open>The loop asks only nodes that no earlier answer had exhausted.\<close>

lemma offer_loop_trace:
  fixes p :: "('s \<times> (offer \<times> 'r admission) list) plan_state"
  assumes "1 \<le> d" "trace_ok p" "\<And>n. n \<in> set pool \<Longrightarrow> open_id p (nd_nodeId n)"
  shows "trace_ok (snd (snd (snd (offer_loop hash lc (Some (recording (logged f))) k red d pool [] [] 0 p))))"
proof -
  let ?a = "Some (recording (logged f))"
  define I where "I = (\<lambda>(pool :: node_descriptor list) (c :: string list) (r :: 'r rejection list) (n :: nat)
      (p :: ('s \<times> (offer \<times> 'r admission) list) plan_state). trace_ok p \<and> (\<forall>m \<in> set pool. \<forall>e \<in> set (snd (inner p)).
      exhausts (snd e) \<longrightarrow> of_nodeId (fst e) \<noteq> nd_nodeId m))"
  have round: "I (without_node (nd_nodeId c) pool) ch' r' n' p'"
    if I: "I pool ch r n p" and c: "c \<in> set pool"
      and a: "ask ?a \<lparr>of_shardId = k, of_nodeId = nd_nodeId c\<rparr> p = (out, p')"
    for pool ch r n p c out p' ch' r' n'
  proof -
    from a obtain dec where dec: "recording (logged f) \<lparr>of_shardId = k, of_nodeId = nd_nodeId c\<rparr> p = (dec, p')"
      by (metis ask_recording)
    note t = trace_ok_offer [OF _ _ dec]
    from I c have "trace_ok p" "\<forall>e \<in> set (snd (inner p)). exhausts (snd e) \<longrightarrow> of_nodeId (fst e) \<noteq> nd_nodeId c"
      by (auto simp: I_def)
    with t I show ?thesis by (auto simp: I_def)
  qed
  have start: "I pool [] [] 0 p"
    unfolding I_def using assms(2,3) by (auto simp: trace_ok_def)
  have "\<exists>pool' c r n p'. offer_loop hash lc ?a k red d pool [] [] 0 p = (c, r, n, p') \<and> I pool' c r n p' \<and>
      (red \<le> length c \<or> pool' = [])"
    by (rule offer_loop_rule [OF assms(1), where I = I, OF start]) (erule round, assumption+)+
  then show ?thesis by (auto simp: I_def)
qed

lemma plan_shard_trace:
  assumes "trace_ok p"
  shows "trace_ok (snd (plan_shard hash lc nodes \<lparr>oo_d = d, oo_admit = Some (logged f)\<rparr> r p))"
proof (cases "filter (still_open p) nodes = [] \<and> nodes \<noteq> []")
  case True
  with assms show ?thesis by (simp add: plan_shard_def Let_def)
next
  case False
  let ?o = "\<lparr>oo_d = d, oo_admit = Some (recording (logged f))\<rparr>" and ?av = "filter (still_open p) nodes"
  have eq: "plan_shard hash lc nodes \<lparr>oo_d = d, oo_admit = Some (logged f)\<rparr> r p =
      placeWithOffers hash lc r ?av ?o p"
    using False by (auto simp: plan_shard_def Let_def)
  show ?thesis
  proof (cases rule: place_cases [of hash lc r ?av ?o p])
    case (1 g)
    with assms eq show ?thesis by simp
  next
    case (2 pool' c rj n p')
    have "open_id p (nd_nodeId m)" if "m \<in> set (eligibleNodes r ?av)" for m
      using that eligible_subset [of r ?av] still_open_id by auto
    then have "trace_ok (snd (snd (snd (offer_loop hash lc (Some (recording (logged f))) (pr_shardId r) (wanted_replicas r)
        (nat (int_of_num (probes ?o))) (eligibleNodes r ?av) [] [] 0 p))))"
      by (rule offer_loop_trace [OF probes_pos [OF 2(1)] assms])
    with 2(3,6) eq show ?thesis by simp
  qed
qed

lemma plan_shards_trace:
  "trace_ok p \<Longrightarrow> trace_ok (snd (plan_shards hash lc nodes \<lparr>oo_d = d, oo_admit = Some (logged f)\<rparr> rs p))"
proof (induction rs arbitrary: p)
  case (Cons r rs)
  let ?s = "plan_shard hash lc nodes \<lparr>oo_d = d, oo_admit = Some (logged f)\<rparr> r p"
  have "trace_ok (snd ?s)" using Cons.prems by (rule plan_shard_trace)
  then show ?case using Cons.IH [of "snd ?s"] by (simp add: split_beta Let_def)
qed simp

text \<open>A plan listens to its nodes: once a node has answered that it declines all work, or has stated
  a capacity with no room for another task, no later shard of the plan offers it anything.\<close>

theorem plan_never_reoffers_exhausted_node:
  assumes "planWithOffers hash lc requests nodes \<lparr>oo_d = d, oo_admit = Some (logged f)\<rparr> (s, []) = (ps, (s', tr))"
    and "i < j" "j < length tr" "exhausts (snd (tr ! i))"
  shows "of_nodeId (fst (tr ! j)) \<noteq> of_nodeId (fst (tr ! i))"
proof -
  let ?p0 = "\<lparr>headroom = [], stoodDown = [], inner = (s, [])\<rparr>"
  have "trace_ok ?p0" by (simp add: trace_ok_def no_reoffer_def)
  then have "trace_ok (snd (plan_shards hash lc nodes \<lparr>oo_d = d, oo_admit = Some (logged f)\<rparr> requests ?p0))"
    by (rule plan_shards_trace)
  with assms(1) have "no_reoffer tr" by (auto simp: planWithOffers_def trace_ok_def split: prod.splits)
  with assms(2-4) show ?thesis by (auto simp: no_reoffer_def sorted_wrt_iff_nth_less)
qed

definition a_stands_down :: "(string, nat) admit" where
  "a_stands_down off s =
     (if of_nodeId off = ''a'' then Refused ''out'' None Declining_all_work else Accepted None, s + 1)"

definition demo_trace :: "(offer \<times> string admission) list" where
  "demo_trace = [(\<lparr>of_shardId = ''s'', of_nodeId = ''a''\<rparr>, Refused ''out'' None Declining_all_work),
     (\<lparr>of_shardId = ''s'', of_nodeId = ''b''\<rparr>, Accepted None),
     (\<lparr>of_shardId = ''s'', of_nodeId = ''b''\<rparr>, Accepted None)]"

lemma demo_plan_trace:
  "planWithOffers id unit_cmp [demo_request, demo_request] demo_nodes
     \<lparr>oo_d = None, oo_admit = Some (logged a_stands_down)\<rparr> (0, []) =
   ([Offered_placed ''s'' [''b''] 1 False [\<lparr>rj_nodeId = ''a'', rj_reason = ''out''\<rparr>] 2,
     Offered_placed ''s'' [''b''] 1 False [] 1], (3, demo_trace))"
  by (simp add: planWithOffers_def plan_shard_def placeWithOffers_def demo_request_def demo_nodes_def demo_node_def
      DEFAULT_D_def MIN_D_def MAX_D_def bad_redundancy_def eligibleNodes_def offer_loop.simps
      sampleCandidates_def by_id_map_def rendezvousRank_def leastLoaded_def by_load_def by_score_def js_or_def
      num_cmp_def ask_def a_stands_down_def recording_def logged_def note_capacity_def note_standing_def
      note_accepted_def headroom_of_def js_max0_def still_open_def set_add_def demo_trace_def Let_def)

theorem plan_never_reoffers_exhausted_node_witness:
  "of_nodeId (fst (demo_trace ! 2)) \<noteq> of_nodeId (fst (demo_trace ! 0))"
  by (rule plan_never_reoffers_exhausted_node [OF demo_plan_trace, of 0 2])
    (simp_all add: demo_trace_def exhausts_def)

section \<open>The contract of a provider\<close>

text \<open>
  What a node's own admission control promises the planner: it keeps its invariant, and an offer
  it refuses costs it nothing.
\<close>

locale admission_control =
  fixes admit :: "('r, 's) admit" and sound :: "'s \<Rightarrow> bool"
  assumes admit_keeps: "sound s \<Longrightarrow> sound (snd (admit off s))"
    and refusal_costs_nothing: "admit off s = (Refused r c st, s') \<Longrightarrow> s' = s"
begin

lemma ask_keeps: "sound s \<Longrightarrow> sound (snd (ask (Some admit) off s))"
  using admit_keeps [of s off] by (auto simp: ask_def split: prod.splits admission.splits)

lemma recording_keeps: "sound (inner p) \<Longrightarrow> sound (inner (snd (ask (Some (recording admit)) off p)))"
  using admit_keeps [of "inner p" off]
  by (auto simp: ask_def recording_def Let_def split: prod.splits admission.splits)

lemma placement_keeps: "sound s \<Longrightarrow> oo_admit options = Some admit \<Longrightarrow>
  sound (snd (placeWithOffers hash lc r nodes options s))"
  by (rule place_keeps [where J = sound]) (simp_all add: ask_keeps)

lemma plan_shard_keeps: "sound (inner p) \<Longrightarrow> oo_admit options = Some admit \<Longrightarrow>
  sound (inner (snd (plan_shard hash lc nodes options r p)))"
  unfolding plan_shard_def Let_def
  by (auto intro: place_keeps [where J = "\<lambda>p. sound (inner p)"] simp: recording_keeps)

lemma plan_shards_keeps: "sound (inner p) \<Longrightarrow> oo_admit options = Some admit \<Longrightarrow>
  sound (inner (snd (plan_shards hash lc nodes options rs p)))"
proof (induction rs arbitrary: p)
  case (Cons r rs)
  then show ?case using plan_shard_keeps [OF Cons.prems, of hash lc nodes r] by (simp add: split_beta Let_def)
qed simp

lemma plan_keeps: "sound s \<Longrightarrow> oo_admit options = Some admit \<Longrightarrow>
  sound (snd (planWithOffers hash lc rs nodes options s))"
  using plan_shards_keeps [of "\<lparr>headroom = [], stoodDown = [], inner = s\<rparr>" options hash lc nodes rs]
  by (simp add: planWithOffers_def split_beta Let_def)

text \<open>A placement that reaches nobody leaves the provider as it was.\<close>

lemma unplaced_unchanged:
  assumes "oo_admit options = Some admit"
    and "placeWithOffers hash lc r nodes options s = (Offered_unplaceable k f rjs n, s')"
  shows "s' = s"
proof (cases rule: place_cases [of hash lc r nodes options s])
  case (1 g)
  with assms(2) show ?thesis by simp
next
  case (2 pool' c rj p s'')
  have un: "s2 = s1" if "ask (Some admit) off s1 = (Some x, s2)" for off s1 x s2
    using that refusal_costs_nothing [of off s1] by (auto simp: ask_def split: prod.splits admission.splits)
  have "\<exists>(pool' :: node_descriptor list) c r' p s'. offer_loop hash lc (Some admit) (pr_shardId r) (wanted_replicas r)
      (nat (int_of_num (probes options))) (eligibleNodes r nodes) [] [] 0 s = (c, r', p, s') \<and>
      (c = [] \<longrightarrow> s' = s) \<and> (wanted_replicas r \<le> length c \<or> pool' = [])"
    by (rule offer_loop_rule [OF probes_pos [OF 2(1)], where I = "\<lambda>_ c _ _ s'. c = [] \<longrightarrow> s' = s"])
      (auto dest: un)
  with 2(3,6) assms show ?thesis by (auto split: if_splits)
qed

end

end
