(* ===== verification/Capacity.thy ===== *)
theory Capacity
  imports Placement
begin

text \<open>
  A node's own admission control: \<open>LocalCapacity\<close> of \<open>packages/core/src/placement.ts\<close>.

  The duty cycle is a fixed number or a governor that is read at every call; a governor's reading
  is the argument \<open>g\<close> of the operations.  \<open>LocalCapacity.offer\<close> is the provider of the planner's
  admission control, so the theory interprets that contract on it.
\<close>

section \<open>The state and the operations\<close>

datatype duty_cycle = Fixed_duty rat | Governed

record local_capacity =
  lcap_nodeId :: string
  maxConcurrent :: nat
  dutyCycle :: duty_cycle
  inFlight :: "string list"
  peak :: nat

datatype capacity_error = Bad_max_concurrent jsnum | Bad_duty_cycle jsnum

datatype capacity_reason =
    Already_in_flight string
  | Over_committed nat nat "rat option"

text \<open>The constructor's \<open>dutyCycle\<close> option: left out, a number, or a governor.\<close>

datatype duty_option = Default_duty | Duty jsnum | Duty_governor

definition new_local_capacity :: "string \<Rightarrow> jsnum \<Rightarrow> duty_option \<Rightarrow> capacity_error + local_capacity" where
  "new_local_capacity node max_concurrent duty =
     (let fresh = (\<lambda>d. \<lparr>lcap_nodeId = node, maxConcurrent = nat (int_of_num max_concurrent), dutyCycle = d,
                       inFlight = [], peak = 0\<rparr>)
      in if \<not> is_integer max_concurrent \<or> js_lt max_concurrent 1
         then Inl (Bad_max_concurrent max_concurrent)
         else case duty of
                Default_duty \<Rightarrow> Inr (fresh (Fixed_duty 1))
              | Duty d \<Rightarrow> (case d of
                    Fin r \<Rightarrow> if \<not> (r > 0) \<or> r > 1 then Inl (Bad_duty_cycle d) else Inr (fresh (Fixed_duty r))
                  | _ \<Rightarrow> Inl (Bad_duty_cycle d))
              | Duty_governor \<Rightarrow> Inr (fresh Governed))"

definition duty_now :: "rat \<Rightarrow> local_capacity \<Rightarrow> rat" where
  "duty_now g t = (case dutyCycle t of Fixed_duty d \<Rightarrow> d | Governed \<Rightarrow> g)"

definition slots :: "rat \<Rightarrow> local_capacity \<Rightarrow> int" where
  "slots g t = max 1 \<lfloor>of_nat (maxConcurrent t) * duty_now g t\<rfloor>"

definition capacity_load :: "rat \<Rightarrow> local_capacity \<Rightarrow> rat" where
  "capacity_load g t = of_nat (length (inFlight t)) / of_int (slots g t)"

definition stated_capacity :: "int \<Rightarrow> local_capacity \<Rightarrow> node_capacity" where
  "stated_capacity n t = \<lparr>cap_slots = of_int n, cap_inFlight = of_nat (length (inFlight t))\<rparr>"

definition decide_offer :: "rat \<Rightarrow> offer \<Rightarrow> local_capacity \<Rightarrow> capacity_reason admission" where
  "decide_offer g off t =
     (let n = slots g t; duty = duty_now g t; cap = Some (stated_capacity n t)
      in if of_shardId off \<in> set (inFlight t)
         then Refused (Already_in_flight (of_shardId off)) cap Declining_this_offer
         else if int (length (inFlight t)) \<ge> n
         then Refused (Over_committed (length (inFlight t)) (nat n) (if duty < 1 then Some duty else None))
                cap Declining_this_offer
         else Accepted cap)"

definition would :: "rat \<Rightarrow> offer \<Rightarrow> local_capacity \<Rightarrow> capacity_reason admission" where
  "would g off t = decide_offer g off t"

definition take_offer :: "rat \<Rightarrow> offer \<Rightarrow> local_capacity \<Rightarrow> capacity_reason admission \<times> local_capacity" where
  "take_offer g off t =
     (let decision = decide_offer g off t
      in case decision of
           Refused _ _ _ \<Rightarrow> (decision, t)
         | Accepted _ \<Rightarrow>
             let flying = set_add (of_shardId off) (inFlight t)
             in (decision, t\<lparr>inFlight := flying, peak := max (peak t) (length flying)\<rparr>))"

definition release :: "string \<Rightarrow> local_capacity \<Rightarrow> local_capacity" where
  "release shardId t = t\<lparr>inFlight := filter (\<lambda>s. s \<noteq> shardId) (inFlight t)\<rparr>"

section \<open>The invariant\<close>

definition capacity_inv :: "local_capacity \<Rightarrow> bool" where
  "capacity_inv t \<longleftrightarrow> distinct (inFlight t) \<and> length (inFlight t) \<le> peak t \<and> 1 \<le> maxConcurrent t \<and>
     (case dutyCycle t of Fixed_duty d \<Rightarrow> 0 < d \<and> d \<le> 1 | Governed \<Rightarrow> True)"

text \<open>Within its slots at the governor's reading \<open>g\<close>.\<close>

definition within_slots :: "rat \<Rightarrow> local_capacity \<Rightarrow> bool" where
  "within_slots g t \<longleftrightarrow> capacity_inv t \<and> int (length (inFlight t)) \<le> slots g t"

lemma new_capacity_inv: "new_local_capacity n m d = Inr t \<Longrightarrow> capacity_inv t"
proof -
  assume new: "new_local_capacity n m d = Inr t"
  then have "is_integer m" "\<not> js_lt m 1" by (auto simp: new_local_capacity_def Let_def split: if_splits)
  then have "1 \<le> nat (int_of_num m)" by (auto simp: is_integer_iff)
  with new show ?thesis
    by (auto simp: new_local_capacity_def Let_def capacity_inv_def split: if_splits duty_option.splits jsnum.splits)
qed

lemma slots_pos: "1 \<le> slots g t"
  by (simp add: slots_def)

lemma slots_le_max: "1 \<le> maxConcurrent t \<Longrightarrow> duty_now g t \<le> 1 \<Longrightarrow> slots g t \<le> int (maxConcurrent t)"
proof -
  assume "1 \<le> maxConcurrent t" "duty_now g t \<le> 1"
  then have "of_nat (maxConcurrent t) * duty_now g t \<le> (of_nat (maxConcurrent t) :: rat)"
    by (metis mult.right_neutral mult_left_mono of_nat_0_le_iff)
  then have "\<lfloor>of_nat (maxConcurrent t) * duty_now g t\<rfloor> \<le> int (maxConcurrent t)"
    by (simp add: floor_le_iff)
  with \<open>1 \<le> maxConcurrent t\<close> show ?thesis by (simp add: slots_def)
qed

lemma duty_fixed: "capacity_inv t \<Longrightarrow> dutyCycle t = Fixed_duty d \<Longrightarrow> duty_now g t \<le> 1"
  by (simp add: capacity_inv_def duty_now_def)

lemma take_offer_accepted:
  assumes "take_offer g off t = (Accepted c, t')"
  shows "of_shardId off \<notin> set (inFlight t)" "int (length (inFlight t)) < slots g t"
    "t' = t\<lparr>inFlight := inFlight t @ [of_shardId off], peak := max (peak t) (length (inFlight t) + 1)\<rparr>"
    "c = Some (stated_capacity (slots g t) t)"
  using assms by (auto simp: take_offer_def decide_offer_def Let_def set_add_def split: if_splits)

lemma take_offer_refused:
  "take_offer g off t = (Refused r c st, t') \<Longrightarrow> t' = t \<and> st = Declining_this_offer \<and>
     c = Some (stated_capacity (slots g t) t) \<and>
     (of_shardId off \<in> set (inFlight t) \<or> slots g t \<le> int (length (inFlight t)))"
  by (auto simp: take_offer_def decide_offer_def Let_def split: if_splits)

lemma slots_cong: "maxConcurrent t' = maxConcurrent t \<Longrightarrow> dutyCycle t' = dutyCycle t \<Longrightarrow> slots g t' = slots g t"
  by (simp add: slots_def duty_now_def)

lemma take_offer_cases:
  "P t \<Longrightarrow> (of_shardId off \<notin> set (inFlight t) \<Longrightarrow> int (length (inFlight t)) < slots g t \<Longrightarrow>
     P (t\<lparr>inFlight := inFlight t @ [of_shardId off], peak := max (peak t) (length (inFlight t) + 1)\<rparr>)) \<Longrightarrow>
   P (snd (take_offer g off t))"
  by (simp add: take_offer_def decide_offer_def Let_def set_add_def)

lemma take_offer_inv: "capacity_inv t \<Longrightarrow> capacity_inv (snd (take_offer g off t))"
  by (rule take_offer_cases [where P = capacity_inv]) (auto simp: capacity_inv_def)

lemma release_inv: "capacity_inv t \<Longrightarrow> capacity_inv (release s t)"
  unfolding capacity_inv_def release_def by (auto intro: le_trans [OF length_filter_le])

lemma take_offer_within: "within_slots g t \<Longrightarrow> within_slots g (snd (take_offer g off t))"
proof -
  assume w: "within_slots g t"
  then have inv: "capacity_inv (snd (take_offer g off t))" by (simp add: within_slots_def take_offer_inv)
  have "int (length (inFlight (snd (take_offer g off t)))) \<le> slots g (snd (take_offer g off t))"
    using w by (intro take_offer_cases [where P = "\<lambda>t. int (length (inFlight t)) \<le> slots g t"])
      (auto simp: within_slots_def slots_def duty_now_def)
  with inv show ?thesis by (simp add: within_slots_def)
qed

lemma release_within: "within_slots g t \<Longrightarrow> within_slots g (release s t)"
proof -
  assume w: "within_slots g t"
  have "length (inFlight (release s t)) \<le> length (inFlight t)" by (simp add: release_def)
  moreover have "slots g (release s t) = slots g t" by (simp add: release_def slots_def duty_now_def)
  ultimately show ?thesis using w by (simp add: within_slots_def release_inv)
qed

text \<open>The provider meets the planner's contract, at any reading of the governor.\<close>

interpretation local_admission: admission_control "take_offer g" "within_slots g" for g
proof unfold_locales
  show "within_slots g s \<Longrightarrow> within_slots g (snd (take_offer g off s))" for s off
    by (rule take_offer_within)
  show "s' = s" if "take_offer g off s = (Refused r c st, s')" for off s r c st s'
    using take_offer_refused [OF that] by simp
qed

section \<open>Properties\<close>

text \<open>A node's life: offers, each at the governor's reading of the moment, and releases.\<close>

datatype capacity_op = Take_op rat offer | Release_op string

fun apply_op :: "capacity_op \<Rightarrow> local_capacity \<Rightarrow> local_capacity" where
  "apply_op (Take_op g off) t = snd (take_offer g off t)"
| "apply_op (Release_op s) t = release s t"

definition run_ops :: "capacity_op list \<Rightarrow> local_capacity \<Rightarrow> local_capacity" where
  "run_ops ops t = foldl (\<lambda>t op. apply_op op t) t ops"

fun reading_ok :: "capacity_op \<Rightarrow> bool" where
  "reading_ok (Take_op g off) \<longleftrightarrow> g \<le> 1"
| "reading_ok (Release_op s) \<longleftrightarrow> True"

lemma apply_op_fixed:
  "maxConcurrent (apply_op op t) = maxConcurrent t" "dutyCycle (apply_op op t) = dutyCycle t"
  "peak t \<le> peak (apply_op op t)"
  by (cases op; simp add: take_offer_def decide_offer_def release_def Let_def)+

lemma apply_op_inv: "capacity_inv t \<Longrightarrow> capacity_inv (apply_op op t)"
  by (cases op) (simp_all add: take_offer_inv release_inv)

lemma apply_op_bound:
  assumes "capacity_inv t" "reading_ok op" "peak t \<le> maxConcurrent t"
  shows "peak (apply_op op t) \<le> maxConcurrent t"
proof (cases op)
  case (Take_op g off)
  have "duty_now g t \<le> 1" using assms(1,2) Take_op by (auto simp: duty_now_def capacity_inv_def split: duty_cycle.splits)
  then have "slots g t \<le> int (maxConcurrent t)" using assms(1) by (intro slots_le_max) (simp_all add: capacity_inv_def)
  with assms(3) show ?thesis unfolding Take_op apply_op.simps
    by (intro take_offer_cases [where P = "\<lambda>u. peak u \<le> maxConcurrent t"]) auto
qed (use assms in \<open>simp add: release_def\<close>)

lemma run_ops_bound:
  "capacity_inv t \<Longrightarrow> peak t \<le> maxConcurrent t \<Longrightarrow> list_all reading_ok ops \<Longrightarrow>
   capacity_inv (run_ops ops t) \<and> peak (run_ops ops t) \<le> maxConcurrent t \<and>
   maxConcurrent (run_ops ops t) = maxConcurrent t \<and> dutyCycle (run_ops ops t) = dutyCycle t"
proof (induction ops arbitrary: t)
  case (Cons op ops)
  from Cons.IH [of "apply_op op t"] Cons.prems apply_op_inv [where op = op and t = t] apply_op_bound [where op = op and t = t] apply_op_fixed [where op = op and t = t]
  show ?case by (simp add: run_ops_def)
qed (simp add: run_ops_def)

lemma run_ops_within: "within_slots g t \<Longrightarrow> dutyCycle t = Fixed_duty d \<Longrightarrow> within_slots g (run_ops ops t)"
proof (induction ops arbitrary: t)
  case (Cons op ops)
  have "within_slots g (apply_op op t)"
  proof (cases op)
    case (Take_op h off)
    have "slots h t = slots g t" using Cons.prems(2) by (simp add: slots_def duty_now_def)
    then have "within_slots h t" using Cons.prems(1) by (simp add: within_slots_def)
    from take_offer_within [OF this, of off] have "within_slots h (apply_op op t)" by (simp add: Take_op)
    moreover have "slots h (apply_op op t) = slots g (apply_op op t)"
      using Cons.prems(2) apply_op_fixed(2) [where op = op and t = t] by (simp add: slots_def duty_now_def)
    ultimately show ?thesis by (simp add: within_slots_def)
  qed (simp add: release_within Cons.prems)
  with Cons.IH [of "apply_op op t"] Cons.prems apply_op_fixed(2) [where op = op and t = t] show ?case by (simp add: run_ops_def)
qed (simp add: run_ops_def)

text \<open>C12: A node never runs more than it offered to: whatever sequence of offers and releases it
  sees, as long as no reading of its duty cycle exceeds 1, it never had more tasks in flight than
  \<open>maxConcurrent\<close>, not even at its peak; and with a fixed duty cycle it stays within its slots.\<close>

theorem capacity_never_overcommitted:
  assumes "new_local_capacity n m d = Inr t0" "list_all reading_ok ops"
  shows "length (inFlight (run_ops ops t0)) \<le> peak (run_ops ops t0) \<and>
    peak (run_ops ops t0) \<le> maxConcurrent t0 \<and> distinct (inFlight (run_ops ops t0)) \<and>
    (d \<noteq> Duty_governor \<longrightarrow> int (length (inFlight (run_ops ops t0))) \<le> slots g (run_ops ops t0))"
proof -
  note inv = new_capacity_inv [OF assms(1)]
  have fresh: "inFlight t0 = []" "peak t0 = 0" "d \<noteq> Duty_governor \<Longrightarrow> \<exists>r. dutyCycle t0 = Fixed_duty r"
    using assms(1)
    by (auto simp: new_local_capacity_def Let_def split: if_splits duty_option.splits jsnum.splits)
  have "within_slots g t0" using inv fresh(1) slots_pos [of g t0] by (simp add: within_slots_def)
  with fresh(3) have "d \<noteq> Duty_governor \<Longrightarrow> within_slots g (run_ops ops t0)" by (blast intro: run_ops_within)
  with run_ops_bound [OF inv _ assms(2)] fresh(2) show ?thesis
    by (auto simp: capacity_inv_def within_slots_def)
qed

definition demo_capacity :: local_capacity where
  "demo_capacity = \<lparr>lcap_nodeId = ''n'', maxConcurrent = 4, dutyCycle = Fixed_duty (1 / 2), inFlight = [], peak = 0\<rparr>"

lemma demo_capacity_new: "new_local_capacity ''n'' (Fin 4) (Duty (Fin (1 / 2))) = Inr demo_capacity"
  by (simp add: new_local_capacity_def demo_capacity_def Let_def)

definition demo_offer :: "string \<Rightarrow> offer" where
  "demo_offer s = \<lparr>of_shardId = s, of_nodeId = ''n''\<rparr>"

definition demo_ops :: "capacity_op list" where
  "demo_ops = [Take_op 1 (demo_offer ''a''), Take_op 1 (demo_offer ''b''), Take_op 1 (demo_offer ''c''), Release_op ''a'']"

theorem capacity_never_overcommitted_witness:
  "length (inFlight (run_ops demo_ops demo_capacity)) \<le> peak (run_ops demo_ops demo_capacity) \<and>
    peak (run_ops demo_ops demo_capacity) \<le> maxConcurrent demo_capacity \<and>
    distinct (inFlight (run_ops demo_ops demo_capacity)) \<and>
    int (length (inFlight (run_ops demo_ops demo_capacity))) \<le> slots 1 (run_ops demo_ops demo_capacity)"
  using capacity_never_overcommitted [OF demo_capacity_new, of demo_ops 1] by (simp add: demo_ops_def)

text \<open>A dry run tells the truth and a slot is given back whole: \<open>would\<close> gives the answer \<open>offer\<close>
  gives; an offer is accepted exactly when its shard is not in flight and a slot is free; a refusal
  changes nothing; and releasing an accepted shard restores the tasks in flight and the load.\<close>

theorem capacity_offer_exact:
  shows "fst (take_offer g off t) = would g off t \<and>
    ((\<exists>c. would g off t = Accepted c) \<longleftrightarrow>
      of_shardId off \<notin> set (inFlight t) \<and> int (length (inFlight t)) < slots g t) \<and>
    ((\<nexists>c. would g off t = Accepted c) \<longrightarrow> snd (take_offer g off t) = t) \<and>
    ((\<exists>c. would g off t = Accepted c) \<longrightarrow>
      inFlight (release (of_shardId off) (snd (take_offer g off t))) = inFlight t \<and>
      capacity_load g (release (of_shardId off) (snd (take_offer g off t))) = capacity_load g t)"
proof -
  have keep: "filter (\<lambda>s. s \<noteq> x) xs = xs" if "x \<notin> set xs" for x :: string and xs
    using that by (induction xs) auto
  show ?thesis
    by (auto simp: take_offer_def would_def decide_offer_def Let_def release_def set_add_def capacity_load_def
        slots_def duty_now_def keep)
qed

theorem capacity_offer_exact_witness:
  "inFlight (release ''a'' (snd (take_offer 1 (demo_offer ''a'') demo_capacity))) = inFlight demo_capacity"
  using capacity_offer_exact [of 1 "demo_offer ''a''" demo_capacity]
  by (simp add: demo_offer_def demo_capacity_def would_def decide_offer_def slots_def duty_now_def Let_def)

text \<open>A planner cannot overload a node: a whole plan of offers made to a node that is within its
  slots leaves it within its slots, and a shard that could not be placed on it costs it nothing.\<close>

theorem plan_respects_node_slots:
  assumes "within_slots g t" "oo_admit options = Some (take_offer g)"
  shows "within_slots g (snd (planWithOffers hash lc requests nodes options t)) \<and>
    (\<forall>r k f rjs n t'. placeWithOffers hash lc r nodes options t = (Offered_unplaceable k f rjs n, t') \<longrightarrow> t' = t)"
  using local_admission.plan_keeps [OF assms] local_admission.unplaced_unchanged [OF assms(2)] by blast

theorem plan_respects_node_slots_witness:
  "within_slots 1 (snd (planWithOffers id unit_cmp [demo_request] demo_nodes
      \<lparr>oo_d = None, oo_admit = Some (take_offer 1)\<rparr> demo_capacity))"
proof -
  have "within_slots 1 demo_capacity"
    by (simp add: within_slots_def capacity_inv_def demo_capacity_def slots_def duty_now_def)
  from plan_respects_node_slots [OF this] show ?thesis by simp
qed

end
