(* ===== verification/Speculation.thy ===== *)
theory Speculation
  imports Sovereignty
begin

text \<open>
  Stragglers and speculative copies: \<open>packages/core/src/speculation.ts\<close>.

  Times are rationals in milliseconds.  The ledger's allowance stays a \<open>jsnum\<close> because the source
  computes it from an unbounded \<open>fraction\<close> and compares \<open>spent\<close> with it.  The lemmas bound what
  speculation may cost, say which tasks count as stragglers, and settle a race.
\<close>

section \<open>Stragglers\<close>

definition DEFAULT_SPECULATION_FRACTION :: rat where "DEFAULT_SPECULATION_FRACTION = 1 / 10"
definition DEFAULT_STRAGGLER_FACTOR :: rat where "DEFAULT_STRAGGLER_FACTOR = 3 / 2"
definition MIN_SAMPLES :: nat where "MIN_SAMPLES = 3"

record in_flight =
  if_taskId :: string
  if_nodeId :: string
  if_startedAt :: rat

record straggler_options =
  so_completed :: "rat list"
  so_factor :: "rat option"
  so_minSamples :: "nat option"

definition median :: "rat list \<Rightarrow> rat" where
  "median values =
     (if values = [] then 0
      else let sorted_values = js_sort num_cmp values; mid = length sorted_values div 2
           in if length sorted_values mod 2 = 1 then sorted_values ! mid
              else (sorted_values ! (mid - 1) + sorted_values ! mid) / 2)"

definition by_start :: "(string \<Rightarrow> string \<Rightarrow> int) \<Rightarrow> in_flight \<Rightarrow> in_flight \<Rightarrow> int" where
  "by_start lc a b = js_or (num_cmp (if_startedAt a) (if_startedAt b)) (lc (if_taskId a) (if_taskId b))"

definition stragglers ::
  "(string \<Rightarrow> string \<Rightarrow> int) \<Rightarrow> in_flight list \<Rightarrow> rat \<Rightarrow> straggler_options \<Rightarrow> in_flight list" where
  "stragglers lc flying now options =
     (let minSamples = (case so_minSamples options of None \<Rightarrow> MIN_SAMPLES | Some n \<Rightarrow> n)
      in if length (so_completed options) < minSamples then []
         else let factor = (case so_factor options of None \<Rightarrow> DEFAULT_STRAGGLER_FACTOR | Some f \<Rightarrow> f);
                  threshold = median (so_completed options) * factor
              in if \<not> (threshold > 0) then []
                 else js_sort (by_start lc) (filter (\<lambda>t. now - if_startedAt t > threshold) flying))"

section \<open>The ledger\<close>

record race_loser =
  rl_nodeId :: string
  rl_disagreed :: bool

record discarded_copy = race_loser +
  dc_taskId :: string

record speculation_ledger =
  allowance :: jsnum
  sl_tasks :: nat
  sl_duplicated :: "string list"
  sl_discarded :: "discarded_copy list"
  spent :: nat

datatype ledger_error = Bad_tasks jsnum | Bad_fraction jsnum

text \<open>\<open>Math.floor(tasks * fraction)\<close> for a non-negative integer and a non-negative fraction.\<close>

definition allowance_for :: "nat \<Rightarrow> jsnum \<Rightarrow> jsnum" where
  "allowance_for tasks fraction =
     (case fraction of
        Fin q \<Rightarrow> Fin (of_int \<lfloor>of_nat tasks * q\<rfloor>)
      | PosInf \<Rightarrow> (if tasks = 0 then NaN else PosInf)
      | NegInf \<Rightarrow> (if tasks = 0 then NaN else NegInf)
      | NaN \<Rightarrow> NaN)"

definition new_speculation_ledger :: "jsnum \<Rightarrow> jsnum option \<Rightarrow> ledger_error + speculation_ledger" where
  "new_speculation_ledger tasks fraction_opt =
     (let fraction = (case fraction_opt of None \<Rightarrow> Fin DEFAULT_SPECULATION_FRACTION | Some f \<Rightarrow> f)
      in if \<not> is_integer tasks \<or> js_lt tasks 0 then Inl (Bad_tasks tasks)
         else if \<not> js_ge fraction 0 then Inl (Bad_fraction fraction)
         else let n = nat (int_of_num tasks)
              in Inr \<lparr>allowance = allowance_for n fraction, sl_tasks = n, sl_duplicated = [],
                      sl_discarded = [], spent = 0\<rparr>)"

definition ledger_remaining :: "speculation_ledger \<Rightarrow> jsnum" where
  "ledger_remaining t = js_minus (allowance t) (of_nat (spent t))"

definition multiplier :: "speculation_ledger \<Rightarrow> rat" where
  "multiplier t = (if sl_tasks t = 0 then 0 else (of_nat (sl_tasks t) + of_nat (spent t)) / of_nat (sl_tasks t))"

definition request_copy :: "string \<Rightarrow> speculation_ledger \<Rightarrow> bool \<times> speculation_ledger" where
  "request_copy taskId t =
     (if js_le (allowance t) (of_nat (spent t)) then (False, t)
      else if taskId \<in> set (sl_duplicated t) then (False, t)
      else (True, t\<lparr>sl_duplicated := set_add taskId (sl_duplicated t), spent := spent t + 1\<rparr>))"

definition was_duplicated :: "string \<Rightarrow> speculation_ledger \<Rightarrow> bool" where
  "was_duplicated taskId t = (taskId \<in> set (sl_duplicated t))"

definition discard :: "string \<Rightarrow> string \<Rightarrow> bool \<Rightarrow> speculation_ledger \<Rightarrow> speculation_ledger" where
  "discard taskId nodeId disagreed t =
     t\<lparr>sl_discarded := sl_discarded t @ [\<lparr>rl_nodeId = nodeId, rl_disagreed = disagreed, dc_taskId = taskId\<rparr>]\<rparr>"

definition speculativeCandidates ::
  "placement_request \<Rightarrow> node_descriptor list \<Rightarrow> string list \<Rightarrow> node_descriptor list" where
  "speculativeCandidates request nodes excluding =
     filter (\<lambda>n. nd_nodeId n \<notin> set excluding) (eligibleNodes request nodes)"

section \<open>The race\<close>

record speculative_answer =
  sa_nodeId :: string
  sa_resultCid :: "string option"
  sa_at :: rat

datatype race_outcome =
    Race_settled (race_winner: string) (race_result: string) (race_losers: "race_loser list") (race_disagreed: bool)
  | Race_unsettled

definition by_arrival :: "(string \<Rightarrow> string \<Rightarrow> int) \<Rightarrow> speculative_answer \<Rightarrow> speculative_answer \<Rightarrow> int" where
  "by_arrival lc a b = js_or (num_cmp (sa_at a) (sa_at b)) (lc (sa_nodeId a) (sa_nodeId b))"

definition settleRace :: "(string \<Rightarrow> string \<Rightarrow> int) \<Rightarrow> speculative_answer list \<Rightarrow> race_outcome" where
  "settleRace lc answers =
     (let arrived = filter (\<lambda>a. sa_resultCid a \<noteq> None) answers
      in case js_sort (by_arrival lc) arrived of
           [] \<Rightarrow> Race_unsettled
         | winner # rest \<Rightarrow>
             let losers = map (\<lambda>a. \<lparr>rl_nodeId = sa_nodeId a, rl_disagreed = (sa_resultCid a \<noteq> sa_resultCid winner)\<rparr>) rest
             in Race_settled (sa_nodeId winner) (the (sa_resultCid winner)) losers (list_ex rl_disagreed losers))"

section \<open>Budget\<close>

datatype ledger_op = Request_op string | Discard_op string string bool

fun apply_ledger :: "ledger_op \<Rightarrow> speculation_ledger \<Rightarrow> speculation_ledger" where
  "apply_ledger (Request_op k) t = snd (request_copy k t)"
| "apply_ledger (Discard_op k n d) t = discard k n d t"

definition run_ledger :: "ledger_op list \<Rightarrow> speculation_ledger \<Rightarrow> speculation_ledger" where
  "run_ledger ops t = foldl (\<lambda>t op. apply_ledger op t) t ops"

definition ledger_inv :: "nat \<Rightarrow> rat \<Rightarrow> speculation_ledger \<Rightarrow> bool" where
  "ledger_inv n q t \<longleftrightarrow> sl_tasks t = n \<and> allowance t = Fin (of_int \<lfloor>of_nat n * q\<rfloor>) \<and>
     distinct (sl_duplicated t) \<and> spent t = length (sl_duplicated t) \<and> int (spent t) \<le> \<lfloor>of_nat n * q\<rfloor>"

lemma ledger_inv_apply: "ledger_inv n q t \<Longrightarrow> ledger_inv n q (apply_ledger op t)"
proof (cases op)
  case (Request_op k)
  assume inv: "ledger_inv n q t"
  have "js_le (allowance t) (of_nat (spent t)) \<longleftrightarrow> \<lfloor>of_nat n * q\<rfloor> \<le> int (spent t)"
    using inv by (simp add: ledger_inv_def) (metis of_int_le_iff of_int_of_nat_eq)
  with inv Request_op show ?thesis by (auto simp: request_copy_def ledger_inv_def set_add_def)
qed (auto simp: discard_def ledger_inv_def)

lemma ledger_inv_run: "ledger_inv n q t \<Longrightarrow> ledger_inv n q (run_ledger ops t)"
proof (induction ops arbitrary: t)
  case (Cons op ops)
  from Cons.IH [OF ledger_inv_apply [OF Cons.prems]] show ?case by (simp add: run_ledger_def)
qed (simp add: run_ledger_def)

text \<open>Speculation stays within its budget: for a finite fraction of \<open>n\<close> tasks, no sequence of
  requests and discards duplicates a task twice or spends more than \<open>fraction * n\<close> copies, so the
  work done is at most \<open>1 + fraction\<close> times the work asked for.\<close>

theorem speculation_within_budget:
  assumes "new_speculation_ledger tasks (Some (Fin q)) = Inr t0"
  shows "distinct (sl_duplicated (run_ledger ops t0)) \<and>
    spent (run_ledger ops t0) = length (sl_duplicated (run_ledger ops t0)) \<and>
    of_nat (spent (run_ledger ops t0)) \<le> q * of_nat (sl_tasks t0) \<and>
    multiplier (run_ledger ops t0) \<le> 1 + q"
proof -
  let ?t = "run_ledger ops t0" and ?n = "sl_tasks t0"
  have q: "0 \<le> q" and "ledger_inv ?n q t0"
    using assms by (auto simp: new_speculation_ledger_def Let_def ledger_inv_def allowance_for_def split: if_splits)
  from ledger_inv_run [OF this(2), of ops] have inv: "ledger_inv ?n q ?t" .
  then have "of_int (int (spent ?t)) \<le> (of_nat ?n * q :: rat)" by (auto simp: ledger_inv_def le_floor_iff)
  then have b: "of_nat (spent ?t) \<le> q * of_nat ?n" by (simp add: mult.commute)
  have "multiplier ?t \<le> 1 + q"
  proof (cases "?n = 0")
    case True
    with q inv show ?thesis by (simp add: multiplier_def ledger_inv_def)
  next
    case False
    with b inv show ?thesis by (simp add: multiplier_def ledger_inv_def divide_le_eq algebra_simps)
  qed
  with b inv show ?thesis by (simp add: ledger_inv_def)
qed

definition demo_ledger :: speculation_ledger where
  "demo_ledger = \<lparr>allowance = Fin 1, sl_tasks = 10, sl_duplicated = [], sl_discarded = [], spent = 0\<rparr>"

theorem speculation_within_budget_witness:
  "distinct (sl_duplicated (run_ledger [Request_op ''a'', Request_op ''b''] demo_ledger)) \<and>
    spent (run_ledger [Request_op ''a'', Request_op ''b''] demo_ledger) =
      length (sl_duplicated (run_ledger [Request_op ''a'', Request_op ''b''] demo_ledger)) \<and>
    of_nat (spent (run_ledger [Request_op ''a'', Request_op ''b''] demo_ledger)) \<le> (1 / 10 :: rat) * of_nat (sl_tasks demo_ledger) \<and>
    multiplier (run_ledger [Request_op ''a'', Request_op ''b''] demo_ledger) \<le> 1 + 1 / 10"
  by (rule speculation_within_budget [where tasks = "Fin 10"])
    (simp add: new_speculation_ledger_def allowance_for_def demo_ledger_def Let_def)

section \<open>Settling\<close>

lemma by_arrival_comparator: "collation lc \<Longrightarrow> comparator (by_arrival lc)"
  unfolding by_arrival_def [abs_def] by (rule collation.comparator_then_by)

lemma by_start_comparator: "collation lc \<Longrightarrow> comparator (by_start lc)"
  unfolding by_start_def [abs_def] by (rule collation.comparator_then_by)

lemma by_arrival_at: "by_arrival lc a b \<le> 0 \<Longrightarrow> sa_at a \<le> sa_at b"
  by (auto simp: by_arrival_def js_or_def num_cmp_def split: if_splits)

lemma settled_cases:
  assumes "settleRace lc answers = Race_settled w cid losers d"
  obtains a rest where "js_sort (by_arrival lc) (filter (\<lambda>a. sa_resultCid a \<noteq> None) answers) = a # rest"
    "w = sa_nodeId a" "sa_resultCid a = Some cid" "a \<in> set answers"
    "losers = map (\<lambda>b. \<lparr>rl_nodeId = sa_nodeId b, rl_disagreed = (sa_resultCid b \<noteq> sa_resultCid a)\<rparr>) rest"
    "d = list_ex rl_disagreed losers"
proof -
  let ?o = "js_sort (by_arrival lc) (filter (\<lambda>a. sa_resultCid a \<noteq> None) answers)"
  obtain a rest where o: "?o = a # rest" using assms by (cases ?o) (auto simp: settleRace_def)
  have "a \<in> set ?o" unfolding o by simp
  then have "a \<in> set answers" "sa_resultCid a \<noteq> None" by auto
  with that [OF o] o assms show ?thesis by (auto simp: settleRace_def Let_def)
qed

text \<open>The first answer wins and the others are accounted for: a race is settled exactly when some
  copy produced a result; the winner is a copy that answered with the result taken, no result
  arrived before it, every other result is listed as a loser, and the race counts as disagreed
  exactly when two copies returned different results.\<close>

theorem race_first_answer_wins:
  assumes "collation lc"
  shows "(settleRace lc answers = Race_unsettled \<longleftrightarrow> (\<forall>a \<in> set answers. sa_resultCid a = None)) \<and>
    (\<forall>w cid losers d. settleRace lc answers = Race_settled w cid losers d \<longrightarrow>
      (\<exists>a \<in> set answers. sa_nodeId a = w \<and> sa_resultCid a = Some cid \<and>
        (\<forall>b \<in> set answers. sa_resultCid b \<noteq> None \<longrightarrow> sa_at a \<le> sa_at b)) \<and>
      add_mset w (mset (map rl_nodeId losers)) = mset (map sa_nodeId (filter (\<lambda>a. sa_resultCid a \<noteq> None) answers)) \<and>
      (d \<longleftrightarrow> (\<exists>a \<in> set answers. \<exists>b \<in> set answers. sa_resultCid a \<noteq> None \<and> sa_resultCid b \<noteq> None \<and>
        sa_resultCid a \<noteq> sa_resultCid b)))"
proof (intro conjI allI impI)
  let ?f = "filter (\<lambda>a. sa_resultCid a \<noteq> None) answers"
  show "settleRace lc answers = Race_unsettled \<longleftrightarrow> (\<forall>a \<in> set answers. sa_resultCid a = None)"
  proof -
    have "settleRace lc answers = Race_unsettled \<longleftrightarrow> js_sort (by_arrival lc) ?f = []"
      by (cases "js_sort (by_arrival lc) ?f") (simp_all add: settleRace_def Let_def)
    also have "\<dots> \<longleftrightarrow> ?f = []" by (rule js_sort_Nil_iff)
    finally show ?thesis by (auto simp: filter_empty_conv)
  qed
  fix w cid losers d assume "settleRace lc answers = Race_settled w cid losers d"
  then obtain a rest where o: "js_sort (by_arrival lc) ?f = a # rest" and a: "w = sa_nodeId a"
      "sa_resultCid a = Some cid" "a \<in> set answers"
    and l: "losers = map (\<lambda>b. \<lparr>rl_nodeId = sa_nodeId b, rl_disagreed = (sa_resultCid b \<noteq> sa_resultCid a)\<rparr>) rest"
    and d: "d = list_ex rl_disagreed losers" by (rule settled_cases)
  have ms: "add_mset a (mset rest) = mset ?f" by (metis mset.simps(2) mset_js_sort o)
  have "sa_at a \<le> sa_at b" if "b \<in> set answers" "sa_resultCid b \<noteq> None" for b
    using comparator.sort_hd_least [OF by_arrival_comparator [OF assms] o, of b] that
    by (auto intro: by_arrival_at)
  with a show "\<exists>a \<in> set answers. sa_nodeId a = w \<and> sa_resultCid a = Some cid \<and>
      (\<forall>b \<in> set answers. sa_resultCid b \<noteq> None \<longrightarrow> sa_at a \<le> sa_at b)" by blast
  have "image_mset sa_nodeId (add_mset a (mset rest)) = image_mset sa_nodeId (mset ?f)" by (simp only: ms)
  then show "add_mset w (mset (map rl_nodeId losers)) = mset (map sa_nodeId ?f)"
    by (simp add: l a o_def)
  have "set (a # rest) = set ?f" by (metis o set_js_sort)
  then have mem: "b \<in> set answers \<and> sa_resultCid b \<noteq> None \<longleftrightarrow> b = a \<or> b \<in> set rest" for b
    by (auto simp: set_eq_iff)
  have "d \<longleftrightarrow> (\<exists>b \<in> set rest. sa_resultCid b \<noteq> sa_resultCid a)" by (simp add: d l list_ex_iff)
  also have "\<dots> \<longleftrightarrow> (\<exists>x \<in> set answers. \<exists>y \<in> set answers. sa_resultCid x \<noteq> None \<and> sa_resultCid y \<noteq> None \<and>
        sa_resultCid x \<noteq> sa_resultCid y)" using mem by metis
  finally show "d \<longleftrightarrow> (\<exists>x \<in> set answers. \<exists>y \<in> set answers. sa_resultCid x \<noteq> None \<and> sa_resultCid y \<noteq> None \<and>
        sa_resultCid x \<noteq> sa_resultCid y)" .
qed

definition demo_answers :: "speculative_answer list" where
  "demo_answers = [\<lparr>sa_nodeId = ''a'', sa_resultCid = Some ''x'', sa_at = 2\<rparr>, \<lparr>sa_nodeId = ''b'', sa_resultCid = Some ''y'', sa_at = 1\<rparr>]"

theorem race_first_answer_wins_witness:
  "settleRace unit_cmp demo_answers \<noteq> Race_unsettled"
  using race_first_answer_wins [OF unit_collation.collation_axioms, of demo_answers]
  by (simp add: demo_answers_def)

section \<open>Spotting stragglers\<close>

text \<open>The median splits the samples: at least half are not above it, at least half not below.\<close>

lemma sorted_nth_counts:
  assumes "sorted (xs :: rat list)" "i < length xs"
  shows "i + 1 \<le> length (filter (\<lambda>x. x \<le> xs ! i) xs)" "length xs - i \<le> length (filter (\<lambda>x. xs ! i \<le> x) xs)"
proof -
  have "filter (\<lambda>x. x \<le> xs ! i) (take (i + 1) xs) = take (i + 1) xs"
    using assms by (auto simp: filter_id_conv in_set_conv_nth sorted_iff_nth_mono)
  then have "i + 1 = length (filter (\<lambda>x. x \<le> xs ! i) (take (i + 1) xs))" using assms(2) by simp
  also have "\<dots> \<le> length (filter (\<lambda>x. x \<le> xs ! i) xs)"
    by (subst (2) append_take_drop_id [of "i + 1" xs, symmetric]) (simp del: append_take_drop_id)
  finally show "i + 1 \<le> length (filter (\<lambda>x. x \<le> xs ! i) xs)" .
  have "filter (\<lambda>x. xs ! i \<le> x) (drop i xs) = drop i xs"
    using assms by (auto simp: filter_id_conv in_set_conv_nth sorted_iff_nth_mono)
  then have "length xs - i = length (filter (\<lambda>x. xs ! i \<le> x) (drop i xs))" by simp
  also have "\<dots> \<le> length (filter (\<lambda>x. xs ! i \<le> x) xs)"
    by (subst (2) append_take_drop_id [of i xs, symmetric]) (simp del: append_take_drop_id)
  finally show "length xs - i \<le> length (filter (\<lambda>x. xs ! i \<le> x) xs)" .
qed

lemma filter_length_mono: "(\<And>x. P x \<Longrightarrow> Q x) \<Longrightarrow> length (filter P xs) \<le> length (filter Q xs)"
  by (induction xs) (auto simp: le_SucI)

lemma length_filter_sort: "length (filter P (sort xs)) = length (filter P (xs :: rat list))"
  by (metis mset_filter mset_sort size_mset)

lemma median_splits:
  assumes "xs \<noteq> []"
  shows "length xs \<le> 2 * length (filter (\<lambda>x. x \<le> median xs) xs)"
    "length xs \<le> 2 * length (filter (\<lambda>x. median xs \<le> x) xs)"
proof -
  let ?s = "sort xs" and ?m = "length xs div 2"
  have m: "?m < length ?s" "?m - 1 < length ?s" using assms by (cases xs; simp)+
  note c = sorted_nth_counts [OF sorted_sort m(1)] and c1 = sorted_nth_counts [OF sorted_sort m(2)]
  have le: "?s ! (?m - 1) \<le> ?s ! ?m" using m by (intro sorted_nth_mono) simp_all
  have "length xs \<le> 2 * length (filter (\<lambda>x. x \<le> median xs) ?s) \<and> length xs \<le> 2 * length (filter (\<lambda>x. median xs \<le> x) ?s)"
  proof (cases "length xs mod 2 = 1")
    case True
    then have "median xs = ?s ! ?m" using assms by (simp add: median_def js_sort_is_sort Let_def)
    with c True show ?thesis by simp presburger
  next
    case False
    then have med: "median xs = (?s ! (?m - 1) + ?s ! ?m) / 2"
      using assms by (simp add: median_def js_sort_is_sort Let_def)
    with le have lo: "?s ! (?m - 1) \<le> median xs" and hi: "median xs \<le> ?s ! ?m" by simp_all
    from False have two: "length xs = 2 * ?m" by presburger
    with assms have "1 \<le> ?m" by (cases ?m) auto
    then have "?m \<le> length (filter (\<lambda>x. x \<le> ?s ! (?m - 1)) ?s)" using c1(1) by simp
    also have "\<dots> \<le> length (filter (\<lambda>x. x \<le> median xs) ?s)" using lo by (intro filter_length_mono) simp
    finally have a: "?m \<le> length (filter (\<lambda>x. x \<le> median xs) ?s)" .
    have "?m \<le> length (filter (\<lambda>x. ?s ! ?m \<le> x) ?s)" using c(2) two by simp
    also have "\<dots> \<le> length (filter (\<lambda>x. median xs \<le> x) ?s)" using hi by (intro filter_length_mono) simp
    finally show ?thesis using a two by linarith
  qed
  then show "length xs \<le> 2 * length (filter (\<lambda>x. x \<le> median xs) xs)"
    "length xs \<le> 2 * length (filter (\<lambda>x. median xs \<le> x) xs)" by (simp_all add: length_filter_sort)
qed

text \<open>Only real outliers are duplicated: nothing is called a straggler before enough tasks have
  finished; with a factor of at least 1, a straggler has been running longer than at least half of the
  finished tasks took; and the copy goes to a node the sovereignty policy allows and that does
  not already run the task.\<close>

theorem stragglers_outlast_half:
  assumes "x \<in> set (stragglers lc flying now options)"
    and "so_factor options = Some f" "1 \<le> f" "so_minSamples options = Some m" "1 \<le> m"
    and "n \<in> set (speculativeCandidates r nodes excluding)"
  shows "x \<in> set flying \<and> m \<le> length (so_completed options) \<and>
    length (so_completed options) \<le> 2 * length (filter (\<lambda>c. c < now - if_startedAt x) (so_completed options)) \<and>
    n \<in> set (eligibleNodes r nodes) \<and> nd_nodeId n \<notin> set excluding"
proof -
  let ?c = "so_completed options"
  from assms(1,2,4) have x: "x \<in> set flying" "m \<le> length ?c" "0 < median ?c * f" "median ?c * f < now - if_startedAt x"
    by (auto simp: stragglers_def Let_def split: if_splits)
  have "0 < median ?c" using x(3) assms(3) by (simp add: zero_less_mult_iff)
  then have "median ?c \<le> median ?c * f" using assms(3) by simp
  with x(4) have "length (filter (\<lambda>c. c \<le> median ?c) ?c) \<le> length (filter (\<lambda>c. c < now - if_startedAt x) ?c)"
    by (intro filter_length_mono) simp
  moreover have "?c \<noteq> []" using x(2) assms(5) by auto
  ultimately show ?thesis using x median_splits(1) [of ?c] assms(6)
    by (auto simp: speculativeCandidates_def)
qed

theorem stragglers_outlast_half_witness:
  "length [1, 2, 3 :: rat] \<le> 2 * length (filter (\<lambda>c. c < 10 - if_startedAt \<lparr>if_taskId = ''t'', if_nodeId = ''n'', if_startedAt = 0\<rparr>) [1, 2, 3])"
  using stragglers_outlast_half [of "\<lparr>if_taskId = ''t'', if_nodeId = ''n'', if_startedAt = 0\<rparr>" unit_cmp
      "[\<lparr>if_taskId = ''t'', if_nodeId = ''n'', if_startedAt = 0\<rparr>]" 10
      "\<lparr>so_completed = [1, 2, 3], so_factor = Some (3 / 2), so_minSamples = Some 3\<rparr>" "3 / 2" 3
      "hd demo_nodes" demo_request demo_nodes "[]"]
  by (simp add: stragglers_def median_def num_cmp_def demo_request_def demo_nodes_def demo_node_def
      speculativeCandidates_def eligibleNodes_def numeral_2_eq_2 numeral_3_eq_3)

end
