(* ===== verification/Governor.thy ===== *)
theory Governor
  imports Prelude
begin

text \<open>
  The duty-cycle governor and the host's core count: \<open>packages/core/src/governor.ts\<close> and
  \<open>packages/core/src/executor/core-count.ts\<close>.

  The environment's governor is another object read at every call; its reading is the argument
  \<open>env\<close> (\<open>None\<close> for \<open>no-environment-governor\<close>).  \<open>yieldSlice\<close> waits; what it waits on is the value
  of type \<open>slice_wait\<close>.
\<close>

record governor =
  own_duty :: rat
  sliceMs :: rat
  watches_environment :: bool

datatype governor_error = Duty_out_of_range jsnum

datatype slice_wait = No_wait | Environment_waits | Sleep_ms rat

definition checkDutyCycle :: "jsnum \<Rightarrow> governor_error + rat" where
  "checkDutyCycle value =
     (if \<not> (js_gt value 0 \<and> js_le value 1) then Inl (Duty_out_of_range value)
      else case value of Fin r \<Rightarrow> Inr r | _ \<Rightarrow> Inl (Duty_out_of_range value))"

definition new_governor :: "jsnum \<Rightarrow> rat option \<Rightarrow> bool \<Rightarrow> governor_error + governor" where
  "new_governor duty slice environment =
     (case checkDutyCycle duty of
        Inl e \<Rightarrow> Inl e
      | Inr d \<Rightarrow> Inr \<lparr>own_duty = d, sliceMs = (case slice of None \<Rightarrow> 50 | Some s \<Rightarrow> s),
                      watches_environment = environment\<rparr>)"

definition dutyCycle_of :: "rat option \<Rightarrow> governor \<Rightarrow> rat" where
  "dutyCycle_of env g = (case env of None \<Rightarrow> own_duty g | Some e \<Rightarrow> min (own_duty g) e)"

definition setDutyCycle :: "jsnum \<Rightarrow> governor \<Rightarrow> governor_error + governor" where
  "setDutyCycle value g =
     (case checkDutyCycle value of Inl e \<Rightarrow> Inl e | Inr d \<Rightarrow> Inr (g\<lparr>own_duty := d\<rparr>))"

definition yieldSlice :: "rat option \<Rightarrow> governor \<Rightarrow> slice_wait" where
  "yieldSlice env g =
     (let duty = dutyCycle_of env g
      in if duty \<ge> 1 then No_wait
         else case env of
                Some e \<Rightarrow> if e \<le> own_duty g then Environment_waits else Sleep_ms (sliceMs g * (1 / duty - 1))
              | None \<Rightarrow> Sleep_ms (sliceMs g * (1 / duty - 1)))"

definition advertisedCapacity :: "rat option \<Rightarrow> governor \<Rightarrow> rat" where
  "advertisedCapacity env g = dutyCycle_of env g"

definition UNKNOWN_CORE_COUNT_FALLBACK :: nat where
  "UNKNOWN_CORE_COUNT_FALLBACK = 1"

text \<open>\<open>None\<close> is a host that reports no number at all.\<close>

definition hostCoreCount :: "jsnum option \<Rightarrow> nat" where
  "hostCoreCount reported =
     (case reported of
        None \<Rightarrow> UNKNOWN_CORE_COUNT_FALLBACK
      | Some n \<Rightarrow> if \<not> is_integer n \<or> js_lt n 1 then UNKNOWN_CORE_COUNT_FALLBACK else nat (int_of_num n))"

definition governor_inv :: "governor \<Rightarrow> bool" where
  "governor_inv g \<longleftrightarrow> 0 < own_duty g \<and> own_duty g \<le> 1"

lemma checkDutyCycle_Inr: "checkDutyCycle v = Inr d \<Longrightarrow> v = Fin d \<and> 0 < d \<and> d \<le> 1"
  by (cases v) (auto simp: checkDutyCycle_def split: if_splits)

lemma new_governor_inv: "new_governor d s e = Inr g \<Longrightarrow> governor_inv g"
  by (auto simp: new_governor_def governor_inv_def dest: checkDutyCycle_Inr split: sum.splits)

lemma setDutyCycle_inv: "setDutyCycle v g = Inr g' \<Longrightarrow> governor_inv g'"
  by (auto simp: setDutyCycle_def governor_inv_def dest: checkDutyCycle_Inr split: sum.splits)

lemma hostCoreCount_pos: "1 \<le> hostCoreCount r"
  by (cases r) (auto simp: hostCoreCount_def UNKNOWN_CORE_COUNT_FALLBACK_def is_integer_iff)

text \<open>The stricter of two limits wins and is honoured: a node advertises a duty cycle no larger than
  the user's and no larger than the environment's; when it sleeps by its own, work of one slice
  plus the sleep has exactly the advertised share of work; and the environment's limit, when it is
  the stricter, is waited out in the environment.\<close>

theorem governor_honours_stricter_limit:
  assumes "governor_inv g" "env = None \<or> env = Some e \<and> 0 < e" "0 < sliceMs g"
  shows "0 < advertisedCapacity env g \<and> advertisedCapacity env g \<le> own_duty g \<and>
    (env = Some e \<longrightarrow> advertisedCapacity env g \<le> e) \<and>
    (case yieldSlice env g of
       No_wait \<Rightarrow> advertisedCapacity env g = 1
     | Environment_waits \<Rightarrow> env = Some (advertisedCapacity env g)
     | Sleep_ms off \<Rightarrow> 0 < off \<and> sliceMs g / (sliceMs g + off) = own_duty g \<and>
         advertisedCapacity env g = own_duty g)"
proof -
  let ?d = "dutyCycle_of env g"
  have d: "0 < ?d" "?d \<le> own_duty g" "own_duty g \<le> 1" using assms(1,2)
    by (auto simp: dutyCycle_of_def governor_inv_def split: option.splits)
  have share: "0 < s * (1 / x - 1) \<and> s / (s + s * (1 / x - 1)) = x" if "0 < x" "x < 1" "0 < s" for s x :: rat
  proof -
    have "s + s * (1 / x - 1) = s / x" using that by (simp add: field_simps)
    then show ?thesis using that by (simp add: field_simps)
  qed
  show ?thesis using d share [of ?d "sliceMs g"] assms(2,3)
    by (auto simp: yieldSlice_def advertisedCapacity_def dutyCycle_of_def Let_def min_def split: option.splits if_splits)
qed

theorem governor_honours_stricter_limit_witness:
  "0 < advertisedCapacity (Some (1/2)) \<lparr>own_duty = 1/4, sliceMs = 50, watches_environment = True\<rparr>"
  using governor_honours_stricter_limit [of "\<lparr>own_duty = 1/4, sliceMs = 50, watches_environment = True\<rparr>" "Some (1/2)" "1/2"]
  by (simp add: governor_inv_def)

end
