(* ===== verification/Coverage.thy ===== *)
theory Coverage
  imports Prelude
begin

text \<open>
  Coverage reports: \<open>packages/core/src/coverage.ts\<close>.  A report says which of the expected owners a
  result really covers.  The wording of \<open>describeCoverage\<close> is not modelled.
\<close>

record coverage_report =
  covered :: nat
  total :: nat
  missing :: "string list"
  unexpected :: "string list"
  coverage_complete :: bool

definition coverageOf :: "string list \<Rightarrow> string list \<Rightarrow> coverage_report" where
  "coverageOf expected contributed =
     (let wanted = set_of_list expected; got = set_of_list contributed;
          miss = js_sort unit_cmp (filter (\<lambda>owner. owner \<notin> set got) wanted);
          extra = js_sort unit_cmp (filter (\<lambda>owner. owner \<notin> set wanted) got)
      in \<lparr>covered = length (filter (\<lambda>owner. owner \<in> set got) wanted), total = length wanted,
          missing = miss, unexpected = extra,
          coverage_complete = (0 < length wanted \<and> length miss = 0 \<and> length extra = 0)\<rparr>)"

record 'a covered_aggregate =
  aggregate_value :: 'a
  aggregate_coverage :: coverage_report

definition withCoverage :: "'a \<Rightarrow> string list \<Rightarrow> string list \<Rightarrow> 'a covered_aggregate" where
  "withCoverage v expected contributed =
     \<lparr>aggregate_value = v, aggregate_coverage = coverageOf expected contributed\<rparr>"

text \<open>A report cannot overstate: the owners covered and the owners missing add up to the distinct
  owners expected, \<open>missing\<close> and \<open>unexpected\<close> are exactly the differences between the two sets,
  each sorted and without repeats, and a result is called complete exactly when at least one owner
  was expected and the owners that contributed are the ones expected.\<close>

theorem coverage_report_exact:
  shows "covered (coverageOf e c) + length (missing (coverageOf e c)) = total (coverageOf e c) \<and>
    total (coverageOf e c) = card (set e) \<and>
    set (missing (coverageOf e c)) = set e - set c \<and> set (unexpected (coverageOf e c)) = set c - set e \<and>
    sorted (missing (coverageOf e c)) \<and> distinct (missing (coverageOf e c)) \<and>
    sorted (unexpected (coverageOf e c)) \<and> distinct (unexpected (coverageOf e c)) \<and>
    (coverage_complete (coverageOf e c) \<longleftrightarrow> e \<noteq> [] \<and> set c = set e)"
proof -
  have "length (filter (\<lambda>x. x \<in> set c) xs) + length (filter (\<lambda>x. x \<notin> set c) xs) = length xs" for xs :: "string list"
    by (rule sum_length_filter_compl)
  then have "covered (coverageOf e c) + length (missing (coverageOf e c)) = total (coverageOf e c)"
    "total (coverageOf e c) = card (set e)"
    by (simp_all add: coverageOf_def Let_def length_set_of_list)
  moreover have "set (missing (coverageOf e c)) = set e - set c \<and> set (unexpected (coverageOf e c)) = set c - set e \<and>
    sorted (missing (coverageOf e c)) \<and> distinct (missing (coverageOf e c)) \<and>
    sorted (unexpected (coverageOf e c)) \<and> distinct (unexpected (coverageOf e c))"
    by (auto simp: coverageOf_def Let_def js_sort_is_sort)
  moreover have "coverage_complete (coverageOf e c) \<longleftrightarrow> e \<noteq> [] \<and> set c = set e"
    by (simp add: coverageOf_def Let_def filter_empty_conv) blast
  ultimately show ?thesis by blast
qed

theorem coverage_report_exact_witness:
  "coverage_complete (coverageOf [''a'', ''b''] [''b'', ''a'', ''a''])"
proof -
  have "[''a'', ''b''] \<noteq> [] \<and> set [''b'', ''a'', ''a''] = set [''a'', ''b'']" by auto
  with coverage_report_exact [of "[''a'', ''b'']" "[''b'', ''a'', ''a'']"] show ?thesis by blast
qed

end
