(* ===== verification/Reduce_Run.thy ===== *)
theory Reduce_Run
  imports Reduce_Tree
begin

text \<open>
  Running a reduce: \<open>executeReduce\<close> of \<open>packages/core/src/reduce.ts\<close>.

  The dispatch of a combine is a callback that resolves with a product or with null.  It is a
  function of the task and the executor: within one task no executor is asked twice, so a function
  covers every behaviour in which the executors are distinct.  A dispatch that rejects makes the
  whole promise reject and has no outcome here.  The combines of a level run concurrently and write nothing until all
  have settled, so a level is a map over the state at its start followed by a fold in node order.
\<close>

section \<open>The data\<close>

record combine_task =
  ct_nodeId :: string
  ct_inputCids :: "string list"
  ct_level :: nat

record 'a combine_product =
  cp_cid :: string
  cp_attestation :: 'a

type_synonym 'a combine_dispatch = "combine_task \<Rightarrow> string \<Rightarrow> 'a combine_product option"

datatype local_combine_admission = Local_admitted | Local_refused string

record 'a local_combine_placement =
  lp_admits :: "combine_task \<Rightarrow> local_combine_admission"
  lp_dispatch :: "'a combine_dispatch"

definition LOCAL_COMBINE_EXECUTOR :: string where
  "LOCAL_COMBINE_EXECUTOR = ''the-requestor-itself''"

text \<open>A local placement of \<open>None\<close> is \<open>combines-nothing-locally\<close>; the redundancy is an integer.\<close>

record 'a reduce_run =
  rr_tree :: reduce_tree
  rr_executors :: "string list"
  rr_dispatch :: "'a combine_dispatch"
  rr_localCombine :: "'a local_combine_placement option"
  rr_redundancy :: "int option"

record 'a produced =
  pd_cid :: string
  pd_executorId :: string
  pd_attestation :: 'a

record 'a node_result =
  nr_node :: reduce_tree_node
  nr_cid :: "string option"
  nr_attempts :: nat
  nr_replicas :: nat
  nr_cids :: "string list"
  nr_combinedLocally :: bool
  nr_localRefusal :: "string option"
  nr_accepted :: "'a produced option"

text \<open>What the levels write; \<open>minReplicas = None\<close> is the initial \<open>Infinity\<close>.\<close>

record 'a reduce_state =
  resolved :: "(string, string) jsmap"
  rs_executedBy :: "(string, string) jsmap"
  rs_attestations :: "(string, 'a) jsmap"
  rs_failed :: "string list"
  rs_locallyCombined :: "string list"
  rs_localRefusals :: "(string \<times> string) list"
  rs_disagreements :: "(string \<times> string list) list"
  rs_combines :: nat
  rs_recomputes :: nat
  rs_minReplicas :: "nat option"

record 'a reduce_outcome =
  ro_ok :: bool
  ro_rootCid :: "string option"
  ro_combines :: nat
  ro_recomputes :: nat
  ro_executedBy :: "(string, string) jsmap"
  ro_attestations :: "(string, 'a) jsmap"
  ro_failed :: "string list"
  ro_disagreements :: "(string \<times> string list) list"
  ro_minReplicas :: nat
  ro_locallyCombined :: "string list"
  ro_localRefusals :: "(string \<times> string) list"

section \<open>One combine\<close>

definition wanted_of :: "'a reduce_run \<Rightarrow> nat" where
  "wanted_of run = nat (max 1 (case rr_redundancy run of None \<Rightarrow> 1 | Some r \<Rightarrow> r))"

text \<open>The requestor's own combine: what it produced, and why it did not.\<close>

definition combine_locally :: "'a reduce_run \<Rightarrow> combine_task \<Rightarrow> 'a produced list \<times> string option" where
  "combine_locally run task =
     (case rr_localCombine run of
        None \<Rightarrow> ([], None)
      | Some here \<Rightarrow>
          (case lp_admits here task of
             Local_refused reason \<Rightarrow> ([], Some reason)
           | Local_admitted \<Rightarrow>
               (case lp_dispatch here task LOCAL_COMBINE_EXECUTOR of
                  None \<Rightarrow> ([], Some ''this node was admitted to combine locally and its own combiner produced nothing'')
                | Some p \<Rightarrow> ([\<lparr>pd_cid = cp_cid p, pd_executorId = LOCAL_COMBINE_EXECUTOR,
                              pd_attestation = cp_attestation p\<rparr>], None))))"

fun ask_executors ::
  "'a combine_dispatch \<Rightarrow> combine_task \<Rightarrow> nat \<Rightarrow> string list \<Rightarrow> 'a produced list \<Rightarrow> nat \<Rightarrow> 'a produced list \<times> nat" where
  "ask_executors dispatch task wanted [] produced attempts = (produced, attempts)"
| "ask_executors dispatch task wanted (e # es) produced attempts =
     (if length produced \<ge> wanted then (produced, attempts)
      else case dispatch task e of
             None \<Rightarrow> ask_executors dispatch task wanted es produced (attempts + 1)
           | Some p \<Rightarrow> ask_executors dispatch task wanted es
               (produced @ [\<lparr>pd_cid = cp_cid p, pd_executorId = e, pd_attestation = cp_attestation p\<rparr>]) attempts)"

text \<open>Everybody who answered a task, in order, and the answers that did not come.\<close>

definition replica_answers ::
  "(string \<Rightarrow> string) \<Rightarrow> (string \<Rightarrow> string \<Rightarrow> int) \<Rightarrow> 'a reduce_run \<Rightarrow> combine_task \<Rightarrow> 'a produced list \<times> nat" where
  "replica_answers hash lc run task =
     ask_executors (rr_dispatch run) task (wanted_of run)
       (rendezvousRank hash lc (ct_nodeId task) (rr_executors run)) (fst (combine_locally run task)) 0"

definition combine_node ::
  "(string \<Rightarrow> string) \<Rightarrow> (string \<Rightarrow> string \<Rightarrow> int) \<Rightarrow> 'a reduce_run \<Rightarrow> (string, string) jsmap \<Rightarrow>
   reduce_tree_node \<Rightarrow> 'a node_result" where
  "combine_node hash lc run known node =
     (let inputCids = map (map_get known) (rn_children node)
      in if list_ex (\<lambda>c. c = None) inputCids
         then \<lparr>nr_node = node, nr_cid = None, nr_attempts = 0, nr_replicas = 0, nr_cids = [],
               nr_combinedLocally = False, nr_localRefusal = None, nr_accepted = None\<rparr>
         else let task = \<lparr>ct_nodeId = rn_id node, ct_inputCids = map the inputCids, ct_level = rn_level node\<rparr>;
                  (own, refusal) = combine_locally run task;
                  (produced, attempts) = replica_answers hash lc run task
              in case produced of
                   [] \<Rightarrow> \<lparr>nr_node = node, nr_cid = None, nr_attempts = attempts, nr_replicas = 0, nr_cids = [],
                          nr_combinedLocally = (own \<noteq> []), nr_localRefusal = refusal, nr_accepted = None\<rparr>
                 | accepted # _ \<Rightarrow>
                     \<lparr>nr_node = node, nr_cid = Some (pd_cid accepted), nr_attempts = attempts,
                      nr_replicas = length produced, nr_cids = set_of_list (map pd_cid produced),
                      nr_combinedLocally = (own \<noteq> []), nr_localRefusal = refusal, nr_accepted = Some accepted\<rparr>)"

section \<open>A level and a run\<close>

definition record_result :: "'a reduce_state \<Rightarrow> 'a node_result \<Rightarrow> 'a reduce_state" where
  "record_result st r =
     (let i = rn_id (nr_node r);
          st1 = (case nr_localRefusal r of None \<Rightarrow> st
                 | Some reason \<Rightarrow> st\<lparr>rs_localRefusals := rs_localRefusals st @ [(i, reason)]\<rparr>)
      in case (nr_cid r, nr_accepted r) of
           (Some cid, Some accepted) \<Rightarrow>
             let st2 = (if nr_combinedLocally r then st1\<lparr>rs_locallyCombined := rs_locallyCombined st1 @ [i]\<rparr> else st1);
                 st3 = st2\<lparr>resolved := map_set i cid (resolved st2),
                           rs_executedBy := map_set i (pd_executorId accepted) (rs_executedBy st2),
                           rs_combines := rs_combines st2 + 1,
                           rs_recomputes := rs_recomputes st2 + nr_attempts r,
                           rs_minReplicas := (case rs_minReplicas st2 of None \<Rightarrow> Some (nr_replicas r)
                                              | Some m \<Rightarrow> Some (min m (nr_replicas r)))\<rparr>
             in if length (nr_cids r) > 1
                then st3\<lparr>rs_disagreements := rs_disagreements st3 @ [(i, nr_cids r)]\<rparr>
                else st3\<lparr>rs_attestations := map_set i (pd_attestation accepted) (rs_attestations st3)\<rparr>
         | _ \<Rightarrow> st1\<lparr>rs_failed := rs_failed st1 @ [i]\<rparr>)"

definition run_level ::
  "(string \<Rightarrow> string) \<Rightarrow> (string \<Rightarrow> string \<Rightarrow> int) \<Rightarrow> 'a reduce_run \<Rightarrow> nat \<Rightarrow> 'a reduce_state \<Rightarrow> 'a reduce_state" where
  "run_level hash lc run level st =
     foldl record_result st
       (map (combine_node hash lc run (resolved st)) (filter (\<lambda>n. rn_level n = level) (rt_nodes (rr_tree run))))"

definition max_level :: "reduce_tree_node list \<Rightarrow> nat" where
  "max_level nodes = foldl (\<lambda>m n. max m (rn_level n)) 0 nodes"

definition start_state :: "reduce_tree \<Rightarrow> 'a reduce_state" where
  "start_state t =
     \<lparr>resolved = foldl (\<lambda>m l. map_set (leaf_id l) (leaf_cid l) m) [] (rt_leaves t), rs_executedBy = [],
      rs_attestations = [], rs_failed = [], rs_locallyCombined = [], rs_localRefusals = [],
      rs_disagreements = [], rs_combines = 0, rs_recomputes = 0, rs_minReplicas = None\<rparr>"

definition run_levels ::
  "(string \<Rightarrow> string) \<Rightarrow> (string \<Rightarrow> string \<Rightarrow> int) \<Rightarrow> 'a reduce_run \<Rightarrow> 'a reduce_state" where
  "run_levels hash lc run =
     foldl (\<lambda>st level. run_level hash lc run level st) (start_state (rr_tree run))
       [1..<Suc (max_level (rt_nodes (rr_tree run)))]"

definition executeReduce ::
  "(string \<Rightarrow> string) \<Rightarrow> (string \<Rightarrow> string \<Rightarrow> int) \<Rightarrow> 'a reduce_run \<Rightarrow> 'a reduce_outcome" where
  "executeReduce hash lc run =
     (if rr_executors run = []
      then \<lparr>ro_ok = False, ro_rootCid = None, ro_combines = 0, ro_recomputes = 0, ro_executedBy = [],
            ro_attestations = [], ro_failed = [rt_rootId (rr_tree run)], ro_disagreements = [],
            ro_minReplicas = 0, ro_locallyCombined = [], ro_localRefusals = []\<rparr>
      else let st = run_levels hash lc run;
               rootCid = map_get (resolved st) (rt_rootId (rr_tree run))
           in \<lparr>ro_ok = (rootCid \<noteq> None \<and> rs_failed st = [] \<and> rs_disagreements st = []),
               ro_rootCid = rootCid, ro_combines = rs_combines st, ro_recomputes = rs_recomputes st,
               ro_executedBy = rs_executedBy st, ro_attestations = rs_attestations st,
               ro_failed = rs_failed st, ro_disagreements = rs_disagreements st,
               ro_minReplicas = (case rs_minReplicas st of None \<Rightarrow> 0 | Some m \<Rightarrow> m),
               ro_locallyCombined = rs_locallyCombined st, ro_localRefusals = rs_localRefusals st\<rparr>)"

section \<open>Folding results\<close>

lemma record_result_none:
  assumes "nr_cid r = None"
  shows "resolved (record_result st r) = resolved st" "rs_disagreements (record_result st r) = rs_disagreements st"
    "rs_failed (record_result st r) = rs_failed st @ [rn_id (nr_node r)]"
    "rs_combines (record_result st r) = rs_combines st"
  using assms by (auto simp: record_result_def Let_def split: option.splits)

lemma record_result_some:
  assumes "nr_cid r = Some c" "nr_accepted r = Some a"
  shows "resolved (record_result st r) = map_set (rn_id (nr_node r)) c (resolved st)"
    "rs_disagreements (record_result st r) =
      (if length (nr_cids r) > 1 then rs_disagreements st @ [(rn_id (nr_node r), nr_cids r)] else rs_disagreements st)"
    "rs_failed (record_result st r) = rs_failed st"
    "rs_combines (record_result st r) = rs_combines st + 1"
  using assms by (auto simp: record_result_def Let_def split: option.splits)

lemma combine_node_cases:
  obtains "nr_cid (combine_node hash lc run known n) = None" "nr_node (combine_node hash lc run known n) = n"
    "(\<exists>c \<in> set (rn_children n). map_get known c = None) \<or>
     fst (replica_answers hash lc run \<lparr>ct_nodeId = rn_id n, ct_inputCids = map (the \<circ> map_get known) (rn_children n),
       ct_level = rn_level n\<rparr>) = []"
  | p ps where "nr_cid (combine_node hash lc run known n) = Some (pd_cid p)"
    "nr_accepted (combine_node hash lc run known n) = Some p" "nr_node (combine_node hash lc run known n) = n"
    "fst (replica_answers hash lc run \<lparr>ct_nodeId = rn_id n, ct_inputCids = map (the \<circ> map_get known) (rn_children n),
       ct_level = rn_level n\<rparr>) = p # ps"
    "nr_cids (combine_node hash lc run known n) = set_of_list (map pd_cid (p # ps))"
    "\<forall>c \<in> set (rn_children n). map_get known c \<noteq> None"
proof (cases "\<exists>c \<in> set (rn_children n). map_get known c = None")
  case True
  then have ex: "list_ex (\<lambda>c. c = None) (map (map_get known) (rn_children n))" by (force simp: list_ex_iff)
  have "combine_node hash lc run known n = \<lparr>nr_node = n, nr_cid = None, nr_attempts = 0, nr_replicas = 0, nr_cids = [],
      nr_combinedLocally = False, nr_localRefusal = None, nr_accepted = None\<rparr>"
    unfolding combine_node_def Let_def if_P [OF ex] ..
  with True show ?thesis by (intro that(1)) simp_all
next
  case False
  then have ex: "\<not> list_ex (\<lambda>c. c = None) (map (map_get known) (rn_children n))" by (auto simp: list_ex_iff)
  let ?t = "\<lparr>ct_nodeId = rn_id n, ct_inputCids = map (the \<circ> map_get known) (rn_children n), ct_level = rn_level n\<rparr>"
  show ?thesis
  proof (cases "fst (replica_answers hash lc run ?t)")
    case Nil
    then show ?thesis using ex by (intro that(1)) (simp_all add: combine_node_def Let_def split_beta)
  next
    case (Cons p ps)
    then show ?thesis using ex False by (intro that(2)) (auto simp add: combine_node_def Let_def split_beta)
  qed
qed

lemma combine_node_node [simp]: "nr_node (combine_node hash lc run known n) = n"
  by (cases rule: combine_node_cases [of hash lc run known n]) simp_all

lemma foldl_invariant: "I st \<Longrightarrow> (\<And>st x. x \<in> set xs \<Longrightarrow> I st \<Longrightarrow> I (f st x)) \<Longrightarrow> I (foldl f st xs)"
  by (induction xs arbitrary: st) auto

section \<open>Soundness\<close>

text \<open>The value of the tree: what its combines are worth when each is done right.\<close>

inductive tree_value :: "(string list \<Rightarrow> string) \<Rightarrow> reduce_leaf list \<Rightarrow> reduce_tree_node list \<Rightarrow> string \<Rightarrow> string \<Rightarrow> bool"
  for F ls ns where
  value_leaf: "l \<in> set ls \<Longrightarrow> tree_value F ls ns (leaf_id l) (leaf_cid l)"
| value_node: "n \<in> set ns \<Longrightarrow> list_all2 (tree_value F ls ns) (rn_children n) cids \<Longrightarrow>
    tree_value F ls ns (rn_id n) (F cids)"

definition values_right :: "(string list \<Rightarrow> string) \<Rightarrow> reduce_tree \<Rightarrow> (string, string) jsmap \<Rightarrow> bool" where
  "values_right F t m \<longleftrightarrow> (\<forall>i c. map_get m i = Some c \<longrightarrow> tree_value F (rt_leaves t) (rt_nodes t) i c)"

lemma values_right_set:
  "values_right F t m \<Longrightarrow> tree_value F (rt_leaves t) (rt_nodes t) k c \<Longrightarrow> values_right F t (map_set k c m)"
  by (auto simp: values_right_def split: if_splits)

lemma start_values:
  "values_right F t m \<Longrightarrow> set ls \<subseteq> set (rt_leaves t) \<Longrightarrow>
   values_right F t (foldl (\<lambda>m l. map_set (leaf_id l) (leaf_cid l) m) m ls)"
proof (induction ls arbitrary: m)
  case (Cons l ls)
  then show ?case by (simp add: values_right_set value_leaf)
qed simp

lemma combine_node_right:
  assumes honest: "\<And>task. fst (replica_answers hash lc run task) \<noteq> [] \<Longrightarrow>
      \<exists>q \<in> set (fst (replica_answers hash lc run task)). pd_cid q = F (ct_inputCids task)"
    and known: "values_right F t known" and n: "n \<in> set (rt_nodes t)"
    and cid: "nr_cid (combine_node hash lc run known n) = Some c"
    and agree: "\<not> length (nr_cids (combine_node hash lc run known n)) > 1"
  shows "tree_value F (rt_leaves t) (rt_nodes t) (rn_id n) c"
proof (cases rule: combine_node_cases [of hash lc run known n])
  case (2 p ps)
  let ?t = "\<lparr>ct_nodeId = rn_id n, ct_inputCids = map (the \<circ> map_get known) (rn_children n), ct_level = rn_level n\<rparr>"
  have "length (set_of_list (map pd_cid (p # ps))) \<le> Suc 0" using agree unfolding 2(5) by linarith
  then have "card (set (map pd_cid (p # ps))) \<le> Suc 0" by (simp only: length_set_of_list)
  then have all: "\<forall>x \<in> set (map pd_cid (p # ps)). \<forall>y \<in> set (map pd_cid (p # ps)). x = y"
    by (simp only: card_le_Suc0_iff_eq finite_set)
  have same: "pd_cid q = pd_cid p" if "q \<in> set (p # ps)" for q
    using that by (intro all [rule_format]) (simp_all only: set_map imageI list.set_intros(1))
  have "fst (replica_answers hash lc run ?t) \<noteq> []" unfolding 2(4) by simp
  from honest [OF this] obtain q where q: "q \<in> set (p # ps)" "pd_cid q = F (ct_inputCids ?t)" unfolding 2(4) by blast
  have "c = pd_cid p" using cid 2(1) by simp
  with same [OF q(1)] q(2) have c: "c = F (map (the \<circ> map_get known) (rn_children n))" by simp
  have "list_all2 (tree_value F (rt_leaves t) (rt_nodes t)) (rn_children n) (map (the \<circ> map_get known) (rn_children n))"
    unfolding list_all2_map2 list_all2_same
  proof
    fix i assume "i \<in> set (rn_children n)"
    with 2(6) obtain d where "map_get known i = Some d" by blast
    with known show "tree_value F (rt_leaves t) (rt_nodes t) i ((the \<circ> map_get known) i)"
      by (simp add: values_right_def)
  qed
  from value_node [OF n this] c show ?thesis by simp
qed (use cid in simp)

definition sound_state :: "(string list \<Rightarrow> string) \<Rightarrow> reduce_tree \<Rightarrow> 'a reduce_state \<Rightarrow> bool" where
  "sound_state F t st \<longleftrightarrow> (rs_disagreements st = [] \<longrightarrow> values_right F t (resolved st))"

lemma run_level_sound:
  assumes honest: "\<And>task. fst (replica_answers hash lc run task) \<noteq> [] \<Longrightarrow>
      \<exists>q \<in> set (fst (replica_answers hash lc run task)). pd_cid q = F (ct_inputCids task)"
    and st0: "sound_state F (rr_tree run) st0"
  shows "sound_state F (rr_tree run) (run_level hash lc run l st0)"
proof -
  let ?t = "rr_tree run"
  define J where "J = (\<lambda>st :: 'a reduce_state.
    (rs_disagreements st = [] \<longrightarrow> rs_disagreements st0 = []) \<and> sound_state F ?t st)"
  have "J (record_result st (combine_node hash lc run (resolved st0) n))"
    if J: "J st" and n: "n \<in> set (rt_nodes ?t)" for st n
  proof (cases rule: combine_node_cases [of hash lc run "resolved st0" n])
    case 1
    with J show ?thesis by (simp add: J_def sound_state_def record_result_none)
  next
    case (2 p ps)
    show ?thesis
    proof (cases "length (nr_cids (combine_node hash lc run (resolved st0) n)) > 1 \<or> rs_disagreements st \<noteq> []")
      case True
      then show ?thesis by (auto simp: J_def sound_state_def record_result_some [OF 2(1,2)])
    next
      case False
      with J st0 have "values_right F ?t (resolved st0)" "values_right F ?t (resolved st)"
        by (simp_all add: J_def sound_state_def)
      moreover have "tree_value F (rt_leaves ?t) (rt_nodes ?t) (rn_id n) (pd_cid p)"
        using False by (intro combine_node_right [OF honest calculation(1) n 2(1)]) simp_all
      ultimately show ?thesis using J False
        by (simp add: J_def sound_state_def record_result_some [OF 2(1,2)] 2(3) values_right_set)
    qed
  qed
  note step = this
  have "J (run_level hash lc run l st0)"
    unfolding run_level_def
  proof (rule foldl_invariant)
    show "J st0" using st0 by (simp add: J_def)
    fix st r
    assume "r \<in> set (map (combine_node hash lc run (resolved st0)) (filter (\<lambda>n. rn_level n = l) (rt_nodes ?t)))" and "J st"
    then show "J (record_result st r)" using step by fastforce
  qed
  then show ?thesis by (simp add: J_def)
qed

lemma run_levels_sound:
  assumes "\<And>task. fst (replica_answers hash lc run task) \<noteq> [] \<Longrightarrow>
      \<exists>q \<in> set (fst (replica_answers hash lc run task)). pd_cid q = F (ct_inputCids task)"
  shows "sound_state F (rr_tree run) (run_levels hash lc run)"
proof -
  have "sound_state F (rr_tree run) (start_state (rr_tree run) :: 'a reduce_state)"
    unfolding sound_state_def start_state_def
    using start_values [where m = "[]" and F = F and t = "rr_tree run" and ls = "rt_leaves (rr_tree run)"]
    by (simp add: values_right_def)
  then show ?thesis unfolding run_levels_def
    by (rule foldl_invariant) (rule run_level_sound [OF assms])
qed

section \<open>Progress\<close>

lemma ask_executors_answers:
  "q \<in> set (fst (ask_executors d task w es ps a)) \<Longrightarrow>
   q \<in> set ps \<or> (\<exists>e \<in> set es. \<exists>p. d task e = Some p \<and> pd_cid q = cp_cid p \<and> pd_executorId q = e)"
proof (induction es arbitrary: ps a)
  case (Cons e es)
  show ?case
  proof (cases "length ps \<ge> w")
    case True
    with Cons.prems show ?thesis by simp
  next
    case False
    show ?thesis
    proof (cases "d task e")
      case None
      with Cons.IH [of ps "a + 1"] Cons.prems False show ?thesis by auto
    next
      case (Some p)
      with Cons.IH [of "ps @ [\<lparr>pd_cid = cp_cid p, pd_executorId = e, pd_attestation = cp_attestation p\<rparr>]" a] Cons.prems False
      show ?thesis by auto
    qed
  qed
qed simp

lemma ask_executors_enough:
  "length (fst (ask_executors d task w es ps a)) \<le> max w (length ps)"
proof (induction es arbitrary: ps a)
  case (Cons e es)
  show ?case
  proof (cases "length ps \<ge> w")
    case False
    show ?thesis
    proof (cases "d task e")
      case None
      with Cons.IH [of ps "a + 1"] False show ?thesis by simp
    next
      case (Some p)
      with Cons.IH [of "ps @ [\<lparr>pd_cid = cp_cid p, pd_executorId = e, pd_attestation = cp_attestation p\<rparr>]" a] False
      show ?thesis by simp
    qed
  qed simp
qed simp

lemma ask_executors_some:
  "1 \<le> w \<Longrightarrow> ps \<noteq> [] \<or> (\<exists>e \<in> set es. d task e \<noteq> None) \<Longrightarrow> fst (ask_executors d task w es ps a) \<noteq> []"
proof (induction es arbitrary: ps a)
  case (Cons e es)
  show ?case
  proof (cases "length ps \<ge> w")
    case True
    then have "ps \<noteq> []" using Cons.prems(1) by auto
    with True show ?thesis by simp
  next
    case False
    with Cons show ?thesis by (cases "d task e") simp_all
  qed
qed simp

lemma wanted_of_pos: "1 \<le> wanted_of run"
  by (simp add: wanted_of_def)

lemma max_level_bound: "n \<in> set ns \<Longrightarrow> rn_level n \<le> max_level ns"
proof -
  have mono: "k \<le> foldl (\<lambda>m n. max m (rn_level n)) k ns" for k ns
  proof (induction ns arbitrary: k)
    case (Cons n ns)
    from Cons.IH [of "max k (rn_level n)"] show ?case by simp
  qed simp
  have "n \<in> set ns \<Longrightarrow> rn_level n \<le> foldl (\<lambda>m n. max m (rn_level n)) k ns" for k
  proof (induction ns arbitrary: k)
    case (Cons m ns)
    then show ?case using mono [of "max k (rn_level m)" ns] by auto
  qed simp
  then show "n \<in> set ns \<Longrightarrow> ?thesis" by (simp add: max_level_def)
qed

definition level_done :: "reduce_tree \<Rightarrow> nat \<Rightarrow> 'a reduce_state \<Rightarrow> bool" where
  "level_done t l st \<longleftrightarrow>
     (\<forall>i. available (map leaf_id (rt_leaves t)) (rt_nodes t) (Suc l) i \<longrightarrow> map_get (resolved st) i \<noteq> None) \<and>
     rs_failed st = [] \<and> rs_combines st = length (filter (\<lambda>n. rn_level n \<le> l) (rt_nodes t))"

abbreviation always_answered :: "(string \<Rightarrow> string) \<Rightarrow> (string \<Rightarrow> string \<Rightarrow> int) \<Rightarrow> 'a reduce_run \<Rightarrow> bool" where
  "always_answered hash lc run \<equiv> (\<forall>task. fst (replica_answers hash lc run task) \<noteq> [])"

lemma fold_level_live:
  assumes live: "always_answered hash lc run"
    and ready: "\<forall>n \<in> set ns. \<forall>c \<in> set (rn_children n). map_get known c \<noteq> None"
  shows "rs_failed (foldl record_result st (map (combine_node hash lc run known) ns)) = rs_failed st \<and>
    rs_combines (foldl record_result st (map (combine_node hash lc run known) ns)) = rs_combines st + length ns \<and>
    (\<forall>i. map_get (resolved st) i \<noteq> None \<or> i \<in> rn_id ` set ns \<longrightarrow>
      map_get (resolved (foldl record_result st (map (combine_node hash lc run known) ns))) i \<noteq> None)"
  using ready
proof (induction ns arbitrary: st)
  case (Cons n ns)
  let ?r = "combine_node hash lc run known n"
  from Cons.prems have "\<not> (\<exists>c \<in> set (rn_children n). map_get known c = None)" by auto
  then obtain p where p: "nr_cid ?r = Some (pd_cid p)" "nr_accepted ?r = Some p"
    using live by (cases rule: combine_node_cases [of hash lc run known n]) auto
  have "\<forall>i. map_get (resolved st) i \<noteq> None \<or> i \<in> rn_id ` set (n # ns) \<longrightarrow>
      map_get (resolved (record_result st ?r)) i \<noteq> None \<or> i \<in> rn_id ` set ns"
    by (auto simp: record_result_some [OF p])
  with Cons.IH [of "record_result st ?r"] Cons.prems show ?case
    by (auto simp: record_result_some [OF p])
qed simp

lemma run_level_live:
  assumes live: "always_answered hash lc run" and ok: "levels_ok (map leaf_id (rt_leaves (rr_tree run))) (rt_nodes (rr_tree run))"
    and l: "level_done (rr_tree run) l st"
  shows "level_done (rr_tree run) (Suc l) (run_level hash lc run (Suc l) st)"
proof -
  let ?t = "rr_tree run" and ?ns = "filter (\<lambda>n. rn_level n = Suc l) (rt_nodes (rr_tree run))"
  have ready: "\<forall>n \<in> set ?ns. \<forall>c \<in> set (rn_children n). map_get (resolved st) c \<noteq> None"
  proof (intro ballI)
    fix n c assume "n \<in> set ?ns" "c \<in> set (rn_children n)"
    with ok have "available (map leaf_id (rt_leaves ?t)) (rt_nodes ?t) (Suc l) c" by (force simp: levels_ok_def)
    with l show "map_get (resolved st) c \<noteq> None" by (simp add: level_done_def)
  qed
  note f = fold_level_live [OF live ready, of st, folded run_level_def]
  have count: "length (filter (\<lambda>n. rn_level n \<le> l) ns) + length (filter (\<lambda>n. rn_level n = Suc l) ns) =
      length (filter (\<lambda>n. rn_level n \<le> Suc l) ns)" for ns
    by (induction ns) auto
  have "available (map leaf_id (rt_leaves ?t)) (rt_nodes ?t) (Suc l) i \<or> i \<in> rn_id ` set ?ns"
    if "available (map leaf_id (rt_leaves ?t)) (rt_nodes ?t) (Suc (Suc l)) i" for i
    using that by (auto simp: available_def less_Suc_eq)
  moreover have "map_get (resolved st) i \<noteq> None" if "available (map leaf_id (rt_leaves ?t)) (rt_nodes ?t) (Suc l) i" for i
    using that l by (simp add: level_done_def)
  ultimately have have_all: "\<forall>i. available (map leaf_id (rt_leaves ?t)) (rt_nodes ?t) (Suc (Suc l)) i \<longrightarrow>
      map_get (resolved (run_level hash lc run (Suc l) st)) i \<noteq> None"
    using conjunct2 [OF conjunct2 [OF f]] by metis
  have st: "rs_failed st = []" "rs_combines st = length (filter (\<lambda>n. rn_level n \<le> l) (rt_nodes ?t))"
    using l unfolding level_done_def by blast+
  have "rs_failed (run_level hash lc run (Suc l) st) = []"
    using conjunct1 [OF f] unfolding st(1) .
  moreover have "rs_combines (run_level hash lc run (Suc l) st) = length (filter (\<lambda>n. rn_level n \<le> Suc l) (rt_nodes ?t))"
    using conjunct1 [OF conjunct2 [OF f]] unfolding st(2) count .
  ultimately show ?thesis using have_all unfolding level_done_def by blast
qed

lemma start_done: "levels_ok (map leaf_id (rt_leaves t)) (rt_nodes t) \<Longrightarrow> level_done t 0 (start_state t :: 'a reduce_state)"
proof -
  assume ok: "levels_ok (map leaf_id (rt_leaves t)) (rt_nodes t)"
  have start: "map_get m i \<noteq> None \<or> i \<in> leaf_id ` set ls \<Longrightarrow>
      map_get (foldl (\<lambda>m l. map_set (leaf_id l) (leaf_cid l) m) m ls) i \<noteq> None" for m i ls
    by (induction ls arbitrary: m) auto
  have "i \<in> leaf_id ` set (rt_leaves t) \<Longrightarrow> map_get (resolved (start_state t :: 'a reduce_state)) i \<noteq> None" for i
    unfolding start_state_def reduce_state.simps by (rule start) (rule disjI2)
  moreover have "filter (\<lambda>n. rn_level n \<le> 0) (rt_nodes t) = []"
    using ok by (force simp: levels_ok_def filter_empty_conv)
  moreover have "available (map leaf_id (rt_leaves t)) (rt_nodes t) (Suc 0) i \<longleftrightarrow> i \<in> leaf_id ` set (rt_leaves t)" for i
    using ok by (force simp: available_def levels_ok_def)
  moreover have "rs_failed (start_state t :: 'a reduce_state) = []" "rs_combines (start_state t :: 'a reduce_state) = 0" by (simp_all add: start_state_def)
  ultimately show ?thesis by (simp add: level_done_def)
qed

lemma run_levels_live:
  assumes "always_answered hash lc run" "deriveReduceTree h cs f = Inr (rr_tree run)"
  shows "level_done (rr_tree run) (max_level (rt_nodes (rr_tree run))) (run_levels hash lc run)"
proof -
  note ok = derive_levels(1) [OF assms(2)]
  have "level_done (rr_tree run) l (foldl (\<lambda>st l. run_level hash lc run l st) (start_state (rr_tree run)) [1..<Suc l])" for l
  proof (induction l)
    case 0
    from start_done [OF ok] show ?case by simp
  next
    case (Suc l)
    from run_level_live [OF assms(1) ok Suc.IH] show ?case by simp
  qed
  then show ?thesis by (simp add: run_levels_def)
qed

lemma reduce_live:
  assumes "rr_executors run \<noteq> []" "always_answered hash lc run" "deriveReduceTree h cs f = Inr (rr_tree run)"
  shows "ro_failed (executeReduce hash lc run) = []" "ro_rootCid (executeReduce hash lc run) \<noteq> None"
    "ro_combines (executeReduce hash lc run) = length (rt_nodes (rr_tree run))"
    "ro_ok (executeReduce hash lc run) \<longleftrightarrow> ro_disagreements (executeReduce hash lc run) = []"
proof -
  let ?t = "rr_tree run"
  note d = run_levels_live [OF assms(2,3)]
  have "available (map leaf_id (rt_leaves ?t)) (rt_nodes ?t) (Suc (max_level (rt_nodes ?t))) (rt_rootId ?t)"
    using derive_levels(2) [OF assms(3)] max_level_bound by (auto simp: available_def less_Suc_eq_le)
  with d have root: "map_get (resolved (run_levels hash lc run)) (rt_rootId ?t) \<noteq> None" by (simp add: level_done_def)
  have "filter (\<lambda>n. rn_level n \<le> max_level (rt_nodes ?t)) (rt_nodes ?t) = rt_nodes ?t"
    by (simp add: filter_id_conv max_level_bound)
  with d root assms(1)
  show "ro_failed (executeReduce hash lc run) = []" "ro_rootCid (executeReduce hash lc run) \<noteq> None"
    "ro_combines (executeReduce hash lc run) = length (rt_nodes ?t)"
    "ro_ok (executeReduce hash lc run) \<longleftrightarrow> ro_disagreements (executeReduce hash lc run) = []"
    by (auto simp: executeReduce_def Let_def level_done_def)
qed

lemma answered_when_one_lives:
  "(\<And>task. \<exists>e \<in> set (rr_executors run). rr_dispatch run task e \<noteq> None) \<Longrightarrow> always_answered hash lc run"
  unfolding replica_answers_def by (intro allI ask_executors_some [OF wanted_of_pos]) simp

section \<open>Properties\<close>

lemma reduce_run_value:
  assumes "ro_ok (executeReduce hash lc run)"
    and "\<And>task. fst (replica_answers hash lc run task) \<noteq> [] \<Longrightarrow>
      \<exists>q \<in> set (fst (replica_answers hash lc run task)). pd_cid q = F (ct_inputCids task)"
  shows "\<exists>c. ro_rootCid (executeReduce hash lc run) = Some c \<and>
    tree_value F (rt_leaves (rr_tree run)) (rt_nodes (rr_tree run)) (rt_rootId (rr_tree run)) c"
proof -
  from assms(1) have "rr_executors run \<noteq> []" by (auto simp: executeReduce_def)
  with assms(1) obtain c where "map_get (resolved (run_levels hash lc run)) (rt_rootId (rr_tree run)) = Some c"
    "rs_disagreements (run_levels hash lc run) = []" "ro_rootCid (executeReduce hash lc run) = Some c"
    by (auto simp: executeReduce_def Let_def)
  with run_levels_sound [OF assms(2)] show ?thesis by (auto simp: sound_state_def values_right_def)
qed

text \<open>One honest replica per combine is enough: if a run reports success, and among the replicas
  that answered each combine at least one computed it right, then the root it returns is the true
  value of the tree, whatever the other replicas answered.\<close>

theorem reduce_ok_root_is_true_value:
  assumes "ro_ok (executeReduce hash lc run)"
    and "\<And>task. fst (replica_answers hash lc run task) \<noteq> [] \<Longrightarrow>
      \<exists>q \<in> set (fst (replica_answers hash lc run task)). pd_cid q = F (ct_inputCids task)"
  shows "\<exists>c. ro_rootCid (executeReduce hash lc run) = Some c \<and>
    tree_value F (rt_leaves (rr_tree run)) (rt_nodes (rr_tree run)) (rt_rootId (rr_tree run)) c"
  using reduce_run_value [OF assms] .

text \<open>An executor that does the combine right, and one that never answers.\<close>

definition glue :: "string list \<Rightarrow> string" where
  "glue cids = js_join ''+'' cids"

definition demo_dispatch :: "unit combine_dispatch" where
  "demo_dispatch task e = (if e = ''dead'' then None else Some \<lparr>cp_cid = glue (ct_inputCids task), cp_attestation = ()\<rparr>)"

definition demo_run :: "unit reduce_run" where
  "demo_run = \<lparr>rr_tree = demo_tree, rr_executors = [''dead'', ''live''], rr_dispatch = demo_dispatch,
               rr_localCombine = None, rr_redundancy = None\<rparr>"

lemma demo_run_tree: "deriveReduceTree mark (map demo_contribution [''b'', ''a'', ''c'']) (Fin 2) = Inr (rr_tree demo_run)"
  by (simp only: demo_run_def reduce_run.simps demo_tree_derived)

lemma demo_run_live: "always_answered mark unit_cmp demo_run"
  by (rule answered_when_one_lives) (simp add: demo_run_def demo_dispatch_def)

lemma demo_run_honest:
  assumes "fst (replica_answers mark unit_cmp demo_run task) \<noteq> []"
  shows "\<exists>q \<in> set (fst (replica_answers mark unit_cmp demo_run task)). pd_cid q = glue (ct_inputCids task)"
proof -
  obtain q where q: "q \<in> set (fst (replica_answers mark unit_cmp demo_run task))"
    using assms by (meson last_in_set)
  then have "\<exists>e p. demo_dispatch task e = Some p \<and> pd_cid q = cp_cid p"
    using ask_executors_answers [OF q [unfolded replica_answers_def]]
    by (auto simp: combine_locally_def demo_run_def)
  with q show ?thesis by (auto simp: demo_dispatch_def split: if_splits)
qed

lemma demo_run_agrees: "rs_disagreements (run_levels mark unit_cmp demo_run) = []"
proof -
  have one: "length (nr_cids (combine_node mark unit_cmp demo_run known n)) \<le> 1" for known n
  proof (cases rule: combine_node_cases [of mark unit_cmp demo_run known n])
    case 1
    then show ?thesis by (auto simp: combine_node_def Let_def split: list.splits prod.splits)
  next
    case (2 p ps)
    have "length (p # ps) \<le> max (wanted_of demo_run) (length (fst (combine_locally demo_run
        \<lparr>ct_nodeId = rn_id n, ct_inputCids = map (the \<circ> map_get known) (rn_children n), ct_level = rn_level n\<rparr>)))"
      unfolding 2(4) [symmetric] replica_answers_def by (rule ask_executors_enough)
    then have "length (p # ps) \<le> 1" by (simp add: wanted_of_def combine_locally_def demo_run_def)
    then show ?thesis by (simp add: 2(5) set_of_list_def set_add_def)
  qed
  have "rs_disagreements (record_result st r) = rs_disagreements st" if "length (nr_cids r) \<le> 1" for st :: "unit reduce_state" and r
    using that by (auto simp: record_result_def Let_def split: option.splits)
  then have "rs_disagreements (run_level mark unit_cmp demo_run l st) = []" if "rs_disagreements st = []" for l and st :: "unit reduce_state"
    unfolding run_level_def using that one by (intro foldl_invariant [where I = "\<lambda>st. rs_disagreements st = []"]) auto
  then show ?thesis unfolding run_levels_def
    by (intro foldl_invariant [where I = "\<lambda>st. rs_disagreements st = []"]) (simp_all add: start_state_def)
qed

lemma demo_run_ok: "ro_ok (executeReduce mark unit_cmp demo_run)"
proof -
  have "ro_ok (executeReduce mark unit_cmp demo_run) \<longleftrightarrow> ro_disagreements (executeReduce mark unit_cmp demo_run) = []"
    by (rule reduce_live [OF _ demo_run_live demo_run_tree]) (simp add: demo_run_def)
  then show ?thesis using demo_run_agrees by (simp add: executeReduce_def Let_def demo_run_def)
qed

theorem reduce_ok_root_is_true_value_witness:
  "\<exists>c. ro_rootCid (executeReduce mark unit_cmp demo_run) = Some c \<and>
    tree_value glue (rt_leaves (rr_tree demo_run)) (rt_nodes (rr_tree demo_run)) (rt_rootId (rr_tree demo_run)) c"
  by (rule reduce_ok_root_is_true_value [OF demo_run_ok]) (rule demo_run_honest)

text \<open>C11: A dead executor costs a retry, not the job: if every combine can be done by at least one of the
  executors, then on a derived tree every combine is done, none has failed, there is a root, and
  the run succeeds unless replicas disagreed.\<close>

theorem reduce_completes_with_one_live_executor:
  assumes "deriveReduceTree h cs f = Inr (rr_tree run)" "rr_executors run \<noteq> []"
    and "\<And>task. \<exists>e \<in> set (rr_executors run). rr_dispatch run task e \<noteq> None"
  shows "ro_failed (executeReduce hash lc run) = [] \<and> ro_rootCid (executeReduce hash lc run) \<noteq> None \<and>
    ro_combines (executeReduce hash lc run) = length (rt_nodes (rr_tree run)) \<and>
    (ro_ok (executeReduce hash lc run) \<longleftrightarrow> ro_disagreements (executeReduce hash lc run) = [])"
  using reduce_live [OF assms(2) answered_when_one_lives [OF assms(3)] assms(1)] by blast

theorem reduce_completes_with_one_live_executor_witness:
  "ro_failed (executeReduce mark unit_cmp demo_run) = [] \<and> ro_rootCid (executeReduce mark unit_cmp demo_run) \<noteq> None \<and>
    ro_combines (executeReduce mark unit_cmp demo_run) = length (rt_nodes (rr_tree demo_run)) \<and>
    (ro_ok (executeReduce mark unit_cmp demo_run) \<longleftrightarrow> ro_disagreements (executeReduce mark unit_cmp demo_run) = [])"
  by (rule reduce_completes_with_one_live_executor [OF demo_run_tree]) (simp_all add: demo_run_def demo_dispatch_def)

end
