(* ===== verification/Canonical.thy ===== *)
theory Canonical
  imports Prelude "HOL-Library.Word"
begin

unbundle bit_operations_syntax

text \<open>
  Canonical values and their encoding: \<open>packages/core/src/canonical/encode.ts\<close>, with the hex
  functions of \<open>packages/core/src/capability.ts\<close> and \<open>operatorIdFor\<close>'s string helpers.

  The DAG-CBOR codec and the CID constructor are third-party packages: \<open>codec\<close> maps a value to its bytes
  (\<open>None\<close> when it throws) and \<open>cid_of\<close> maps bytes to the text of their CID.  An object is the
  list of its own entries; a byte is an \<open>8 word\<close>.
\<close>

type_synonym bytes = "8 word list"

datatype cvalue =
    CNull
  | CBool bool
  | CNum jsnum
  | CStr string
  | CBytes bytes
  | CCid string
  | CList "cvalue list"
  | CObj "(string \<times> cvalue) list"

type_synonym codec = "cvalue \<Rightarrow> bytes option"

datatype encode_error =
    Non_finite_float string string
  | Codec_rejected

section \<open>Refusing what has no canonical form\<close>

text \<open>\<open>String(n)\<close> for an index and for a non-finite number.\<close>

fun digits_of :: "nat \<Rightarrow> nat \<Rightarrow> string" where
  "digits_of 0 n = []"
| "digits_of (Suc fuel) n =
     (if n < 10 then [char_of (48 + n)] else digits_of fuel (n div 10) @ [char_of (48 + n mod 10)])"

definition nat_text :: "nat \<Rightarrow> string" where
  "nat_text n = digits_of (Suc n) n"

text \<open>Reading a number back from its digits.\<close>

fun digits_value :: "nat \<Rightarrow> string \<Rightarrow> nat" where
  "digits_value a [] = a"
| "digits_value a (c # cs) = digits_value (10 * a + (of_char c - 48)) cs"

lemma digits_value_append: "digits_value a (xs @ ys) = digits_value (digits_value a xs) ys"
  by (induction xs arbitrary: a) auto

lemma digits_of_facts: "n < k \<Longrightarrow>
  digits_value 0 (digits_of k n) = n \<and> digits_of k n \<noteq> [] \<and> (\<forall>c \<in> set (digits_of k n). 48 \<le> (of_char c :: nat) \<and> (of_char c :: nat) \<le> 57)"
proof (induction k arbitrary: n)
  case (Suc k)
  show ?case
  proof (cases "n < 10")
    case False
    then have "n div 10 < k" using Suc.prems by auto
    from Suc.IH [OF this] False show ?thesis by (simp add: digits_value_append)
  qed simp
qed simp

lemma digits_value_nat_text: "digits_value 0 (nat_text n) = n"
  and nat_text_digits: "c \<in> set (nat_text n) \<Longrightarrow> 48 \<le> (of_char c :: nat) \<and> (of_char c :: nat) \<le> 57"
  and nat_text_not_Nil: "nat_text n \<noteq> []"
  using digits_of_facts [of n "Suc n"] by (auto simp: nat_text_def simp del: digits_of.simps)

lemma nat_text_inj: "nat_text m = nat_text n \<Longrightarrow> m = n"
  by (metis digits_value_nat_text)

fun non_finite_text :: "jsnum \<Rightarrow> string" where
  "non_finite_text PosInf = ''Infinity''"
| "non_finite_text NegInf = ''-Infinity''"
| "non_finite_text NaN = ''NaN''"
| "non_finite_text (Fin r) = ''''"

fun findNonFinite :: "cvalue \<Rightarrow> string \<Rightarrow> encode_error option"
  and find_in_list :: "cvalue list \<Rightarrow> nat \<Rightarrow> string \<Rightarrow> encode_error option"
  and find_in_entries :: "(string \<times> cvalue) list \<Rightarrow> string \<Rightarrow> encode_error option" where
  "findNonFinite (CNum n) path = (if \<not> is_finite n then Some (Non_finite_float path (non_finite_text n)) else None)"
| "findNonFinite CNull path = None"
| "findNonFinite (CBool b) path = None"
| "findNonFinite (CStr s) path = None"
| "findNonFinite (CBytes b) path = None"
| "findNonFinite (CCid c) path = None"
| "findNonFinite (CList vs) path = find_in_list vs 0 path"
| "findNonFinite (CObj es) path = find_in_entries es path"
| "find_in_list [] i path = None"
| "find_in_list (v # vs) i path =
     (case findNonFinite v (path @ ''['' @ nat_text i @ '']'') of
        Some e \<Rightarrow> Some e
      | None \<Rightarrow> find_in_list vs (i + 1) path)"
| "find_in_entries [] path = None"
| "find_in_entries ((k, v) # es) path =
     (case findNonFinite v (if path = '''' then k else path @ ''.'' @ k) of
        Some e \<Rightarrow> Some e
      | None \<Rightarrow> find_in_entries es path)"

definition encodeCanonical :: "codec \<Rightarrow> cvalue \<Rightarrow> encode_error + bytes" where
  "encodeCanonical codec v =
     (case findNonFinite v [] of
        Some e \<Rightarrow> Inl e
      | None \<Rightarrow> (case codec v of Some bytes \<Rightarrow> Inr bytes | None \<Rightarrow> Inl Codec_rejected))"

definition canonicalCid :: "codec \<Rightarrow> (bytes \<Rightarrow> string) \<Rightarrow> cvalue \<Rightarrow> encode_error + string \<times> bytes" where
  "canonicalCid codec cid_of v =
     (case encodeCanonical codec v of
        Inl e \<Rightarrow> Inl e
      | Inr bytes \<Rightarrow> Inr (cid_of bytes, bytes))"

text \<open>What a canonical value is: no number in it is NaN or infinite.\<close>

fun all_finite :: "cvalue \<Rightarrow> bool" where
  "all_finite (CNum n) = is_finite n"
| "all_finite (CList vs) = list_all all_finite vs"
| "all_finite (CObj es) = list_all (\<lambda>e. all_finite (snd e)) es"
| "all_finite CNull = True"
| "all_finite (CBool b) = True"
| "all_finite (CStr s) = True"
| "all_finite (CBytes b) = True"
| "all_finite (CCid c) = True"

lemma findNonFinite_None:
  "findNonFinite v p = None \<longleftrightarrow> all_finite v"
  "find_in_list vs i p = None \<longleftrightarrow> list_all all_finite vs"
  "find_in_entries es p = None \<longleftrightarrow> list_all (\<lambda>e. all_finite (snd e)) es"
proof (induction v p and vs i p and es p rule: findNonFinite_find_in_list_find_in_entries.induct)
  case (10 v vs i path)
  then show ?case by (cases "findNonFinite v (path @ ''['' @ nat_text i @ '']'')") simp_all
next
  case (12 k v es path)
  then show ?case by (cases "findNonFinite v (if path = '''' then k else path @ ''.'' @ k)") simp_all
qed simp_all

lemma encodeCanonical_Inr: "encodeCanonical codec v = Inr b \<longleftrightarrow> all_finite v \<and> codec v = Some b"
  using findNonFinite_None(1) [of v "[]"] by (auto simp: encodeCanonical_def split: option.splits)

section \<open>Hex\<close>

definition HEX :: string where
  "HEX = ''0123456789abcdef''"

fun toHex :: "bytes \<Rightarrow> string" where
  "toHex [] = []"
| "toHex (b # bs) = HEX ! unat (drop_bit 4 b) # HEX ! unat (b AND 0x0f) # toHex bs"

definition hex_digit :: "char \<Rightarrow> nat option" where
  "hex_digit c =
     (let n = of_char c
      in if 48 \<le> n \<and> n \<le> 57 then Some (n - 48)
         else if 97 \<le> n \<and> n \<le> 102 then Some (n - 87)
         else if 65 \<le> n \<and> n \<le> 70 then Some (n - 55) else None)"

text \<open>
  \<open>Number.parseInt\<close> of two characters to base 16, stored in a \<open>Uint8Array\<close>: the longest prefix of
  digits counts, white space and a sign may come first, and \<open>NaN\<close> is stored as 0.
\<close>

definition parse_byte :: "char \<Rightarrow> char \<Rightarrow> 8 word" where
  "parse_byte a b =
     (case (hex_digit a, hex_digit b) of
        (Some x, Some y) \<Rightarrow> of_nat (16 * x + y)
      | (Some x, None) \<Rightarrow> of_nat x
      | (None, Some y) \<Rightarrow>
          if of_char a \<in> {9, 10, 11, 12, 13, 32, 160 :: nat} \<or> a = CHR ''+'' then of_nat y
          else if a = CHR ''-'' then - of_nat y else 0
      | (None, None) \<Rightarrow> 0)"

fun fromHex :: "string \<Rightarrow> bytes" where
  "fromHex (a # b # rest) = parse_byte a b # fromHex rest"
| "fromHex _ = []"

lemma hex_digit_HEX: "n < 16 \<Longrightarrow> hex_digit (HEX ! n) = Some n"
proof -
  assume "n < 16"
  moreover have "list_all (\<lambda>n. hex_digit (HEX ! n) = Some n) [0..<16]" by code_simp
  ultimately show ?thesis by (simp add: list_all_iff)
qed

lemma byte_parts: "16 * unat (drop_bit 4 (b :: 8 word)) + unat (b AND 0x0f) = unat b"
proof -
  have "b AND 0x0f = take_bit 4 b" by (simp add: take_bit_eq_mask mask_eq_exp_minus_1)
  then have "unat (b AND 0x0f) = take_bit 4 (unat b)" by (simp only: unsigned_take_bit_eq)
  then have "unat (b AND 0x0f) = unat b mod 16" by (simp add: take_bit_eq_mod)
  moreover have "unat (drop_bit 4 b) = unat b div 16"
    by (simp add: drop_bit_eq_div unat_div)
  ultimately show ?thesis by simp
qed

lemma nibbles_small: "unat (drop_bit 4 (b :: 8 word)) < 16" "unat ((b :: 8 word) AND 0x0f) < 16"
proof -
  have "b AND 0x0f = take_bit 4 b" by (simp add: take_bit_eq_mask mask_eq_exp_minus_1)
  then have "unat (b AND 0x0f) = take_bit 4 (unat b)" by (simp only: unsigned_take_bit_eq)
  then show "unat (b AND 0x0f) < 16" by (simp add: take_bit_eq_mod)
  show "unat (drop_bit 4 b) < 16" using byte_parts [of b] unsigned_less [of b, where 'a = nat] by simp
qed

lemma parse_byte_hex: "parse_byte (HEX ! unat (drop_bit 4 b)) (HEX ! unat (b AND 0x0f)) = b"
proof -
  have "parse_byte (HEX ! unat (drop_bit 4 b)) (HEX ! unat (b AND 0x0f)) =
      of_nat (16 * unat (drop_bit 4 b) + unat (b AND 0x0f))"
    by (simp only: parse_byte_def hex_digit_HEX nibbles_small prod.case option.case)
  also have "\<dots> = b" by (simp only: byte_parts) simp
  finally show ?thesis .
qed

lemma fromHex_toHex [simp]: "fromHex (toHex bs) = bs"
  by (induction bs) (simp_all only: toHex.simps fromHex.simps parse_byte_hex)

lemma length_toHex [simp]: "length (toHex bs) = 2 * length bs"
  by (induction bs) simp_all

lemma toHex_inj: "toHex a = toHex b \<Longrightarrow> a = b"
  by (metis fromHex_toHex)

section \<open>The order of entries\<close>

text \<open>
  DAG-CBOR lists the entries of a map by the length of the key, then by the key; decoding what was
  encoded gives the value with its entries in that order.
\<close>

definition dag_key_cmp :: "string \<times> cvalue \<Rightarrow> string \<times> cvalue \<Rightarrow> int" where
  "dag_key_cmp a b = js_or (num_cmp (length (fst a)) (length (fst b))) (unit_cmp (fst a) (fst b))"

fun dag_sorted :: "cvalue \<Rightarrow> cvalue" where
  "dag_sorted (CList vs) = CList (map dag_sorted vs)"
| "dag_sorted (CObj es) = CObj (js_sort dag_key_cmp (map (\<lambda>e. (fst e, dag_sorted (snd e))) es))"
| "dag_sorted v = v"

lemma map_get_sorted: "map_ok es \<Longrightarrow> map_get (js_sort cmp es) k = map_get es k"
proof -
  assume ok: "map_ok es"
  then have "map_ok (js_sort cmp es)" by (metis mset_js_sort mset_eq_imp_distinct_iff mset_map)
  with ok show ?thesis by (metis map_get_map_of map_of_inject_set set_js_sort)
qed

lemma map_get_mapped: "map_get (map (\<lambda>e. (fst e, f (snd e))) es) k = map_option f (map_get es k)"
  by (induction es) auto

lemma map_get_dag: "map_ok es \<Longrightarrow> dag_sorted (CObj es) = CObj rs \<Longrightarrow> map_get rs k = map_option dag_sorted (map_get es k)"
  by (auto simp: map_get_sorted map_get_mapped o_def)

end
