(* ===== verification/Capability.thy ===== *)
theory Capability
  imports Canonical
begin

text \<open>
  Capability chains: \<open>packages/core/src/capability.ts\<close>.

  Ed25519 is a third-party package.  \<open>verify sig message key\<close> is its check, with \<open>None\<close> for a throw, which
  the source catches and reads as a failed check; \<open>sign\<close> and \<open>pub\<close> are its signing and key derivation.
  A payload that has no canonical form makes the source throw \<open>NotEncodableError\<close>; that is the
  outcome \<open>Chain_threw\<close>.  The lemmas say exactly which chains are accepted.
\<close>

type_synonym verifier = "bytes \<Rightarrow> bytes \<Rightarrow> bytes \<Rightarrow> bool option"

text \<open>\<open>try { valid = verify(...) } catch { valid = false }\<close>.\<close>

definition checks :: "verifier \<Rightarrow> string \<Rightarrow> bytes \<Rightarrow> string \<Rightarrow> bool" where
  "checks verify signature payload key = (verify (fromHex signature) payload (fromHex key) = Some True)"

datatype ability = Execute | Read_data | Delegate

fun ability_text :: "ability \<Rightarrow> string" where
  "ability_text Execute = ''execute''"
| "ability_text Read_data = ''read''"
| "ability_text Delegate = ''delegate''"

record delegation =
  d_issuer :: string
  d_audience :: string
  d_ownerId :: string
  d_abilities :: "ability list"
  d_expiresAt :: jsnum
  d_signature :: string

definition delegation_value :: "delegation \<Rightarrow> cvalue" where
  "delegation_value d =
     CObj [(''issuer'', CStr (d_issuer d)), (''audience'', CStr (d_audience d)), (''ownerId'', CStr (d_ownerId d)),
           (''abilities'', CList (map CStr (js_sort unit_cmp (map ability_text (d_abilities d))))),
           (''expiresAt'', CNum (d_expiresAt d))]"

definition delegation_payload :: "codec \<Rightarrow> delegation \<Rightarrow> encode_error + bytes" where
  "delegation_payload codec d = encodeCanonical codec (delegation_value d)"

text \<open>\<open>delegate\<close>: the fields to sign come as a delegation whose issuer and signature are ignored.\<close>

definition delegate_capability ::
  "codec \<Rightarrow> (bytes \<Rightarrow> bytes \<Rightarrow> bytes) \<Rightarrow> (bytes \<Rightarrow> bytes) \<Rightarrow> bytes \<Rightarrow> delegation \<Rightarrow> encode_error + delegation" where
  "delegate_capability codec sign pub issuerPrivateKey to_sign =
     (let unsigned = to_sign\<lparr>d_issuer := toHex (pub issuerPrivateKey)\<rparr>
      in case delegation_payload codec unsigned of
           Inl e \<Rightarrow> Inl e
         | Inr payload \<Rightarrow> Inr (unsigned\<lparr>d_signature := toHex (sign payload issuerPrivateKey)\<rparr>))"

datatype delegate_error = Not_encodable encode_error | Signer_mismatch string

text \<open>\<open>delegateWith\<close>: the signer answers with bytes, and what it signed is checked before it is used.\<close>

definition delegateWith ::
  "codec \<Rightarrow> verifier \<Rightarrow> string \<Rightarrow> (bytes \<Rightarrow> bytes) \<Rightarrow> delegation \<Rightarrow> delegate_error + delegation" where
  "delegateWith codec verify userKey signer to_sign =
     (let unsigned = to_sign\<lparr>d_issuer := userKey\<rparr>
      in case delegation_payload codec unsigned of
           Inl e \<Rightarrow> Inl (Not_encodable e)
         | Inr payload \<Rightarrow>
             let signature = signer payload
             in if verify signature payload (fromHex userKey) \<noteq> Some True then Inl (Signer_mismatch userKey)
                else Inr (unsigned\<lparr>d_signature := toHex signature\<rparr>))"

datatype chain_failure =
    Empty_chain
  | Wrong_root string string
  | Broken_link nat string string
  | Bad_chain_signature nat string
  | Link_expired nat jsnum rat
  | Owner_mismatch nat string string
  | Missing_ability nat ability
  | Not_delegable nat
  | Wrong_audience string string
  | Too_deep nat nat

definition MAX_CHAIN_DEPTH :: nat where
  "MAX_CHAIN_DEPTH = 8"

datatype chain_result =
    Chain_ok string jsnum
  | Chain_refused chain_failure
  | Chain_threw encode_error

record verify_options =
  vo_ownerKey :: string
  vo_ownerId :: string
  vo_audience :: string
  vo_ability :: ability
  vo_now :: rat

text \<open>\<open>Math.min\<close> on numbers.\<close>

fun js_min :: "jsnum \<Rightarrow> jsnum \<Rightarrow> jsnum" where
  "js_min NaN y = NaN"
| "js_min x NaN = NaN"
| "js_min NegInf y = NegInf"
| "js_min x NegInf = NegInf"
| "js_min PosInf y = y"
| "js_min x PosInf = x"
| "js_min (Fin a) (Fin b) = Fin (min a b)"

text \<open>The checks on link \<open>i\<close>, in the order of the loop; \<open>previous\<close> is link \<open>i - 1\<close>.\<close>

definition check_link ::
  "codec \<Rightarrow> verifier \<Rightarrow> verify_options \<Rightarrow> nat \<Rightarrow> string \<Rightarrow> delegation option \<Rightarrow> delegation \<Rightarrow> chain_result option" where
  "check_link codec verify options i expectedIssuer previous link =
     (if d_issuer link \<noteq> expectedIssuer
      then Some (Chain_refused (if i = 0 then Wrong_root (vo_ownerKey options) (d_issuer link)
                                else Broken_link i expectedIssuer (d_issuer link)))
      else if d_ownerId link \<noteq> vo_ownerId options
      then Some (Chain_refused (Owner_mismatch i (vo_ownerId options) (d_ownerId link)))
      else case delegation_payload codec link of
             Inl e \<Rightarrow> Some (Chain_threw e)
           | Inr payload \<Rightarrow>
               if \<not> checks verify (d_signature link) payload (d_issuer link)
               then Some (Chain_refused (Bad_chain_signature i (d_issuer link)))
               else if js_le (d_expiresAt link) (vo_now options)
               then Some (Chain_refused (Link_expired i (d_expiresAt link) (vo_now options)))
               else if vo_ability options \<notin> set (d_abilities link)
               then Some (Chain_refused (Missing_ability i (vo_ability options)))
               else case previous of
                      None \<Rightarrow> None
                    | Some p \<Rightarrow> if Delegate \<notin> set (d_abilities p)
                                then Some (Chain_refused (Not_delegable i)) else None)"

fun check_links ::
  "codec \<Rightarrow> verifier \<Rightarrow> verify_options \<Rightarrow> nat \<Rightarrow> string \<Rightarrow> delegation option \<Rightarrow> delegation list \<Rightarrow> chain_result + string" where
  "check_links codec verify options i expectedIssuer previous [] = Inr expectedIssuer"
| "check_links codec verify options i expectedIssuer previous (link # links) =
     (case check_link codec verify options i expectedIssuer previous link of
        Some failed \<Rightarrow> Inl failed
      | None \<Rightarrow> check_links codec verify options (i + 1) (d_audience link) (Some link) links)"

definition verifyChain :: "codec \<Rightarrow> verifier \<Rightarrow> delegation list \<Rightarrow> verify_options \<Rightarrow> chain_result" where
  "verifyChain codec verify chain options =
     (if chain = [] then Chain_refused Empty_chain
      else if length chain > MAX_CHAIN_DEPTH then Chain_refused (Too_deep (length chain) MAX_CHAIN_DEPTH)
      else case check_links codec verify options 0 (vo_ownerKey options) None chain of
             Inl failed \<Rightarrow> failed
           | Inr expectedIssuer \<Rightarrow>
               if expectedIssuer \<noteq> vo_audience options
               then Chain_refused (Wrong_audience (vo_audience options) expectedIssuer)
               else Chain_ok expectedIssuer (foldl (\<lambda>earliest l. js_min earliest (d_expiresAt l)) PosInf chain))"

section \<open>What an accepted chain says\<close>

text \<open>One link taken on its own: signed by its issuer, for this owner, live and with the ability.\<close>

definition link_good :: "codec \<Rightarrow> verifier \<Rightarrow> verify_options \<Rightarrow> delegation \<Rightarrow> bool" where
  "link_good codec verify options l \<longleftrightarrow>
     d_ownerId l = vo_ownerId options \<and> vo_ability options \<in> set (d_abilities l) \<and>
     \<not> js_le (d_expiresAt l) (vo_now options) \<and>
     (\<exists>payload. delegation_payload codec l = Inr payload \<and> checks verify (d_signature l) payload (d_issuer l))"

text \<open>The links follow each other from \<open>from\<close>, and whoever passes on may pass on.\<close>

fun linked :: "string \<Rightarrow> delegation option \<Rightarrow> delegation list \<Rightarrow> bool" where
  "linked from previous [] = True"
| "linked from previous (l # ls) \<longleftrightarrow>
     d_issuer l = from \<and> (case previous of None \<Rightarrow> True | Some p \<Rightarrow> Delegate \<in> set (d_abilities p)) \<and>
     linked (d_audience l) (Some l) ls"

lemma check_link_None:
  "check_link codec verify options i from previous l = None \<longleftrightarrow>
     d_issuer l = from \<and> link_good codec verify options l \<and>
     (case previous of None \<Rightarrow> True | Some p \<Rightarrow> Delegate \<in> set (d_abilities p))"
  by (auto simp: check_link_def link_good_def split: sum.splits option.splits if_splits)

lemma check_links_Inr:
  "check_links codec verify options i from previous ls = Inr e \<longleftrightarrow>
     linked from previous ls \<and> list_all (link_good codec verify options) ls \<and>
     e = (if ls = [] then from else d_audience (last ls))"
proof (induction ls arbitrary: i "from" previous)
  case (Cons l ls)
  show ?case
  proof (cases "check_link codec verify options i from previous l")
    case None
    then have good: "d_issuer l = from" "link_good codec verify options l"
      "case previous of None \<Rightarrow> True | Some p \<Rightarrow> Delegate \<in> set (d_abilities p)"
      by (simp_all only: check_link_None)
    have "check_links codec verify options i from previous (l # ls) =
        check_links codec verify options (i + 1) (d_audience l) (Some l) ls" using None by simp
    also have "\<dots> = Inr e \<longleftrightarrow> linked (d_audience l) (Some l) ls \<and> list_all (link_good codec verify options) ls \<and>
        e = (if ls = [] then d_audience l else d_audience (last ls))" by (rule Cons.IH)
    finally show ?thesis using good by simp
  next
    case (Some r)
    then have "check_link codec verify options i from previous l \<noteq> None" by simp
    then have "\<not> (d_issuer l = from \<and> link_good codec verify options l \<and>
        (case previous of None \<Rightarrow> True | Some p \<Rightarrow> Delegate \<in> set (d_abilities p)))"
      unfolding check_link_None .
    with Some show ?thesis by auto
  qed
qed auto

lemma linked_append:
  "linked f p (xs @ ys) \<longleftrightarrow> linked f p xs \<and>
     (if xs = [] then linked f p ys else linked (d_audience (last xs)) (Some (last xs)) ys)"
  by (induction xs arbitrary: f p) auto

lemma link_good_finite: "link_good codec verify options l \<Longrightarrow> \<exists>r. d_expiresAt l = Fin r"
  by (cases "d_expiresAt l")
    (auto simp: link_good_def delegation_payload_def encodeCanonical_Inr delegation_value_def)

abbreviation earliest_expiry :: "delegation list \<Rightarrow> jsnum" where
  "earliest_expiry chain \<equiv> foldl (\<lambda>earliest l. js_min earliest (d_expiresAt l)) PosInf chain"

lemma earliest_expiry_min:
  assumes "list_all (\<lambda>l. \<exists>r. d_expiresAt l = Fin r) chain" "chain \<noteq> []"
  shows "\<exists>r. earliest_expiry chain = Fin r \<and> (\<exists>l \<in> set chain. d_expiresAt l = Fin r) \<and>
    (\<forall>l \<in> set chain. js_ge (d_expiresAt l) r)"
proof -
  have gen: "\<exists>r. foldl (\<lambda>e l. js_min e (d_expiresAt l)) (Fin q) ls = Fin r \<and> r \<le> q \<and>
      (r = q \<or> (\<exists>l \<in> set ls. d_expiresAt l = Fin r)) \<and> (\<forall>l \<in> set ls. js_ge (d_expiresAt l) r)"
    if "list_all (\<lambda>l. \<exists>r. d_expiresAt l = Fin r) ls" for q and ls :: "delegation list"
    using that
  proof (induction ls arbitrary: q)
    case (Cons l ls)
    then obtain a where a: "d_expiresAt l = Fin a" by auto
    from Cons.IH [of "min q a"] Cons.prems obtain r where
      "foldl (\<lambda>e l. js_min e (d_expiresAt l)) (Fin (min q a)) ls = Fin r" "r \<le> min q a"
      "r = min q a \<or> (\<exists>l \<in> set ls. d_expiresAt l = Fin r)" "\<forall>l \<in> set ls. js_ge (d_expiresAt l) r" by auto
    then show ?case using a by (intro exI [of _ r]) (auto simp: min_def split: if_splits)
  qed simp
  from assms obtain l ls a where "chain = l # ls" "d_expiresAt l = Fin a"
    "list_all (\<lambda>l. \<exists>r. d_expiresAt l = Fin r) ls" by (cases chain) auto
  with gen [of ls a] show ?thesis by auto
qed

lemma verifyChain_ok_iff:
  "verifyChain codec verify chain options = Chain_ok aud expiry \<longleftrightarrow>
     chain \<noteq> [] \<and> length chain \<le> MAX_CHAIN_DEPTH \<and> linked (vo_ownerKey options) None chain \<and>
     list_all (link_good codec verify options) chain \<and> d_audience (last chain) = vo_audience options \<and>
     aud = vo_audience options \<and> expiry = earliest_expiry chain"
proof (cases "chain = [] \<or> length chain > MAX_CHAIN_DEPTH")
  case False
  have link: "check_link codec verify options i f p l \<noteq> Some (Chain_ok aud expiry)" for i f p l
    by (auto simp: check_link_def split: sum.splits option.splits)
  have "check_links codec verify options i f p ls \<noteq> Inl (Chain_ok aud expiry)" for i f p ls
    by (induction ls arbitrary: i f p) (auto simp: link split: option.splits)
  with False check_links_Inr [of codec verify options 0 "vo_ownerKey options" None chain] show ?thesis
    by (cases "check_links codec verify options 0 (vo_ownerKey options) None chain")
      (auto simp: verifyChain_def)
qed (auto simp: verifyChain_def)

lemma linked_indexed:
  "linked f p ls \<longleftrightarrow> ls = [] \<or> (d_issuer (hd ls) = f \<and>
      (case p of None \<Rightarrow> True | Some q \<Rightarrow> Delegate \<in> set (d_abilities q)) \<and>
      (\<forall>i. i + 1 < length ls \<longrightarrow> d_issuer (ls ! (i + 1)) = d_audience (ls ! i) \<and> Delegate \<in> set (d_abilities (ls ! i))))"
  for ls :: "delegation list"
proof (induction ls arbitrary: f p)
  case (Cons l ls)
  show ?case
  proof (cases ls)
    case (Cons m ms)
    have "(\<forall>i. i + 1 < length (l # ls) \<longrightarrow> Q i) \<longleftrightarrow> Q 0 \<and> (\<forall>i. i + 1 < length ls \<longrightarrow> Q (Suc i))" for Q
      using Cons by (auto simp: less_Suc_eq_0_disj)
    then show ?thesis unfolding linked.simps Cons.IH using \<open>ls = m # ms\<close> by simp
  qed simp
qed simp

lemma earliest_expiry_unique:
  assumes "chain \<noteq> []" "\<forall>l \<in> set chain. link_good codec verify options l"
  shows "(\<exists>s. expiry = Fin s \<and> (\<exists>l \<in> set chain. d_expiresAt l = Fin s) \<and> (\<forall>l \<in> set chain. js_ge (d_expiresAt l) s))
      \<longleftrightarrow> expiry = earliest_expiry chain"
proof -
  have "list_all (\<lambda>l. \<exists>r. d_expiresAt l = Fin r) chain"
    using assms(2) link_good_finite by (auto simp: list_all_iff)
  from earliest_expiry_min [OF this assms(1)] obtain r where r: "earliest_expiry chain = Fin r"
    "\<exists>l \<in> set chain. d_expiresAt l = Fin r" "\<forall>l \<in> set chain. js_ge (d_expiresAt l) r" by blast
  have "s = r" if "\<exists>l \<in> set chain. d_expiresAt l = Fin s" "\<forall>l \<in> set chain. js_ge (d_expiresAt l) s" for s
    using that r(2,3) by (metis js_ge.simps(1) order_antisym)
  then have "(\<exists>s. expiry = Fin s \<and> (\<exists>l \<in> set chain. d_expiresAt l = Fin s) \<and> (\<forall>l \<in> set chain. js_ge (d_expiresAt l) s))
      \<longleftrightarrow> expiry = Fin r" using r(2,3) by blast
  then show ?thesis unfolding r(1) .
qed

text \<open>C9: A chain is accepted exactly when it should be: it has between one and eight links, starts at
  the data owner's key, every link is issued by the audience of the one before and ends at this
  node, whoever passed on was given the right to delegate, and every link is validly signed,
  scoped to the owner, unexpired and carries the ability; the expiry returned is the earliest of
  the links'.\<close>

theorem chain_accepted_iff:
  shows "verifyChain codec verify chain options = Chain_ok aud expiry \<longleftrightarrow>
     chain \<noteq> [] \<and> length chain \<le> 8 \<and> d_issuer (hd chain) = vo_ownerKey options \<and>
     (\<forall>i. i + 1 < length chain \<longrightarrow> d_issuer (chain ! (i + 1)) = d_audience (chain ! i) \<and>
       Delegate \<in> set (d_abilities (chain ! i))) \<and>
     d_audience (last chain) = vo_audience options \<and>
     (\<forall>l \<in> set chain. link_good codec verify options l) \<and>
     aud = vo_audience options \<and>
     (\<exists>r. expiry = Fin r \<and> (\<exists>l \<in> set chain. d_expiresAt l = Fin r) \<and> (\<forall>l \<in> set chain. js_ge (d_expiresAt l) r))"
proof -
  show ?thesis
  proof (cases "chain \<noteq> [] \<and> (\<forall>l \<in> set chain. link_good codec verify options l)")
    case True
    note u = earliest_expiry_unique [OF conjunct1 [OF True] conjunct2 [OF True]]
    have "verifyChain codec verify chain options = Chain_ok aud expiry \<longleftrightarrow>
        length chain \<le> 8 \<and> linked (vo_ownerKey options) None chain \<and> d_audience (last chain) = vo_audience options \<and>
        aud = vo_audience options \<and> expiry = earliest_expiry chain"
      using True unfolding verifyChain_ok_iff MAX_CHAIN_DEPTH_def list_all_iff by metis
    then have eq: "verifyChain codec verify chain options = Chain_ok aud expiry \<longleftrightarrow>
        length chain \<le> 8 \<and> (chain = [] \<or> d_issuer (hd chain) = vo_ownerKey options \<and> True \<and>
          (\<forall>i. i + 1 < length chain \<longrightarrow> d_issuer (chain ! (i + 1)) = d_audience (chain ! i) \<and>
            Delegate \<in> set (d_abilities (chain ! i)))) \<and>
        d_audience (last chain) = vo_audience options \<and> aud = vo_audience options \<and>
        (\<exists>r. expiry = Fin r \<and> (\<exists>l \<in> set chain. d_expiresAt l = Fin r) \<and> (\<forall>l \<in> set chain. js_ge (d_expiresAt l) r))"
      unfolding linked_indexed u [symmetric] option.case .
    have logic: "(V \<longleftrightarrow> C \<and> (E \<or> H \<and> True \<and> L) \<and> D \<and> A \<and> X) \<Longrightarrow> \<not> E \<Longrightarrow> G \<Longrightarrow>
        (V \<longleftrightarrow> \<not> E \<and> C \<and> H \<and> L \<and> D \<and> G \<and> A \<and> X)" for V C E H L D A X G by blast
    show ?thesis by (rule logic [OF eq conjunct1 [OF True] conjunct2 [OF True]])
  next
    case False
    then show ?thesis unfolding verifyChain_ok_iff list_all_iff by metis
  qed
qed

text \<open>A codec and a signature scheme for the examples: the bytes are empty and the signature is the key.\<close>

definition demo_codec :: codec where
  "demo_codec v = Some []"

definition demo_verify :: verifier where
  "demo_verify sig m key = Some (sig = key)"

definition demo_link :: "bytes \<Rightarrow> bytes \<Rightarrow> ability list \<Rightarrow> delegation" where
  "demo_link from to abilities = \<lparr>d_issuer = toHex from, d_audience = toHex to, d_ownerId = ''ann'',
     d_abilities = abilities, d_expiresAt = Fin 10, d_signature = toHex from\<rparr>"

definition demo_verify_options :: verify_options where
  "demo_verify_options = \<lparr>vo_ownerKey = toHex [1], vo_ownerId = ''ann'', vo_audience = toHex [3], vo_ability = Execute, vo_now = 5\<rparr>"

lemma demo_sel [simp]:
  "d_issuer (demo_link f t a) = toHex f" "d_audience (demo_link f t a) = toHex t" "d_abilities (demo_link f t a) = a"
  "d_expiresAt (demo_link f t a) = Fin 10" "vo_ownerKey demo_verify_options = toHex [1]"
  "vo_audience demo_verify_options = toHex [3]"
  by (simp_all add: demo_link_def demo_verify_options_def)

lemma demo_payload: "delegation_payload demo_codec (demo_link f t a) = Inr []"
  by (simp add: delegation_payload_def encodeCanonical_Inr demo_codec_def delegation_value_def demo_link_def list_all_iff)

lemma demo_link_good: "Execute \<in> set a \<Longrightarrow> link_good demo_codec demo_verify demo_verify_options (demo_link f t a)"
  unfolding link_good_def demo_payload
  by (simp add: checks_def demo_verify_def demo_link_def demo_verify_options_def)

theorem chain_accepted_iff_witness:
  "verifyChain demo_codec demo_verify [demo_link [1] [2] [Execute, Delegate], demo_link [2] [3] [Execute]] demo_verify_options =
     Chain_ok (toHex [3]) (Fin 10)"
  unfolding chain_accepted_iff [where codec = demo_codec and verify = demo_verify]
  by (auto simp: demo_link_good less_Suc_eq simp del: toHex.simps)

lemma delegate_capability_Inr:
  assumes "delegate_capability codec sign pub sk f = Inr l"
  obtains payload where "delegation_payload codec l = Inr payload" "l = f\<lparr>d_issuer := toHex (pub sk), d_signature := toHex (sign payload sk)\<rparr>"
proof -
  let ?u = "f\<lparr>d_issuer := toHex (pub sk)\<rparr>"
  from assms obtain payload where p: "delegation_payload codec ?u = Inr payload" "l = ?u\<lparr>d_signature := toHex (sign payload sk)\<rparr>"
    by (auto simp: delegate_capability_def Let_def split: sum.splits)
  moreover have "delegation_payload codec l = delegation_payload codec ?u"
    by (simp add: delegation_payload_def delegation_value_def p(2))
  ultimately show ?thesis using that by simp
qed

text \<open>What is delegated can be used: whoever ends an accepted chain and was given the right to
  delegate can sign one more link, and the longer chain is accepted for the new holder, for as
  long as that link is unexpired, within the depth limit.  The signature scheme is assumed to
  verify what it signed.\<close>

theorem delegation_extends_chain:
  assumes "\<And>m. verify (sign m sk) m (pub sk) = Some True"
    and "verifyChain codec verify chain options = Chain_ok (toHex (pub sk)) expiry"
    and "Delegate \<in> set (d_abilities (last chain))" "length chain < 8"
    and "delegate_capability codec sign pub sk f = Inr link"
    and "d_ownerId f = vo_ownerId options" "vo_ability options \<in> set (d_abilities f)"
    and "d_expiresAt f = Fin r" "vo_now options < r"
  shows "verifyChain codec verify (chain @ [link]) (options\<lparr>vo_audience := d_audience f\<rparr>) =
    Chain_ok (d_audience f) (js_min expiry (Fin r))"
proof -
  let ?o = "options\<lparr>vo_audience := d_audience f\<rparr>"
  obtain payload where link: "delegation_payload codec link = Inr payload"
    "link = f\<lparr>d_issuer := toHex (pub sk), d_signature := toHex (sign payload sk)\<rparr>"
    using assms(5) by (rule delegate_capability_Inr)
  have ok: "chain \<noteq> []" "linked (vo_ownerKey options) None chain" "list_all (link_good codec verify options) chain"
    "d_audience (last chain) = toHex (pub sk)" "expiry = earliest_expiry chain"
    using assms(2) by (auto simp: verifyChain_ok_iff)
  have "link_good codec verify ?o = link_good codec verify options"
    by (rule ext) (simp add: link_good_def)
  moreover have "link_good codec verify options link"
    using assms(1,6-9) link by (simp add: link_good_def checks_def)
  moreover have "linked (vo_ownerKey options) None (chain @ [link])"
    using ok(1,2,4) assms(3) link(2) by (simp add: linked_append)
  moreover have "earliest_expiry (chain @ [link]) = js_min expiry (Fin r)" using ok(5) link(2) assms(8) by simp
  ultimately show ?thesis using ok assms(4) link(2) by (simp add: verifyChain_ok_iff MAX_CHAIN_DEPTH_def)
qed

definition demo_delegation :: delegation where
  "demo_delegation = \<lparr>d_issuer = [], d_audience = toHex [3], d_ownerId = ''ann'', d_abilities = [Execute],
     d_expiresAt = Fin 8, d_signature = []\<rparr>"

theorem delegation_extends_chain_witness:
  "verifyChain demo_codec demo_verify ([demo_link [1] [2] [Execute, Delegate]] @
      [demo_delegation\<lparr>d_issuer := toHex [2], d_signature := toHex [2]\<rparr>])
      ((demo_verify_options\<lparr>vo_audience := toHex [2]\<rparr>)\<lparr>vo_audience := d_audience demo_delegation\<rparr>) =
    Chain_ok (d_audience demo_delegation) (js_min (Fin 10) (Fin 8))"
proof (rule delegation_extends_chain [where sign = "\<lambda>m k. k" and pub = id and sk = "[2]"])
  have "link_good demo_codec demo_verify (demo_verify_options\<lparr>vo_audience := toHex [2]\<rparr>) (demo_link [1] [2] [Execute, Delegate])"
    using demo_link_good [of "[Execute, Delegate]" "[1]" "[2]"] by (simp add: link_good_def demo_verify_options_def)
  then show "verifyChain demo_codec demo_verify [demo_link [1] [2] [Execute, Delegate]] (demo_verify_options\<lparr>vo_audience := toHex [2]\<rparr>) =
      Chain_ok (toHex (id [2])) (Fin 10)"
    unfolding verifyChain_ok_iff by (simp add: MAX_CHAIN_DEPTH_def demo_link_def demo_verify_options_def)
  show "delegate_capability demo_codec (\<lambda>m k. k) id [2] demo_delegation =
      Inr (demo_delegation\<lparr>d_issuer := toHex [2], d_signature := toHex [2]\<rparr>)"
    by (simp add: delegate_capability_def delegation_payload_def encodeCanonical_def delegation_value_def demo_codec_def
        demo_delegation_def Let_def num_cmp_def)
qed (simp_all add: demo_verify_def demo_link_def demo_verify_options_def demo_delegation_def)

end
