(* ===== verification/Naming.thy ===== *)
theory Naming
  imports Capability
begin

text \<open>
  Signed names: \<open>packages/core/src/naming.ts\<close>.

  A record maps a name to a CID under a version and a signature; \<open>resolver\<close> is the state of
  \<open>SignedNameResolver\<close>.  A CID is its text; \<open>parse_cid\<close> stands for the third-party \<open>CID.parse\<close> (\<open>None\<close> when it
  throws).  The text form of a record is JSON; the model stops at the JSON value, which is what
  \<open>JSON.stringify\<close> is given and \<open>JSON.parse\<close> returns (\<open>None\<close> when it throws).  Refusals are values
  without their wording.
\<close>

section \<open>Records\<close>

record name_delegation =
  nd_root :: string
  nd_delegate :: string
  nd_expiresAt :: jsnum
  nd_signature :: string

record name_record =
  n_name :: string
  n_cid :: string
  n_version :: jsnum
  n_expiresAt :: jsnum
  n_signer :: string
  n_signature :: string
  n_translationKeyCid :: "string option"
  n_delegation :: "name_delegation option"
  n_wantsNetworkReach :: bool

definition name_delegation_payload :: "codec \<Rightarrow> name_delegation \<Rightarrow> encode_error + bytes" where
  "name_delegation_payload codec d =
     encodeCanonical codec (CObj [(''root'', CStr (nd_root d)), (''delegate'', CStr (nd_delegate d)),
                                  (''expiresAt'', CNum (nd_expiresAt d))])"

definition signNameDelegation ::
  "codec \<Rightarrow> (bytes \<Rightarrow> bytes \<Rightarrow> bytes) \<Rightarrow> (bytes \<Rightarrow> bytes) \<Rightarrow> bytes \<Rightarrow> string \<Rightarrow> jsnum \<Rightarrow> encode_error + name_delegation" where
  "signNameDelegation codec sign pub rootPrivateKey to expiry =
     (let unsigned = \<lparr>nd_root = toHex (pub rootPrivateKey), nd_delegate = to, nd_expiresAt = expiry, nd_signature = []\<rparr>
      in case name_delegation_payload codec unsigned of
           Inl e \<Rightarrow> Inl e
         | Inr payload \<Rightarrow> Inr (unsigned\<lparr>nd_signature := toHex (sign payload rootPrivateKey)\<rparr>))"

definition name_value :: "name_record \<Rightarrow> cvalue" where
  "name_value r =
     CObj ([(''name'', CStr (n_name r)), (''cid'', CCid (n_cid r)), (''version'', CNum (n_version r)),
            (''expiresAt'', CNum (n_expiresAt r)), (''signer'', CStr (n_signer r))] @
           (case n_translationKeyCid r of None \<Rightarrow> [] | Some c \<Rightarrow> [(''translationKeyCid'', CCid c)]) @
           (case n_delegation r of None \<Rightarrow> []
            | Some d \<Rightarrow> [(''delegation'', CObj [(''root'', CStr (nd_root d)), (''delegate'', CStr (nd_delegate d)),
                (''expiresAt'', CNum (nd_expiresAt d)), (''signature'', CStr (nd_signature d))])]) @
           (if n_wantsNetworkReach r then [(''wantsNetworkReach'', CBool True)] else []))"

definition name_payload :: "codec \<Rightarrow> name_record \<Rightarrow> encode_error + bytes" where
  "name_payload codec r = encodeCanonical codec (name_value r)"

definition signName ::
  "codec \<Rightarrow> (bytes \<Rightarrow> bytes \<Rightarrow> bytes) \<Rightarrow> (bytes \<Rightarrow> bytes) \<Rightarrow> bytes \<Rightarrow> name_record \<Rightarrow> encode_error + name_record" where
  "signName codec sign pub privateKey to_sign =
     (let unsigned = to_sign\<lparr>n_signer := toHex (pub privateKey)\<rparr>
      in case name_payload codec unsigned of
           Inl e \<Rightarrow> Inl e
         | Inr payload \<Rightarrow> Inr (unsigned\<lparr>n_signature := toHex (sign payload privateKey)\<rparr>))"

section \<open>The JSON form\<close>

definition encodeNameRecord :: "name_record \<Rightarrow> cvalue" where
  "encodeNameRecord r =
     CObj ([(''name'', CStr (n_name r)), (''cid'', CStr (n_cid r)), (''version'', CNum (n_version r)),
            (''expiresAt'', CNum (n_expiresAt r))] @
           (case n_translationKeyCid r of None \<Rightarrow> [] | Some c \<Rightarrow> [(''translationKeyCid'', CStr c)]) @
           [(''signer'', CStr (n_signer r))] @
           (case n_delegation r of None \<Rightarrow> []
            | Some d \<Rightarrow> [(''delegation'', CObj [(''root'', CStr (nd_root d)), (''delegate'', CStr (nd_delegate d)),
                (''expiresAt'', CNum (nd_expiresAt d)), (''signature'', CStr (nd_signature d))])]) @
           (if n_wantsNetworkReach r then [(''wantsNetworkReach'', CBool True)] else []) @
           [(''signature'', CStr (n_signature r))])"

definition isHex :: "cvalue option \<Rightarrow> nat \<Rightarrow> bool" where
  "isHex v n =
     (case v of
        Some (CStr s) \<Rightarrow> length s = n \<and>
          list_all (\<lambda>c. let code = of_char c :: nat in (48 \<le> code \<and> code \<le> 57) \<or> (97 \<le> code \<and> code \<le> 102)) s
      | _ \<Rightarrow> False)"

definition str_of :: "cvalue option \<Rightarrow> string" where
  "str_of v = (case v of Some (CStr s) \<Rightarrow> s | _ \<Rightarrow> [])"

text \<open>The own properties of an object value; of an array none of the names read here.\<close>

definition own_fields :: "cvalue \<Rightarrow> (string \<times> cvalue) list option" where
  "own_fields v = (case v of CObj es \<Rightarrow> Some es | CList vs \<Rightarrow> Some [] | _ \<Rightarrow> None)"

definition decode_name_delegation :: "cvalue \<Rightarrow> name_delegation option" where
  "decode_name_delegation v =
     (case own_fields v of
        None \<Rightarrow> None
      | Some es \<Rightarrow>
          if \<not> isHex (map_get es ''root'') 64 then None
          else if \<not> isHex (map_get es ''delegate'') 64 then None
          else case map_get es ''expiresAt'' of
                 Some (CNum e) \<Rightarrow>
                   if \<not> is_finite e then None
                   else if \<not> isHex (map_get es ''signature'') 128 then None
                   else Some \<lparr>nd_root = str_of (map_get es ''root''), nd_delegate = str_of (map_get es ''delegate''),
                              nd_expiresAt = e, nd_signature = str_of (map_get es ''signature'')\<rparr>
               | _ \<Rightarrow> None)"

text \<open>An absent optional field is \<open>Some None\<close>, a present and readable one \<open>Some (Some x)\<close>.\<close>

definition optional_field :: "(cvalue \<Rightarrow> 'a option) \<Rightarrow> cvalue option \<Rightarrow> 'a option option" where
  "optional_field read v = (case v of None \<Rightarrow> Some None | Some x \<Rightarrow> map_option Some (read x))"

definition decodeNameRecord :: "(string \<Rightarrow> string option) \<Rightarrow> cvalue option \<Rightarrow> name_record option" where
  "decodeNameRecord parse_cid parsed =
     (case parsed of None \<Rightarrow> None | Some v \<Rightarrow>
      case own_fields v of None \<Rightarrow> None | Some es \<Rightarrow>
      (case (map_get es ''name'', map_get es ''cid'', map_get es ''version'', map_get es ''expiresAt'') of
         (Some (CStr name), Some (CStr cidText), Some (CNum version), Some (CNum expiry)) \<Rightarrow>
           if name = [] then None
           else if \<not> is_integer version \<or> js_lt version 0 then None
           else if \<not> is_finite expiry then None
           else if \<not> isHex (map_get es ''signer'') 64 then None
           else if \<not> isHex (map_get es ''signature'') 128 then None
           else (case parse_cid cidText of None \<Rightarrow> None | Some cid \<Rightarrow>
             case optional_field (\<lambda>x. case x of CStr s \<Rightarrow> parse_cid s | _ \<Rightarrow> None) (map_get es ''translationKeyCid'') of
               None \<Rightarrow> None | Some translation \<Rightarrow>
             case optional_field decode_name_delegation (map_get es ''delegation'') of
               None \<Rightarrow> None | Some deleg \<Rightarrow>
             case optional_field (\<lambda>x. if x = CBool True then Some () else None) (map_get es ''wantsNetworkReach'') of
               None \<Rightarrow> None | Some reach \<Rightarrow>
             Some \<lparr>n_name = name, n_cid = cid, n_version = version, n_expiresAt = expiry,
                   n_signer = str_of (map_get es ''signer''), n_signature = str_of (map_get es ''signature''),
                   n_translationKeyCid = translation, n_delegation = deleg, n_wantsNetworkReach = (reach \<noteq> None)\<rparr>)
       | _ \<Rightarrow> None))"

section \<open>The resolver\<close>

datatype resolve_failure =
    Unknown_name string
  | Untrusted_signer string string
  | Bad_name_signature string string
  | Name_expired string jsnum rat
  | Name_rollback string jsnum jsnum
  | Authority_changed string string string
  | Untrusted_root string string
  | Delegation_mismatch string string string
  | Bad_delegation_signature string string string
  | Delegation_expired string jsnum rat
  | Delegation_outlived string jsnum jsnum

datatype resolve_result = Resolved string | Resolve_refused resolve_failure | Resolve_threw encode_error

record resolver =
  anchors :: "string list"
  records :: "(string, name_record) jsmap"

definition new_resolver :: "string list \<Rightarrow> resolver" where
  "new_resolver trustAnchors = \<lparr>anchors = set_of_list trustAnchors, records = []\<rparr>"

definition authorityOf :: "name_record \<Rightarrow> string" where
  "authorityOf r = (case n_delegation r of None \<Rightarrow> n_signer r | Some d \<Rightarrow> nd_root d)"

text \<open>\<open><\<close> and \<open>></\<close> between two numbers.\<close>

fun js_less :: "jsnum \<Rightarrow> jsnum \<Rightarrow> bool" where
  "js_less (Fin a) y = js_gt y a"
| "js_less NegInf y = (y \<noteq> NegInf \<and> y \<noteq> NaN)"
| "js_less PosInf y = False"
| "js_less NaN y = False"

text \<open>\<open>#authorise\<close>; a delegation without canonical form throws inside the \<open>try\<close> and fails the check.\<close>

definition authorise :: "codec \<Rightarrow> verifier \<Rightarrow> string list \<Rightarrow> name_record \<Rightarrow> rat \<Rightarrow> resolve_failure option" where
  "authorise codec verify anchor_keys r now =
     (if n_signer r \<in> set anchor_keys then None
      else case n_delegation r of
             None \<Rightarrow> Some (Untrusted_signer (n_name r) (n_signer r))
           | Some d \<Rightarrow>
               let valid = (case name_delegation_payload codec d of
                              Inl e \<Rightarrow> False
                            | Inr payload \<Rightarrow> checks verify (nd_signature d) payload (nd_root d))
               in if nd_delegate d \<noteq> n_signer r then Some (Delegation_mismatch (n_name r) (n_signer r) (nd_delegate d))
                  else if nd_root d \<notin> set anchor_keys then Some (Untrusted_root (n_name r) (nd_root d))
                  else if \<not> valid then Some (Bad_delegation_signature (n_name r) (nd_root d) (nd_delegate d))
                  else if js_le (nd_expiresAt d) now then Some (Delegation_expired (n_name r) (nd_expiresAt d) now)
                  else if js_less (nd_expiresAt d) (n_expiresAt r)
                  then Some (Delegation_outlived (n_name r) (n_expiresAt r) (nd_expiresAt d))
                  else None)"

definition accept_name :: "codec \<Rightarrow> verifier \<Rightarrow> name_record \<Rightarrow> rat \<Rightarrow> resolver \<Rightarrow> resolve_result \<times> resolver" where
  "accept_name codec verify r now st =
     (case authorise codec verify (anchors st) r now of
        Some failure \<Rightarrow> (Resolve_refused failure, st)
      | None \<Rightarrow>
          case name_payload codec r of
            Inl e \<Rightarrow> (Resolve_threw e, st)
          | Inr payload \<Rightarrow>
              if \<not> checks verify (n_signature r) payload (n_signer r)
              then (Resolve_refused (Bad_name_signature (n_name r) (n_signer r)), st)
              else if js_le (n_expiresAt r) now
              then (Resolve_refused (Name_expired (n_name r) (n_expiresAt r) now), st)
              else let ok = (Resolved (n_cid r), st\<lparr>records := map_set (n_name r) r (records st)\<rparr>)
                   in case map_get (records st) (n_name r) of
                        None \<Rightarrow> ok
                      | Some existing \<Rightarrow>
                          if authorityOf existing \<noteq> authorityOf r
                          then (Resolve_refused (Authority_changed (n_name r) (authorityOf existing) (authorityOf r)), st)
                          else if js_less (n_version r) (n_version existing)
                          then (Resolve_refused (Name_rollback (n_name r) (n_version existing) (n_version r)), st)
                          else ok)"

definition resolve_name :: "string \<Rightarrow> rat \<Rightarrow> resolver \<Rightarrow> resolve_result" where
  "resolve_name name now st =
     (case map_get (records st) name of
        None \<Rightarrow> Resolve_refused (Unknown_name name)
      | Some r \<Rightarrow> if js_le (n_expiresAt r) now then Resolve_refused (Name_expired name (n_expiresAt r) now)
                  else Resolved (n_cid r))"

section \<open>What a resolver holds\<close>

text \<open>Who may speak for a name: a pinned anchor, or a key a pinned anchor delegated to in writing.\<close>

definition authentic :: "codec \<Rightarrow> verifier \<Rightarrow> string list \<Rightarrow> name_record \<Rightarrow> bool" where
  "authentic codec verify anchor_keys r \<longleftrightarrow>
     (\<exists>payload. name_payload codec r = Inr payload \<and> checks verify (n_signature r) payload (n_signer r)) \<and>
     (n_signer r \<in> set anchor_keys \<or>
      (\<exists>d payload. n_delegation r = Some d \<and> nd_root d \<in> set anchor_keys \<and> nd_delegate d = n_signer r \<and>
         name_delegation_payload codec d = Inr payload \<and> checks verify (nd_signature d) payload (nd_root d) \<and>
         \<not> js_less (nd_expiresAt d) (n_expiresAt r)))"

lemma authorise_None:
  "authorise codec verify ks r now = None \<Longrightarrow>
   n_signer r \<in> set ks \<or> (\<exists>d payload. n_delegation r = Some d \<and> nd_root d \<in> set ks \<and> nd_delegate d = n_signer r \<and>
     name_delegation_payload codec d = Inr payload \<and> checks verify (nd_signature d) payload (nd_root d) \<and>
     \<not> js_less (nd_expiresAt d) (n_expiresAt r))"
  by (auto simp: authorise_def Let_def split: if_splits option.splits sum.splits)

lemma accept_cases:
  obtains f where "accept_name codec verify r now st = (f, st)" "\<And>c. f \<noteq> Resolved c"
  | "accept_name codec verify r now st = (Resolved (n_cid r), st\<lparr>records := map_set (n_name r) r (records st)\<rparr>)"
    "authentic codec verify (anchors st) r" "\<not> js_le (n_expiresAt r) now"
    "\<And>e. map_get (records st) (n_name r) = Some e \<Longrightarrow>
       authorityOf e = authorityOf r \<and> \<not> js_less (n_version r) (n_version e)"
proof (cases "authorise codec verify (anchors st) r now")
  case None
  note auth = authorise_None [OF None]
  show ?thesis
  proof (cases "name_payload codec r")
    case (Inl e)
    with None show ?thesis by (intro that(1) [of "Resolve_threw e"]) (simp_all add: accept_name_def)
  next
    case (Inr payload)
    show ?thesis
    proof (cases "checks verify (n_signature r) payload (n_signer r) \<and> \<not> js_le (n_expiresAt r) now")
      case True
      with auth Inr have au: "authentic codec verify (anchors st) r" by (auto simp: authentic_def)
      show ?thesis
      proof (cases "\<exists>e. map_get (records st) (n_name r) = Some e \<and>
          (authorityOf e \<noteq> authorityOf r \<or> js_less (n_version r) (n_version e))")
        case clash: True
        then obtain e where "map_get (records st) (n_name r) = Some e"
          "authorityOf e \<noteq> authorityOf r \<or> js_less (n_version r) (n_version e)" by blast
        then have "\<exists>f. accept_name codec verify r now st = (Resolve_refused f, st)"
          using None Inr True by (auto simp: accept_name_def Let_def)
        then show ?thesis using that(1) by auto
      next
        case False
        then have "accept_name codec verify r now st = (Resolved (n_cid r), st\<lparr>records := map_set (n_name r) r (records st)\<rparr>)"
          using None Inr True by (auto simp: accept_name_def Let_def split: option.splits)
        with au True False show ?thesis by (intro that(2)) auto
      qed
    next
      case False
      then have "\<exists>f. accept_name codec verify r now st = (Resolve_refused f, st)"
        using None Inr by (auto simp: accept_name_def Let_def)
      then show ?thesis using that(1) by auto
    qed
  qed
next
  case (Some f)
  then show ?thesis by (intro that(1) [of "Resolve_refused f"]) (simp_all add: accept_name_def)
qed

text \<open>The life of a resolver: records offered to it, each at a time.\<close>

definition accept_all :: "codec \<Rightarrow> verifier \<Rightarrow> (name_record \<times> rat) list \<Rightarrow> resolver \<Rightarrow> resolver" where
  "accept_all codec verify offered st = foldl (\<lambda>st (r, now). snd (accept_name codec verify r now st)) st offered"

lemma accept_all_rule:
  assumes "P st" "\<And>st r now. P st \<Longrightarrow> P (snd (accept_name codec verify r now st))"
  shows "P (accept_all codec verify offered st)"
  using assms(1) unfolding accept_all_def
  by (induction offered arbitrary: st) (auto simp: assms(2))

lemma accept_anchors [simp]: "anchors (snd (accept_name codec verify r now st)) = anchors st"
  by (cases rule: accept_cases [of codec verify r now st]) simp_all

definition names_ok :: "codec \<Rightarrow> verifier \<Rightarrow> resolver \<Rightarrow> bool" where
  "names_ok codec verify st \<longleftrightarrow>
     (\<forall>k r. map_get (records st) k = Some r \<longrightarrow> n_name r = k \<and> authentic codec verify (anchors st) r)"

lemma names_ok_accept: "names_ok codec verify st \<Longrightarrow> names_ok codec verify (snd (accept_name codec verify r now st))"
  by (cases rule: accept_cases [of codec verify r now st]) (auto simp: names_ok_def split: if_splits)

lemma names_ok_reached:
  "names_ok codec verify (accept_all codec verify offered (new_resolver ks))"
  "anchors (accept_all codec verify offered (new_resolver ks)) = set_of_list ks"
proof -
  have "names_ok codec verify (new_resolver ks)" by (simp add: names_ok_def new_resolver_def)
  then show "names_ok codec verify (accept_all codec verify offered (new_resolver ks))"
    by (rule accept_all_rule) (rule names_ok_accept)
  show "anchors (accept_all codec verify offered (new_resolver ks)) = set_of_list ks"
    by (rule accept_all_rule) (simp_all add: new_resolver_def)
qed

text \<open>A bare CID is not executable: whatever records a resolver was offered, a name it resolves is
  backed by a record for that very name that is unexpired, validly signed, and signed either by
  a pinned trust anchor or by a key that a pinned anchor delegated to under a valid signature for at
  least as long as the record lives.\<close>

theorem resolved_names_are_authentic:
  assumes "resolve_name name now (accept_all codec verify offered (new_resolver ks)) = Resolved cid"
  shows "\<exists>r. n_name r = name \<and> n_cid r = cid \<and> authentic codec verify ks r \<and> \<not> js_le (n_expiresAt r) now"
proof -
  let ?st = "accept_all codec verify offered (new_resolver ks)"
  have "names_ok codec verify ?st" "anchors ?st = set_of_list ks" by (rule names_ok_reached)+
  moreover obtain r where "map_get (records ?st) name = Some r" "\<not> js_le (n_expiresAt r) now" "n_cid r = cid"
    using assms by (auto simp: resolve_name_def split: option.splits if_splits)
  moreover have "authentic codec verify (set_of_list ks) r = authentic codec verify ks r" for r
    by (simp add: authentic_def)
  ultimately show ?thesis by (auto simp: names_ok_def)
qed

text \<open>Versions are ordered: a held version never goes down.\<close>

lemma js_less_linear: "x \<noteq> NaN \<Longrightarrow> y \<noteq> NaN \<Longrightarrow> z \<noteq> NaN \<Longrightarrow> \<not> js_less y x \<Longrightarrow> \<not> js_less z y \<Longrightarrow> \<not> js_less z x"
  by (cases x; cases y; cases z) auto

lemma authentic_finite: "authentic codec verify ks r \<Longrightarrow> \<exists>v. n_version r = Fin v"
  by (cases "n_version r") (auto simp: authentic_def name_payload_def encodeCanonical_Inr name_value_def)


text \<open>The examples' records: signed with their own key, as the examples' scheme has it.\<close>

definition demo_name :: "nat \<Rightarrow> bytes \<Rightarrow> name_record" where
  "demo_name v key = \<lparr>n_name = ''app'', n_cid = ''cid'', n_version = num_of_nat v, n_expiresAt = Fin 10,
     n_signer = toHex key, n_signature = toHex key, n_translationKeyCid = None, n_delegation = None,
     n_wantsNetworkReach = False\<rparr>"

lemma demo_name_accepted:
  "accept_name demo_codec demo_verify (demo_name v key) 5 \<lparr>anchors = [toHex key], records = []\<rparr> =
    (Resolved ''cid'', \<lparr>anchors = [toHex key], records = [(''app'', demo_name v key)]\<rparr>)"
proof -
  have "name_payload demo_codec (demo_name v key) = Inr []"
    by (simp add: name_payload_def encodeCanonical_Inr name_value_def demo_name_def demo_codec_def)
  then show ?thesis
    by (simp add: accept_name_def authorise_def checks_def demo_verify_def demo_name_def)
qed

lemma demo_name_held:
  "accept_all demo_codec demo_verify [(demo_name 2 [1], 5)] (new_resolver [toHex [1]]) =
    \<lparr>anchors = [toHex [1]], records = [(''app'', demo_name 2 [1])]\<rparr>"
  by (simp add: accept_all_def new_resolver_def set_of_list_def set_add_def demo_name_accepted del: toHex.simps)

theorem resolved_names_are_authentic_witness:
  "\<exists>r. n_name r = ''app'' \<and> n_cid r = ''cid'' \<and> authentic demo_codec demo_verify [toHex [1]] r \<and> \<not> js_le (n_expiresAt r) 6"
  by (rule resolved_names_are_authentic [where offered = "[(demo_name 2 [1], 5)]"])
    (unfold demo_name_held, simp add: resolve_name_def demo_name_def)


section \<open>Round trip\<close>

definition hex_text :: "nat \<Rightarrow> string \<Rightarrow> bool" where
  "hex_text n s \<longleftrightarrow> isHex (Some (CStr s)) n"

text \<open>What \<open>JSON.stringify\<close> and the decoder both accept.\<close>

definition well_formed_name :: "(string \<Rightarrow> string option) \<Rightarrow> name_record \<Rightarrow> bool" where
  "well_formed_name parse_cid r \<longleftrightarrow>
     n_name r \<noteq> [] \<and> parse_cid (n_cid r) = Some (n_cid r) \<and> (\<exists>v. n_version r = num_of_nat v) \<and> is_finite (n_expiresAt r) \<and>
     hex_text 64 (n_signer r) \<and> hex_text 128 (n_signature r) \<and>
     (\<forall>c. n_translationKeyCid r = Some c \<longrightarrow> parse_cid c = Some c) \<and>
     (\<forall>d. n_delegation r = Some d \<longrightarrow> hex_text 64 (nd_root d) \<and> hex_text 64 (nd_delegate d) \<and>
        is_finite (nd_expiresAt d) \<and> hex_text 128 (nd_signature d))"

lemma decode_delegation_encode:
  "hex_text 64 (nd_root d) \<Longrightarrow> hex_text 64 (nd_delegate d) \<Longrightarrow> is_finite (nd_expiresAt d) \<Longrightarrow> hex_text 128 (nd_signature d) \<Longrightarrow>
   decode_name_delegation (CObj [(''root'', CStr (nd_root d)), (''delegate'', CStr (nd_delegate d)),
                (''expiresAt'', CNum (nd_expiresAt d)), (''signature'', CStr (nd_signature d))]) = Some d"
  by (simp add: decode_name_delegation_def own_fields_def hex_text_def str_of_def)

text \<open>A published name reads back as it was: decoding the JSON value a well-formed record is encoded
  to gives the record, with every optional field present or absent as it was.\<close>

theorem name_record_round_trip:
  assumes "well_formed_name parse_cid r"
  shows "decodeNameRecord parse_cid (Some (encodeNameRecord r)) = Some r"
proof -
  obtain v where v: "n_version r = num_of_nat v" using assms by (auto simp: well_formed_name_def)
  have i: "is_integer (n_version r)" "\<not> js_lt (n_version r) 0" using is_integer_nat [of v] by (simp_all add: v)
  obtain es where es: "encodeNameRecord r = CObj es" by (simp add: encodeNameRecord_def)
  have get: "map_get es ''name'' = Some (CStr (n_name r))" "map_get es ''cid'' = Some (CStr (n_cid r))"
    "map_get es ''version'' = Some (CNum (n_version r))" "map_get es ''expiresAt'' = Some (CNum (n_expiresAt r))"
    "map_get es ''signer'' = Some (CStr (n_signer r))" "map_get es ''signature'' = Some (CStr (n_signature r))"
    "map_get es ''translationKeyCid'' = map_option CStr (n_translationKeyCid r)"
    "map_get es ''delegation'' = map_option (\<lambda>d. CObj [(''root'', CStr (nd_root d)), (''delegate'', CStr (nd_delegate d)),
                (''expiresAt'', CNum (nd_expiresAt d)), (''signature'', CStr (nd_signature d))]) (n_delegation r)"
    "map_get es ''wantsNetworkReach'' = (if n_wantsNetworkReach r then Some (CBool True) else None)"
    using es by (auto simp: encodeNameRecord_def split: option.splits)
  have t: "optional_field (\<lambda>x. case x of CStr s \<Rightarrow> parse_cid s | _ \<Rightarrow> None) (map_get es ''translationKeyCid'') =
      Some (n_translationKeyCid r)"
    using assms by (cases "n_translationKeyCid r") (simp_all add: get optional_field_def well_formed_name_def)
  have d: "optional_field decode_name_delegation (map_get es ''delegation'') = Some (n_delegation r)"
    using assms by (cases "n_delegation r") (simp_all add: get optional_field_def well_formed_name_def decode_delegation_encode)
  have w: "optional_field (\<lambda>x. if x = CBool True then Some () else None) (map_get es ''wantsNetworkReach'') =
      Some (if n_wantsNetworkReach r then Some () else None)"
    by (simp add: get optional_field_def)
  have h: "isHex (map_get es ''signer'') 64" "isHex (map_get es ''signature'') 128" "n_name r \<noteq> []"
    "is_finite (n_expiresAt r)" "parse_cid (n_cid r) = Some (n_cid r)"
    using assms by (simp_all add: get well_formed_name_def hex_text_def)
  show ?thesis unfolding decodeNameRecord_def es own_fields_def using h i
    by (simp add: get(1-4) t d w) (simp add: get str_of_def)
qed

definition demo_json_name :: name_record where
  "demo_json_name = (demo_name 2 [1])\<lparr>n_signer := replicate 64 CHR ''a'', n_signature := replicate 128 CHR ''b''\<rparr>"

theorem name_record_round_trip_witness:
  "decodeNameRecord Some (Some (encodeNameRecord demo_json_name)) = Some demo_json_name"
  by (rule name_record_round_trip)
    (auto simp: well_formed_name_def demo_json_name_def demo_name_def hex_text_def isHex_def Let_def list_all_iff)

end
