(* ===== verification/Quorum.thy ===== *)
theory Quorum
  imports Sovereignty
begin

text \<open>
  Quorum composition and attestation strength: \<open>packages/core/src/quorum.ts\<close>.

  \<open>size\<close> is a natural number; \<open>peerIdOf\<close> is a callback, absent in \<open>None\<close>.  The nested loop that takes
  one certificate per issuer and depth is \<open>take_round\<close> inside \<open>spread_from\<close>; it ends because a round that
  takes nothing stops it.  Refusals and receipts are modelled without their wording.
\<close>

section \<open>Data\<close>

datatype attestation_strength = Owner_attested | Owner_domain | Single_issuer | Independent

fun attestationRank :: "attestation_strength \<Rightarrow> nat" where
  "attestationRank Owner_attested = 0"
| "attestationRank Owner_domain = 1"
| "attestationRank Single_issuer = 2"
| "attestationRank Independent = 3"

record quorum_rules =
  q_size :: nat
  q_requireIndependentPaths :: "bool option"
  q_requireDistinctIssuers :: "bool option"
  q_peerIdOf :: "(node_certificate \<Rightarrow> string option) option"

datatype quorum_refusal =
    Insufficient_operators nat nat
  | Shared_relay_dependency string
  | Single_issuer_quorum string
  | No_candidates

datatype quorum_result =
    Quorum_ok "node_certificate list" "string list" attestation_strength
  | Quorum_refused quorum_refusal

section \<open>Operations\<close>

definition sharedRelay :: "node_certificate list \<Rightarrow> (node_certificate \<Rightarrow> string option) option \<Rightarrow> string option" where
  "sharedRelay members peer =
     (let peerIdOf = (case peer of None \<Rightarrow> (\<lambda>_. None) | Some f \<Rightarrow> f);
          dependsOn = (\<lambda>m relayId. c_discoverability m \<noteq> Seed \<and> relayId \<in> set (c_relayIds m));
          lostWith = (\<lambda>m relayId. dependsOn m relayId \<or> peerIdOf m = Some relayId);
          named = set_of_list (concat (map c_relayIds (filter (\<lambda>m. c_discoverability m \<noteq> Seed) members)));
          fatal = filter (\<lambda>relayId. list_all (\<lambda>m. lostWith m relayId) members) named
      in case js_sort unit_cmp fatal of [] \<Rightarrow> None | r # _ \<Rightarrow> Some r)"

definition classifyAttestation :: "node_certificate list \<Rightarrow> attestation_strength" where
  "classifyAttestation agreeing =
     (if length agreeing \<le> 1 then Owner_attested
      else let operators = set_of_list (map c_operatorId agreeing); issuers = set_of_list (map c_issuer agreeing)
           in if length operators \<ge> 2 \<and> length issuers \<ge> 2 then Independent
              else if length operators \<ge> 2 then Single_issuer
              else Owner_domain)"

definition by_relays :: "(string \<Rightarrow> string \<Rightarrow> int) \<Rightarrow> node_certificate \<Rightarrow> node_certificate \<Rightarrow> int" where
  "by_relays lc a b = js_or (num_cmp (length (c_relayIds a)) (length (c_relayIds b))) (lc (c_nodeKey a) (c_nodeKey b))"

text \<open>One pass over the groups at one depth; the flag says whether it took anything.\<close>

fun take_round ::
  "nat \<Rightarrow> nat \<Rightarrow> node_certificate list list \<Rightarrow> node_certificate list \<Rightarrow> bool \<Rightarrow> node_certificate list \<times> bool" where
  "take_round depth want [] picked tookOne = (picked, tookOne)"
| "take_round depth want (gp # groups) picked tookOne =
     (if depth < length gp
      then let picked' = picked @ [gp ! depth]
           in if length picked' = want then (picked', True) else take_round depth want groups picked' True
      else take_round depth want groups picked tookOne)"

lemma take_round_grows:
  "length picked \<le> length (fst (take_round depth want groups picked took)) \<and>
   (snd (take_round depth want groups picked took) \<and> \<not> took \<longrightarrow>
     length picked < length (fst (take_round depth want groups picked took))) \<and>
   (length picked < want \<longrightarrow> length (fst (take_round depth want groups picked took)) \<le> want)"
proof (induction groups arbitrary: picked took)
  case (Cons g gs)
  then show ?case using Cons.IH [of "picked @ [g ! depth]" True] by (auto simp: Let_def)
qed simp

function spread_from ::
  "nat \<Rightarrow> nat \<Rightarrow> node_certificate list list \<Rightarrow> node_certificate list \<Rightarrow> node_certificate list" where
  "spread_from depth want groups picked =
     (if length picked < want
      then let (picked', tookOne) = take_round depth want groups picked False
           in if \<not> tookOne then picked' else spread_from (depth + 1) want groups picked'
      else picked)"
  by pat_completeness auto
termination
proof (relation "measure (\<lambda>(d, want, gs, picked). want - length picked)", goal_cases)
  case (2 depth want groups picked x picked' tookOne)
  then have "tookOne" "take_round depth want groups picked False = (picked', tookOne)" by simp_all
  with take_round_grows [of picked depth want groups False] 2(1) show ?case by auto
qed simp

declare spread_from.simps [simp del]

definition issuer_groups :: "(string \<Rightarrow> string \<Rightarrow> int) \<Rightarrow> node_certificate list \<Rightarrow> node_certificate list list" where
  "issuer_groups lc distinct_ops =
     map snd (js_sort (\<lambda>a b. lc (fst a) (fst b)) (group_by c_issuer (js_sort (by_relays lc) distinct_ops)))"

definition spreadAcrossIssuers :: "(string \<Rightarrow> string \<Rightarrow> int) \<Rightarrow> node_certificate list \<Rightarrow> nat \<Rightarrow> node_certificate list" where
  "spreadAcrossIssuers lc distinct_ops want = spread_from 0 want (issuer_groups lc distinct_ops) []"

definition first_per_operator :: "(string \<Rightarrow> string \<Rightarrow> int) \<Rightarrow> node_certificate list \<Rightarrow> node_certificate list" where
  "first_per_operator lc candidates =
     map_values (foldl (\<lambda>m c. if map_get m (c_operatorId c) = None then map_set (c_operatorId c) c m else m) []
       (js_sort (\<lambda>a b. lc (c_nodeKey a) (c_nodeKey b)) candidates))"

definition composeQuorum ::
  "(string \<Rightarrow> string \<Rightarrow> int) \<Rightarrow> node_certificate list \<Rightarrow> quorum_rules \<Rightarrow> quorum_result" where
  "composeQuorum lc candidates rules =
     (if candidates = [] then Quorum_refused No_candidates
      else let requireIndependentPaths = (case q_requireIndependentPaths rules of None \<Rightarrow> True | Some b \<Rightarrow> b);
               requireDistinctIssuers = (case q_requireDistinctIssuers rules of None \<Rightarrow> True | Some b \<Rightarrow> b);
               distinct_ops = first_per_operator lc candidates
           in if length distinct_ops < q_size rules
              then Quorum_refused (Insufficient_operators (q_size rules) (length distinct_ops))
              else let members = spreadAcrossIssuers lc distinct_ops (q_size rules);
                       shared = (if requireIndependentPaths then sharedRelay members (q_peerIdOf rules) else None);
                       memberIssuers = set_of_list (map c_issuer members)
                   in case shared of
                        Some relay \<Rightarrow> Quorum_refused (Shared_relay_dependency relay)
                      | None \<Rightarrow>
                          if requireDistinctIssuers \<and> length members \<ge> 2 \<and> length memberIssuers = 1
                          then Quorum_refused (Single_issuer_quorum (concat memberIssuers))
                          else Quorum_ok members (map c_operatorId members) (classifyAttestation members))"

text \<open>A receipt, without its wording.\<close>

record attestation_receipt =
  ar_strength :: attestation_strength
  ar_replicas :: nat
  ar_operators :: "string list"
  ar_issuers :: "string list"
  ar_userKeys :: "string list"
  ar_sharedRelay :: "string option"

definition attestationReceipt :: "node_certificate list \<Rightarrow> attestation_receipt" where
  "attestationReceipt agreeing =
     \<lparr>ar_strength = classifyAttestation agreeing, ar_replicas = length agreeing,
      ar_operators = js_sort unit_cmp (set_of_list (map c_operatorId agreeing)),
      ar_issuers = js_sort unit_cmp (set_of_list (map c_issuer agreeing)),
      ar_userKeys = js_sort unit_cmp (set_of_list (map c_userKey agreeing)),
      ar_sharedRelay = sharedRelay agreeing None\<rparr>"

section \<open>One certificate per operator\<close>

abbreviation op_step :: "(string, node_certificate) jsmap \<Rightarrow> node_certificate \<Rightarrow> (string, node_certificate) jsmap" where
  "op_step m c \<equiv> (if map_get m (c_operatorId c) = None then map_set (c_operatorId c) c m else m)"

definition op_map_ok :: "(string, node_certificate) jsmap \<Rightarrow> bool" where
  "op_map_ok m \<longleftrightarrow> map_ok m \<and> (\<forall>(k, c) \<in> set m. k = c_operatorId c)"

lemma op_fold:
  "op_map_ok m \<Longrightarrow> op_map_ok (foldl op_step m cs) \<and> snd ` set (foldl op_step m cs) \<subseteq> snd ` set m \<union> set cs \<and>
   fst ` set (foldl op_step m cs) = fst ` set m \<union> c_operatorId ` set cs"
proof (induction cs arbitrary: m)
  case (Cons c cs)
  show ?case
  proof (cases "map_get m (c_operatorId c)")
    case None
    let ?m = "map_set (c_operatorId c) c m"
    have mem: "(k, v) \<in> set ?m \<longleftrightarrow> (if k = c_operatorId c then v = c else (k, v) \<in> set m)" for k v
      using Cons.prems by (simp add: op_map_ok_def map_set_mem)
    have ok: "op_map_ok ?m" using Cons.prems by (auto simp: op_map_ok_def mem map_set_mem split: if_splits)
    have "snd ` set ?m \<subseteq> insert c (snd ` set m)" using mem by (force split: if_splits)
    moreover have "fst ` set ?m = insert (c_operatorId c) (fst ` set m)"
      using map_keys_set [of "c_operatorId c" c m] by simp
    ultimately show ?thesis using Cons.IH [OF ok] None by simp blast
  next
    case (Some d)
    then have "c_operatorId c \<in> fst ` set m" by (metis map_get_mem fst_conv image_eqI)
    with Cons.IH [OF Cons.prems] Some show ?thesis by auto
  qed
qed simp

lemma first_per_operator_ok:
  "distinct (map c_operatorId (first_per_operator lc cs))" "set (first_per_operator lc cs) \<subseteq> set cs"
  "c_operatorId ` set (first_per_operator lc cs) = c_operatorId ` set cs"
proof -
  let ?cs = "js_sort (\<lambda>a b. lc (c_nodeKey a) (c_nodeKey b)) cs"
  let ?m = "foldl op_step [] ?cs"
  have "op_map_ok []" by (simp add: op_map_ok_def)
  from op_fold [OF this, of ?cs] have f: "op_map_ok ?m" "snd ` set ?m \<subseteq> set cs" "fst ` set ?m = c_operatorId ` set cs"
    by simp_all
  have eq: "map c_operatorId (map_values ?m) = map_keys ?m" using f(1) by (auto simp: op_map_ok_def case_prod_beta)
  have "map_ok ?m" using f(1) by (simp add: op_map_ok_def)
  then show "distinct (map c_operatorId (first_per_operator lc cs))"
    unfolding first_per_operator_def eq .
  show "set (first_per_operator lc cs) \<subseteq> set cs" using f(2) by (simp add: first_per_operator_def)
  have "set (map c_operatorId (map_values ?m)) = set (map_keys ?m)" by (simp only: eq)
  then show "c_operatorId ` set (first_per_operator lc cs) = c_operatorId ` set cs"
    using f(3) by (simp add: first_per_operator_def image_image)
qed

section \<open>Spreading across issuers\<close>

definition at_depth :: "nat \<Rightarrow> node_certificate list list \<Rightarrow> node_certificate list" where
  "at_depth d gs = concat (map (\<lambda>g. if d < length g then [g ! d] else []) gs)"

lemma take_round_prefix:
  "length picked < want \<Longrightarrow> \<exists>pre rest. fst (take_round d want gs picked took) = picked @ pre \<and> at_depth d gs = pre @ rest \<and>
     length (picked @ pre) \<le> want \<and> (length (picked @ pre) < want \<longrightarrow> rest = []) \<and>
     (snd (take_round d want gs picked took) \<longleftrightarrow> took \<or> pre \<noteq> [])"
proof (induction gs arbitrary: picked took)
  case (Cons g gs)
  show ?case
  proof (cases "d < length g")
    case True
    let ?p = "picked @ [g ! d]"
    show ?thesis
    proof (cases "length ?p = want")
      case full: True
      with True show ?thesis
        by (intro exI [of _ "[g ! d]"] exI [of _ "at_depth d gs"]) (simp add: at_depth_def Let_def)
    next
      case False
      with Cons.prems have "length ?p < want" by simp
      from Cons.IH [OF this, of True] obtain pre rest where
        "fst (take_round d want gs ?p True) = ?p @ pre" "at_depth d gs = pre @ rest" "length (?p @ pre) \<le> want"
        "length (?p @ pre) < want \<longrightarrow> rest = []" "snd (take_round d want gs ?p True)" by auto
      with True False show ?thesis
        by (intro exI [of _ "g ! d # pre"] exI [of _ rest]) (auto simp: at_depth_def Let_def)
    qed
  next
    case False
    with Cons.IH [OF Cons.prems, of took] show ?thesis by (simp add: at_depth_def)
  qed
qed (simp add: at_depth_def)

lemma mset_take_Suc:
  "mset (concat (map (take (Suc d)) gs)) = mset (concat (map (take d) gs)) + mset (at_depth d gs)"
  by (induction gs) (auto simp: at_depth_def take_Suc_conv_app_nth)

lemma mset_take_sub: "mset (concat (map (take d) gs)) \<subseteq># mset (concat gs)"
proof (induction gs)
  case (Cons g gs)
  have "mset (take d g) \<subseteq># mset g" by (metis append_take_drop_id mset_append mset_subset_eq_add_left)
  with Cons show ?case by (simp add: subset_mset.add_mono)
qed simp

lemma at_depth_Nil: "at_depth d gs = [] \<Longrightarrow> concat (map (take d) gs) = concat gs"
  by (induction gs) (auto simp: at_depth_def split: if_splits)

lemma spread_from_full: "\<not> length picked < want \<Longrightarrow> spread_from d want gs picked = picked"
  by (subst spread_from.simps) (rule if_not_P)

lemma distinct_sub_mset: "mset xs \<subseteq># mset ys \<Longrightarrow> distinct ys \<Longrightarrow> distinct xs"
proof -
  assume "mset xs \<subseteq># mset ys" "distinct ys"
  then obtain zs where "mset ys = mset (xs @ zs)" by (metis ex_mset mset_append mset_subset_eq_exists_conv)
  with \<open>distinct ys\<close> have "distinct (xs @ zs)" by (metis mset_eq_imp_distinct_iff)
  then show ?thesis by simp
qed

lemma spread_from_ok:
  assumes "mset picked = mset (concat (map (take d) gs))" "length picked \<le> want"
  shows "\<exists>more. spread_from d want gs picked = picked @ more \<and> mset (picked @ more) \<subseteq># mset (concat gs) \<and>
    length (picked @ more) = min want (length (concat gs))"
  using assms
proof (induction d want gs picked rule: spread_from.induct)
  case (1 d want gs picked)
  have sub: "mset picked \<subseteq># mset (concat gs)" unfolding 1(2) by (rule mset_take_sub)
  show ?case
  proof (cases "length picked < want")
    case True
    from take_round_prefix [OF True, of d gs False] obtain pre rest where
      r: "fst (take_round d want gs picked False) = picked @ pre" "at_depth d gs = pre @ rest"
        "length (picked @ pre) \<le> want" "length (picked @ pre) < want \<longrightarrow> rest = []"
        "snd (take_round d want gs picked False) \<longleftrightarrow> pre \<noteq> []" by auto
    have tr: "take_round d want gs picked False = (picked @ pre, pre \<noteq> [])" using r(1,5) by (simp add: prod_eq_iff)
    show ?thesis
    proof (cases "pre = []")
      case True
      then have tr0: "take_round d want gs picked False = (picked, False)" using tr by simp
      from True have "length (picked @ pre) < want" using \<open>length picked < want\<close> by simp
      with r(4) have "rest = []" by blast
      then have "at_depth d gs = []" using \<open>pre = []\<close> r(2) by (metis append_Nil)
      then have "concat (map (take d) gs) = concat gs" by (rule at_depth_Nil)
      with 1(2) have "mset picked = mset (concat gs)" by simp
      then have "length picked = length (concat gs)" by (metis size_mset)
      with \<open>length picked < want\<close> tr0 sub show ?thesis
        by (intro exI [of _ "[]"]) (subst spread_from.simps, simp)
    next
      case False
      have eq: "spread_from d want gs picked = spread_from (d + 1) want gs (picked @ pre)"
        using True False tr by (subst spread_from.simps) simp
      show ?thesis
      proof (cases "length (picked @ pre) < want")
        case less: True
        with r(4) have "rest = []" by simp
        with 1(2) r(2) have "mset (picked @ pre) = mset (concat (map (take (d + 1)) gs))"
          by (simp add: mset_take_Suc)
        from 1(1) [OF True tr [symmetric] refl _ this r(3)] False obtain more where
          "spread_from (d + 1) want gs (picked @ pre) = (picked @ pre) @ more"
          "mset ((picked @ pre) @ more) \<subseteq># mset (concat gs)"
          "length ((picked @ pre) @ more) = min want (length (concat gs))" by auto
        with eq show ?thesis by (intro exI [of _ "pre @ more"]) simp
      next
        case full: False
        then have "spread_from (d + 1) want gs (picked @ pre) = picked @ pre"
          by (subst spread_from.simps) simp
        moreover have "mset (picked @ pre) \<subseteq># mset (concat (map (take (Suc d)) gs))"
          unfolding mset_take_Suc mset_append r(2) 1(2) by simp
        then have m: "mset (picked @ pre) \<subseteq># mset (concat gs)" using mset_take_sub by (rule subset_mset.order_trans)
        moreover have "length (picked @ pre) = want" using full r(3) by simp
        moreover have "want \<le> length (concat gs)" using size_mset_mono [OF m] calculation(3) by simp
        ultimately show ?thesis using eq by (intro exI [of _ pre]) simp
      qed
    qed
  next
    case False
    then have len: "length picked = want" using 1(3) by simp
    have "want \<le> length (concat gs)" using size_mset_mono [OF sub] len by simp
    with False sub len show ?thesis
      by (intro exI [of _ "[]"]) (subst spread_from.simps, simp)
  qed
qed

lemma mset_concat_cong: "mset xs = mset ys \<Longrightarrow> mset (concat xs) = mset (concat ys)"
proof -
  have "mset (concat zs) = sum_mset (image_mset mset (mset zs))" for zs :: "'a list list" by (induction zs) auto
  then show "mset xs = mset ys \<Longrightarrow> ?thesis" by simp
qed

text \<open>The groups: one per issuer, none empty, and together the certificates to choose from.\<close>

lemma issuer_groups_ok:
  "mset (concat (issuer_groups lc cs)) = mset cs"
  "g \<in> set (issuer_groups lc cs) \<Longrightarrow> g \<noteq> [] \<and> (\<forall>c \<in> set g. c_issuer c = c_issuer (hd g))"
  "distinct (map (\<lambda>g. c_issuer (hd g)) (issuer_groups lc cs))"
proof -
  let ?m = "group_by c_issuer (js_sort (by_relays lc) cs)"
  let ?s = "js_sort (\<lambda>a b. lc (fst a) (fst b)) ?m"
  have "mset (map snd ?s) = mset (map snd ?m)" by simp
  then have "mset (concat (map snd ?s)) = mset (concat (map snd ?m))" by (rule mset_concat_cong)
  then show "mset (concat (issuer_groups lc cs)) = mset cs"
    by (simp add: issuer_groups_def mset_group_by)
  have entry: "g \<noteq> [] \<and> (\<forall>c \<in> set g. c_issuer c = k)" if "(k, g) \<in> set ?s" for k g
    using that by (auto simp: group_by_mem)
  show "g \<in> set (issuer_groups lc cs) \<Longrightarrow> g \<noteq> [] \<and> (\<forall>c \<in> set g. c_issuer c = c_issuer (hd g))"
    unfolding issuer_groups_def using entry by (fastforce simp del: set_js_sort)
  have "map (\<lambda>g. c_issuer (hd g)) (issuer_groups lc cs) = map fst ?s"
    unfolding issuer_groups_def map_map
    by (rule map_cong [OF refl]) (use entry in \<open>force simp del: set_js_sort\<close>)
  moreover have "distinct (map fst ?s)"
  proof -
    have "mset (map fst ?s) = mset (map fst ?m)" by simp
    with map_ok_group_by show ?thesis by (metis mset_eq_imp_distinct_iff)
  qed
  ultimately show "distinct (map (\<lambda>g. c_issuer (hd g)) (issuer_groups lc cs))" by simp
qed

lemma spread_ok:
  "mset (spreadAcrossIssuers lc cs want) \<subseteq># mset cs"
  "length (spreadAcrossIssuers lc cs want) = min want (length cs)"
proof -
  let ?g = "issuer_groups lc cs"
  have "mset [] = mset (concat (map (take 0) ?g))" by (induction ?g) simp_all
  then obtain more where m: "spread_from 0 want ?g [] = [] @ more" "mset ([] @ more) \<subseteq># mset (concat ?g)"
    "length ([] @ more) = min want (length (concat ?g))" using spread_from_ok [of "[]" 0 ?g want] by auto
  have "length (concat ?g) = length cs" by (metis issuer_groups_ok(1) size_mset)
  with m show "mset (spreadAcrossIssuers lc cs want) \<subseteq># mset cs" "length (spreadAcrossIssuers lc cs want) = min want (length cs)"
    by (simp_all add: spreadAcrossIssuers_def issuer_groups_ok(1))
qed

text \<open>The first pass takes the head of every group, as far as it gets.\<close>

lemma spread_starts_with_heads:
  assumes "want \<noteq> 0"
  shows "\<exists>more. spreadAcrossIssuers lc cs want = take want (map hd (issuer_groups lc cs)) @ more"
proof -
  let ?g = "issuer_groups lc cs"
  have ne: "\<forall>g \<in> set ?g. g \<noteq> []" using issuer_groups_ok(2) by blast
  have heads: "at_depth 0 gs = map hd gs" if "\<forall>g \<in> set gs. g \<noteq> []" for gs
    using that by (induction gs) (auto simp: at_depth_def hd_conv_nth)
  have less: "length ([] :: node_certificate list) < want" using assms by simp
  from take_round_prefix [OF less, of 0 ?g False] obtain pre rest where
    r: "fst (take_round 0 want ?g [] False) = [] @ pre" "at_depth 0 ?g = pre @ rest"
       "length ([] @ pre) \<le> want" "length ([] @ pre) < want \<longrightarrow> rest = []"
       "snd (take_round 0 want ?g [] False) \<longleftrightarrow> False \<or> pre \<noteq> []" by blast
  have pre: "pre = take want (map hd ?g)"
  proof (cases "length pre < want")
    case True
    with r(2,4) show ?thesis using heads [OF ne] by simp
  next
    case False
    with r(2,3) heads [OF ne] show ?thesis by simp
  qed
  have tr: "take_round 0 want ?g [] False = (pre, pre \<noteq> [])" using r(1,5) by (simp add: prod_eq_iff)
  have step: "spread_from 0 want ?g [] = (if pre = [] then pre else spread_from 1 want ?g pre)"
    using assms tr by (subst spread_from.simps) simp
  show ?thesis
  proof (cases "pre = [] \<or> length pre = want")
    case True
    then have "spread_from 0 want ?g [] = pre" using step by (auto simp: spread_from_full)
    with pre show ?thesis by (simp add: spreadAcrossIssuers_def)
  next
    case False
    with r(3,4) have "rest = []" by simp
    with r(2) have "at_depth 0 ?g = pre" by simp
    moreover have "concat (map (take 0) ?g) = []" by simp
    ultimately have "mset pre = mset (concat (map (take 1) ?g))" using mset_take_Suc [of 0 ?g] by simp
    from spread_from_ok [OF this] r(3) obtain more where "spread_from 1 want ?g pre = pre @ more" by auto
    with False step pre show ?thesis by (simp add: spreadAcrossIssuers_def)
  qed
qed

text \<open>The quorum is spread as widely as its candidates allow: of the certificates to choose from it
  takes as many as asked for, none twice, and they come from as many different issuers as there
  are, or from as many as there are seats.\<close>

theorem quorum_spread_is_maximal:
  shows "mset (spreadAcrossIssuers lc cs want) \<subseteq># mset cs \<and>
    length (spreadAcrossIssuers lc cs want) = min want (length cs) \<and>
    card (c_issuer ` set (spreadAcrossIssuers lc cs want)) = min want (card (c_issuer ` set cs))"
proof (cases "want = 0")
  case True
  then show ?thesis by (simp add: spreadAcrossIssuers_def spread_from.simps)
next
  case False
  let ?g = "issuer_groups lc cs" and ?m = "spreadAcrossIssuers lc cs want"
  note g = issuer_groups_ok [where lc = lc and cs = cs]
  have cs: "set cs = set (concat ?g)" by (metis issuer_groups_ok(1) set_mset_mset)
  have issuers: "c_issuer ` set cs = set (map (\<lambda>g. c_issuer (hd g)) ?g)"
  proof -
    have one: "c_issuer ` set g = {c_issuer (hd g)}" if "g \<in> set ?g" for g
    proof -
      have "hd g \<in> set g" using issuer_groups_ok(2) [OF that] by simp
      moreover have "\<forall>c \<in> set g. c_issuer c = c_issuer (hd g)" using issuer_groups_ok(2) [OF that] by blast
      ultimately show ?thesis by blast
    qed
    have "c_issuer ` set (concat ?g) = (\<Union>g \<in> set ?g. c_issuer ` set g)" by auto
    also have "\<dots> = (\<Union>g \<in> set ?g. {c_issuer (hd g)})" by (rule SUP_cong [OF refl one])
    finally show ?thesis using cs by auto
  qed
  then have n: "card (c_issuer ` set cs) = length ?g" by (metis distinct_card g(3) length_map)
  obtain more where m: "?m = take want (map hd ?g) @ more" using spread_starts_with_heads [OF False] by blast
  have sub: "set ?m \<subseteq> set cs" using spread_ok(1) by (metis set_mset_mono set_mset_mset)
  then have upper: "card (c_issuer ` set ?m) \<le> length ?g" by (metis card_mono finite_imageI image_mono List.finite_set n)
  have "card (c_issuer ` set ?m) \<le> length ?m" by (metis card_image_le card_length List.finite_set le_trans)
  then have upper2: "card (c_issuer ` set ?m) \<le> want" using spread_ok(2) [of lc cs want] by simp
  have "distinct (map c_issuer (take want (map hd ?g)))"
    using g(3) by (simp add: take_map [symmetric] o_def)
  then have "card (c_issuer ` set (take want (map hd ?g))) = min want (length ?g)"
    by (metis distinct_card length_map length_take min.commute set_map)
  moreover have "card (c_issuer ` set (take want (map hd ?g))) \<le> card (c_issuer ` set ?m)"
    unfolding m by (rule card_mono) auto
  ultimately show ?thesis using upper upper2 n spread_ok [of lc cs want] by simp
qed

definition demo_cert :: "string \<Rightarrow> string \<Rightarrow> string \<Rightarrow> string list \<Rightarrow> node_certificate" where
  "demo_cert key operator issuer relays =
     \<lparr>c_nodeKey = key, c_userKey = ''u'' @ key, c_operatorId = operator, c_discoverability = Via_relay, c_relayIds = relays,
      c_issuedAt = 0, c_expiresAt = 10, c_issuer = issuer, c_signature = ''sig'', c_x509 = None, c_nextKeyCommitment = None\<rparr>"

definition demo_candidates :: "node_certificate list" where
  "demo_candidates = [demo_cert ''a'' ''op1'' ''i1'' [''r1''], demo_cert ''b'' ''op1'' ''i1'' [''r1''],
     demo_cert ''c'' ''op2'' ''i1'' [''r1''], demo_cert ''d'' ''op3'' ''i2'' [''r2'']]"

definition demo_rules :: quorum_rules where
  "demo_rules = \<lparr>q_size = 2, q_requireIndependentPaths = None, q_requireDistinctIssuers = None, q_peerIdOf = None\<rparr>"

theorem quorum_spread_is_maximal_witness:
  "card (c_issuer ` set (spreadAcrossIssuers unit_cmp demo_candidates 2)) = 2"
proof -
  have "c_issuer ` set demo_candidates = {''i1'', ''i2''}" by (simp add: demo_candidates_def demo_cert_def)
  then show ?thesis using quorum_spread_is_maximal [of unit_cmp demo_candidates 2] by simp
qed

section \<open>What a quorum guarantees\<close>

lemma sharedRelay_None:
  assumes "sharedRelay members peer = None" "m \<in> set members" "c_discoverability m \<noteq> Seed" "r \<in> set (c_relayIds m)"
  shows "\<exists>x \<in> set members. \<not> (c_discoverability x \<noteq> Seed \<and> r \<in> set (c_relayIds x)) \<and>
    (case peer of None \<Rightarrow> True | Some f \<Rightarrow> f x \<noteq> Some r)"
proof -
  let ?p = "case peer of None \<Rightarrow> (\<lambda>_. None) | Some f \<Rightarrow> f"
  let ?named = "set_of_list (concat (map c_relayIds (filter (\<lambda>m. c_discoverability m \<noteq> Seed) members)))"
  have "js_sort unit_cmp (filter (\<lambda>i. list_all (\<lambda>m. (c_discoverability m \<noteq> Seed \<and> i \<in> set (c_relayIds m)) \<or> ?p m = Some i) members) ?named) = []"
    using assms(1) by (auto simp: sharedRelay_def Let_def split: list.splits)
  then have "\<forall>i \<in> set ?named. \<not> list_all (\<lambda>m. (c_discoverability m \<noteq> Seed \<and> i \<in> set (c_relayIds m)) \<or> ?p m = Some i) members"
    by (simp only: js_sort_Nil_iff filter_empty_conv)
  moreover have "r \<in> set ?named" using assms(2-4) by auto
  ultimately show ?thesis by (cases peer) (auto simp: list_all_iff)
qed

text \<open>C13: An accepted quorum is what it claims: it has the size asked for, its members are candidates run
  by pairwise different operators; unless the rule is waived there is no relay a member needs
  whose failure would lose them all, and no single issuer vouched for two or more members alone;
  and it is called independent exactly when it spans at least two operators and two issuers.\<close>

theorem accepted_quorum_is_sound:
  assumes "composeQuorum lc candidates rules = Quorum_ok members ops strength"
  shows "length members = q_size rules \<and> set members \<subseteq> set candidates \<and> distinct (map c_operatorId members) \<and>
    ops = map c_operatorId members \<and>
    (q_requireIndependentPaths rules \<noteq> Some False \<longrightarrow>
      (\<forall>m \<in> set members. c_discoverability m \<noteq> Seed \<longrightarrow> (\<forall>r \<in> set (c_relayIds m). \<exists>x \<in> set members.
        \<not> (c_discoverability x \<noteq> Seed \<and> r \<in> set (c_relayIds x)) \<and>
        (case q_peerIdOf rules of None \<Rightarrow> True | Some f \<Rightarrow> f x \<noteq> Some r)))) \<and>
    (q_requireDistinctIssuers rules \<noteq> Some False \<longrightarrow> q_size rules \<ge> 2 \<longrightarrow> card (c_issuer ` set members) \<ge> 2) \<and>
    (strength = Independent \<longleftrightarrow> card (c_operatorId ` set members) \<ge> 2 \<and> card (c_issuer ` set members) \<ge> 2)"
proof -
  let ?d = "first_per_operator lc candidates"
  have size_ok: "\<not> length ?d < q_size rules" and m: "members = spreadAcrossIssuers lc ?d (q_size rules)"
    and ops: "ops = map c_operatorId members" and st: "strength = classifyAttestation members"
    and relay: "(case q_requireIndependentPaths rules of None \<Rightarrow> True | Some b \<Rightarrow> b) \<Longrightarrow> sharedRelay members (q_peerIdOf rules) = None"
    and iss: "\<not> ((case q_requireDistinctIssuers rules of None \<Rightarrow> True | Some b \<Rightarrow> b) \<and> length members \<ge> 2 \<and>
        length (set_of_list (map c_issuer members)) = 1)"
    using assms by (auto simp: composeQuorum_def Let_def split: if_splits option.splits)
  note s = spread_ok [of lc ?d "q_size rules", folded m] and f = first_per_operator_ok [of lc candidates]
  have len: "length members = q_size rules" using s(2) size_ok by simp
  have "set members \<subseteq> set ?d" using s(1) by (metis set_mset_mono set_mset_mset)
  then have sub: "set members \<subseteq> set candidates" using f(2) by blast
  have "mset (map c_operatorId members) \<subseteq># mset (map c_operatorId ?d)"
    using image_mset_subseteq_mono [OF s(1)] by simp
  then have dist: "distinct (map c_operatorId members)" using f(1) by (rule distinct_sub_mset)
  have issuers: "card (c_issuer ` set members) \<ge> 2" if "q_requireDistinctIssuers rules \<noteq> Some False" "q_size rules \<ge> 2"
  proof -
    have "length (set_of_list (map c_issuer members)) \<noteq> 1" using iss that len by (auto split: option.splits)
    then have "card (c_issuer ` set members) \<noteq> 1" by (simp add: length_set_of_list)
    moreover have "card (c_issuer ` set members) \<noteq> 0" using that(2) len by auto
    ultimately show ?thesis by linarith
  qed
  have strength: "strength = Independent \<longleftrightarrow> card (c_operatorId ` set members) \<ge> 2 \<and> card (c_issuer ` set members) \<ge> 2"
  proof -
    have "card (c_operatorId ` set members) \<le> length members" by (metis card_length length_map set_map)
    then show ?thesis unfolding st classifyAttestation_def Let_def length_set_of_list by auto
  qed
  have paths: "q_requireIndependentPaths rules \<noteq> Some False \<Longrightarrow> sharedRelay members (q_peerIdOf rules) = None"
    by (rule relay) (auto split: option.splits)
  show ?thesis using len sub dist ops strength issuers sharedRelay_None [OF paths] by blast
qed

lemma demo_quorum: "composeQuorum unit_cmp demo_candidates demo_rules =
    Quorum_ok [demo_cert ''a'' ''op1'' ''i1'' [''r1''], demo_cert ''d'' ''op3'' ''i2'' [''r2'']] [''op1'', ''op3''] Independent"
  by (simp add: composeQuorum_def demo_candidates_def demo_rules_def demo_cert_def first_per_operator_def num_cmp_def
      spreadAcrossIssuers_def issuer_groups_def by_relays_def js_or_def group_by_def group_add_def
      spread_from.simps sharedRelay_def set_of_list_def set_add_def classifyAttestation_def Let_def)

theorem accepted_quorum_is_sound_witness:
  "card (c_issuer ` set [demo_cert ''a'' ''op1'' ''i1'' [''r1''], demo_cert ''d'' ''op3'' ''i2'' [''r2'']]) \<ge> 2"
  using accepted_quorum_is_sound [OF demo_quorum] by (simp add: demo_rules_def)

end
