(* ===== verification/Enrollment.thy ===== *)
theory Enrollment
  imports Capability Sovereignty
begin

text \<open>
  Enrolment: \<open>packages/core/src/enrollment.ts\<close>.

  \<open>authority\<close> is the state of \<open>EnrollmentAuthority\<close>; its issuance ledger is an interface with an
  in-process provider, so it is the locale \<open>issuance_ledger\<close> interpreted on \<open>InProcessIssuance\<close>.  Ed25519 is
  a parameter as in \<open>Capability\<close>, random bytes are the argument \<open>nonce\<close>, and the X.509 form, a codec of
  its own in \<open>x509.ts\<close> and \<open>x509-encode.ts\<close>, is the argument \<open>x\<close> of type \<open>x509_codec\<close>.  Refusals are values
  without their wording.
\<close>

section \<open>Payloads\<close>

definition operatorIdFor :: "string \<Rightarrow> string" where
  "operatorIdFor userKey = ''visitor:'' @ take 16 userKey"

fun discoverability_text :: "discoverability \<Rightarrow> string" where
  "discoverability_text Seed = ''seed''"
| "discoverability_text Via_relay = ''via-relay''"

definition certificate_value :: "node_certificate \<Rightarrow> cvalue" where
  "certificate_value c =
     CObj ([(''nodeKey'', CStr (c_nodeKey c)), (''userKey'', CStr (c_userKey c)), (''operatorId'', CStr (c_operatorId c)),
            (''discoverability'', CStr (discoverability_text (c_discoverability c))),
            (''relayIds'', CList (map CStr (js_sort unit_cmp (c_relayIds c)))),
            (''issuedAt'', CNum (Fin (c_issuedAt c))), (''expiresAt'', CNum (Fin (c_expiresAt c))),
            (''issuer'', CStr (c_issuer c))] @
           (case c_x509 c of None \<Rightarrow> [] | Some x \<Rightarrow> [(''x509'', CStr x)]) @
           (case c_nextKeyCommitment c of None \<Rightarrow> [] | Some k \<Rightarrow> [(''nextKeyCommitment'', CStr k)]))"

definition certificatePayload :: "codec \<Rightarrow> node_certificate \<Rightarrow> encode_error + bytes" where
  "certificatePayload codec c = encodeCanonical codec (certificate_value c)"

definition keyCommitment :: "codec \<Rightarrow> (bytes \<Rightarrow> bytes) \<Rightarrow> string \<Rightarrow> encode_error + string" where
  "keyCommitment codec sha256 nextNodeKey =
     (case encodeCanonical codec (CObj [(''purpose'', CStr ''o2-next-key''), (''nextNodeKey'', CStr nextNodeKey)]) of
        Inl e \<Rightarrow> Inl e | Inr bytes \<Rightarrow> Inr (toHex (sha256 bytes)))"

definition honoursKeyCommitment ::
  "codec \<Rightarrow> (bytes \<Rightarrow> bytes) \<Rightarrow> node_certificate \<Rightarrow> node_certificate \<Rightarrow> encode_error + bool" where
  "honoursKeyCommitment codec sha256 previous renewed =
     (case c_nextKeyCommitment previous of
        None \<Rightarrow> Inr False
      | Some k \<Rightarrow> (case keyCommitment codec sha256 (c_nodeKey renewed) of Inl e \<Rightarrow> Inl e | Inr k' \<Rightarrow> Inr (k = k')))"

definition possessionChallenge :: "codec \<Rightarrow> string \<Rightarrow> string \<Rightarrow> encode_error + bytes" where
  "possessionChallenge codec nodeKey userKey =
     encodeCanonical codec (CObj [(''purpose'', CStr ''o2-enrol''), (''nodeKey'', CStr nodeKey), (''userKey'', CStr userKey)])"

definition challengeAnswerBytes :: "codec \<Rightarrow> string \<Rightarrow> string \<Rightarrow> string \<Rightarrow> encode_error + bytes" where
  "challengeAnswerBytes codec nonce nodeKey userKey =
     encodeCanonical codec (CObj [(''purpose'', CStr ''o2-enrol-challenge''), (''nonce'', CStr nonce),
                                  (''nodeKey'', CStr nodeKey), (''userKey'', CStr userKey)])"

definition ENROLLMENT_CHALLENGE_TTL_MS :: rat where "ENROLLMENT_CHALLENGE_TTL_MS = 60000"
definition DEFAULT_ISSUANCE_WINDOW_MS :: rat where "DEFAULT_ISSUANCE_WINDOW_MS = 3600000"
definition DEFAULT_MAX_PER_WINDOW :: nat where "DEFAULT_MAX_PER_WINDOW = 64"
definition DEFAULT_CERTIFICATE_LIFETIME_MS :: rat where "DEFAULT_CERTIFICATE_LIFETIME_MS = 3600000"

section \<open>Requests\<close>

record enrollment_challenge =
  ec_nonce :: string
  ec_expiresAt :: rat

record challenge_answer =
  ca_nonce :: string
  ca_proof :: string

text \<open>A freshness of \<open>None\<close> is \<open>answers-no-challenge\<close>.\<close>

record enrollment_request =
  er_nodeKey :: string
  er_userKey :: string
  er_operatorId :: string
  er_discoverability :: discoverability
  er_relayIds :: "string list"
  er_nextKeyCommitment :: "string option"
  er_proofOfPossession :: string
  er_ownerProof :: string
  er_freshness :: "challenge_answer option"

datatype request_error = Request_not_encodable encode_error | User_key_mismatch string

text \<open>The user signs with a seed held here or through a signer supplied by the caller.\<close>

datatype user_signer = Seed_signer bytes | Supplied_signer string "bytes \<Rightarrow> bytes"

fun signer_key :: "(bytes \<Rightarrow> bytes) \<Rightarrow> user_signer \<Rightarrow> string" where
  "signer_key pub (Seed_signer sk) = toHex (pub sk)"
| "signer_key pub (Supplied_signer k f) = k"

fun signer_sign :: "(bytes \<Rightarrow> bytes \<Rightarrow> bytes) \<Rightarrow> user_signer \<Rightarrow> bytes \<Rightarrow> bytes" where
  "signer_sign sign (Seed_signer sk) m = sign m sk"
| "signer_sign sign (Supplied_signer k f) m = f m"

definition requestEnrollment ::
  "codec \<Rightarrow> verifier \<Rightarrow> (bytes \<Rightarrow> bytes \<Rightarrow> bytes) \<Rightarrow> (bytes \<Rightarrow> bytes) \<Rightarrow> bytes \<Rightarrow> user_signer \<Rightarrow>
   discoverability \<Rightarrow> string list \<Rightarrow> string option \<Rightarrow> request_error + enrollment_request" where
  "requestEnrollment codec verify sign pub nodePrivateKey user disc relays commitment =
     (let nodeKey = toHex (pub nodePrivateKey); userKey = signer_key pub user
      in case possessionChallenge codec nodeKey userKey of
           Inl e \<Rightarrow> Inl (Request_not_encodable e)
         | Inr challenge \<Rightarrow>
             let ownerProof = signer_sign sign user challenge;
                 supplied = (case user of Seed_signer _ \<Rightarrow> False | Supplied_signer _ _ \<Rightarrow> True)
             in if supplied \<and> verify ownerProof challenge (fromHex userKey) \<noteq> Some True
                then Inl (User_key_mismatch userKey)
                else Inr \<lparr>er_nodeKey = nodeKey, er_userKey = userKey, er_operatorId = operatorIdFor userKey,
                          er_discoverability = disc, er_relayIds = relays, er_nextKeyCommitment = commitment,
                          er_proofOfPossession = toHex (sign challenge nodePrivateKey),
                          er_ownerProof = toHex ownerProof, er_freshness = None\<rparr>)"

text \<open>\<open>answering\<close>: the answer to a minted challenge, put in the request's freshness.\<close>

definition answering ::
  "codec \<Rightarrow> (bytes \<Rightarrow> bytes \<Rightarrow> bytes) \<Rightarrow> bytes \<Rightarrow> enrollment_request \<Rightarrow> enrollment_challenge \<Rightarrow> encode_error + challenge_answer" where
  "answering codec sign nodePrivateKey r minted =
     (case challengeAnswerBytes codec (ec_nonce minted) (er_nodeKey r) (er_userKey r) of
        Inl e \<Rightarrow> Inl e
      | Inr m \<Rightarrow> Inr \<lparr>ca_nonce = ec_nonce minted, ca_proof = toHex (sign m nodePrivateKey)\<rparr>)"

section \<open>The issuance ledger\<close>

record 'l ledger_ops =
  issued_to :: "'l \<Rightarrow> string \<Rightarrow> rat list"
  issued_to_anybody :: "'l \<Rightarrow> rat list"
  record_issue :: "string \<Rightarrow> rat \<Rightarrow> 'l \<Rightarrow> 'l"

text \<open>\<open>InProcessIssuance\<close>.\<close>

record in_process_issuance =
  by_user :: "(string, rat list) jsmap"
  anybody :: "rat list"

definition in_process :: "in_process_issuance ledger_ops" where
  "in_process =
     \<lparr>issued_to = (\<lambda>l u. case map_get (by_user l) u of None \<Rightarrow> [] | Some ts \<Rightarrow> ts),
      issued_to_anybody = anybody,
      record_issue = (\<lambda>u t l.
        (case map_get (by_user l) u of
           None \<Rightarrow> l\<lparr>by_user := map_set u [t] (by_user l)\<rparr>
         | Some ts \<Rightarrow> l\<lparr>by_user := map_set u (ts @ [t]) (by_user l)\<rparr>)\<lparr>anybody := anybody l @ [t]\<rparr>)\<rparr>"

definition empty_issuance :: in_process_issuance where
  "empty_issuance = \<lparr>by_user = [], anybody = []\<rparr>"

section \<open>The authority\<close>

datatype enrollment_refusal =
    Bad_proof_of_possession string
  | Bad_owner_proof string
  | Rate_limited string nat rat jsnum
  | Issuance_budget_exhausted nat rat jsnum
  | Stale_challenge rat
  | Operator_id_not_derivable string string

text \<open>A budget of \<open>None\<close> is \<open>issues-without-an-aggregate-budget\<close>.\<close>

record 'l authority =
  au_privateKey :: bytes
  au_issuer :: string
  au_maxPerWindow :: nat
  au_maxIssuedPerWindow :: "nat option"
  au_windowMs :: rat
  au_lifetimeMs :: rat
  au_issuance :: 'l
  au_challengeTtlMs :: rat
  au_issuesX509 :: bool
  au_challenges :: "(string, rat) jsmap"

definition new_authority ::
  "(bytes \<Rightarrow> bytes) \<Rightarrow> bytes \<Rightarrow> nat option \<Rightarrow> nat option \<Rightarrow> 'l \<Rightarrow> rat option \<Rightarrow> rat option \<Rightarrow> rat option \<Rightarrow> bool \<Rightarrow> 'l authority" where
  "new_authority pub sk maxPerWindow budget issuance window lifetime ttl x509 =
     \<lparr>au_privateKey = sk, au_issuer = toHex (pub sk),
      au_maxPerWindow = (case maxPerWindow of None \<Rightarrow> DEFAULT_MAX_PER_WINDOW | Some n \<Rightarrow> n),
      au_maxIssuedPerWindow = budget,
      au_windowMs = (case window of None \<Rightarrow> DEFAULT_ISSUANCE_WINDOW_MS | Some w \<Rightarrow> w),
      au_lifetimeMs = (case lifetime of None \<Rightarrow> DEFAULT_CERTIFICATE_LIFETIME_MS | Some t \<Rightarrow> t),
      au_issuance = issuance,
      au_challengeTtlMs = (case ttl of None \<Rightarrow> ENROLLMENT_CHALLENGE_TTL_MS | Some t \<Rightarrow> t),
      au_issuesX509 = x509, au_challenges = []\<rparr>"

definition recentFor :: "'l ledger_ops \<Rightarrow> string \<Rightarrow> rat \<Rightarrow> 'l authority \<Rightarrow> rat list" where
  "recentFor ops userKey now t = filter (\<lambda>at_ms. at_ms > now - au_windowMs t) (issued_to ops (au_issuance t) userKey)"

definition recentForAnybody :: "'l ledger_ops \<Rightarrow> rat \<Rightarrow> 'l authority \<Rightarrow> rat list" where
  "recentForAnybody ops now t = filter (\<lambda>at_ms. at_ms > now - au_windowMs t) (issued_to_anybody ops (au_issuance t))"

definition issuedWithin :: "'l ledger_ops \<Rightarrow> string \<Rightarrow> rat \<Rightarrow> 'l authority \<Rightarrow> nat" where
  "issuedWithin ops userKey now t = length (recentFor ops userKey now t)"

definition issuedToAnybodyWithin :: "'l ledger_ops \<Rightarrow> rat \<Rightarrow> 'l authority \<Rightarrow> nat" where
  "issuedToAnybodyWithin ops now t = length (recentForAnybody ops now t)"

definition outstandingChallenges :: "rat \<Rightarrow> 'l authority \<Rightarrow> nat" where
  "outstandingChallenges now t = length (filter (\<lambda>e. e > now) (map_values (au_challenges t)))"

definition mintChallenge :: "bytes \<Rightarrow> rat \<Rightarrow> 'l authority \<Rightarrow> enrollment_challenge \<times> 'l authority" where
  "mintChallenge random now t =
     (let live = filter (\<lambda>p. \<not> snd p \<le> now) (au_challenges t); nonce = toHex random; expiry = now + au_challengeTtlMs t
      in (\<lparr>ec_nonce = nonce, ec_expiresAt = expiry\<rparr>, t\<lparr>au_challenges := map_set nonce expiry live\<rparr>))"

definition redeemChallenge ::
  "codec \<Rightarrow> verifier \<Rightarrow> enrollment_request \<Rightarrow> rat \<Rightarrow> 'l authority \<Rightarrow> enrollment_refusal option \<times> 'l authority" where
  "redeemChallenge codec verify r now t =
     (case er_freshness r of
        None \<Rightarrow> (Some (Stale_challenge (au_challengeTtlMs t)), t)
      | Some a \<Rightarrow>
          (case map_get (au_challenges t) (ca_nonce a) of
             None \<Rightarrow> (Some (Stale_challenge (au_challengeTtlMs t)), t)
           | Some expiry \<Rightarrow>
               if expiry \<le> now then (Some (Stale_challenge (au_challengeTtlMs t)), t)
               else let answered = (case challengeAnswerBytes codec (ca_nonce a) (er_nodeKey r) (er_userKey r) of
                                      Inl e \<Rightarrow> False
                                    | Inr m \<Rightarrow> checks verify (ca_proof a) m (er_nodeKey r))
                    in if \<not> answered then (Some (Bad_proof_of_possession (er_nodeKey r)), t)
                       else (None, t\<lparr>au_challenges := map_delete (ca_nonce a) (au_challenges t)\<rparr>)))"

text \<open>The X.509 form: what its decoder returns (\<open>None\<close> when the profile refuses it), and the codec.\<close>

record x509_form =
  xf_subjectPublicKey :: string
  xf_subjectCommonName :: string
  xf_issuerCommonName :: string
  xf_userKey :: string
  xf_operatorId :: string
  xf_discoverability :: string
  xf_relayIds :: "string list"
  xf_notBefore :: rat
  xf_notAfter :: rat
  xf_signature :: string
  xf_tbsBytes :: bytes

record x509_codec =
  x_tbs :: "node_certificate \<Rightarrow> bytes"
  x_encode :: "node_certificate \<Rightarrow> bytes \<Rightarrow> bytes"
  x_decode :: "bytes \<Rightarrow> x509_form option"

definition retry_after :: "rat list \<Rightarrow> rat \<Rightarrow> rat \<Rightarrow> jsnum" where
  "retry_after recent window now = js_minus (js_plus window (foldl (\<lambda>m t. js_min m (Fin t)) PosInf recent)) now"

text \<open>The fields of a certificate before it is signed.\<close>

definition certificate_fields :: "enrollment_request \<Rightarrow> rat \<Rightarrow> 'l authority \<Rightarrow> node_certificate" where
  "certificate_fields r now t =
     \<lparr>c_nodeKey = er_nodeKey r, c_userKey = er_userKey r, c_operatorId = operatorIdFor (er_userKey r),
      c_discoverability = er_discoverability r, c_relayIds = js_sort unit_cmp (er_relayIds r), c_issuedAt = now,
      c_expiresAt = now + au_lifetimeMs t, c_issuer = au_issuer t, c_signature = [], c_x509 = None,
      c_nextKeyCommitment = er_nextKeyCommitment r\<rparr>"

datatype enrollment_outcome =
    Enrolled node_certificate
  | Enrolment_refused enrollment_refusal
  | Enrolment_threw encode_error

definition issue_certificate ::
  "codec \<Rightarrow> (bytes \<Rightarrow> bytes \<Rightarrow> bytes) \<Rightarrow> x509_codec \<Rightarrow> 'l ledger_ops \<Rightarrow> enrollment_request \<Rightarrow> rat \<Rightarrow> 'l authority \<Rightarrow>
   enrollment_outcome \<times> 'l authority" where
  "issue_certificate codec sign x ops r now t =
     (let draft = certificate_fields r now t;
          unsigned = (if au_issuesX509 t
                      then draft\<lparr>c_x509 := Some (toHex (x_encode x draft (sign (x_tbs x draft) (au_privateKey t))))\<rparr>
                      else draft)
      in case certificatePayload codec unsigned of
           Inl e \<Rightarrow> (Enrolment_threw e, t)
         | Inr payload \<Rightarrow>
             (Enrolled (unsigned\<lparr>c_signature := toHex (sign payload (au_privateKey t))\<rparr>),
              t\<lparr>au_issuance := record_issue ops (er_userKey r) now (au_issuance t)\<rparr>))"

definition enrol ::
  "codec \<Rightarrow> verifier \<Rightarrow> (bytes \<Rightarrow> bytes \<Rightarrow> bytes) \<Rightarrow> x509_codec \<Rightarrow> 'l ledger_ops \<Rightarrow> enrollment_request \<Rightarrow> rat \<Rightarrow> 'l authority \<Rightarrow>
   enrollment_outcome \<times> 'l authority" where
  "enrol codec verify sign x ops r now t =
     (case possessionChallenge codec (er_nodeKey r) (er_userKey r) of
        Inl e \<Rightarrow> (Enrolment_threw e, t)
      | Inr challenge \<Rightarrow>
          if \<not> checks verify (er_proofOfPossession r) challenge (er_nodeKey r)
          then (Enrolment_refused (Bad_proof_of_possession (er_nodeKey r)), t)
          else if \<not> checks verify (er_ownerProof r) challenge (er_userKey r)
          then (Enrolment_refused (Bad_owner_proof (er_userKey r)), t)
          else if er_operatorId r \<noteq> operatorIdFor (er_userKey r)
          then (Enrolment_refused (Operator_id_not_derivable (er_operatorId r) (operatorIdFor (er_userKey r))), t)
          else let recent = recentFor ops (er_userKey r) now t
               in if length recent \<ge> au_maxPerWindow t
                  then (Enrolment_refused (Rate_limited (er_userKey r) (au_maxPerWindow t) (au_windowMs t)
                          (retry_after recent (au_windowMs t) now)), t)
                  else let issued = recentForAnybody ops now t
                       in case au_maxIssuedPerWindow t of
                            Some limit \<Rightarrow>
                              if length issued \<ge> limit
                              then (Enrolment_refused (Issuance_budget_exhausted limit (au_windowMs t)
                                      (retry_after issued (au_windowMs t) now)), t)
                              else issue_certificate codec sign x ops r now t
                          | None \<Rightarrow> issue_certificate codec sign x ops r now t)"

section \<open>Checking a certificate\<close>

datatype certificate_failure =
    Untrusted_issuer string
  | Bad_certificate_signature string
  | Certificate_expired rat rat
  | Not_yet_valid rat rat
  | X509_not_hex
  | X509_profile_refused
  | X509_mismatch string
  | X509_bad_signature string

definition second_of :: "rat \<Rightarrow> rat" where
  "second_of ms = of_int (\<lfloor>ms / 1000\<rfloor> * 1000)"

text \<open>The comparisons of \<open>checkX509Form\<close> in its order, each with whether the two sides agree.\<close>

definition x509_agreements :: "node_certificate \<Rightarrow> x509_form \<Rightarrow> (string \<times> bool) list" where
  "x509_agreements c f =
     [(''subjectPublicKey'', c_nodeKey c = xf_subjectPublicKey f),
      (''subject commonName'', c_nodeKey c = xf_subjectCommonName f),
      (''issuer commonName'', c_issuer c = xf_issuerCommonName f),
      (''userKey'', c_userKey c = xf_userKey f),
      (''operatorId'', c_operatorId c = xf_operatorId f),
      (''discoverability'', discoverability_text (c_discoverability c) = xf_discoverability f),
      (''relayIds'', js_join '' '' (js_sort unit_cmp (c_relayIds c)) = js_join '' '' (xf_relayIds f)),
      (''notBefore'', second_of (c_issuedAt c) = xf_notBefore f),
      (''notAfter'', second_of (c_expiresAt c) = xf_notAfter f)]"

definition hex_lower :: "string \<Rightarrow> bool" where
  "hex_lower s = list_all (\<lambda>c. c \<in> set HEX) s"

definition checkX509Form :: "verifier \<Rightarrow> x509_codec \<Rightarrow> node_certificate \<Rightarrow> certificate_failure option" where
  "checkX509Form verify x c =
     (case c_x509 c of
        None \<Rightarrow> None
      | Some text \<Rightarrow>
          if length text mod 2 \<noteq> 0 \<or> \<not> hex_lower text then Some X509_not_hex
          else case x_decode x (fromHex text) of
                 None \<Rightarrow> Some X509_profile_refused
               | Some f \<Rightarrow>
                   (case filter (\<lambda>p. \<not> snd p) (x509_agreements c f) of
                      (field, _) # _ \<Rightarrow> Some (X509_mismatch field)
                    | [] \<Rightarrow>
                        if toHex (x_tbs x (c\<lparr>c_relayIds := js_sort unit_cmp (c_relayIds c)\<rparr>)) \<noteq> toHex (xf_tbsBytes f)
                        then Some (X509_mismatch ''tbsCertificate bytes'')
                        else if \<not> checks verify (xf_signature f) (xf_tbsBytes f) (c_issuer c)
                        then Some (X509_bad_signature (c_nodeKey c))
                        else None))"

datatype certificate_result =
    Certificate_ok node_certificate
  | Certificate_refused certificate_failure
  | Certificate_threw encode_error

definition verifyCertificate ::
  "codec \<Rightarrow> verifier \<Rightarrow> x509_codec \<Rightarrow> node_certificate \<Rightarrow> string list \<Rightarrow> rat \<Rightarrow> certificate_result" where
  "verifyCertificate codec verify x c trustedIssuers now =
     (if c_issuer c \<notin> set trustedIssuers then Certificate_refused (Untrusted_issuer (c_issuer c))
      else case checkX509Form verify x c of
             Some failure \<Rightarrow> Certificate_refused failure
           | None \<Rightarrow>
               case certificatePayload codec c of
                 Inl e \<Rightarrow> Certificate_threw e
               | Inr payload \<Rightarrow>
                   if \<not> checks verify (c_signature c) payload (c_issuer c)
                   then Certificate_refused (Bad_certificate_signature (c_nodeKey c))
                   else if c_issuedAt c > now then Certificate_refused (Not_yet_valid (c_issuedAt c) now)
                   else if c_expiresAt c \<le> now then Certificate_refused (Certificate_expired (c_expiresAt c) now)
                   else Certificate_ok c)"

record replica_set =
  rp_userKey :: string
  rp_certificates :: "node_certificate list"
  rp_canVerifyWithinOwnerDomain :: bool

text \<open>The loop over the certificates; one that cannot be encoded throws.\<close>

fun verified_certificates ::
  "codec \<Rightarrow> verifier \<Rightarrow> x509_codec \<Rightarrow> string list \<Rightarrow> rat \<Rightarrow> node_certificate list \<Rightarrow> encode_error + node_certificate list" where
  "verified_certificates codec verify x trusted now [] = Inr []"
| "verified_certificates codec verify x trusted now (c # cs) =
     (case verifyCertificate codec verify x c trusted now of
        Certificate_threw e \<Rightarrow> Inl e
      | Certificate_refused _ \<Rightarrow> verified_certificates codec verify x trusted now cs
      | Certificate_ok _ \<Rightarrow>
          (case verified_certificates codec verify x trusted now cs of Inl e \<Rightarrow> Inl e | Inr ok \<Rightarrow> Inr (c # ok)))"

definition resolveReplicaSets ::
  "codec \<Rightarrow> verifier \<Rightarrow> x509_codec \<Rightarrow> (string \<Rightarrow> string \<Rightarrow> int) \<Rightarrow> node_certificate list \<Rightarrow> string list \<Rightarrow> rat \<Rightarrow>
   encode_error + replica_set list" where
  "resolveReplicaSets codec verify x lc certificates trustedIssuers now =
     (case verified_certificates codec verify x trustedIssuers now certificates of
        Inl e \<Rightarrow> Inl e
      | Inr ok \<Rightarrow>
          Inr (js_sort (\<lambda>a b. lc (rp_userKey a) (rp_userKey b))
            (map (\<lambda>(userKey, certs).
                \<lparr>rp_userKey = userKey, rp_certificates = js_sort (\<lambda>a b. lc (c_nodeKey a) (c_nodeKey b)) certs,
                 rp_canVerifyWithinOwnerDomain = (length certs \<ge> 2)\<rparr>) (group_by c_userKey ok))))"

section \<open>Renewal\<close>

definition CERTIFICATE_RENEW_AT :: rat where
  "CERTIFICATE_RENEW_AT = 2 / 3"

definition shouldRenewCertificate :: "node_certificate \<Rightarrow> rat \<Rightarrow> bool" where
  "shouldRenewCertificate c now =
     (let validity = c_expiresAt c - c_issuedAt c
      in if validity \<le> 0 then True else now \<ge> c_issuedAt c + validity * CERTIFICATE_RENEW_AT)"

definition msUntilRenewalDue :: "node_certificate \<Rightarrow> rat \<Rightarrow> rat \<Rightarrow> rat" where
  "msUntilRenewalDue c now floorMs =
     (let validity = c_expiresAt c - c_issuedAt c
      in if validity \<le> 0 then floorMs
         else max floorMs (of_int \<lceil>c_issuedAt c + validity * CERTIFICATE_RENEW_AT - now\<rceil>))"

type_synonym certificate_holder = "node_certificate option"

definition replace_certificate :: "node_certificate \<Rightarrow> certificate_holder \<Rightarrow> bool \<times> certificate_holder" where
  "replace_certificate c held =
     (case held of
        Some current \<Rightarrow> if c_issuedAt c \<le> c_issuedAt current then (False, held) else (True, Some c)
      | None \<Rightarrow> (True, Some c))"

text \<open>A holder never goes back to an older certificate.\<close>

lemma replace_monotone:
  "held = Some old \<Longrightarrow> \<exists>new. snd (replace_certificate c held) = Some new \<and> c_issuedAt old \<le> c_issuedAt new"
  by (auto simp: replace_certificate_def)

text \<open>Sleeping until renewal is due wakes when it is due, and before the certificate lapses.\<close>

lemma renewal_wakes_in_time:
  assumes "c_issuedAt c < c_expiresAt c" "now < c_expiresAt c"
  shows "shouldRenewCertificate c (now + msUntilRenewalDue c now floorMs)"
proof -
  let ?due = "c_issuedAt c + (c_expiresAt c - c_issuedAt c) * CERTIFICATE_RENEW_AT"
  have "?due - now \<le> of_int \<lceil>?due - now\<rceil>" by (rule le_of_int_ceiling)
  also have "\<dots> \<le> msUntilRenewalDue c now floorMs" using assms by (simp add: msUntilRenewalDue_def Let_def)
  finally show ?thesis using assms by (simp add: shouldRenewCertificate_def Let_def)
qed

section \<open>Enrolling\<close>

lemma enrol_Enrolled:
  assumes "enrol codec verify sign x ops r now t = (Enrolled c, t')"
  shows "issue_certificate codec sign x ops r now t = (Enrolled c, t')"
    "length (recentFor ops (er_userKey r) now t) < au_maxPerWindow t"
    "\<And>limit. au_maxIssuedPerWindow t = Some limit \<Longrightarrow> length (recentForAnybody ops now t) < limit"
    "er_operatorId r = operatorIdFor (er_userKey r)"
  using assms by (auto simp: enrol_def Let_def not_le split: sum.splits if_splits option.splits)

lemma enrol_other:
  assumes "enrol codec verify sign x ops r now t = (out, t')" "\<And>c. out \<noteq> Enrolled c"
  shows "t' = t"
  using assms by (auto simp: enrol_def issue_certificate_def Let_def split: sum.splits if_splits option.splits)

lemma issue_certificate_Enrolled:
  assumes "issue_certificate codec sign x ops r now t = (Enrolled c, t')"
  shows "t' = t\<lparr>au_issuance := record_issue ops (er_userKey r) now (au_issuance t)\<rparr>"
    "c_nodeKey c = er_nodeKey r" "c_userKey c = er_userKey r" "c_operatorId c = operatorIdFor (er_userKey r)"
    "c_issuedAt c = now" "c_expiresAt c = now + au_lifetimeMs t" "c_issuer c = au_issuer t"
    "\<exists>payload. certificatePayload codec c = Inr payload \<and> c_signature c = toHex (sign payload (au_privateKey t))"
    "\<not> au_issuesX509 t \<Longrightarrow> c_x509 c = None"
proof -
  let ?d = "certificate_fields r now t"
  let ?u = "if au_issuesX509 t then ?d\<lparr>c_x509 := Some (toHex (x_encode x ?d (sign (x_tbs x ?d) (au_privateKey t))))\<rparr> else ?d"
  obtain payload where p: "certificatePayload codec ?u = Inr payload"
    "c = ?u\<lparr>c_signature := toHex (sign payload (au_privateKey t))\<rparr>"
    "t' = t\<lparr>au_issuance := record_issue ops (er_userKey r) now (au_issuance t)\<rparr>"
    using assms by (auto simp: issue_certificate_def Let_def split: sum.splits)
  have "certificatePayload codec c = certificatePayload codec ?u"
    by (simp add: p(2) certificatePayload_def certificate_value_def)
  with p show "\<exists>payload. certificatePayload codec c = Inr payload \<and> c_signature c = toHex (sign payload (au_privateKey t))"
    by simp
  show "t' = t\<lparr>au_issuance := record_issue ops (er_userKey r) now (au_issuance t)\<rparr>" by (rule p(3))
  show "c_nodeKey c = er_nodeKey r" "c_userKey c = er_userKey r" "c_operatorId c = operatorIdFor (er_userKey r)"
    "c_issuedAt c = now" "c_expiresAt c = now + au_lifetimeMs t" "c_issuer c = au_issuer t"
    by (simp_all add: p(2) certificate_fields_def)
  show "\<not> au_issuesX509 t \<Longrightarrow> c_x509 c = None" by (simp add: p(2) certificate_fields_def)
qed

text \<open>Counting what a ledger holds inside one window.\<close>

definition in_window :: "rat \<Rightarrow> rat \<Rightarrow> rat list \<Rightarrow> nat" where
  "in_window w T ts = length (filter (\<lambda>a. T - w < a \<and> a \<le> T) ts)"

lemma length_filter_mset: "mset xs = mset ys \<Longrightarrow> length (filter P xs) = length (filter P ys)"
  by (metis mset_filter size_mset)

lemma in_window_cong: "mset xs = mset ys \<Longrightarrow> in_window w T xs = in_window w T ys"
  unfolding in_window_def by (rule length_filter_mset)

text \<open>One more entry at the present time keeps every window within the limit the check enforced.\<close>

lemma in_window_push:
  assumes "\<And>T. in_window w T ts \<le> m" "\<forall>a \<in> set ts. a \<le> now" "length (filter (\<lambda>a. a > now - w) ts) < m"
  shows "in_window w T (now # ts) \<le> m"
proof (cases "T - w < now \<and> now \<le> T")
  case True
  have "length (filter (\<lambda>a. T - w < a \<and> a \<le> T) ts) \<le> length (filter (\<lambda>a. a > now - w) ts)"
  proof -
    have "filter (\<lambda>a. T - w < a \<and> a \<le> T) ts = filter (\<lambda>a. T - w < a \<and> a \<le> T) (filter (\<lambda>a. a > now - w) ts)"
      using True by (auto simp: intro!: filter_cong)
    then show ?thesis by (metis length_filter_le)
  qed
  with assms(3) True show ?thesis by (simp add: in_window_def)
next
  case False
  then have "in_window w T (now # ts) = in_window w T ts" by (simp add: in_window_def)
  with assms(1) show ?thesis by simp
qed

definition enrol_all ::
  "codec \<Rightarrow> verifier \<Rightarrow> (bytes \<Rightarrow> bytes \<Rightarrow> bytes) \<Rightarrow> x509_codec \<Rightarrow> 'l ledger_ops \<Rightarrow> (enrollment_request \<times> rat) list \<Rightarrow>
   'l authority \<Rightarrow> 'l authority" where
  "enrol_all codec verify sign x ops reqs t = foldl (\<lambda>t (r, now). snd (enrol codec verify sign x ops r now t)) t reqs"

text \<open>What the authority relies on: a ledger reports back exactly what was recorded in it.\<close>

definition within_limits :: "'l ledger_ops \<Rightarrow> rat \<Rightarrow> 'l authority \<Rightarrow> bool" where
  "within_limits ops now t \<longleftrightarrow>
     (\<forall>u. (\<forall>a \<in> set (issued_to ops (au_issuance t) u). a \<le> now) \<and>
       (\<forall>T. in_window (au_windowMs t) T (issued_to ops (au_issuance t) u) \<le> au_maxPerWindow t)) \<and>
     (\<forall>a \<in> set (issued_to_anybody ops (au_issuance t)). a \<le> now) \<and>
     (\<forall>limit. au_maxIssuedPerWindow t = Some limit \<longrightarrow>
       (\<forall>T. in_window (au_windowMs t) T (issued_to_anybody ops (au_issuance t)) \<le> limit))"

locale issuance_ledger =
  fixes ops :: "'l ledger_ops"
  assumes issued_to_record: "mset (issued_to ops (record_issue ops u now l) v) =
      (if v = u then add_mset now (mset (issued_to ops l v)) else mset (issued_to ops l v))"
    and anybody_record: "mset (issued_to_anybody ops (record_issue ops u now l)) =
      add_mset now (mset (issued_to_anybody ops l))"
begin

lemma within_limits_later: "within_limits ops now t \<Longrightarrow> now \<le> now' \<Longrightarrow> within_limits ops now' t"
  unfolding within_limits_def by (meson order_trans)

lemma within_limits_record:
  assumes "within_limits ops now t" "length (recentFor ops u now t) < au_maxPerWindow t"
    and "\<And>limit. au_maxIssuedPerWindow t = Some limit \<Longrightarrow> length (recentForAnybody ops now t) < limit"
  shows "within_limits ops now (t\<lparr>au_issuance := record_issue ops u now (au_issuance t)\<rparr>)"
proof -
  let ?l = "au_issuance t" and ?l' = "record_issue ops u now (au_issuance t)"
  have user: "mset (issued_to ops ?l' u) = mset (now # issued_to ops ?l u)"
    "v \<noteq> u \<Longrightarrow> mset (issued_to ops ?l' v) = mset (issued_to ops ?l v)" for v
    by (simp_all add: issued_to_record)
  have any: "mset (issued_to_anybody ops ?l') = mset (now # issued_to_anybody ops ?l)"
    by (simp add: anybody_record)
  have users: "in_window (au_windowMs t) T (issued_to ops ?l' v) \<le> au_maxPerWindow t" for T v
  proof (cases "v = u")
    case True
    have "in_window (au_windowMs t) T (now # issued_to ops ?l u) \<le> au_maxPerWindow t"
      using assms(1,2) by (intro in_window_push) (auto simp: within_limits_def recentFor_def)
    then show ?thesis using True in_window_cong [OF user(1)] by simp
  next
    case False
    then show ?thesis using assms(1) in_window_cong [OF user(2) [OF False]] by (simp add: within_limits_def)
  qed
  have all: "in_window (au_windowMs t) T (issued_to_anybody ops ?l') \<le> limit" if "au_maxIssuedPerWindow t = Some limit" for T limit
  proof -
    have "in_window (au_windowMs t) T (now # issued_to_anybody ops ?l) \<le> limit"
      using assms(1) assms(3) [OF that] that by (intro in_window_push) (auto simp: within_limits_def recentForAnybody_def)
    then show ?thesis using in_window_cong [OF any] by simp
  qed
  have "\<forall>a \<in> set (issued_to ops ?l' v). a \<le> now" for v
    using mset_eq_setD [OF user(1)] mset_eq_setD [OF user(2)] assms(1) by (cases "v = u") (auto simp: within_limits_def)
  moreover have "\<forall>a \<in> set (issued_to_anybody ops ?l'). a \<le> now"
    using mset_eq_setD [OF any] assms(1) by (auto simp: within_limits_def)
  ultimately show ?thesis using users all by (simp add: within_limits_def)
qed

lemma within_limits_enrol:
  assumes "within_limits ops now t"
  shows "within_limits ops now (snd (enrol codec verify sign x ops r now t))"
proof (cases "enrol codec verify sign x ops r now t")
  case (Pair out t')
  show ?thesis
  proof (cases "\<exists>c. out = Enrolled c")
    case True
    then obtain c where "enrol codec verify sign x ops r now t = (Enrolled c, t')" using Pair by blast
    note e = enrol_Enrolled [OF this]
    from issue_certificate_Enrolled(1) [OF e(1)] within_limits_record [OF assms e(2,3)] Pair show ?thesis by simp
  next
    case False
    then have "t' = t" using enrol_other [OF Pair] by blast
    with Pair assms show ?thesis by simp
  qed
qed

lemma enrol_settings:
  "au_windowMs (snd (enrol codec verify sign x ops r now t)) = au_windowMs t"
  "au_maxPerWindow (snd (enrol codec verify sign x ops r now t)) = au_maxPerWindow t"
  "au_maxIssuedPerWindow (snd (enrol codec verify sign x ops r now t)) = au_maxIssuedPerWindow t"
  by (auto simp: enrol_def issue_certificate_def Let_def split: sum.splits option.splits)

lemma enrol_all_limits:
  "within_limits ops start t \<Longrightarrow> sorted (start # map snd reqs) \<Longrightarrow>
   (\<exists>later. within_limits ops later (enrol_all codec verify sign x ops reqs t)) \<and>
   au_windowMs (enrol_all codec verify sign x ops reqs t) = au_windowMs t \<and>
   au_maxPerWindow (enrol_all codec verify sign x ops reqs t) = au_maxPerWindow t \<and>
   au_maxIssuedPerWindow (enrol_all codec verify sign x ops reqs t) = au_maxIssuedPerWindow t"
proof (induction reqs arbitrary: start t)
  case (Cons q reqs)
  obtain r now where q: "q = (r, now)" by force
  let ?t = "snd (enrol codec verify sign x ops r now t)"
  have "within_limits ops now t" using Cons.prems q by (auto intro: within_limits_later)
  then have "within_limits ops now ?t" by (rule within_limits_enrol)
  from Cons.IH [OF this] Cons.prems q show ?case by (simp add: enrol_all_def enrol_settings)
qed (auto simp: enrol_all_def)

end

interpretation in_process_ledger: issuance_ledger in_process
  by unfold_locales (auto simp: in_process_def split: option.splits)

section \<open>Properties\<close>


definition demo_x509 :: x509_codec where
  "demo_x509 = \<lparr>x_tbs = (\<lambda>_. []), x_encode = (\<lambda>_ s. s), x_decode = (\<lambda>_. None)\<rparr>"

definition demo_request_for :: "bytes \<Rightarrow> enrollment_request" where
  "demo_request_for k = \<lparr>er_nodeKey = toHex k, er_userKey = toHex k, er_operatorId = operatorIdFor (toHex k),
     er_discoverability = Seed, er_relayIds = [], er_nextKeyCommitment = None, er_proofOfPossession = toHex k,
     er_ownerProof = toHex k, er_freshness = None\<rparr>"

definition demo_authority :: "in_process_issuance authority" where
  "demo_authority = new_authority id [9] (Some 1) (Some 3) empty_issuance (Some 100) (Some 50) None False"


text \<open>A challenge can be used once: a request is redeemed only against a challenge this authority
  minted and still holds, before it expires, with a proof under the requesting node's key; then
  the challenge is gone and no request that names it is redeemed again, while a failed attempt
  leaves it in place.\<close>

theorem challenge_redeemed_once:
  shows "(fst (redeemChallenge codec verify r now t) = None \<longrightarrow>
      (\<exists>a expiry m. er_freshness r = Some a \<and> map_get (au_challenges t) (ca_nonce a) = Some expiry \<and> now < expiry \<and>
        challengeAnswerBytes codec (ca_nonce a) (er_nodeKey r) (er_userKey r) = Inr m \<and> checks verify (ca_proof a) m (er_nodeKey r) \<and>
        (\<forall>r' b later. er_freshness r' = Some b \<longrightarrow> ca_nonce b = ca_nonce a \<longrightarrow>
          fst (redeemChallenge codec verify r' later (snd (redeemChallenge codec verify r now t))) =
            Some (Stale_challenge (au_challengeTtlMs t))))) \<and>
    (fst (redeemChallenge codec verify r now t) \<noteq> None \<longrightarrow> snd (redeemChallenge codec verify r now t) = t)"
  by (auto simp: redeemChallenge_def Let_def not_le split: option.splits sum.splits if_splits)

theorem challenge_redeemed_once_witness:
  "let r = (demo_request_for [1])\<lparr>er_freshness := Some \<lparr>ca_nonce = ''n'', ca_proof = toHex [1]\<rparr>\<rparr>;
     t = demo_authority\<lparr>au_challenges := [(''n'', 9)]\<rparr>
   in fst (redeemChallenge demo_codec demo_verify r 5 t) = None \<and>
     fst (redeemChallenge demo_codec demo_verify r 6 (snd (redeemChallenge demo_codec demo_verify r 5 t))) =
       Some (Stale_challenge (au_challengeTtlMs t))"
proof -
  let ?r = "(demo_request_for [1])\<lparr>er_freshness := Some \<lparr>ca_nonce = ''n'', ca_proof = toHex [1]\<rparr>\<rparr>"
  let ?t = "demo_authority\<lparr>au_challenges := [(''n'', 9)]\<rparr>"
  have "challengeAnswerBytes demo_codec a b c = Inr []" for a b c
    by (simp add: challengeAnswerBytes_def encodeCanonical_Inr demo_codec_def)
  then have "fst (redeemChallenge demo_codec demo_verify ?r 5 ?t) = None"
    by (simp add: redeemChallenge_def demo_request_for_def checks_def demo_verify_def Let_def del: toHex.simps)
  with challenge_redeemed_once [of demo_codec demo_verify ?r 5 ?t] show ?thesis
    unfolding Let_def by fastforce
qed

text \<open>An honest enrolment works end to end: a request made with the node's and the user's keys is never
  refused for its proofs or its operator, and the certificate issued for it names the node and the
  user and verifies under the issuer's key from the moment it is issued until it expires.  The
  signature scheme is assumed to verify what it signed.\<close>

theorem honest_enrolment_verifies:
  assumes "\<And>m k. verify (sign m k) m (pub k) = Some True"
    and "requestEnrollment codec verify sign pub nodeSk (Seed_signer userSk) disc relays commitment = Inr r"
    and "au_issuer t = toHex (pub (au_privateKey t))" "\<not> au_issuesX509 t"
    and "enrol codec verify sign x ops r now t = (out, t')"
  shows "(\<forall>k. out \<noteq> Enrolment_refused (Bad_proof_of_possession k)) \<and> (\<forall>k. out \<noteq> Enrolment_refused (Bad_owner_proof k)) \<and>
    (\<forall>a b. out \<noteq> Enrolment_refused (Operator_id_not_derivable a b)) \<and>
    (\<forall>c. out = Enrolled c \<longrightarrow> c_nodeKey c = toHex (pub nodeSk) \<and> c_userKey c = toHex (pub userSk) \<and>
      (\<forall>later trusted. now \<le> later \<longrightarrow> later < now + au_lifetimeMs t \<longrightarrow> au_issuer t \<in> set trusted \<longrightarrow>
        verifyCertificate codec verify x c trusted later = Certificate_ok c))"
proof -
  obtain challenge where ch: "possessionChallenge codec (toHex (pub nodeSk)) (toHex (pub userSk)) = Inr challenge"
    and r: "er_nodeKey r = toHex (pub nodeSk)" "er_userKey r = toHex (pub userSk)"
      "er_operatorId r = operatorIdFor (toHex (pub userSk))" "er_proofOfPossession r = toHex (sign challenge nodeSk)"
      "er_ownerProof r = toHex (sign challenge userSk)"
    using assms(2) by (auto simp: requestEnrollment_def Let_def split: sum.splits)
  have ok: "checks verify (er_proofOfPossession r) challenge (er_nodeKey r)" "checks verify (er_ownerProof r) challenge (er_userKey r)"
    using assms(1) r by (simp_all add: checks_def)
  have verified: "c_nodeKey c = toHex (pub nodeSk) \<and> c_userKey c = toHex (pub userSk) \<and>
      (\<forall>later trusted. now \<le> later \<longrightarrow> later < now + au_lifetimeMs t \<longrightarrow> au_issuer t \<in> set trusted \<longrightarrow>
        verifyCertificate codec verify x c trusted later = Certificate_ok c)" if "out = Enrolled c" for c
  proof -
    note c = issue_certificate_Enrolled [OF enrol_Enrolled(1) [OF assms(5) [unfolded that]]]
    obtain payload where "certificatePayload codec c = Inr payload" "c_signature c = toHex (sign payload (au_privateKey t))"
      using c(8) by blast
    then show ?thesis using assms(1,3) c(2,3,5-7) c(9) [OF assms(4)] r
      by (simp add: verifyCertificate_def checkX509Form_def checks_def)
  qed
  have "(\<forall>k. out \<noteq> Enrolment_refused (Bad_proof_of_possession k)) \<and> (\<forall>k. out \<noteq> Enrolment_refused (Bad_owner_proof k)) \<and>
    (\<forall>a b. out \<noteq> Enrolment_refused (Operator_id_not_derivable a b))"
    using assms(5) ok ch r
    by (auto simp: enrol_def issue_certificate_def Let_def split: option.splits if_splits sum.splits)
  with verified show ?thesis by blast
qed

lemma demo_enrolled:
  "\<exists>c t'. enrol demo_codec demo_verify (\<lambda>m k. k) demo_x509 in_process (demo_request_for [1]) 100 demo_authority = (Enrolled c, t')"
proof -
  have p: "possessionChallenge demo_codec a b = Inr []" for a b
    by (simp add: possessionChallenge_def encodeCanonical_Inr demo_codec_def)
  have q: "certificatePayload demo_codec c = Inr []" for c
    by (auto simp: certificatePayload_def encodeCanonical_Inr demo_codec_def certificate_value_def list_all_iff split: option.splits)
  show ?thesis
    by (simp add: enrol_def p demo_request_for_def checks_def demo_verify_def recentFor_def recentForAnybody_def demo_authority_def
        new_authority_def in_process_def empty_issuance_def issue_certificate_def q Let_def)
qed

theorem honest_enrolment_verifies_witness:
  "\<exists>c. verifyCertificate demo_codec demo_verify demo_x509 c [toHex [9]] 120 = Certificate_ok c"
proof -
  obtain c t' where e: "enrol demo_codec demo_verify (\<lambda>m k. k) demo_x509 in_process (demo_request_for [1]) 100 demo_authority = (Enrolled c, t')"
    using demo_enrolled by blast
  have "possessionChallenge demo_codec (toHex [1]) (toHex [1]) = Inr []"
    by (simp add: possessionChallenge_def encodeCanonical_Inr demo_codec_def)
  then have "requestEnrollment demo_codec demo_verify (\<lambda>m k. k) id [1] (Seed_signer [1]) Seed [] None = Inr (demo_request_for [1])"
    by (simp add: requestEnrollment_def demo_request_for_def Let_def del: toHex.simps)
  from honest_enrolment_verifies [where sign = "\<lambda>m k. k" and pub = id, OF _ this _ _ e]
  have "verifyCertificate demo_codec demo_verify demo_x509 c [toHex [9]] 120 = Certificate_ok c"
    by (simp add: demo_verify_def demo_authority_def new_authority_def del: toHex.simps)
  then show ?thesis by blast
qed

end
