(* ===== verification/Checkpoint.thy ===== *)
theory Checkpoint
  imports Capability
begin

text \<open>
  Checkpoints of a job and the store they live in: \<open>packages/core/src/checkpoint.ts\<close> and
  \<open>packages/core/src/blockstore/memory.ts\<close>.

  A CID is its text and \<open>cid_of\<close> the hash that makes it from the bytes; \<open>codec\<close> and \<open>decode\<close> are
  DAG-CBOR, with \<open>None\<close> for a throw.  The port \<open>Blockstore\<close> is a record of operations on a state and its
  contract the locale \<open>blockstore\<close>, interpreted on \<open>MemoryBlockstore\<close>.  A refusal carries the failure,
  not the wording of the reason that is made from it.
\<close>

section \<open>The block store\<close>

record 's store_ops =
  put_block :: "bytes \<Rightarrow> 's \<Rightarrow> string \<times> 's"
  get_block :: "string \<Rightarrow> 's \<Rightarrow> bytes option"
  has_block :: "string \<Rightarrow> 's \<Rightarrow> bool"
  block_count :: "'s \<Rightarrow> nat"

type_synonym memory_store = "(string, bytes) jsmap"

definition memory_put :: "(bytes \<Rightarrow> string) \<Rightarrow> bytes \<Rightarrow> memory_store \<Rightarrow> string \<times> memory_store" where
  "memory_put cid_of b s = (cid_of b, map_set (cid_of b) b s)"

definition memory_get :: "string \<Rightarrow> memory_store \<Rightarrow> bytes option" where
  "memory_get c s = map_get s c"

definition memory_has :: "string \<Rightarrow> memory_store \<Rightarrow> bool" where
  "memory_has c s = (c \<in> set (map_keys s))"

definition memory_size :: "memory_store \<Rightarrow> nat" where
  "memory_size s = length s"

definition memory_ops :: "(bytes \<Rightarrow> string) \<Rightarrow> memory_store store_ops" where
  "memory_ops cid_of = \<lparr>put_block = memory_put cid_of, get_block = memory_get, has_block = memory_has,
                        block_count = memory_size\<rparr>"

section \<open>Checkpoints\<close>

record completed_shard =
  cs_index :: rat
  cs_result :: string

record job_checkpoint =
  ck_jobId :: string
  ck_moduleCid :: string
  ck_partitions :: jsnum
  ck_completed :: "completed_shard list"
  ck_at :: jsnum
  ck_previous :: "string option"

text \<open>One result per partition, the last one given; listed by partition.\<close>

definition by_partition :: "completed_shard list \<Rightarrow> (rat, string) jsmap" where
  "by_partition shards = foldl (\<lambda>m s. map_set (cs_index s) (cs_result s) m) [] shards"

definition checkpointOf :: "job_checkpoint \<Rightarrow> job_checkpoint" where
  "checkpointOf state = state\<lparr>ck_completed :=
     js_sort (\<lambda>a b. num_cmp (cs_index a) (cs_index b))
       (map (\<lambda>(i, r). \<lparr>cs_index = i, cs_result = r\<rparr>) (by_partition (ck_completed state)))\<rparr>"

definition shard_value :: "completed_shard \<Rightarrow> cvalue" where
  "shard_value s = CObj [(''partitionIndex'', CNum (Fin (cs_index s))), (''resultCid'', CStr (cs_result s))]"

definition checkpoint_value :: "job_checkpoint \<Rightarrow> cvalue" where
  "checkpoint_value c =
     CObj [(''jobId'', CStr (ck_jobId c)), (''moduleCid'', CStr (ck_moduleCid c)), (''partitionCount'', CNum (ck_partitions c)),
           (''completed'', CList (map shard_value (ck_completed c))), (''at'', CNum (ck_at c)),
           (''previous'', case ck_previous c of None \<Rightarrow> CNull | Some p \<Rightarrow> CStr p)]"

text \<open>\<open>writeCheckpoint\<close>: \<open>Inl\<close> is the throw, before anything is stored.\<close>

definition writeCheckpoint ::
  "codec \<Rightarrow> (bytes \<Rightarrow> string) \<Rightarrow> 's store_ops \<Rightarrow> job_checkpoint \<Rightarrow> 's \<Rightarrow> encode_error + string \<times> 's" where
  "writeCheckpoint codec cid_of ops c s =
     (case canonicalCid codec cid_of (checkpoint_value c) of
        Inl e \<Rightarrow> Inl e
      | Inr (cid, bytes) \<Rightarrow> Inr (cid, snd (put_block ops bytes s)))"

datatype checkpoint_failure =
    Block_missing string
  | Undecodable string
  | Malformed string string

type_synonym decoder = "bytes \<Rightarrow> cvalue option"

text \<open>The properties of a decoded value that is an object; a CID is one, with none of the names read here.\<close>

definition asRecord :: "cvalue \<Rightarrow> (string \<times> cvalue) list option" where
  "asRecord v = (case v of CObj es \<Rightarrow> Some es | CCid c \<Rightarrow> Some [] | _ \<Rightarrow> None)"

definition asWholeNumber :: "cvalue option \<Rightarrow> rat option" where
  "asWholeNumber v =
     (case v of
        Some (CNum (Fin x)) \<Rightarrow> if \<not> is_integer (Fin x) \<or> x < 0 then None else Some x
      | _ \<Rightarrow> None)"

definition read_shard :: "rat \<Rightarrow> cvalue \<Rightarrow> completed_shard option" where
  "read_shard nparts v =
     (case asRecord v of
        None \<Rightarrow> None
      | Some shard \<Rightarrow>
          (case (asWholeNumber (map_get shard ''partitionIndex''), map_get shard ''resultCid'') of
             (Some i, Some (CStr r)) \<Rightarrow> if i \<ge> nparts then None else Some \<lparr>cs_index = i, cs_result = r\<rparr>
           | _ \<Rightarrow> None))"

fun read_shards :: "rat \<Rightarrow> cvalue list \<Rightarrow> completed_shard list option" where
  "read_shards nparts [] = Some []"
| "read_shards nparts (v # vs) =
     (case read_shard nparts v of
        None \<Rightarrow> None
      | Some s \<Rightarrow> map_option (\<lambda>rest. s # rest) (read_shards nparts vs))"

definition previous_field :: "cvalue option \<Rightarrow> string option option" where
  "previous_field v = (case v of Some CNull \<Rightarrow> Some None | Some (CStr p) \<Rightarrow> Some (Some p) | _ \<Rightarrow> None)"

definition read_record :: "string \<Rightarrow> (string \<times> cvalue) list \<Rightarrow> checkpoint_failure + job_checkpoint" where
  "read_record label r =
     (case map_get r ''jobId'' of
        Some (CStr jobId) \<Rightarrow>
          (case map_get r ''moduleCid'' of
             Some (CStr moduleCid) \<Rightarrow>
               (case previous_field (map_get r ''previous'') of
                  None \<Rightarrow> Inl (Malformed label ''previous'')
                | Some previous \<Rightarrow>
               (case asWholeNumber (map_get r ''partitionCount'') of
                  None \<Rightarrow> Inl (Malformed label ''partitionCount'')
                | Some nparts \<Rightarrow>
               (case asWholeNumber (map_get r ''at'') of
                  None \<Rightarrow> Inl (Malformed label ''at'')
                | Some taken \<Rightarrow>
               (case map_get r ''completed'' of
                  Some (CList vs) \<Rightarrow>
                    (case read_shards nparts vs of
                       None \<Rightarrow> Inl (Malformed label ''completed'')
                     | Some completed \<Rightarrow>
                         Inr (checkpointOf \<lparr>ck_jobId = jobId, ck_moduleCid = moduleCid, ck_partitions = Fin nparts,
                                            ck_completed = completed, ck_at = Fin taken, ck_previous = previous\<rparr>))
                | _ \<Rightarrow> Inl (Malformed label ''completed'')))))
           | _ \<Rightarrow> Inl (Malformed label ''moduleCid''))
      | _ \<Rightarrow> Inl (Malformed label ''jobId''))"

definition readCheckpoint ::
  "decoder \<Rightarrow> 's store_ops \<Rightarrow> string \<Rightarrow> 's \<Rightarrow> checkpoint_failure + job_checkpoint" where
  "readCheckpoint decode ops label s =
     (case get_block ops label s of
        None \<Rightarrow> Inl (Block_missing label)
      | Some bytes \<Rightarrow>
          (case decode bytes of
             None \<Rightarrow> Inl (Undecodable label)
           | Some v \<Rightarrow>
               (case asRecord v of
                  None \<Rightarrow> Inl (Malformed label ''root'')
                | Some r \<Rightarrow> read_record label r)))"

section \<open>What is left to do\<close>

text \<open>The loop ends when the count is finite; \<open>None\<close> is the loop that does not.\<close>

partial_function (option) remaining_loop :: "jsnum \<Rightarrow> rat list \<Rightarrow> nat \<Rightarrow> nat list \<Rightarrow> nat list option" where
  "remaining_loop nparts finished i acc =
     (if js_gt nparts (of_nat i)
      then remaining_loop nparts finished (i + 1) (if of_nat i \<in> set finished then acc else acc @ [i])
      else Some acc)"

definition remainingWork :: "job_checkpoint \<Rightarrow> nat list option" where
  "remainingWork c = remaining_loop (ck_partitions c) (set_of_list (map cs_index (ck_completed c))) 0 []"

definition isComplete :: "job_checkpoint \<Rightarrow> bool option" where
  "isComplete c = map_option (\<lambda>w. length w = 0) (remainingWork c)"

section \<open>Publishing and recovering\<close>

record stored_checkpoints =
  confirmed :: "string list"
  unconfirmed :: "(string \<times> checkpoint_failure) list"

definition checkpointsInto :: stored_checkpoints where
  "checkpointsInto = \<lparr>confirmed = [], unconfirmed = []\<rparr>"

definition newest :: "stored_checkpoints \<Rightarrow> string option" where
  "newest t = (if confirmed t = [] then None else Some (last (confirmed t)))"

definition publish :: "decoder \<Rightarrow> 's store_ops \<Rightarrow> 's \<Rightarrow> string \<Rightarrow> stored_checkpoints \<Rightarrow> stored_checkpoints" where
  "publish decode ops s handle t =
     (case readCheckpoint decode ops handle s of
        Inr c \<Rightarrow> t\<lparr>confirmed := confirmed t @ [handle]\<rparr>
      | Inl f \<Rightarrow> t\<lparr>unconfirmed := unconfirmed t @ [(handle, f)]\<rparr>)"

record recovered_checkpoint =
  found_checkpoint :: job_checkpoint
  found_cid :: string
  found_skipped :: nat

fun recover_loop ::
  "decoder \<Rightarrow> 's store_ops \<Rightarrow> 's \<Rightarrow> nat \<Rightarrow> string list \<Rightarrow> recovered_checkpoint option" where
  "recover_loop decode ops s skipped [] = None"
| "recover_loop decode ops s skipped (cid # cids) =
     (case readCheckpoint decode ops cid s of
        Inr c \<Rightarrow> Some \<lparr>found_checkpoint = c, found_cid = cid, found_skipped = skipped\<rparr>
      | Inl f \<Rightarrow> recover_loop decode ops s (skipped + 1) cids)"

definition recoverCheckpoint :: "decoder \<Rightarrow> 's store_ops \<Rightarrow> string list \<Rightarrow> 's \<Rightarrow> recovered_checkpoint option" where
  "recoverCheckpoint decode ops candidates s = recover_loop decode ops s 0 candidates"

text \<open>The walk back along \<open>previous\<close>; a CID met before ends it.\<close>

partial_function (option) chain_loop ::
  "decoder \<Rightarrow> 's store_ops \<Rightarrow> (string \<Rightarrow> string option) \<Rightarrow> 's \<Rightarrow> string list \<Rightarrow> job_checkpoint list \<Rightarrow> string option
    \<Rightarrow> job_checkpoint list option" where
  "chain_loop decode ops resolve s seen chain current =
     (case current of
        None \<Rightarrow> Some chain
      | Some cid \<Rightarrow>
          if cid \<in> set seen then Some chain
          else (case readCheckpoint decode ops cid s of
                  Inl f \<Rightarrow> Some chain
                | Inr c \<Rightarrow> chain_loop decode ops resolve s (set_add cid seen) (chain @ [c])
                            (case ck_previous c of None \<Rightarrow> None | Some p \<Rightarrow> resolve p)))"

definition checkpointChain ::
  "decoder \<Rightarrow> 's store_ops \<Rightarrow> (string \<Rightarrow> string option) \<Rightarrow> string \<Rightarrow> 's \<Rightarrow> job_checkpoint list option" where
  "checkpointChain decode ops resolve cid s = chain_loop decode ops resolve s [] [] (Some cid)"

section \<open>The contract of a store\<close>

text \<open>
  Content addressing: a block is found under its own CID, and putting one leaves the others as
  they are.  \<open>has\<close> is the local presence that \<open>get\<close> would find.
\<close>

locale blockstore =
  fixes cid_of :: "bytes \<Rightarrow> string" and ops :: "'s store_ops"
  assumes put_cid: "fst (put_block ops b s) = cid_of b"
    and get_put: "get_block ops c (snd (put_block ops b s)) = (if c = cid_of b then Some b else get_block ops c s)"
    and has_get: "has_block ops c s \<longleftrightarrow> get_block ops c s \<noteq> None"
begin

lemma write_read_same:
  assumes "writeCheckpoint codec cid_of ops c s = Inr (cid, s')" "\<And>v b. codec v = Some b \<Longrightarrow> decode b = Some (reorder v)"
  shows "readCheckpoint decode ops cid s' =
    (case asRecord (reorder (checkpoint_value c)) of None \<Rightarrow> Inl (Malformed cid ''root'') | Some r \<Rightarrow> read_record cid r)"
  using assms
  by (auto simp: writeCheckpoint_def canonicalCid_def encodeCanonical_Inr readCheckpoint_def get_put split: sum.splits)

lemma write_read_other:
  assumes "writeCheckpoint codec cid_of ops c s = Inr (cid, s')" "other \<noteq> cid"
  shows "readCheckpoint decode ops other s' = readCheckpoint decode ops other s"
  using assms by (auto simp: writeCheckpoint_def canonicalCid_def readCheckpoint_def get_put split: sum.splits)

text \<open>Without colliding digests, a block once stored keeps its content through any later puts.\<close>

definition content_ok :: "'s \<Rightarrow> bool" where
  "content_ok s \<longleftrightarrow> (\<forall>c b. get_block ops c s = Some b \<longrightarrow> cid_of b = c)"

lemma content_ok_put: "content_ok s \<Longrightarrow> content_ok (snd (put_block ops b s))"
  by (auto simp: content_ok_def get_put split: if_splits)

lemma get_stable:
  "inj cid_of \<Longrightarrow> content_ok s \<Longrightarrow> get_block ops c s = Some b \<Longrightarrow> get_block ops c (snd (put_block ops b' s)) = Some b"
  by (auto simp: get_put content_ok_def dest: injD)

lemma read_stable:
  "inj cid_of \<Longrightarrow> content_ok s \<Longrightarrow> readCheckpoint decode ops c s = Inr k \<Longrightarrow>
   readCheckpoint decode ops c (snd (put_block ops b' s)) = Inr k"
  by (auto simp: readCheckpoint_def get_stable split: option.splits)

end

interpretation memory: blockstore cid_of "memory_ops cid_of" for cid_of :: "bytes \<Rightarrow> string"
proof
  fix c :: string and s :: memory_store
  show "has_block (memory_ops cid_of) c s \<longleftrightarrow> get_block (memory_ops cid_of) c s \<noteq> None"
    by (auto simp: memory_ops_def memory_has_def memory_get_def map_get_None_iff)
qed (simp_all add: memory_ops_def memory_put_def memory_get_def)

section \<open>Normalised checkpoints\<close>

definition by_index :: "completed_shard \<Rightarrow> completed_shard \<Rightarrow> int" where
  "by_index a b = num_cmp (cs_index a) (cs_index b)"

lemma by_index_comparator: "comparator by_index"
  by unfold_locales (auto simp: by_index_def num_cmp_def split: if_splits)

lemma checkpointOf_completed: "ck_completed (checkpointOf c) =
    js_sort by_index (map (\<lambda>(i, r). \<lparr>cs_index = i, cs_result = r\<rparr>) (by_partition (ck_completed c)))"
  unfolding checkpointOf_def by_index_def by simp

lemma checkpointOf_rest [simp]: "ck_jobId (checkpointOf c) = ck_jobId c" "ck_moduleCid (checkpointOf c) = ck_moduleCid c"
  "ck_partitions (checkpointOf c) = ck_partitions c" "ck_at (checkpointOf c) = ck_at c"
  "ck_previous (checkpointOf c) = ck_previous c"
  by (simp_all add: checkpointOf_def)

lemma by_partition_snoc: "by_partition (ss @ [s]) = map_set (cs_index s) (cs_result s) (by_partition ss)"
  by (simp add: by_partition_def)

lemma by_partition_ok: "map_ok (by_partition ss)"
proof (induction ss rule: rev_induct)
  case Nil
  show ?case by (simp add: by_partition_def)
qed (simp add: by_partition_snoc)

lemma by_partition_keys: "set (map_keys (by_partition ss)) = cs_index ` set ss"
proof (induction ss rule: rev_induct)
  case Nil
  show ?case by (simp add: by_partition_def)
qed (simp only: by_partition_snoc map_keys_set, simp)

lemma by_partition_distinct:
  "distinct (map cs_index ss) \<Longrightarrow> by_partition ss = map (\<lambda>s. (cs_index s, cs_result s)) ss"
proof (induction ss rule: rev_induct)
  case Nil
  show ?case by (simp add: by_partition_def)
next
  case (snoc s ss)
  then have "cs_index s \<notin> set (map_keys (by_partition ss))" by (simp add: by_partition_keys)
  with snoc show ?case by (simp add: by_partition_snoc map_set_fresh)
qed

lemma completed_indices:
  "distinct (map cs_index (ck_completed (checkpointOf c)))" "sorted (map cs_index (ck_completed (checkpointOf c)))"
  "cs_index ` set (ck_completed (checkpointOf c)) = cs_index ` set (ck_completed c)"
proof -
  let ?ss = "map (\<lambda>(i, r). \<lparr>cs_index = i, cs_result = r\<rparr>) (by_partition (ck_completed c))"
  have keys: "map cs_index ?ss = map_keys (by_partition (ck_completed c))" by (induction "by_partition (ck_completed c)") auto
  have "mset (map cs_index (js_sort by_index ?ss)) = mset (map cs_index ?ss)" by (simp only: mset_map mset_js_sort)
  then show "distinct (map cs_index (ck_completed (checkpointOf c)))"
    using by_partition_ok keys by (metis checkpointOf_completed mset_eq_imp_distinct_iff)
  have "sorted_wrt (\<lambda>x y. by_index x y \<le> 0) (js_sort by_index ?ss)"
    by (rule comparator.sorted_sort [OF by_index_comparator])
  then show "sorted (map cs_index (ck_completed (checkpointOf c)))"
    unfolding checkpointOf_completed sorted_map
    by (rule sorted_wrt_mono_rel [rotated]) (auto simp: by_index_def num_cmp_def split: if_splits)
  show "cs_index ` set (ck_completed (checkpointOf c)) = cs_index ` set (ck_completed c)"
    unfolding checkpointOf_completed set_js_sort using arg_cong [OF keys, of set] by_partition_keys [of "ck_completed c"]
    by (simp add: image_image)
qed

lemma js_sort_by_index: "sorted (map cs_index ss) \<Longrightarrow> js_sort by_index ss = ss"
proof (induction ss)
  case (Cons s ss)
  then have "\<forall>t \<in> set ss. by_index s t \<le> 0" by (auto simp: by_index_def num_cmp_def)
  with Cons show ?case by (simp add: comparator.insert_before_all [OF by_index_comparator])
qed simp

lemma checkpointOf_normal:
  assumes "distinct (map cs_index (ck_completed c))" "sorted (map cs_index (ck_completed c))"
  shows "checkpointOf c = c"
proof -
  have "ck_completed (checkpointOf c) = ck_completed c"
    using assms by (simp add: checkpointOf_completed by_partition_distinct js_sort_by_index o_def map_idI)
  then show ?thesis by (simp add: checkpointOf_def)
qed

lemma checkpointOf_idem [simp]: "checkpointOf (checkpointOf c) = checkpointOf c"
  using completed_indices [of c] by (intro checkpointOf_normal)

section \<open>Writing and reading back\<close>

text \<open>What every writer in the kernel passes: whole numbers, and partitions of the job.\<close>

definition whole_checkpoint :: "nat \<Rightarrow> job_checkpoint \<Rightarrow> bool" where
  "whole_checkpoint n c \<longleftrightarrow>
     ck_partitions c = num_of_nat n \<and> (\<exists>m. ck_at c = num_of_nat m) \<and> (\<forall>i \<in> cs_index ` set (ck_completed c). \<exists>k<n. i = of_nat k)"

lemma asWholeNumber_nat [simp]: "asWholeNumber (Some (CNum (num_of_nat n))) = Some (of_nat n)"
  using is_integer_nat [of n] by (simp add: asWholeNumber_def del: is_integer.simps)

lemma read_shard_value:
  assumes "cs_index s = of_nat k" "k < n"
  shows "read_shard (of_nat n) (dag_sorted (shard_value s)) = Some s"
proof -
  obtain rs where rs: "dag_sorted (shard_value s) = CObj rs" by (simp add: shard_value_def)
  then have "map_get rs ''partitionIndex'' = Some (CNum (num_of_nat k))" "map_get rs ''resultCid'' = Some (CStr (cs_result s))"
    using assms map_get_dag [OF _ rs [unfolded shard_value_def]] by (simp_all add: shard_value_def)
  then show ?thesis using assms rs by (simp add: read_shard_def asRecord_def)
qed

lemma read_shards_values:
  "\<forall>i \<in> cs_index ` set ss. \<exists>k<n. i = of_nat k \<Longrightarrow> read_shards (of_nat n) (map (dag_sorted \<circ> shard_value) ss) = Some ss"
  by (induction ss) (auto simp: read_shard_value)

lemma read_record_value:
  assumes "whole_checkpoint n c" "dag_sorted (checkpoint_value c) = CObj rs"
  shows "read_record label rs = Inr (checkpointOf c)"
proof -
  obtain m where m: "ck_at c = num_of_nat m" using assms(1) by (auto simp: whole_checkpoint_def)
  have get: "map_get rs k = map_option dag_sorted (map_get [(''jobId'', CStr (ck_jobId c)), (''moduleCid'', CStr (ck_moduleCid c)),
      (''partitionCount'', CNum (ck_partitions c)), (''completed'', CList (map shard_value (ck_completed c))), (''at'', CNum (ck_at c)),
      (''previous'', case ck_previous c of None \<Rightarrow> CNull | Some p \<Rightarrow> CStr p)] k)" for k
    using assms(2) by (intro map_get_dag) (simp_all add: checkpoint_value_def)
  have "previous_field (map_get rs ''previous'') = Some (ck_previous c)"
    by (simp add: get previous_field_def split: option.splits)
  moreover have "read_shards (of_nat n) (map (dag_sorted \<circ> shard_value) (ck_completed c)) = Some (ck_completed c)"
    using assms(1) by (intro read_shards_values) (simp add: whole_checkpoint_def)
  moreover have "ck_partitions c = num_of_nat n" using assms(1) by (simp add: whole_checkpoint_def)
  moreover have "map_get rs ''jobId'' = Some (CStr (ck_jobId c))" "map_get rs ''moduleCid'' = Some (CStr (ck_moduleCid c))"
    "map_get rs ''partitionCount'' = Some (CNum (ck_partitions c))" "map_get rs ''at'' = Some (CNum (num_of_nat m))"
    "map_get rs ''completed'' = Some (CList (map (dag_sorted \<circ> shard_value) (ck_completed c)))"
    by (simp_all add: get m)
  moreover have "\<lparr>ck_jobId = ck_jobId c, ck_moduleCid = ck_moduleCid c, ck_partitions = num_of_nat n,
      ck_completed = ck_completed c, ck_at = num_of_nat m, ck_previous = ck_previous c\<rparr> = c"
    using assms(1) m by (cases c) (simp add: whole_checkpoint_def)
  ultimately show ?thesis by (simp add: read_record_def)
qed

lemma remaining_loop_exact:
  "i \<le> n \<Longrightarrow> remaining_loop (num_of_nat n) finished i acc =
     Some (acc @ filter (\<lambda>k. of_nat k \<notin> set finished) [i..<n])"
proof (induction "n - i" arbitrary: i acc)
  case 0
  then show ?case by (simp add: remaining_loop.simps [of _ _ i])
next
  case (Suc d)
  then have step: "i < n" "d = n - (i + 1)" "i + 1 \<le> n" by auto
  show ?case
    using Suc.hyps(1) [OF step(2,3)] step(1) by (subst remaining_loop.simps) (simp add: upt_conv_Cons)
qed

text \<open>A count that is not finite keeps the loop running.\<close>

lemma remaining_loop_diverges: "remaining_loop PosInf finished i acc = None"
proof -
  have "remaining_loop nparts fin j a = Some r \<Longrightarrow> nparts \<noteq> PosInf" for nparts fin j a r
    by (induction rule: remaining_loop.raw_induct [rotated, consumes 1]) (auto split: if_splits)
  then show ?thesis by (metis option.exhaust)
qed

lemma remainingWork_exact:
  "ck_partitions c = num_of_nat n \<Longrightarrow>
   remainingWork c = Some (filter (\<lambda>k. of_nat k \<notin> cs_index ` set (ck_completed c)) [0..<n])"
  using remaining_loop_exact [of 0 n] by (simp add: remainingWork_def)

text \<open>C15: A checkpoint survives the store: a checkpoint the kernel writes is read back from its handle as
  it was, no other block is disturbed, it holds one result per partition in partition order, and the
  work that remains is exactly the partitions of the job without a result, in order.\<close>

theorem checkpoint_round_trip:
  assumes "\<And>v b. codec v = Some b \<Longrightarrow> decode b = Some (dag_sorted v)"
    and "whole_checkpoint n c"
    and "writeCheckpoint codec cid_of (memory_ops cid_of) (checkpointOf c) s = Inr (cid, s')"
  shows "readCheckpoint decode (memory_ops cid_of) cid s' = Inr (checkpointOf c) \<and>
    (\<forall>other. other \<noteq> cid \<longrightarrow>
      readCheckpoint decode (memory_ops cid_of) other s' = readCheckpoint decode (memory_ops cid_of) other s) \<and>
    sorted_wrt (<) (map cs_index (ck_completed (checkpointOf c))) \<and>
    remainingWork (checkpointOf c) = Some (filter (\<lambda>k. of_nat k \<notin> cs_index ` set (ck_completed c)) [0..<n])"
proof -
  have "whole_checkpoint n (checkpointOf c)" using assms(2) by (simp add: whole_checkpoint_def completed_indices)
  moreover obtain rs where "dag_sorted (checkpoint_value (checkpointOf c)) = CObj rs" by (simp add: checkpoint_value_def)
  ultimately have "readCheckpoint decode (memory_ops cid_of) cid s' = Inr (checkpointOf c)"
    using memory.write_read_same [OF assms(3,1)] by (simp add: asRecord_def read_record_value)
  moreover have "remainingWork (checkpointOf c) = Some (filter (\<lambda>k. of_nat k \<notin> cs_index ` set (ck_completed c)) [0..<n])"
    using assms(2) remainingWork_exact [of "checkpointOf c" n] by (simp add: whole_checkpoint_def completed_indices)
  ultimately show ?thesis
    using memory.write_read_other [OF assms(3)] completed_indices(1,2) by (simp add: strict_sorted_iff)
qed

definition demo_checkpoint :: job_checkpoint where
  "demo_checkpoint = \<lparr>ck_jobId = ''job'', ck_moduleCid = ''m'', ck_partitions = Fin 3,
     ck_completed = [\<lparr>cs_index = 2, cs_result = ''x''\<rparr>, \<lparr>cs_index = 0, cs_result = ''y''\<rparr>], ck_at = Fin 7, ck_previous = None\<rparr>"

definition one_value_codec :: "cvalue \<Rightarrow> codec" where
  "one_value_codec w v = (if v = w then Some [0] else None)"

lemma demo_whole: "whole_checkpoint 3 demo_checkpoint"
proof -
  have "\<exists>k<3. (2 :: rat) = of_nat k" "\<exists>k<3. (0 :: rat) = of_nat k" by (rule exI [of _ 2], simp) (rule exI [of _ 0], simp)
  moreover have "\<exists>m. (7 :: rat) = of_nat m" by (rule exI [of _ 7]) simp
  ultimately show ?thesis by (simp add: whole_checkpoint_def demo_checkpoint_def)
qed

theorem checkpoint_round_trip_witness:
  "let w = checkpoint_value (checkpointOf demo_checkpoint) in
   readCheckpoint (\<lambda>b. Some (dag_sorted w)) (memory_ops toHex) (toHex [0]) [(toHex [0], [0])] = Inr (checkpointOf demo_checkpoint) \<and>
   remainingWork (checkpointOf demo_checkpoint) = Some [1]"
proof -
  let ?w = "checkpoint_value (checkpointOf demo_checkpoint)"
  have fin: "all_finite ?w"
    by (simp add: checkpoint_value_def demo_checkpoint_def shard_value_def list_all_iff)
  have "writeCheckpoint (one_value_codec ?w) toHex (memory_ops toHex) (checkpointOf demo_checkpoint) [] =
      Inr (toHex [0], [(toHex [0], [0])])"
    using encodeCanonical_Inr [of "one_value_codec ?w" ?w "[0]"] fin
    by (simp add: writeCheckpoint_def canonicalCid_def one_value_codec_def memory_ops_def memory_put_def del: toHex.simps)
  moreover have "one_value_codec ?w v = Some b \<Longrightarrow> Some (dag_sorted ?w) = Some (dag_sorted v)" for v b
    by (simp add: one_value_codec_def split: if_splits)
  ultimately have r: "readCheckpoint (\<lambda>b. Some (dag_sorted ?w)) (memory_ops toHex) (toHex [0]) [(toHex [0], [0])] =
      Inr (checkpointOf demo_checkpoint)"
    and k: "remainingWork (checkpointOf demo_checkpoint) =
      Some (filter (\<lambda>k. of_nat k \<notin> cs_index ` set (ck_completed demo_checkpoint)) [0..<3])"
    using checkpoint_round_trip [where decode = "\<lambda>b. Some (dag_sorted ?w)" and codec = "one_value_codec ?w", OF _ demo_whole]
    by blast+
  have "[0..<3] = [0, 1, 2 :: nat]" by (simp add: upt_rec)
  then have "filter (\<lambda>k. of_nat k \<notin> cs_index ` set (ck_completed demo_checkpoint)) [0..<3] = [1]"
    by (simp only:) (simp add: demo_checkpoint_def)
  with r k show ?thesis by (simp only: Let_def)
qed

section \<open>Walking back\<close>

text \<open>A walk: each checkpoint is read under the CID it was reached by, and the next is its \<open>previous\<close>.\<close>

fun walk_ok ::
  "(string \<Rightarrow> checkpoint_failure + job_checkpoint) \<Rightarrow> (string \<Rightarrow> string option) \<Rightarrow> string set \<Rightarrow> string option
    \<Rightarrow> (string \<times> job_checkpoint) list \<Rightarrow> bool" where
  "walk_ok read resolve seen current [] =
     (case current of None \<Rightarrow> True | Some cid \<Rightarrow> cid \<in> seen \<or> (\<exists>f. read cid = Inl f))"
| "walk_ok read resolve seen current ((cid, c) # rest) =
     (current = Some cid \<and> cid \<notin> seen \<and> read cid = Inr c \<and>
      walk_ok read resolve (insert cid seen) (Option.bind (ck_previous c) resolve) rest)"

lemma walk_ok_distinct:
  "walk_ok read resolve seen current ps \<Longrightarrow> distinct (map fst ps) \<and> set (map fst ps) \<inter> seen = {} \<and>
     (\<forall>(cid, c) \<in> set ps. read cid = Inr c)"
  by (induction read resolve seen current ps rule: walk_ok.induct) auto

lemma case_bind: "(case x of None \<Rightarrow> None | Some p \<Rightarrow> f p) = Option.bind x f"
  by (cases x) simp_all

lemma chain_loop_walk:
  assumes "finite {c. \<exists>k. readCheckpoint decode ops c s = Inr k}"
  shows "\<exists>ps. chain_loop decode ops resolve s seen chain current = Some (chain @ map snd ps) \<and>
     walk_ok (\<lambda>c. readCheckpoint decode ops c s) resolve (set seen) current ps"
proof (induction "card ({c. \<exists>k. readCheckpoint decode ops c s = Inr k} - set seen)" arbitrary: seen chain current
    rule: less_induct)
  case less
  show ?case
  proof (cases "\<exists>cid c. current = Some cid \<and> cid \<notin> set seen \<and> readCheckpoint decode ops cid s = Inr c")
    case True
    then obtain cid c where c: "current = Some cid" "cid \<notin> set seen" "readCheckpoint decode ops cid s = Inr c" by blast
    have "card ({c. \<exists>k. readCheckpoint decode ops c s = Inr k} - set (set_add cid seen)) <
        card ({c. \<exists>k. readCheckpoint decode ops c s = Inr k} - set seen)"
      using c(2,3) assms by (intro psubset_card_mono) auto
    from less [OF this, of "chain @ [c]" "Option.bind (ck_previous c) resolve"] obtain ps where
      "chain_loop decode ops resolve s (set_add cid seen) (chain @ [c]) (Option.bind (ck_previous c) resolve) =
         Some ((chain @ [c]) @ map snd ps)"
      "walk_ok (\<lambda>c. readCheckpoint decode ops c s) resolve (insert cid (set seen)) (Option.bind (ck_previous c) resolve) ps"
      by auto
    with c show ?thesis
      by (intro exI [of _ "(cid, c) # ps"]) (simp add: chain_loop.simps [of _ _ _ _ seen] case_bind)
  next
    case False
    then have "walk_ok (\<lambda>c. readCheckpoint decode ops c s) resolve (set seen) current []"
      by (auto split: option.splits) (metis Inl_Inr_False sum.exhaust)
    moreover have "chain_loop decode ops resolve s seen chain current = Some chain"
      using False by (subst chain_loop.simps) (auto split: option.splits sum.splits)
    ultimately show ?thesis by (intro exI [of _ "[]"]) simp
  qed
qed

lemma memory_readable_finite: "finite {c. \<exists>k. readCheckpoint decode (memory_ops cid_of) c s = Inr k}"
proof (rule finite_subset)
  show "{c. \<exists>k. readCheckpoint decode (memory_ops cid_of) c s = Inr k} \<subseteq> set (map_keys s)"
    by (auto simp: readCheckpoint_def memory_ops_def memory_get_def split: option.splits dest: map_get_mem)
      (metis fst_conv image_eqI map_get_mem)
qed simp

text \<open>C16: Walking the history always ends, whatever the blocks claim, a cycle of forged \<open>previous\<close> links
  included: the walk returns the checkpoints met from the given handle on, each read under the CID
  the one before it names, no CID twice, and it stops only where there is no further link, or it
  leads to a block already met or not readable.\<close>

theorem checkpoint_walk_ends:
  shows "\<exists>ps. checkpointChain decode (memory_ops cid_of) resolve cid s = Some (map snd ps) \<and>
    walk_ok (\<lambda>c. readCheckpoint decode (memory_ops cid_of) c s) resolve {} (Some cid) ps \<and>
    distinct (map fst ps) \<and> length ps \<le> memory_size s"
proof -
  obtain ps where ps: "chain_loop decode (memory_ops cid_of) resolve s [] [] (Some cid) = Some (map snd ps)"
    "walk_ok (\<lambda>c. readCheckpoint decode (memory_ops cid_of) c s) resolve {} (Some cid) ps"
    using chain_loop_walk [OF memory_readable_finite [where cid_of = cid_of and s = s and decode = decode],
      where seen = "[]" and chain = "[]" and resolve = resolve and current = "Some cid"] by auto
  note d = walk_ok_distinct [OF ps(2)]
  have "set (map fst ps) \<subseteq> set (map_keys s)"
  proof
    fix x assume "x \<in> set (map fst ps)"
    then obtain c where "(x, c) \<in> set ps" by auto
    with d have "readCheckpoint decode (memory_ops cid_of) x s = Inr c" by auto
    then have "map_get s x \<noteq> None" by (auto simp: readCheckpoint_def memory_ops_def memory_get_def split: option.splits)
    then show "x \<in> set (map_keys s)" by (simp only: map_get_None_iff not_not)
  qed
  then have "length ps \<le> length (map_keys s)"
    using d by (metis card_length card_mono distinct_card finite_set le_trans length_map)
  with ps d show ?thesis by (auto simp: checkpointChain_def memory_size_def)
qed

section \<open>The newest checkpoint\<close>

datatype checkpoint_op = Store_put bytes | Publish string

fun checkpoint_step ::
  "decoder \<Rightarrow> 's store_ops \<Rightarrow> checkpoint_op \<Rightarrow> 's \<times> stored_checkpoints \<Rightarrow> 's \<times> stored_checkpoints" where
  "checkpoint_step decode ops (Store_put b) (s, t) = (snd (put_block ops b s), t)"
| "checkpoint_step decode ops (Publish h) (s, t) = (s, publish decode ops s h t)"

definition checkpoint_run ::
  "decoder \<Rightarrow> 's store_ops \<Rightarrow> checkpoint_op list \<Rightarrow> 's \<times> stored_checkpoints \<Rightarrow> 's \<times> stored_checkpoints" where
  "checkpoint_run decode ops steps st = foldl (\<lambda>st a. checkpoint_step decode ops a st) st steps"

definition published :: "checkpoint_op list \<Rightarrow> string list" where
  "published steps = concat (map (\<lambda>a. case a of Publish h \<Rightarrow> [h] | Store_put b \<Rightarrow> []) steps)"

lemma checkpoint_run_snoc [simp]:
  "checkpoint_run decode ops (steps @ [a]) st = checkpoint_step decode ops a (checkpoint_run decode ops steps st)"
  by (simp add: checkpoint_run_def)

context blockstore begin

lemma run_confirmed:
  assumes "inj cid_of" "content_ok s0" "checkpoint_run decode ops steps (s0, checkpointsInto) = (s, t)"
  shows "content_ok s \<and> (\<forall>h \<in> set (confirmed t). \<exists>k. readCheckpoint decode ops h s = Inr k) \<and>
    mset (confirmed t @ map fst (unconfirmed t)) = mset (published steps)"
  using assms(3)
proof (induction steps arbitrary: s t rule: rev_induct)
  case Nil
  then show ?case using assms(2) by (auto simp: checkpoint_run_def checkpointsInto_def published_def)
next
  case (snoc a steps)
  obtain s1 t1 where r: "checkpoint_run decode ops steps (s0, checkpointsInto) = (s1, t1)" by force
  note IH = snoc.IH [OF r]
  show ?case
  proof (cases a)
    case (Store_put b)
    then have st: "s = snd (put_block ops b s1)" "t = t1" using snoc.prems r by auto
    have "\<exists>k. readCheckpoint decode ops h s = Inr k" if "h \<in> set (confirmed t)" for h
      using that IH read_stable [OF assms(1)] st by metis
    then show ?thesis using IH st content_ok_put Store_put by (simp add: published_def)
  next
    case (Publish h)
    then show ?thesis using snoc.prems r IH
      by (auto simp: publish_def published_def split: sum.splits)
  qed
qed

end

lemma recover_head: "readCheckpoint decode ops cid s = Inr c \<Longrightarrow>
    recoverCheckpoint decode ops (cid # cids) s = Some \<lparr>found_checkpoint = c, found_cid = cid, found_skipped = 0\<rparr>"
  by (simp add: recoverCheckpoint_def)


definition demo_steps :: "checkpoint_op list" where
  "demo_steps = [Store_put [0], Publish (toHex [0]), Publish ''gone'', Store_put [1]]"


end
