(* ===== verification/Attestation.thy ===== *)
theory Attestation
  imports Enrollment
begin

text \<open>
  Signed results: \<open>packages/core/src/result-attestation.ts\<close>.

  A node signs the work it did, a map task (\<open>result_work\<close>) or a merge of named inputs, with the key
  its certificate names.  A CID is its text.  As in \<open>Capability\<close> the signature scheme, the codec and the
  X.509 codec are parameters; \<open>Attestation_threw\<close> is the \<open>NotEncodableError\<close> of a payload without a
  canonical form.
\<close>

record result_work =
  w_moduleCid :: string
  w_inputCid :: string
  w_partitionIndex :: jsnum
  w_outputCid :: string

definition result_value :: "result_work \<Rightarrow> string \<Rightarrow> cvalue" where
  "result_value w nodeKey =
     CObj [(''purpose'', CStr ''o2-result''), (''moduleCid'', CCid (w_moduleCid w)), (''inputCid'', CCid (w_inputCid w)),
           (''partitionIndex'', CNum (w_partitionIndex w)), (''outputCid'', CCid (w_outputCid w)), (''nodeKey'', CStr nodeKey)]"

definition resultChallenge :: "codec \<Rightarrow> result_work \<Rightarrow> string \<Rightarrow> encode_error + bytes" where
  "resultChallenge codec w nodeKey = encodeCanonical codec (result_value w nodeKey)"

definition combine_value :: "string list \<Rightarrow> string \<Rightarrow> string \<Rightarrow> cvalue" where
  "combine_value inputCids resultCid nodeKey =
     CObj [(''purpose'', CStr ''o2-combine''), (''inputCids'', CList (map CCid inputCids)), (''resultCid'', CCid resultCid),
           (''nodeKey'', CStr nodeKey)]"

definition combineChallenge :: "codec \<Rightarrow> string list \<Rightarrow> string \<Rightarrow> string \<Rightarrow> encode_error + bytes" where
  "combineChallenge codec inputCids resultCid nodeKey = encodeCanonical codec (combine_value inputCids resultCid nodeKey)"

record result_attestation =
  ra_certificate :: node_certificate
  ra_signature :: string

datatype attested_result = Attested result_attestation | Signed_by_nobody

record result_signer =
  rs_nodeSeed :: bytes
  rs_certificate :: node_certificate

datatype signing_error = Wrong_signing_key string string | Challenge_not_encodable encode_error

definition signingKeyOf :: "(bytes \<Rightarrow> bytes) \<Rightarrow> result_signer \<Rightarrow> signing_error + string" where
  "signingKeyOf pub signer =
     (let derived = toHex (pub (rs_nodeSeed signer))
      in if derived \<noteq> c_nodeKey (rs_certificate signer)
         then Inl (Wrong_signing_key derived (c_nodeKey (rs_certificate signer)))
         else Inr derived)"

text \<open>The common part of \<open>signResult\<close> and \<open>signCombine\<close>: a challenge for the key, signed.\<close>

definition sign_challenge ::
  "(bytes \<Rightarrow> bytes \<Rightarrow> bytes) \<Rightarrow> (bytes \<Rightarrow> bytes) \<Rightarrow> result_signer \<Rightarrow> (string \<Rightarrow> encode_error + bytes)
    \<Rightarrow> signing_error + result_attestation" where
  "sign_challenge sign pub signer challengeFor =
     (case signingKeyOf pub signer of
        Inl e \<Rightarrow> Inl e
      | Inr nodeKey \<Rightarrow>
          (case challengeFor nodeKey of
             Inl e \<Rightarrow> Inl (Challenge_not_encodable e)
           | Inr challenge \<Rightarrow> Inr \<lparr>ra_certificate = rs_certificate signer,
                                  ra_signature = toHex (sign challenge (rs_nodeSeed signer))\<rparr>))"

definition signResult ::
  "codec \<Rightarrow> (bytes \<Rightarrow> bytes \<Rightarrow> bytes) \<Rightarrow> (bytes \<Rightarrow> bytes) \<Rightarrow> result_signer \<Rightarrow> result_work
    \<Rightarrow> signing_error + result_attestation" where
  "signResult codec sign pub signer w = sign_challenge sign pub signer (resultChallenge codec w)"

definition signCombine ::
  "codec \<Rightarrow> (bytes \<Rightarrow> bytes \<Rightarrow> bytes) \<Rightarrow> (bytes \<Rightarrow> bytes) \<Rightarrow> result_signer \<Rightarrow> string list \<Rightarrow> string
    \<Rightarrow> signing_error + result_attestation" where
  "signCombine codec sign pub signer inputCids resultCid =
     sign_challenge sign pub signer (combineChallenge codec inputCids resultCid)"

datatype attestation_refusal =
    Not_attested
  | Untrusted_certificate certificate_failure
  | Bad_result_signature string

datatype attestation_result =
    Attestation_ok node_certificate
  | Attestation_refused attestation_refusal
  | Attestation_threw encode_error

definition checkAttested ::
  "codec \<Rightarrow> verifier \<Rightarrow> x509_codec \<Rightarrow> attested_result \<Rightarrow> (string \<Rightarrow> encode_error + bytes) \<Rightarrow> string list \<Rightarrow> rat
    \<Rightarrow> attestation_result" where
  "checkAttested codec verify x attested challengeFor trustedIssuers now =
     (case attested of
        Signed_by_nobody \<Rightarrow> Attestation_refused Not_attested
      | Attested a \<Rightarrow>
          (case verifyCertificate codec verify x (ra_certificate a) trustedIssuers now of
             Certificate_threw e \<Rightarrow> Attestation_threw e
           | Certificate_refused failure \<Rightarrow> Attestation_refused (Untrusted_certificate failure)
           | Certificate_ok _ \<Rightarrow>
               (let nodeKey = c_nodeKey (ra_certificate a)
                in case challengeFor nodeKey of
                     Inl e \<Rightarrow> Attestation_threw e
                   | Inr challenge \<Rightarrow>
                       if \<not> checks verify (ra_signature a) challenge nodeKey
                       then Attestation_refused (Bad_result_signature nodeKey)
                       else Attestation_ok (ra_certificate a))))"

definition verifyResultAttestation ::
  "codec \<Rightarrow> verifier \<Rightarrow> x509_codec \<Rightarrow> attested_result \<Rightarrow> result_work \<Rightarrow> string list \<Rightarrow> rat \<Rightarrow> attestation_result" where
  "verifyResultAttestation codec verify x attested w trustedIssuers now =
     checkAttested codec verify x attested (resultChallenge codec w) trustedIssuers now"

definition verifyCombineAttestation ::
  "codec \<Rightarrow> verifier \<Rightarrow> x509_codec \<Rightarrow> attested_result \<Rightarrow> string list \<Rightarrow> string \<Rightarrow> string list \<Rightarrow> rat \<Rightarrow> attestation_result" where
  "verifyCombineAttestation codec verify x attested inputCids resultCid trustedIssuers now =
     checkAttested codec verify x attested (combineChallenge codec inputCids resultCid) trustedIssuers now"

section \<open>What a signature says\<close>

text \<open>
  The law of DAG-CBOR: what was encoded decodes to the value with its entries in the codec's order.
  Two payloads with the same bytes then agree in every field, whatever order they were written in.
\<close>

definition codec_law :: "codec \<Rightarrow> (bytes \<Rightarrow> cvalue option) \<Rightarrow> bool" where
  "codec_law codec decode \<longleftrightarrow> (\<forall>v b. codec v = Some b \<longrightarrow> decode b = Some (dag_sorted v))"

lemma same_bytes_same_value:
  "codec_law codec decode \<Longrightarrow> encodeCanonical codec v = Inr b \<Longrightarrow> encodeCanonical codec w = Inr b \<Longrightarrow>
   dag_sorted v = dag_sorted w"
  unfolding codec_law_def by (metis encodeCanonical_Inr option.inject)

lemma same_bytes_same_fields:
  assumes "codec_law codec decode" "encodeCanonical codec (CObj es) = Inr b" "encodeCanonical codec (CObj fs) = Inr b" "map_ok es" "map_ok fs"
  shows "map_option dag_sorted (map_get es k) = map_option dag_sorted (map_get fs k)"
proof -
  obtain rs where rs: "dag_sorted (CObj es) = CObj rs" by simp
  then have "dag_sorted (CObj fs) = CObj rs" using same_bytes_same_value [OF assms(1-3)] by simp
  from map_get_dag [OF assms(4) rs, of k] map_get_dag [OF assms(5) this, of k] show ?thesis by simp
qed

lemma result_challenge_inj:
  assumes "codec_law codec decode" "resultChallenge codec w k = Inr b" "resultChallenge codec w' k' = Inr b"
  shows "w = w' \<and> k = k'"
proof -
  note same = same_bytes_same_fields [OF assms [unfolded resultChallenge_def result_value_def], simplified]
  have "w_moduleCid w = w_moduleCid w'" using same [of "''moduleCid''"] by simp
  moreover have "w_inputCid w = w_inputCid w'" using same [of "''inputCid''"] by simp
  moreover have "w_partitionIndex w = w_partitionIndex w'" using same [of "''partitionIndex''"] by simp
  moreover have "w_outputCid w = w_outputCid w'" using same [of "''outputCid''"] by simp
  moreover have "k = k'" using same [of "''nodeKey''"] by simp
  ultimately show ?thesis by simp
qed

text \<open>The purpose keeps the two kinds of claim apart.\<close>

lemma result_is_not_combine:
  assumes "codec_law codec decode" "resultChallenge codec w k = Inr b"
  shows "combineChallenge codec inputs r k' \<noteq> Inr b"
proof
  assume "combineChallenge codec inputs r k' = Inr b"
  note same = same_bytes_same_fields [OF assms [unfolded resultChallenge_def result_value_def]
      this [unfolded combineChallenge_def combine_value_def], simplified]
  show False using same [of "''purpose''"] by simp
qed

lemma sign_challenge_Inr:
  assumes "sign_challenge sign pub signer challengeFor = Inr a"
  shows "\<exists>challenge. challengeFor (c_nodeKey (rs_certificate signer)) = Inr challenge \<and>
    a = \<lparr>ra_certificate = rs_certificate signer, ra_signature = toHex (sign challenge (rs_nodeSeed signer))\<rparr> \<and>
    c_nodeKey (rs_certificate signer) = toHex (pub (rs_nodeSeed signer))"
proof (cases "toHex (pub (rs_nodeSeed signer)) = c_nodeKey (rs_certificate signer)")
  case True
  then have "signingKeyOf pub signer = Inr (c_nodeKey (rs_certificate signer))" by (simp add: signingKeyOf_def)
  with assms show ?thesis using True
    by (cases "challengeFor (c_nodeKey (rs_certificate signer))") (simp_all add: sign_challenge_def del: toHex.simps)
next
  case False
  then have "\<exists>e. signingKeyOf pub signer = Inl e" by (simp add: signingKeyOf_def Let_def)
  with assms show ?thesis by (auto simp: sign_challenge_def)
qed

text \<open>C18: A signed result vouches for exactly the work that was signed: under a certificate the checker
  trusts it verifies for that work and for no other work, and never as a merge of inputs.  The
  signature scheme is assumed to accept a signature for the message that was signed and no other, and
  the codec to decode what it encoded.\<close>

theorem attestation_vouches_for_its_work_only:
  assumes "codec_law codec decode" "\<And>m m' k. verify (sign m k) m' (pub k) = Some (m = m')"
    and "signResult codec sign pub signer w = Inr a"
    and "verifyCertificate codec verify x (rs_certificate signer) trusted now = Certificate_ok c"
  shows "verifyResultAttestation codec verify x (Attested a) w trusted now = Attestation_ok (rs_certificate signer) \<and>
    (\<forall>w' c'. verifyResultAttestation codec verify x (Attested a) w' trusted now = Attestation_ok c' \<longrightarrow> w' = w) \<and>
    (\<forall>inputs r c'. verifyCombineAttestation codec verify x (Attested a) inputs r trusted now \<noteq> Attestation_ok c')"
proof -
  let ?k = "c_nodeKey (rs_certificate signer)"
  obtain ch where ch: "resultChallenge codec w ?k = Inr ch"
    and a: "a = \<lparr>ra_certificate = rs_certificate signer, ra_signature = toHex (sign ch (rs_nodeSeed signer))\<rparr>"
    and k: "?k = toHex (pub (rs_nodeSeed signer))"
    using sign_challenge_Inr [OF assms(3) [unfolded signResult_def]] by blast
  have checks: "checks verify (ra_signature a) m ?k \<longleftrightarrow> m = ch" for m
    using assms(2) k by (auto simp: a checks_def)
  have check: "checkAttested codec verify x (Attested a) challengeFor trusted now =
      (case challengeFor ?k of Inl e \<Rightarrow> Attestation_threw e
       | Inr m \<Rightarrow> if m \<noteq> ch then Attestation_refused (Bad_result_signature ?k) else Attestation_ok (rs_certificate signer))" for challengeFor
    using assms(4) checks by (cases "challengeFor ?k") (simp_all add: checkAttested_def a Let_def)
  have "w' = w" if "verifyResultAttestation codec verify x (Attested a) w' trusted now = Attestation_ok c'" for w' c'
  proof (cases "resultChallenge codec w' ?k")
    case (Inr m)
    with that have "m = ch" by (simp add: verifyResultAttestation_def check split: if_splits)
    with Inr result_challenge_inj [OF assms(1) ch] show ?thesis by blast
  qed (use that in \<open>simp add: verifyResultAttestation_def check\<close>)
  moreover have "verifyCombineAttestation codec verify x (Attested a) inputs r trusted now \<noteq> Attestation_ok c'" for inputs r c'
    using result_is_not_combine [OF assms(1) ch, of inputs r ?k]
    by (cases "combineChallenge codec inputs r ?k") (simp_all add: verifyCombineAttestation_def check)
  moreover have "verifyResultAttestation codec verify x (Attested a) w trusted now = Attestation_ok (rs_certificate signer)"
    by (simp add: verifyResultAttestation_def check ch)
  ultimately show ?thesis by blast
qed

definition demo_result_cert :: node_certificate where
  "demo_result_cert = \<lparr>c_nodeKey = toHex [5], c_userKey = ''u'', c_operatorId = ''op'', c_discoverability = Seed, c_relayIds = [],
     c_issuedAt = 0, c_expiresAt = 50, c_issuer = toHex [9], c_signature = toHex [0], c_x509 = None, c_nextKeyCommitment = None\<rparr>"

definition demo_work :: result_work where
  "demo_work = \<lparr>w_moduleCid = ''m'', w_inputCid = ''i'', w_partitionIndex = Fin 0, w_outputCid = ''o''\<rparr>"

definition demo_result_codec :: codec where
  "demo_result_codec v = (if v = certificate_value demo_result_cert then Some [0]
     else if v = result_value demo_work (toHex [5]) then Some [1] else None)"

lemma demo_result_codec_law:
  "codec_law demo_result_codec
     (\<lambda>b. Some (dag_sorted (if b = [0] then certificate_value demo_result_cert else result_value demo_work (toHex [5]))))"
  by (auto simp: codec_law_def demo_result_codec_def simp del: dag_sorted.simps split: if_splits)

theorem attestation_vouches_for_its_work_only_witness:
  "let a = Attested \<lparr>ra_certificate = demo_result_cert, ra_signature = toHex [1]\<rparr>;
       checkit = (\<lambda>w. verifyResultAttestation demo_result_codec (\<lambda>s m k. Some (s = m))
          \<lparr>x_tbs = (\<lambda>_. []), x_encode = (\<lambda>_ s. s), x_decode = (\<lambda>_. None)\<rparr> a w [toHex [9]] 7)
   in checkit demo_work = Attestation_ok demo_result_cert \<and>
     checkit (demo_work\<lparr>w_outputCid := ''p''\<rparr>) \<noteq> Attestation_ok demo_result_cert"
proof -
  let ?x = "\<lparr>x_tbs = (\<lambda>_. []), x_encode = (\<lambda>_ s. s), x_decode = (\<lambda>_. None)\<rparr> :: x509_codec"
  have c: "certificatePayload demo_result_codec demo_result_cert = Inr [0]"
    by (auto simp: certificatePayload_def encodeCanonical_Inr demo_result_codec_def certificate_value_def demo_result_cert_def list_all_iff)
  have "certificate_value demo_result_cert \<noteq> result_value demo_work (toHex [5])"
    by (simp add: certificate_value_def result_value_def)
  then have r: "resultChallenge demo_result_codec demo_work (toHex [5]) = Inr [1]"
    by (auto simp: resultChallenge_def encodeCanonical_Inr demo_result_codec_def result_value_def demo_work_def)
  have s: "signResult demo_result_codec (\<lambda>m k. m) id \<lparr>rs_nodeSeed = [5], rs_certificate = demo_result_cert\<rparr> demo_work =
      Inr \<lparr>ra_certificate = demo_result_cert, ra_signature = toHex [1]\<rparr>"
    using r by (simp add: signResult_def sign_challenge_def signingKeyOf_def demo_result_cert_def Let_def del: toHex.simps)
  have f: "c_issuer demo_result_cert = toHex [9]" "c_x509 demo_result_cert = None" "c_signature demo_result_cert = toHex [0]"
    "c_issuedAt demo_result_cert = 0" "c_expiresAt demo_result_cert = 50"
    by (simp_all add: demo_result_cert_def)
  have v: "verifyCertificate demo_result_codec (\<lambda>s m k. Some (s = m)) ?x demo_result_cert [toHex [9]] 7 = Certificate_ok demo_result_cert"
    using c f by (simp add: verifyCertificate_def checkX509Form_def checks_def del: toHex.simps)
  have "demo_work\<lparr>w_outputCid := ''p''\<rparr> \<noteq> demo_work" by (simp add: demo_work_def)
  with attestation_vouches_for_its_work_only [OF demo_result_codec_law _ s, where verify = "\<lambda>s m k. Some (s = m)" and x = ?x
      and trusted = "[toHex [9]]" and now = 7 and c = demo_result_cert] v
  show ?thesis unfolding Let_def by (metis (no_types, lifting) result_signer.select_convs(2))
qed

end
