(* ===== verification/Verify.thy ===== *)
theory Verify
  imports Naming Attestation
begin

text \<open>
  Redundant execution of one task: \<open>packages/core/src/job/verify.ts\<close> (one round) and
  \<open>packages/core/src/job/commit-reveal.ts\<close> (the two-round ceremony), with \<open>Task\<close> and \<open>ExecutionOutcome\<close>
  of \<open>packages/core/src/ports.ts\<close>.

  An executor is asked once per round; what a call comes to is \<open>Returned\<close> a value or \<open>Threw\<close> a message.
  In the ceremony the executors act on a shared world \<open>'s\<close>, threaded through the calls in the order
  the source starts them: every \<open>commit\<close>, then every \<open>reveal\<close>.  So an executor may do anything with what it
  has seen so far, collude with others included.  \<open>cid_bytes\<close> is the binary form of a CID.
\<close>

section \<open>Tasks and outcomes\<close>

record task =
  tk_moduleCid :: string
  tk_inputCid :: string
  tk_partitionIndex :: int
  tk_partitionCount :: int
  tk_label :: "sovereignty option"
  tk_ownerId :: "string option"
  tk_moduleRecord :: "name_record option"

record run_cost =
  co_fuel :: rat
  co_execMs :: rat
  co_hostCalls :: rat
  co_peakMemoryPages :: rat

record executed =
  xo_output :: cvalue
  xo_cost :: run_cost
  xo_attestation :: attested_result

datatype execution_outcome = Executed executed | Execution_failed string

datatype 'a settled = Returned 'a | Threw string

record executor =
  ex_nodeId :: string
  ex_execute :: "task \<Rightarrow> execution_outcome settled"

datatype verify_reason =
    Execute_threw string string
  | Said string
  | Output_not_encodable encode_error
  | Commit_threw string string
  | Reveal_threw string string
  | Reveal_mismatch string

record replica_answer =
  an_nodeId :: string
  an_resultCid :: string
  an_executed :: executed

datatype receipt = Answered replica_answer | Failed string verify_reason

definition runOne :: "codec \<Rightarrow> (bytes \<Rightarrow> string) \<Rightarrow> task \<Rightarrow> executor \<Rightarrow> receipt" where
  "runOne codec cid_of t e =
     (case ex_execute e t of
        Threw m \<Rightarrow> Failed (ex_nodeId e) (Execute_threw (ex_nodeId e) m)
      | Returned (Execution_failed r) \<Rightarrow> Failed (ex_nodeId e) (Said r)
      | Returned (Executed o') \<Rightarrow>
          (case canonicalCid codec cid_of (xo_output o') of
             Inl err \<Rightarrow> Failed (ex_nodeId e) (Output_not_encodable err)
           | Inr (cid, _) \<Rightarrow> Answered \<lparr>an_nodeId = ex_nodeId e, an_resultCid = cid, an_executed = o'\<rparr>))"

section \<open>The verdict\<close>

record agreeing_replica =
  ag_nodeId :: string
  ag_attestation :: attested_result

type_synonym failures = "(string \<times> verify_reason) list"

datatype insufficient_reason =
    No_executors_supplied
  | Every_executor_failed
  | Ceremony_too_small nat
  | Every_commit_failed
  | No_reveal_matched

datatype verification_result =
    Agreed string cvalue "agreeing_replica list" nat failures run_cost run_cost
  | Disagreed "(string \<times> string list) list" failures run_cost
  | Insufficient insufficient_reason failures

definition gross_cost :: "replica_answer list \<Rightarrow> run_cost" where
  "gross_cost answered =
     \<lparr>co_fuel = foldl (\<lambda>sum r. sum + co_fuel (xo_cost (an_executed r))) 0 answered,
      co_execMs = foldl (\<lambda>sum r. sum + co_execMs (xo_cost (an_executed r))) 0 answered,
      co_hostCalls = foldl (\<lambda>sum r. sum + co_hostCalls (xo_cost (an_executed r))) 0 answered,
      co_peakMemoryPages = foldl (\<lambda>sum r. sum + co_peakMemoryPages (xo_cost (an_executed r))) 0 answered\<rparr>"

text \<open>The groups of nodes by result, in order of first appearance, and what follows from their number.\<close>

definition result_groups :: "replica_answer list \<Rightarrow> (string, string list) jsmap" where
  "result_groups answered = map (\<lambda>(c, g). (c, map an_nodeId g)) (group_by an_resultCid answered)"

definition verdict :: "replica_answer list \<Rightarrow> failures \<Rightarrow> verification_result" where
  "verdict answered failures =
     (let groups = result_groups answered
      in if length groups > 1 then Disagreed groups failures (gross_cost answered)
         else let winner = hd answered
              in Agreed (an_resultCid winner) (xo_output (an_executed winner))
                   (map (\<lambda>r. \<lparr>ag_nodeId = an_nodeId r, ag_attestation = xo_attestation (an_executed r)\<rparr>) answered)
                   (length answered) failures (gross_cost answered) (xo_cost (an_executed winner)))"

fun receipt_failures :: "receipt list \<Rightarrow> failures" where
  "receipt_failures [] = []"
| "receipt_failures (Failed n r # rs) = (n, r) # receipt_failures rs"
| "receipt_failures (Answered a # rs) = receipt_failures rs"

fun receipt_answers :: "receipt list \<Rightarrow> replica_answer list" where
  "receipt_answers [] = []"
| "receipt_answers (Failed n r # rs) = receipt_answers rs"
| "receipt_answers (Answered a # rs) = a # receipt_answers rs"

definition executeVerified :: "codec \<Rightarrow> (bytes \<Rightarrow> string) \<Rightarrow> task \<Rightarrow> executor list \<Rightarrow> verification_result" where
  "executeVerified codec cid_of t executors =
     (if length executors = 0 then Insufficient No_executors_supplied []
      else let receipts = map (runOne codec cid_of t) executors;
               failures = receipt_failures receipts;
               answered = receipt_answers receipts
           in if length answered = 0 then Insufficient Every_executor_failed failures
              else verdict answered failures)"

section \<open>The ceremony\<close>

definition CEREMONY_NONCE_BYTES :: nat where
  "CEREMONY_NONCE_BYTES = 32"

definition MIN_CEREMONY_REPLICAS :: nat where
  "MIN_CEREMONY_REPLICAS = 2"

text \<open>The platform's randomness is a function from a length to that many bytes.\<close>

definition drawCeremonyNonce :: "(nat \<Rightarrow> bytes) \<Rightarrow> bytes" where
  "drawCeremonyNonce randomBytes = randomBytes CEREMONY_NONCE_BYTES"

text \<open>\<open>DataView.setUint32(0, n, false)\<close>: the number modulo \<open>2 ^ 32\<close>, most significant byte first.\<close>

definition be32 :: "int \<Rightarrow> bytes" where
  "be32 n = (let w = word_of_int n :: 32 word in map (\<lambda>k. ucast (drop_bit k w)) [24, 16, 8, 0])"

definition commitmentDigest ::
  "(string \<Rightarrow> bytes) \<Rightarrow> (bytes \<Rightarrow> bytes) \<Rightarrow> bytes \<Rightarrow> task \<Rightarrow> string \<Rightarrow> string" where
  "commitmentDigest cid_bytes sha256 nonce t resultCid =
     toHex (sha256 (nonce @ cid_bytes (tk_moduleCid t) @ cid_bytes (tk_inputCid t) @ be32 (tk_partitionIndex t) @
                    cid_bytes resultCid))"

datatype commit_outcome = Commit_ok string string | Commit_refused string

datatype reveal_outcome = Reveal_ok bytes executed | Reveal_refused string

record 's committer =
  cm_nodeId :: string
  cm_commit :: "task \<Rightarrow> 's \<Rightarrow> commit_outcome settled \<times> 's"
  cm_reveal :: "string \<Rightarrow> 's \<Rightarrow> reveal_outcome settled \<times> 's"

record 's committed =
  cd_executor :: "'s committer"
  cd_digest :: string
  cd_handle :: string

text \<open>Round 1: every commitment is settled before the first reveal.\<close>

fun commit_round :: "task \<Rightarrow> 's committer list \<Rightarrow> 's \<Rightarrow> ('s committer \<times> commit_outcome settled) list \<times> 's" where
  "commit_round t [] s = ([], s)"
| "commit_round t (e # es) s =
     (let (r, s1) = cm_commit e t s; (rs, s2) = commit_round t es s1 in ((e, r) # rs, s2))"

fun commit_failures :: "('s committer \<times> commit_outcome settled) list \<Rightarrow> failures" where
  "commit_failures [] = []"
| "commit_failures ((e, Threw m) # rs) = (cm_nodeId e, Commit_threw (cm_nodeId e) m) # commit_failures rs"
| "commit_failures ((e, Returned (Commit_refused r)) # rs) = (cm_nodeId e, Said r) # commit_failures rs"
| "commit_failures ((e, Returned (Commit_ok d h)) # rs) = commit_failures rs"

fun commits_made :: "('s committer \<times> commit_outcome settled) list \<Rightarrow> 's committed list" where
  "commits_made [] = []"
| "commits_made ((e, Returned (Commit_ok d h)) # rs) = \<lparr>cd_executor = e, cd_digest = d, cd_handle = h\<rparr> # commits_made rs"
| "commits_made ((e, Returned (Commit_refused r)) # rs) = commits_made rs"
| "commits_made ((e, Threw m) # rs) = commits_made rs"

text \<open>Round 2.\<close>

fun reveal_round :: "'s committed list \<Rightarrow> 's \<Rightarrow> ('s committed \<times> reveal_outcome settled) list \<times> 's" where
  "reveal_round [] s = ([], s)"
| "reveal_round (c # cs) s =
     (let (r, s1) = cm_reveal (cd_executor c) (cd_handle c) s; (rs, s2) = reveal_round cs s1 in ((c, r) # rs, s2))"

definition judge_reveal ::
  "codec \<Rightarrow> (bytes \<Rightarrow> string) \<Rightarrow> (string \<Rightarrow> bytes) \<Rightarrow> (bytes \<Rightarrow> bytes) \<Rightarrow> task \<Rightarrow> 's committed \<times> reveal_outcome settled \<Rightarrow> receipt" where
  "judge_reveal codec cid_of cid_bytes sha256 t entry =
     (let nodeId = cm_nodeId (cd_executor (fst entry))
      in case snd entry of
           Threw m \<Rightarrow> Failed nodeId (Reveal_threw nodeId m)
         | Returned (Reveal_refused r) \<Rightarrow> Failed nodeId (Said r)
         | Returned (Reveal_ok nonce o') \<Rightarrow>
             (case canonicalCid codec cid_of (xo_output o') of
                Inl err \<Rightarrow> Failed nodeId (Output_not_encodable err)
              | Inr (cid, _) \<Rightarrow>
                  if commitmentDigest cid_bytes sha256 nonce t cid \<noteq> cd_digest (fst entry) then Failed nodeId (Reveal_mismatch nodeId)
                  else Answered \<lparr>an_nodeId = nodeId, an_resultCid = cid, an_executed = o'\<rparr>))"

definition executeCommitReveal ::
  "codec \<Rightarrow> (bytes \<Rightarrow> string) \<Rightarrow> (string \<Rightarrow> bytes) \<Rightarrow> (bytes \<Rightarrow> bytes) \<Rightarrow> task \<Rightarrow> 's committer list \<Rightarrow> 's
    \<Rightarrow> verification_result \<times> 's" where
  "executeCommitReveal codec cid_of cid_bytes sha256 t committers s =
     (if length committers < MIN_CEREMONY_REPLICAS
      then (Insufficient (Ceremony_too_small (length committers)) [], s)
      else let (round1, s1) = commit_round t committers s;
               failures = commit_failures round1;
               committed = commits_made round1
           in if length committed = 0 then (Insufficient Every_commit_failed failures, s1)
              else let (round2, s2) = reveal_round committed s1;
                       receipts = map (judge_reveal codec cid_of cid_bytes sha256 t) round2;
                       answered = receipt_answers receipts;
                       all_failures = failures @ receipt_failures receipts
                   in if length answered = 0 then (Insufficient No_reveal_matched all_failures, s2)
                      else (verdict answered all_failures, s2))"

section \<open>Groups of answers\<close>

lemma map_fst_result_groups: "map fst (result_groups answered) = map_keys (group_by an_resultCid answered)"
  by (simp add: result_groups_def case_prod_beta comp_def)

lemma result_groups_mem: "(c, ns) \<in> set (result_groups answered) \<longleftrightarrow>
    ns = map an_nodeId (filter (\<lambda>a. an_resultCid a = c) answered) \<and> ns \<noteq> []"
  by (auto simp: result_groups_def group_by_mem)

lemma length_result_groups: "length (result_groups answered) = card (an_resultCid ` set answered)"
proof -
  let ?m = "group_by an_resultCid answered"
  have "set (map_keys ?m) = an_resultCid ` set answered"
    using map_get_None_iff [of ?m] by (fastforce simp: map_get_group_by split: if_splits)
  then have "length (map_keys ?m) = card (an_resultCid ` set answered)"
    by (metis distinct_card map_ok_group_by)
  then show ?thesis by (simp add: result_groups_def)
qed

lemma one_result_group:
  assumes "answered \<noteq> []"
  shows "length (result_groups answered) > 1 \<longleftrightarrow> (\<exists>a \<in> set answered. \<exists>b \<in> set answered. an_resultCid a \<noteq> an_resultCid b)"
proof -
  let ?c = "an_resultCid ` set answered"
  have "finite ?c" "?c \<noteq> {}" using assms by auto
  then have "card ?c \<le> 1 \<longleftrightarrow> (\<forall>x \<in> ?c. \<forall>y \<in> ?c. x = y)" by (auto simp: card_le_Suc0_iff_eq)
  then show ?thesis by (auto simp: length_result_groups not_le [symmetric])
qed

lemma verdict_cases:
  assumes "answered \<noteq> []" "verdict answered failures = v"
  obtains (unanimous) "\<forall>a \<in> set answered. an_resultCid a = an_resultCid (hd answered)"
      "v = Agreed (an_resultCid (hd answered)) (xo_output (an_executed (hd answered)))
        (map (\<lambda>r. \<lparr>ag_nodeId = an_nodeId r, ag_attestation = xo_attestation (an_executed r)\<rparr>) answered)
        (length answered) failures (gross_cost answered) (xo_cost (an_executed (hd answered)))"
    | (split) "\<exists>a \<in> set answered. \<exists>b \<in> set answered. an_resultCid a \<noteq> an_resultCid b"
      "v = Disagreed (result_groups answered) failures (gross_cost answered)"
proof (cases "length (result_groups answered) > 1")
  case True
  then have "v = Disagreed (result_groups answered) failures (gross_cost answered)"
    unfolding assms(2) [symmetric] verdict_def Let_def by simp
  with True one_result_group [OF assms(1)] show thesis using split by blast
next
  case False
  with one_result_group [OF assms(1)] hd_in_set [OF assms(1)]
  have "\<forall>a \<in> set answered. an_resultCid a = an_resultCid (hd answered)" by blast
  moreover have "v = Agreed (an_resultCid (hd answered)) (xo_output (an_executed (hd answered)))
      (map (\<lambda>r. \<lparr>ag_nodeId = an_nodeId r, ag_attestation = xo_attestation (an_executed r)\<rparr>) answered)
      (length answered) failures (gross_cost answered) (xo_cost (an_executed (hd answered)))"
    unfolding assms(2) [symmetric] verdict_def Let_def using False by simp
  ultimately show thesis by (rule unanimous)
qed

section \<open>One round\<close>

text \<open>What an executor answers to a task, as the CID of its output: the reference the verdict is held to.\<close>

definition answer_cid :: "codec \<Rightarrow> (bytes \<Rightarrow> string) \<Rightarrow> task \<Rightarrow> executor \<Rightarrow> string option" where
  "answer_cid codec cid_of t e =
     (case ex_execute e t of
        Returned (Executed o') \<Rightarrow> (case canonicalCid codec cid_of (xo_output o') of Inr (cid, _) \<Rightarrow> Some cid | Inl err \<Rightarrow> None)
      | _ \<Rightarrow> None)"

lemma runOne_answer:
  "runOne codec cid_of t e = Answered a \<Longrightarrow> an_nodeId a = ex_nodeId e \<and> answer_cid codec cid_of t e = Some (an_resultCid a)"
  "runOne codec cid_of t e = Failed n r \<Longrightarrow> answer_cid codec cid_of t e = None"
  by (auto simp: runOne_def answer_cid_def split: settled.splits execution_outcome.splits sum.splits)

lemma receipts_of_executors:
  "map (\<lambda>a. (an_nodeId a, an_resultCid a)) (receipt_answers (map (runOne codec cid_of t) es)) =
     map (\<lambda>e. (ex_nodeId e, the (answer_cid codec cid_of t e))) (filter (\<lambda>e. answer_cid codec cid_of t e \<noteq> None) es)"
proof (induction es)
  case (Cons e es)
  then show ?case by (cases "runOne codec cid_of t e") (simp_all add: runOne_answer)
qed simp

lemma receipt_count: "length (receipt_answers rs) + length (receipt_failures rs) = length rs"
  by (induction rs rule: receipt_answers.induct) simp_all

lemma map_filter_pairs:
  assumes "map (\<lambda>a. (f a, g a)) xs = map (\<lambda>e. (h e, the (p e))) (filter (\<lambda>e. p e \<noteq> None) es)"
  shows "map f xs = map h (filter (\<lambda>e. p e \<noteq> None) es)"
    and "map f (filter (\<lambda>a. g a = c) xs) = map h (filter (\<lambda>e. p e = Some c) es)"
    and "g ` set xs = {c. \<exists>e \<in> set es. p e = Some c}"
proof -
  from assms have "map fst (map (\<lambda>a. (f a, g a)) xs) = map fst (map (\<lambda>e. (h e, the (p e))) (filter (\<lambda>e. p e \<noteq> None) es))"
    by (rule arg_cong)
  then show "map f xs = map h (filter (\<lambda>e. p e \<noteq> None) es)" by (simp add: o_def)
  from assms have "map fst (filter (\<lambda>q. snd q = c) (map (\<lambda>a. (f a, g a)) xs)) =
      map fst (filter (\<lambda>q. snd q = c) (map (\<lambda>e. (h e, the (p e))) (filter (\<lambda>e. p e \<noteq> None) es)))"
    by simp
  moreover have "(\<lambda>e. the (p e) = c \<and> p e \<noteq> None) = (\<lambda>e. p e = Some c)" by (rule ext) auto
  ultimately show "map f (filter (\<lambda>a. g a = c) xs) = map h (filter (\<lambda>e. p e = Some c) es)"
    by (simp add: filter_map o_def conj_commute)
  from assms have "set (map snd (map (\<lambda>a. (f a, g a)) xs)) =
      set (map snd (map (\<lambda>e. (h e, the (p e))) (filter (\<lambda>e. p e \<noteq> None) es)))"
    by simp
  then show "g ` set xs = {c. \<exists>e \<in> set es. p e = Some c}" by (force simp: image_iff)
qed

text \<open>C19: A redundant run never papers over a disagreement: it reports agreement exactly on a result that
  every executor that answered gave, naming all of them and counting the rest as failures; when two
  answers differ it reports every group of nodes by result and no winner, whatever the majority;
  and it is inconclusive only when nobody answered.\<close>

theorem redundant_answer_is_unanimous:
  shows "case executeVerified codec cid_of t executors of
      Agreed cid output agreeing n failures gross useful \<Rightarrow>
        {c. \<exists>e \<in> set executors. answer_cid codec cid_of t e = Some c} = {cid} \<and>
        map ag_nodeId agreeing = map ex_nodeId (filter (\<lambda>e. answer_cid codec cid_of t e \<noteq> None) executors) \<and>
        n = length agreeing \<and> n + length failures = length executors
    | Disagreed groups failures gross \<Rightarrow>
        2 \<le> length groups \<and> distinct (map fst groups) \<and>
        (\<forall>c ns. (c, ns) \<in> set groups \<longleftrightarrow>
          ns = map ex_nodeId (filter (\<lambda>e. answer_cid codec cid_of t e = Some c) executors) \<and> ns \<noteq> [])
    | Insufficient reason failures \<Rightarrow> \<forall>e \<in> set executors. answer_cid codec cid_of t e = None"
proof (cases "receipt_answers (map (runOne codec cid_of t) executors) = []")
  case True
  with map_filter_pairs(3) [OF receipts_of_executors [of codec cid_of t executors]]
  have "\<nexists>c e. e \<in> set executors \<and> answer_cid codec cid_of t e = Some c" by auto
  then have "\<forall>e \<in> set executors. answer_cid codec cid_of t e = None" by (meson not_Some_eq)
  then show ?thesis using True by (auto simp: executeVerified_def Let_def)
next
  case False
  let ?as = "receipt_answers (map (runOne codec cid_of t) executors)"
  let ?fs = "receipt_failures (map (runOne codec cid_of t) executors)"
  note pairs = map_filter_pairs [OF receipts_of_executors [of codec cid_of t executors]]
  have v: "executeVerified codec cid_of t executors = verdict ?as ?fs"
    using False by (auto simp: executeVerified_def Let_def)
  from receipt_count [of "map (runOne codec cid_of t) executors"] have n: "length ?as + length ?fs = length executors" by simp
  show ?thesis
  proof (rule verdict_cases [OF False v [symmetric]])
    assume u: "\<forall>a \<in> set ?as. an_resultCid a = an_resultCid (hd ?as)"
      and a: "executeVerified codec cid_of t executors =
        Agreed (an_resultCid (hd ?as)) (xo_output (an_executed (hd ?as)))
          (map (\<lambda>r. \<lparr>ag_nodeId = an_nodeId r, ag_attestation = xo_attestation (an_executed r)\<rparr>) ?as)
          (length ?as) ?fs (gross_cost ?as) (xo_cost (an_executed (hd ?as)))"
    from u have "an_resultCid ` set ?as = (\<lambda>_. an_resultCid (hd ?as)) ` set ?as" by (intro image_cong) auto
    with False have "an_resultCid ` set ?as = {an_resultCid (hd ?as)}" by (simp only: image_constant_conv set_empty if_False)
    then have "{c. \<exists>e \<in> set executors. answer_cid codec cid_of t e = Some c} = {an_resultCid (hd ?as)}"
      by (simp only: pairs(3))
    moreover have "map ag_nodeId (map (\<lambda>r. \<lparr>ag_nodeId = an_nodeId r, ag_attestation = xo_attestation (an_executed r)\<rparr>) ?as) =
        map ex_nodeId (filter (\<lambda>e. answer_cid codec cid_of t e \<noteq> None) executors)"
      using pairs(1) by (simp add: o_def)
    ultimately show ?thesis unfolding a verification_result.case using n by (simp only: length_map simp_thms)
  next
    assume s: "\<exists>a \<in> set ?as. \<exists>b \<in> set ?as. an_resultCid a \<noteq> an_resultCid b"
      and d: "executeVerified codec cid_of t executors = Disagreed (result_groups ?as) ?fs (gross_cost ?as)"
    from s one_result_group [OF False] have "2 \<le> length (result_groups ?as)" by linarith
    then show ?thesis unfolding d by (simp add: map_fst_result_groups result_groups_mem pairs(2))
  qed
qed

section \<open>Two rounds\<close>

lemma commits_made_mem:
  "c \<in> set (commits_made rs) \<longleftrightarrow> (cd_executor c, Returned (Commit_ok (cd_digest c) (cd_handle c))) \<in> set rs"
proof (induction rs rule: commits_made.induct)
  case (2 e d h rs)
  then show ?case by (cases c) auto
qed auto

lemma reveal_round_fst: "map fst (fst (reveal_round cs s)) = cs"
  by (induction cs arbitrary: s) (simp_all add: case_prod_beta Let_def)

lemma commit_round_fst: "map fst (fst (commit_round t es s)) = es"
  by (induction es arbitrary: s) (simp_all add: case_prod_beta Let_def)

lemma receipt_answers_mem: "a \<in> set (receipt_answers rs) \<longleftrightarrow> Answered a \<in> set rs"
  by (induction rs rule: receipt_answers.induct) auto

text \<open>Every vote that counts was checked against the digest its own node gave in round 1.\<close>

lemma counted_votes:
  assumes "a \<in> set (receipt_answers (map (judge_reveal codec cid_of cid_bytes sha256 t) (fst (reveal_round (commits_made rs) s))))"
  shows "\<exists>e digest h nonce b. (e, Returned (Commit_ok digest h)) \<in> set rs \<and> an_nodeId a = cm_nodeId e \<and>
    canonicalCid codec cid_of (xo_output (an_executed a)) = Inr (an_resultCid a, b) \<and>
    commitmentDigest cid_bytes sha256 nonce t (an_resultCid a) = digest"
proof -
  obtain c r where r: "(c, r) \<in> set (fst (reveal_round (commits_made rs) s))"
    "judge_reveal codec cid_of cid_bytes sha256 t (c, r) = Answered a"
    using assms by (auto simp: receipt_answers_mem)
  then have "c \<in> set (map fst (fst (reveal_round (commits_made rs) s)))" by force
  then have "(cd_executor c, Returned (Commit_ok (cd_digest c) (cd_handle c))) \<in> set rs"
    by (simp only: reveal_round_fst commits_made_mem)
  moreover from r(2) obtain nonce b where "an_nodeId a = cm_nodeId (cd_executor c)"
    "canonicalCid codec cid_of (xo_output (an_executed a)) = Inr (an_resultCid a, b)"
    "commitmentDigest cid_bytes sha256 nonce t (an_resultCid a) = cd_digest c"
    by (auto simp: judge_reveal_def Let_def split: settled.splits reveal_outcome.splits sum.splits if_splits)
  ultimately show ?thesis by blast
qed

lemma canonicalCid_range: "canonicalCid codec cid_of v = Inr (c, b) \<Longrightarrow> c \<in> range cid_of"
  by (auto simp: canonicalCid_def split: sum.splits)

text \<open>A digest fixes the result: the parts of the digested text after the nonce have fixed lengths.\<close>

lemma commitment_binds:
  assumes "inj sha256" "inj_on cid_bytes C" "\<And>c d. c \<in> C \<Longrightarrow> d \<in> C \<Longrightarrow> length (cid_bytes c) = length (cid_bytes d)"
    and "c \<in> C" "d \<in> C" "commitmentDigest cid_bytes sha256 n t c = commitmentDigest cid_bytes sha256 n' t d"
  shows "c = d"
proof -
  have "n @ cid_bytes (tk_moduleCid t) @ cid_bytes (tk_inputCid t) @ be32 (tk_partitionIndex t) @ cid_bytes c =
      n' @ cid_bytes (tk_moduleCid t) @ cid_bytes (tk_inputCid t) @ be32 (tk_partitionIndex t) @ cid_bytes d"
    using assms(6) unfolding commitmentDigest_def by (blast dest: toHex_inj injD [OF assms(1)])
  then have "(n @ cid_bytes (tk_moduleCid t) @ cid_bytes (tk_inputCid t) @ be32 (tk_partitionIndex t)) @ cid_bytes c =
      (n' @ cid_bytes (tk_moduleCid t) @ cid_bytes (tk_inputCid t) @ be32 (tk_partitionIndex t)) @ cid_bytes d"
    by simp
  then have "cid_bytes c = cid_bytes d"
    using append_eq_append_conv [of "cid_bytes c" "cid_bytes d"] assms(3) [OF assms(4,5)] by (metis append_eq_append_conv)
  then show ?thesis using assms(2,4,5) by (blast dest: inj_onD)
qed

text \<open>Which nodes a verdict counts, and for which result.\<close>

definition counted_for :: "verification_result \<Rightarrow> string \<Rightarrow> string \<Rightarrow> bool" where
  "counted_for v node cid =
     (case v of
        Agreed c output agreeing n failures gross useful \<Rightarrow> c = cid \<and> node \<in> ag_nodeId ` set agreeing
      | Disagreed groups failures gross \<Rightarrow> \<exists>ns. (cid, ns) \<in> set groups \<and> node \<in> set ns
      | Insufficient reason failures \<Rightarrow> False)"

lemma verdict_counts:
  assumes "answered \<noteq> []" "counted_for (verdict answered failures) node cid"
  shows "\<exists>a \<in> set answered. an_nodeId a = node \<and> an_resultCid a = cid"
proof (rule verdict_cases [OF assms(1) refl, of failures])
  assume "\<forall>a \<in> set answered. an_resultCid a = an_resultCid (hd answered)"
    and "verdict answered failures = Agreed (an_resultCid (hd answered)) (xo_output (an_executed (hd answered)))
        (map (\<lambda>r. \<lparr>ag_nodeId = an_nodeId r, ag_attestation = xo_attestation (an_executed r)\<rparr>) answered)
        (length answered) failures (gross_cost answered) (xo_cost (an_executed (hd answered)))"
  with assms(2) show ?thesis by (auto simp: counted_for_def)
next
  assume "verdict answered failures = Disagreed (result_groups answered) failures (gross_cost answered)"
  with assms(2) show ?thesis by (auto simp: counted_for_def result_groups_mem)
qed

lemma ceremony_counted:
  assumes "counted_for (fst (executeCommitReveal codec cid_of cid_bytes sha256 t committers s)) node cid"
  shows "\<exists>e digest h nonce. (e, Returned (Commit_ok digest h)) \<in> set (fst (commit_round t committers s)) \<and> node = cm_nodeId e \<and>
    cid \<in> range cid_of \<and> commitmentDigest cid_bytes sha256 nonce t cid = digest"
proof -
  obtain rs s1 where r1: "commit_round t committers s = (rs, s1)" by force
  obtain r2 s2 where r2: "reveal_round (commits_made rs) s1 = (r2, s2)" by force
  let ?as = "receipt_answers (map (judge_reveal codec cid_of cid_bytes sha256 t) r2)"
  let ?fs = "commit_failures rs @ receipt_failures (map (judge_reveal codec cid_of cid_bytes sha256 t) r2)"
  have "?as \<noteq> []" "counted_for (verdict ?as ?fs) node cid"
    using assms r1 r2
    by (auto simp: executeCommitReveal_def Let_def counted_for_def split: if_splits)
  then obtain a where a: "a \<in> set ?as" "an_nodeId a = node" "an_resultCid a = cid" using verdict_counts by blast
  then show ?thesis using counted_votes [of a codec cid_of cid_bytes sha256 t rs s1] canonicalCid_range r1 r2 by fastforce
qed

text \<open>C6: A committed answer cannot be changed after the fact: whatever the executors do, together and with
  everything they have seen, a node the ceremony counts for a result had committed in round 1, and a
  digest it gave there for some result was for this one.  Digests are assumed not to collide and
  result CIDs to have one length.\<close>

theorem ceremony_counts_only_what_was_committed:
  assumes "inj sha256" "inj_on cid_bytes (range cid_of)"
    and "\<And>c d. c \<in> range cid_of \<Longrightarrow> d \<in> range cid_of \<Longrightarrow> length (cid_bytes c) = length (cid_bytes d)"
    and "distinct (map cm_nodeId committers)" "e \<in> set committers"
    and "counted_for (fst (executeCommitReveal codec cid_of cid_bytes sha256 t committers s)) (cm_nodeId e) cid"
  shows "(\<exists>digest h. (e, Returned (Commit_ok digest h)) \<in> set (fst (commit_round t committers s))) \<and>
    (\<forall>digest h nonce c. (e, Returned (Commit_ok digest h)) \<in> set (fst (commit_round t committers s)) \<longrightarrow>
       c \<in> range cid_of \<longrightarrow> digest = commitmentDigest cid_bytes sha256 nonce t c \<longrightarrow> c = cid)"
proof -
  let ?rs = "fst (commit_round t committers s)"
  obtain e' digest h nonce where c: "(e', Returned (Commit_ok digest h)) \<in> set ?rs" "cm_nodeId e = cm_nodeId e'"
    "cid \<in> range cid_of" "commitmentDigest cid_bytes sha256 nonce t cid = digest"
    using ceremony_counted [OF assms(6)] by blast
  have "e' \<in> set (map fst ?rs)" using c(1) by force
  then have "e' = e" using assms(4,5) c(2) unfolding commit_round_fst by (metis distinct_map inj_onD)
  have "distinct (map fst ?rs)" unfolding commit_round_fst using assms(4) by (simp add: distinct_map)
  then have only: "r = r'" if "(e, r) \<in> set ?rs" "(e, r') \<in> set ?rs" for r r'
    using that by (metis eq_key_imp_eq_value)
  have "c' = cid" if "(e, Returned (Commit_ok d h')) \<in> set ?rs" "c' \<in> range cid_of" "d = commitmentDigest cid_bytes sha256 n' t c'" for d h' n' c'
  proof -
    from only [OF that(1) c(1) [unfolded \<open>e' = e\<close>]] have "d = digest" by simp
    with that(3) c(4) show ?thesis
      using commitment_binds [OF assms(1,2,3) that(2) c(3)] by metis
  qed
  with c(1) \<open>e' = e\<close> show ?thesis by blast
qed

section \<open>Examples\<close>

definition demo_task :: task where
  "demo_task = \<lparr>tk_moduleCid = ''m'', tk_inputCid = ''i'', tk_partitionIndex = 0, tk_partitionCount = 1, tk_label = None,
     tk_ownerId = None, tk_moduleRecord = None\<rparr>"

definition demo_executed :: "bool \<Rightarrow> executed" where
  "demo_executed b = \<lparr>xo_output = CBool b, xo_cost = \<lparr>co_fuel = 1, co_execMs = 2, co_hostCalls = 3, co_peakMemoryPages = 4\<rparr>,
     xo_attestation = Signed_by_nobody\<rparr>"

definition demo_executor :: "string \<Rightarrow> bool \<Rightarrow> executor" where
  "demo_executor n b = \<lparr>ex_nodeId = n, ex_execute = (\<lambda>t. Returned (Executed (demo_executed b)))\<rparr>"

definition demo_bool_codec :: codec where
  "demo_bool_codec v = Some (if v = CBool True then [1] else [0])"

definition demo_cid :: "bytes \<Rightarrow> string" where
  "demo_cid b = (if b = [1] then ''y'' else ''n'')"

lemma demo_answers: "answer_cid demo_bool_codec demo_cid t (demo_executor n b) = Some (if b then ''y'' else ''n'')"
  by (simp add: answer_cid_def demo_executor_def demo_executed_def canonicalCid_def encodeCanonical_def demo_bool_codec_def demo_cid_def)

theorem redundant_answer_is_unanimous_witness:
  "\<exists>groups failures gross.
     executeVerified demo_bool_codec demo_cid demo_task [demo_executor ''a'' True, demo_executor ''b'' False, demo_executor ''c'' True] =
       Disagreed groups failures gross \<and>
     (''y'', [''a'', ''c'']) \<in> set groups \<and> (''n'', [''b'']) \<in> set groups"
proof -
  let ?es = "[demo_executor ''a'' True, demo_executor ''b'' False, demo_executor ''c'' True]"
  have ids: "ex_nodeId (demo_executor n b) = n" for n b by (simp add: demo_executor_def)
  note th = redundant_answer_is_unanimous [where codec = demo_bool_codec and cid_of = demo_cid and t = demo_task and executors = ?es]
  have y: "''y'' \<in> {c. \<exists>e \<in> set ?es. answer_cid demo_bool_codec demo_cid demo_task e = Some c}"
    and n: "''n'' \<in> {c. \<exists>e \<in> set ?es. answer_cid demo_bool_codec demo_cid demo_task e = Some c}"
    by (simp_all add: demo_answers)
  show ?thesis
  proof (cases "executeVerified demo_bool_codec demo_cid demo_task ?es")
    case (Agreed cid out agreeing k failures gross useful)
    from th [unfolded Agreed verification_result.case, THEN conjunct1] y n have "''y'' = ''n''" by (metis singletonD)
    then show ?thesis by simp
  next
    case (Disagreed groups failures gross)
    from th [unfolded Disagreed verification_result.case, THEN conjunct2, THEN conjunct2] have g: "\<forall>c ns. (c, ns) \<in> set groups \<longleftrightarrow>
        ns = map ex_nodeId (filter (\<lambda>e. answer_cid demo_bool_codec demo_cid demo_task e = Some c) ?es) \<and> ns \<noteq> []" .
    show ?thesis by (intro exI conjI) (rule Disagreed, simp_all add: g demo_answers ids)
  next
    case (Insufficient reason failures)
    from th [unfolded Insufficient verification_result.case] have "\<forall>e \<in> set ?es. answer_cid demo_bool_codec demo_cid demo_task e = None" .
    then show ?thesis by (simp add: demo_answers)
  qed
qed

definition demo_committer :: "string \<Rightarrow> bool \<Rightarrow> unit committer" where
  "demo_committer n b = \<lparr>cm_nodeId = n,
     cm_commit = (\<lambda>t s. (Returned (Commit_ok (commitmentDigest (map of_char) id [7] t ''y'') ''h''), s)),
     cm_reveal = (\<lambda>h s. (Returned (Reveal_ok [7] (demo_executed b)), s))\<rparr>"

text \<open>A node that commits to \<open>y\<close> and reveals something else is not counted.\<close>

theorem ceremony_counts_only_what_was_committed_witness:
  "\<not> counted_for (fst (executeCommitReveal demo_bool_codec demo_cid (map of_char) id demo_task
      [demo_committer ''a'' True, demo_committer ''b'' False] ())) ''b'' ''n''"
proof
  let ?cs = "[demo_committer ''a'' True, demo_committer ''b'' False]"
  assume "counted_for (fst (executeCommitReveal demo_bool_codec demo_cid (map of_char) id demo_task ?cs ())) ''b'' ''n''"
  then have n: "counted_for (fst (executeCommitReveal demo_bool_codec demo_cid (map of_char) id demo_task ?cs ()))
      (cm_nodeId (demo_committer ''b'' False)) ''n''"
    by (simp add: demo_committer_def)
  have r: "range demo_cid = {''y'', ''n''}" by (force simp: demo_cid_def image_iff)
  have "inj_on (map of_char :: string \<Rightarrow> bytes) (range demo_cid)" by (simp add: r)
  moreover have "distinct (map cm_nodeId ?cs)" by (simp add: demo_committer_def)
  moreover have "length (map of_char c :: bytes) = length (map of_char d :: bytes)" if "c \<in> range demo_cid" "d \<in> range demo_cid" for c d
    using that by (auto simp: r)
  moreover have "demo_committer ''b'' False \<in> set ?cs" by simp
  ultimately have only: "c = ''n''" if "(demo_committer ''b'' False, Returned (Commit_ok d h)) \<in> set (fst (commit_round demo_task ?cs ()))"
      "c \<in> range demo_cid" "d = commitmentDigest (map of_char) id nonce demo_task c" for d h nonce c
    using ceremony_counts_only_what_was_committed [OF inj_on_id _ _ _ _ n] that by blast
  have "''y'' = ''n''"
    by (rule only [where nonce = "[7]" and h = "''h''"]) (simp_all add: demo_committer_def r)
  then show False by simp
qed

end
