(* ===== verification/Combiner.thy ===== *)
theory Combiner
  imports Checkpoint Reduce_Run
begin

text \<open>
  The one merge the fabric offers: \<open>asFabricPartial\<close>, \<open>fabricCombiner\<close> and \<open>localDispatch\<close> of
  \<open>packages/core/src/reduce.ts\<close>.

  A partial is \<open>{counts, rows}\<close>; the merge adds the rows and the counts by key, and what is not a
  partial counts for nothing.  Numbers are added exactly.  An object is listed in the order its
  properties were assigned; assigning a number to \<open>__proto__\<close> leaves a JavaScript object as it was.
  The lemmas show the merge is a homomorphism into sums, hence independent of order and grouping,
  and what that makes of a whole reduce run.
\<close>

section \<open>Partials\<close>

record fabric_partial =
  fp_counts :: "(string, rat) jsmap"
  fp_rows :: rat

definition assign_number :: "string \<Rightarrow> 'a \<Rightarrow> (string, 'a) jsmap \<Rightarrow> (string, 'a) jsmap" where
  "assign_number k n m = (if k = ''__proto__'' then m else map_set k n m)"

fun check_counts :: "(string \<times> cvalue) list \<Rightarrow> (string, rat) jsmap \<Rightarrow> (string, rat) jsmap option" where
  "check_counts [] checked = Some checked"
| "check_counts ((word, v) # entries) checked =
     (case v of
        CNum (Fin n) \<Rightarrow> check_counts entries (assign_number word n checked)
      | _ \<Rightarrow> None)"

text \<open>A CID where the counts should be has entries that are not numbers.\<close>

definition asFabricPartial :: "cvalue \<Rightarrow> fabric_partial option" where
  "asFabricPartial v =
     (case asRecord v of
        None \<Rightarrow> None
      | Some r \<Rightarrow>
          (case map_get r ''rows'' of
             Some (CNum (Fin rows)) \<Rightarrow>
               (case map_get r ''counts'' of
                  Some (CObj entries) \<Rightarrow> map_option (\<lambda>c. \<lparr>fp_counts = c, fp_rows = rows\<rparr>) (check_counts entries [])
                | _ \<Rightarrow> None)
           | _ \<Rightarrow> None))"

section \<open>The merge\<close>

definition add_count :: "(string, rat) jsmap \<Rightarrow> string \<times> rat \<Rightarrow> (string, rat) jsmap" where
  "add_count m e = map_set (fst e) ((case map_get m (fst e) of None \<Rightarrow> 0 | Some x \<Rightarrow> x) + snd e) m"

definition add_input :: "(string, rat) jsmap \<times> rat \<Rightarrow> cvalue \<Rightarrow> (string, rat) jsmap \<times> rat" where
  "add_input st v =
     (case asFabricPartial v of
        None \<Rightarrow> st
      | Some p \<Rightarrow> (foldl add_count (fst st) (fp_counts p), snd st + fp_rows p))"

definition fabricCombiner :: "cvalue list \<Rightarrow> cvalue" where
  "fabricCombiner inputs =
     (let (counts, rows) = foldl add_input ([], 0) inputs;
          merged = foldl (\<lambda>m k. assign_number k (CNum (Fin (the (map_get counts k)))) m) [] (js_sort unit_cmp (map_keys counts))
      in CObj [(''counts'', CObj merged), (''rows'', CNum (Fin rows))])"

text \<open>\<open>localDispatch\<close>: the requestor's own executor; \<open>Inl\<close> is the decoder's throw.\<close>

fun gather_inputs :: "decoder \<Rightarrow> 's store_ops \<Rightarrow> (string \<Rightarrow> string) \<Rightarrow> string list \<Rightarrow> 's \<Rightarrow> unit + cvalue list option" where
  "gather_inputs decode ops parse_cid [] s = Inr (Some [])"
| "gather_inputs decode ops parse_cid (c # cs) s =
     (case get_block ops (parse_cid c) s of
        None \<Rightarrow> Inr None
      | Some bytes \<Rightarrow>
          (case decode bytes of
             None \<Rightarrow> Inl ()
           | Some v \<Rightarrow>
               (case gather_inputs decode ops parse_cid cs s of
                  Inl e \<Rightarrow> Inl e
                | Inr r \<Rightarrow> Inr (map_option (\<lambda>vs. v # vs) r))))"

definition localDispatch ::
  "codec \<Rightarrow> (bytes \<Rightarrow> string) \<Rightarrow> decoder \<Rightarrow> 's store_ops \<Rightarrow> (string \<Rightarrow> string) \<Rightarrow> (cvalue list \<Rightarrow> cvalue) \<Rightarrow> string list
    \<Rightarrow> combine_task \<Rightarrow> string \<Rightarrow> 's \<Rightarrow> (unit + string option) \<times> 's" where
  "localDispatch codec cid_of decode ops parse_cid combine live t executorId s =
     (if executorId \<notin> set live then (Inr None, s)
      else case gather_inputs decode ops parse_cid (ct_inputCids t) s of
             Inl e \<Rightarrow> (Inl e, s)
           | Inr None \<Rightarrow> (Inr None, s)
           | Inr (Some inputs) \<Rightarrow>
               (case canonicalCid codec cid_of (combine inputs) of
                  Inl e \<Rightarrow> (Inr None, s)
                | Inr (cid, bytes) \<Rightarrow> (Inr (Some cid), snd (put_block ops bytes s))))"

section \<open>What a partial says\<close>

definition rows_of :: "cvalue \<Rightarrow> rat" where
  "rows_of v = (case asFabricPartial v of None \<Rightarrow> 0 | Some p \<Rightarrow> fp_rows p)"

definition count_of :: "string \<Rightarrow> cvalue \<Rightarrow> rat" where
  "count_of w v =
     (case asFabricPartial v of None \<Rightarrow> 0 | Some p \<Rightarrow> (case map_get (fp_counts p) w of None \<Rightarrow> 0 | Some n \<Rightarrow> n))"

definition words_of :: "cvalue \<Rightarrow> string set" where
  "words_of v = (case asFabricPartial v of None \<Rightarrow> {} | Some p \<Rightarrow> set (map_keys (fp_counts p)))"

lemma check_counts_ok:
  "check_counts es m = Some m' \<Longrightarrow> map_ok m \<Longrightarrow> ''__proto__'' \<notin> set (map_keys m) \<Longrightarrow>
   map_ok m' \<and> ''__proto__'' \<notin> set (map_keys m')"
proof (induction es m rule: check_counts.induct)
  case (2 w v es m)
  then obtain n where v: "v = CNum (Fin n)" by (auto split: cvalue.splits jsnum.splits)
  have "map_ok (assign_number w n m)" "''__proto__'' \<notin> set (map_keys (assign_number w n m))"
    using 2(3,4) map_keys_set [of w n m] by (auto simp: assign_number_def)
  with 2 v show ?case by simp
qed simp

lemma partial_counts_ok: "asFabricPartial v = Some p \<Longrightarrow> map_ok (fp_counts p) \<and> ''__proto__'' \<notin> set (map_keys (fp_counts p))"
  using check_counts_ok [of _ "[]"]
  by (fastforce simp: asFabricPartial_def split: option.splits cvalue.splits jsnum.splits)

abbreviation value0 :: "(string, rat) jsmap \<Rightarrow> string \<Rightarrow> rat" where
  "value0 m w \<equiv> (case map_get m w of None \<Rightarrow> 0 | Some n \<Rightarrow> n)"

lemma fold_add_count:
  assumes "map_ok m" "map_ok es"
  shows "map_ok (foldl add_count m es) \<and> set (map_keys (foldl add_count m es)) = set (map_keys m) \<union> set (map_keys es) \<and>
    value0 (foldl add_count m es) w = value0 m w + value0 es w"
  using assms
proof (induction es arbitrary: m)
  case (Cons e es)
  have ok: "map_ok (add_count m e)" using Cons.prems by (simp add: add_count_def)
  have keys: "set (map_keys (add_count m e)) = insert (fst e) (set (map_keys m))"
    by (simp only: add_count_def map_keys_set)
  have "map_get es (fst e) = None" using Cons.prems(2) by (simp add: map_get_None_iff)
  then have "value0 (add_count m e) w + value0 es w = value0 m w + value0 (e # es) w"
    by (cases e) (auto simp: add_count_def)
  with Cons.IH [OF ok] Cons.prems(2) keys show ?case by auto
qed simp

lemma fold_add_input:
  assumes "map_ok m"
  shows "map_ok (fst (foldl add_input (m, r) vs)) \<and>
    set (map_keys (fst (foldl add_input (m, r) vs))) = set (map_keys m) \<union> (\<Union>v \<in> set vs. words_of v) \<and>
    value0 (fst (foldl add_input (m, r) vs)) w = value0 m w + sum_list (map (count_of w) vs) \<and>
    snd (foldl add_input (m, r) vs) = r + sum_list (map rows_of vs)"
  using assms
proof (induction vs arbitrary: m r)
  case (Cons v vs)
  show ?case
  proof (cases "asFabricPartial v")
    case None
    then show ?thesis using Cons by (simp add: add_input_def rows_of_def count_of_def words_of_def)
  next
    case (Some p)
    note f = fold_add_count [OF Cons.prems conjunct1 [OF partial_counts_ok [OF Some]], of w]
    have step: "foldl add_input (m, r) (v # vs) = foldl add_input (foldl add_count m (fp_counts p), r + fp_rows p) vs"
      using Some by (simp add: add_input_def)
    from Cons.IH [of "foldl add_count m (fp_counts p)" "r + fp_rows p"] f Some show ?thesis
      unfolding step by (auto simp: rows_of_def count_of_def words_of_def)
  qed
qed simp

lemma assign_fresh: "k \<noteq> ''__proto__'' \<Longrightarrow> k \<notin> fst ` set m \<Longrightarrow> assign_number k n m = m @ [(k, n)]"
  by (simp add: assign_number_def map_set_fresh)

lemma assign_fold:
  "distinct (map fst m @ ks) \<Longrightarrow> ''__proto__'' \<notin> set ks \<Longrightarrow>
   foldl (\<lambda>m k. assign_number k (f k) m) m ks = m @ map (\<lambda>k. (k, f k)) ks"
proof (induction ks arbitrary: m)
  case (Cons k ks)
  then have step: "assign_number k (f k) m = m @ [(k, f k)]" by (intro assign_fresh) auto
  show ?case using Cons.IH [of "m @ [(k, f k)]"] Cons.prems by (simp add: step)
qed simp

definition total_count :: "string \<Rightarrow> cvalue list \<Rightarrow> rat" where
  "total_count w vs = sum_list (map (count_of w) vs)"

definition all_words :: "cvalue list \<Rightarrow> string set" where
  "all_words vs = (\<Union>v \<in> set vs. words_of v)"

lemma words_no_proto: "''__proto__'' \<notin> all_words vs"
  using partial_counts_ok by (fastforce simp: all_words_def words_of_def split: option.splits)

lemma finite_words: "finite (all_words vs)"
  by (auto simp: all_words_def words_of_def split: option.split)

text \<open>The merge in closed form.\<close>

lemma fabricCombiner_form:
  "fabricCombiner vs =
     CObj [(''counts'', CObj (map (\<lambda>k. (k, CNum (Fin (total_count k vs)))) (sorted_list_of_set (all_words vs)))),
           (''rows'', CNum (Fin (sum_list (map rows_of vs))))]"
proof -
  obtain m r where m: "foldl add_input ([], 0) vs = (m, r)" by force
  note f = fold_add_input [of "[]" 0 vs, simplified m]
  have keys: "set (map_keys m) = all_words vs" and ok: "map_ok m" and r: "r = sum_list (map rows_of vs)"
    using f by (auto simp: all_words_def)
  have get: "the (map_get m k) = total_count k vs" if "k \<in> all_words vs" for k
  proof -
    from that keys have "map_get m k \<noteq> None" by (simp only: map_get_None_iff not_not)
    with f [of k] show ?thesis by (auto simp: total_count_def)
  qed
  have srt: "js_sort unit_cmp (map_keys m) = sorted_list_of_set (all_words vs)"
    using ok keys [symmetric] by (simp add: js_sort_is_sort sorted_list_of_set_sort_remdups distinct_remdups_id del: set_map)
  have "foldl (\<lambda>M k. assign_number k (CNum (Fin (the (map_get m k)))) M) [] (js_sort unit_cmp (map_keys m)) =
      map (\<lambda>k. (k, CNum (Fin (the (map_get m k))))) (js_sort unit_cmp (map_keys m))"
    using ok words_no_proto [of vs] keys by (subst assign_fold) auto
  also have "\<dots> = map (\<lambda>k. (k, CNum (Fin (total_count k vs)))) (sorted_list_of_set (all_words vs))"
    unfolding srt using get finite_words [of vs] by simp
  finally show ?thesis by (simp add: fabricCombiner_def m r)
qed

lemma check_counts_numbers:
  "distinct (map fst m @ ks) \<Longrightarrow> ''__proto__'' \<notin> set ks \<Longrightarrow>
   check_counts (map (\<lambda>k. (k, CNum (Fin (f k)))) ks) m = Some (m @ map (\<lambda>k. (k, f k)) ks)"
proof (induction ks arbitrary: m)
  case (Cons k ks)
  then have step: "assign_number k (f k) m = m @ [(k, f k)]" by (intro assign_fresh) auto
  show ?case using Cons.IH [of "m @ [(k, f k)]"] Cons.prems by (simp add: step)
qed simp

lemma map_get_pairs: "map_get (map (\<lambda>k. (k, f k)) ks) w = (if w \<in> set ks then Some (f w) else None)"
  by (induction ks) auto

text \<open>A partial in any order of its entries, so also one that went through the codec.\<close>

lemma partial_of_numbers:
  assumes "distinct ks" "''__proto__'' \<notin> set ks" "asRecord v = Some es"
    and "map_get es ''counts'' = Some (CObj (map (\<lambda>k. (k, CNum (Fin (f k)))) ks))" "map_get es ''rows'' = Some (CNum (Fin r))"
  shows "rows_of v = r" "count_of w v = (if w \<in> set ks then f w else 0)" "words_of v = set ks"
proof -
  have "check_counts (map (\<lambda>k. (k, CNum (Fin (f k)))) ks) [] = Some (map (\<lambda>k. (k, f k)) ks)"
    using assms(1,2) check_counts_numbers [of "[]" ks f] by simp
  with assms(3-5) have "asFabricPartial v = Some \<lparr>fp_counts = map (\<lambda>k. (k, f k)) ks, fp_rows = r\<rparr>"
    by (simp add: asFabricPartial_def)
  then show "rows_of v = r" "count_of w v = (if w \<in> set ks then f w else 0)" "words_of v = set ks"
    by (auto simp: rows_of_def count_of_def words_of_def map_get_pairs)
qed

lemma count_outside: "w \<notin> all_words vs \<Longrightarrow> total_count w vs = 0"
proof -
  assume w: "w \<notin> all_words vs"
  have "count_of w v = 0" if "v \<in> set vs" for v
    using that w by (force simp: all_words_def words_of_def count_of_def split: option.splits dest: map_get_mem)
  then show ?thesis unfolding total_count_def by (induction vs) auto
qed

lemma combined_says:
  "rows_of (fabricCombiner vs) = sum_list (map rows_of vs)"
  "count_of w (fabricCombiner vs) = total_count w vs"
  "words_of (fabricCombiner vs) = all_words vs"
  using partial_of_numbers [where ks = "sorted_list_of_set (all_words vs)" and f = "\<lambda>k. total_count k vs" and v = "fabricCombiner vs"]
    finite_words [of vs] words_no_proto [of vs] count_outside [of w vs]
  by (auto simp: fabricCombiner_form asRecord_def)

lemma same_sums: "mset vs = mset ws \<Longrightarrow> sum_list (map f vs) = (sum_list (map f ws) :: rat)"
  by (simp flip: sum_mset_sum_list)

text \<open>The distributed merge is a plain sum: merging partials in groups and merging the merges gives, to
  the last key, what one merge of all of them gives, and the order of the inputs does not matter;
  every word's count and the number of rows are the sums over the inputs, and an input that is
  not a partial adds nothing.\<close>

theorem fabric_merge_is_a_sum:
  shows "fabricCombiner (map fabricCombiner groups) = fabricCombiner (concat groups) \<and>
    (mset vs = mset ws \<longrightarrow> fabricCombiner vs = fabricCombiner ws) \<and>
    rows_of (fabricCombiner vs) = sum_list (map rows_of vs) \<and>
    count_of w (fabricCombiner vs) = sum_list (map (count_of w) vs) \<and>
    (\<forall>v. asFabricPartial v = None \<longrightarrow> fabricCombiner (v # vs) = fabricCombiner vs)"
proof -
  have words: "all_words (map fabricCombiner groups) = all_words (concat groups)"
    by (simp add: all_words_def combined_says)
  have counts: "total_count k (map fabricCombiner groups) = total_count k (concat groups)" for k
    by (induction groups) (simp_all add: total_count_def combined_says [unfolded total_count_def])
  have rows: "sum_list (map rows_of (map fabricCombiner groups)) = sum_list (map rows_of (concat groups))"
    by (induction groups) (simp_all add: combined_says)
  have "fabricCombiner (map fabricCombiner groups) = fabricCombiner (concat groups)"
    unfolding fabricCombiner_form [of "map fabricCombiner groups"] fabricCombiner_form [of "concat groups"] words counts rows ..
  moreover have "fabricCombiner vs = fabricCombiner ws" if "mset vs = mset ws"
  proof -
    have "all_words vs = all_words ws" using mset_eq_setD [OF that] by (simp add: all_words_def)
    moreover have "total_count k vs = total_count k ws" for k
      unfolding total_count_def using that by (rule same_sums)
    moreover have "sum_list (map rows_of vs) = sum_list (map rows_of ws)" using that by (rule same_sums)
    ultimately show ?thesis by (simp add: fabricCombiner_form)
  qed
  moreover have "fabricCombiner (v # vs) = fabricCombiner vs" if "asFabricPartial v = None" for v
    using that by (simp add: fabricCombiner_def add_input_def)
  ultimately show ?thesis by (simp add: combined_says(1) combined_says(2) [unfolded total_count_def])
qed

definition demo_partial :: "rat \<Rightarrow> cvalue" where
  "demo_partial n = CObj [(''rows'', CNum (Fin 1)), (''counts'', CObj [(''w'', CNum (Fin n))])]"

theorem fabric_merge_is_a_sum_witness:
  "fabricCombiner [demo_partial 1, CNull, demo_partial 2] = fabricCombiner [CNull, demo_partial 2, demo_partial 1] \<and>
   fabricCombiner (CNull # [demo_partial 2, demo_partial 1]) = fabricCombiner [demo_partial 2, demo_partial 1]"
  using fabric_merge_is_a_sum [of undefined "[demo_partial 1, CNull, demo_partial 2]" "[CNull, demo_partial 2, demo_partial 1]"]
    fabric_merge_is_a_sum [of undefined "[demo_partial 2, demo_partial 1]"]
  by (simp add: asFabricPartial_def asRecord_def add_mset_commute)

text \<open>The codec keeps what a merge says.\<close>

lemma dag_combined_says:
  "rows_of (dag_sorted (fabricCombiner vs)) = sum_list (map rows_of vs)"
  "count_of w (dag_sorted (fabricCombiner vs)) = total_count w vs"
proof -
  let ?ks = "sorted_list_of_set (all_words vs)" and ?f = "\<lambda>k. total_count k vs"
  let ?es = "[(''counts'', CObj (map (\<lambda>k. (k, CNum (Fin (?f k)))) ?ks)), (''rows'', CNum (Fin (sum_list (map rows_of vs))))]"
  let ?zs = "js_sort dag_key_cmp (map (\<lambda>k. (k, CNum (Fin (?f k)))) ?ks)"
  obtain rs where rs: "dag_sorted (CObj ?es) = CObj rs" by simp
  have m: "mset ?zs = mset (map (\<lambda>k. (k, CNum (Fin (?f k)))) ?ks)" by simp
  have z: "?zs = map (\<lambda>k. (k, CNum (Fin (?f k)))) (map fst ?zs)"
    unfolding map_map by (rule map_idI [symmetric]) auto
  have "mset (map fst ?zs) = mset (map fst (map (\<lambda>k. (k, CNum (Fin (?f k)))) ?ks))" by (simp only: mset_map m)
  then have "mset (map fst ?zs) = mset ?ks" by (simp only: map_map o_def fst_conv map_ident)
  then have k: "set (map fst ?zs) = all_words vs" "distinct (map fst ?zs)"
    using finite_words [of vs] by (metis mset_eq_setD set_sorted_list_of_set) (metis \<open>mset (map fst ?zs) = mset ?ks\<close>
      distinct_sorted_list_of_set mset_eq_imp_distinct_iff)
  have "map_get rs ''counts'' = Some (CObj (map (\<lambda>k. (k, CNum (Fin (?f k)))) (map fst ?zs)))"
    using map_get_dag [OF _ rs, of "''counts''"] z by (simp add: o_def)
  moreover have "map_get rs ''rows'' = Some (CNum (Fin (sum_list (map rows_of vs))))"
    using map_get_dag [OF _ rs, of "''rows''"] by simp
  moreover have "asRecord (dag_sorted (fabricCombiner vs)) = Some rs"
    unfolding fabricCombiner_form rs by (simp add: asRecord_def)
  ultimately show "rows_of (dag_sorted (fabricCombiner vs)) = sum_list (map rows_of vs)"
    "count_of w (dag_sorted (fabricCombiner vs)) = total_count w vs"
    using partial_of_numbers [OF k(2), of "dag_sorted (fabricCombiner vs)" rs ?f] k(1) words_no_proto [of vs] count_outside [of w vs]
    by simp_all
qed

end
