(* ===== verification/Commit_Store.thy ===== *)
theory Commit_Store
  imports Verify
begin

text \<open>
  The answers a node has committed to and not yet revealed: \<open>packages/net/src/commit-store.ts\<close>.

  \<open>commit_store\<close> is the state of \<open>PendingCommitments\<close>.  The handle a reservation mints is drawn by the platform:
  \<open>randomBytes\<close> is a function from a length to that many bytes.  The node executes between \<open>reserve\<close> and
  \<open>file\<close>, so several reservations can be open at once; \<open>commit_step\<close> is any interleaving of them.
\<close>

definition MAX_PENDING_COMMITMENTS :: nat where
  "MAX_PENDING_COMMITMENTS = 64"

definition PENDING_COMMITMENT_TTL_MS :: rat where
  "PENDING_COMMITMENT_TTL_MS = 120000"

definition HANDLE_BYTES :: nat where
  "HANDLE_BYTES = 16"

record pending_commitment =
  pc_committedBy :: string
  pc_nonce :: bytes
  pc_executed :: executed
  pc_at :: rat

record commit_store =
  cs_entries :: "(string, pending_commitment) jsmap"
  cs_nodeId :: string

definition new_commit_store :: "string \<Rightarrow> commit_store" where
  "new_commit_store nodeId = \<lparr>cs_entries = [], cs_nodeId = nodeId\<rparr>"

definition expire_commitments :: "rat \<Rightarrow> commit_store \<Rightarrow> commit_store" where
  "expire_commitments now s = s\<lparr>cs_entries := filter (\<lambda>e. \<not> now - pc_at (snd e) \<ge> PENDING_COMMITMENT_TTL_MS) (cs_entries s)\<rparr>"

definition pending_size :: "rat \<Rightarrow> commit_store \<Rightarrow> nat \<times> commit_store" where
  "pending_size now s = (let s' = expire_commitments now s in (length (cs_entries s'), s'))"

text \<open>A refusal carries the numbers its message shows.\<close>

datatype reserve_outcome = Reserved string | Commitments_full nat nat string

definition reserve :: "(nat \<Rightarrow> bytes) \<Rightarrow> rat \<Rightarrow> commit_store \<Rightarrow> reserve_outcome \<times> commit_store" where
  "reserve randomBytes now s =
     (let s' = expire_commitments now s
      in if length (cs_entries s') \<ge> MAX_PENDING_COMMITMENTS
         then (Commitments_full (length (cs_entries s')) MAX_PENDING_COMMITMENTS (cs_nodeId s'), s')
         else (Reserved (toHex (randomBytes HANDLE_BYTES)), s'))"

definition file_commitment :: "string \<Rightarrow> pending_commitment \<Rightarrow> commit_store \<Rightarrow> commit_store" where
  "file_commitment handle p s = s\<lparr>cs_entries := map_set handle p (cs_entries s)\<rparr>"

datatype take_outcome = Taken pending_commitment | No_such_commitment string | Made_to_another_peer string

definition take_commitment :: "string \<Rightarrow> string \<Rightarrow> rat \<Rightarrow> commit_store \<Rightarrow> take_outcome \<times> commit_store" where
  "take_commitment handle by' now s =
     (let s' = expire_commitments now s
      in case map_get (cs_entries s') handle of
           None \<Rightarrow> (No_such_commitment (cs_nodeId s'), s')
         | Some p \<Rightarrow>
             if pc_committedBy p \<noteq> by' then (Made_to_another_peer (cs_nodeId s'), s')
             else (Taken p, s'\<lparr>cs_entries := map_delete handle (cs_entries s')\<rparr>))"

section \<open>Histories\<close>

text \<open>
  The store with what has happened to it: the handles claimed and not yet used, every answer filed,
  every answer handed out.  \<open>Claim\<close> assumes a handle that was not drawn before.
\<close>

record commit_history =
  ch_store :: commit_store
  ch_claimed :: "string list"
  ch_filed :: "(string \<times> pending_commitment) list"
  ch_taken :: "(string \<times> string \<times> rat) list"

inductive commit_step :: "commit_history \<Rightarrow> commit_history \<Rightarrow> bool" where
  Claim: "reserve r now (ch_store h) = (Reserved i, s) \<Longrightarrow> i \<notin> set (ch_claimed h) \<Longrightarrow> i \<notin> fst ` set (ch_filed h) \<Longrightarrow>
    commit_step h (h\<lparr>ch_store := s, ch_claimed := i # ch_claimed h\<rparr>)"
| Claim_refused: "reserve r now (ch_store h) = (Commitments_full a b c, s) \<Longrightarrow> commit_step h (h\<lparr>ch_store := s\<rparr>)"
| File_answer: "i \<in> set (ch_claimed h) \<Longrightarrow>
    commit_step h (h\<lparr>ch_store := file_commitment i p (ch_store h), ch_claimed := remove1 i (ch_claimed h),
                    ch_filed := (i, p) # ch_filed h\<rparr>)"
| Give_up: "i \<in> set (ch_claimed h) \<Longrightarrow> commit_step h (h\<lparr>ch_claimed := remove1 i (ch_claimed h)\<rparr>)"
| Hand_out: "take_commitment i by' now (ch_store h) = (Taken p, s) \<Longrightarrow>
    commit_step h (h\<lparr>ch_store := s, ch_taken := (i, by', now) # ch_taken h\<rparr>)"
| Hand_out_refused: "take_commitment i by' now (ch_store h) = (out, s) \<Longrightarrow> \<forall>p. out \<noteq> Taken p \<Longrightarrow>
    commit_step h (h\<lparr>ch_store := s\<rparr>)"

inductive commit_reachable :: "nat \<Rightarrow> string \<Rightarrow> commit_history \<Rightarrow> bool" for k n where
  commit_start: "commit_reachable k n \<lparr>ch_store = new_commit_store n, ch_claimed = [], ch_filed = [], ch_taken = []\<rparr>"
| commit_next: "commit_reachable k n h \<Longrightarrow> commit_step h h' \<Longrightarrow> length (ch_claimed h') \<le> k \<Longrightarrow> commit_reachable k n h'"

definition answers_ok :: "(string \<times> pending_commitment) list \<Rightarrow> (string \<times> string \<times> rat) list \<Rightarrow> bool" where
  "answers_ok filed taken \<longleftrightarrow>
     (\<forall>(i, by', now) \<in> set taken. \<exists>p. (i, p) \<in> set filed \<and> pc_committedBy p = by' \<and> now - pc_at p < PENDING_COMMITMENT_TTL_MS)"

definition parts_ok ::
  "nat \<Rightarrow> (string, pending_commitment) jsmap \<Rightarrow> string list \<Rightarrow> (string \<times> pending_commitment) list
    \<Rightarrow> (string \<times> string \<times> rat) list \<Rightarrow> bool" where
  "parts_ok k entries claimed filed taken \<longleftrightarrow>
     map_ok entries \<and> set entries \<subseteq> set filed \<and> distinct (claimed @ map fst filed) \<and> distinct (map fst taken) \<and>
     (\<forall>i. map_get entries i \<noteq> None \<longrightarrow> i \<notin> fst ` set taken) \<and> answers_ok filed taken \<and>
     length entries + length claimed \<le> MAX_PENDING_COMMITMENTS - 1 + k"

definition history_ok :: "nat \<Rightarrow> commit_history \<Rightarrow> bool" where
  "history_ok k h = parts_ok k (cs_entries (ch_store h)) (ch_claimed h) (ch_filed h) (ch_taken h)"

lemmas parts_okD = parts_ok_def [THEN iffD1]
lemmas history_okD = history_ok_def [THEN iffD1, THEN parts_okD]

lemma answers_ok_Cons: "answers_ok filed taken \<Longrightarrow> answers_ok (e # filed) taken"
  unfolding answers_ok_def by fastforce

lemma answers_taken_filed: "answers_ok filed taken \<Longrightarrow> fst ` set taken \<subseteq> fst ` set filed"
  unfolding answers_ok_def by force

lemma expire_facts:
  "set (cs_entries (expire_commitments now s)) \<subseteq> set (cs_entries s)"
  "map_ok (cs_entries s) \<Longrightarrow> map_ok (cs_entries (expire_commitments now s))"
  "length (cs_entries (expire_commitments now s)) \<le> length (cs_entries s)"
  "(i, p) \<in> set (cs_entries (expire_commitments now s)) \<Longrightarrow> now - pc_at p < PENDING_COMMITMENT_TTL_MS"
  by (auto simp: expire_commitments_def distinct_map_filter)

lemma reserve_store: "reserve r now s = (out, s') \<Longrightarrow> s' = expire_commitments now s"
  by (auto simp: reserve_def Let_def split: if_splits)

lemma reserve_room: "reserve r now s = (Reserved i, s') \<Longrightarrow> length (cs_entries s') < MAX_PENDING_COMMITMENTS"
  by (auto simp: reserve_def Let_def split: if_splits)

lemma take_Taken:
  assumes "take_commitment i by' now s = (Taken p, s')"
  shows "map_get (cs_entries (expire_commitments now s)) i = Some p" "pc_committedBy p = by'"
    "cs_entries s' = map_delete i (cs_entries (expire_commitments now s))"
  using assms by (auto simp: take_commitment_def Let_def split: option.splits if_splits)

lemma take_other: "take_commitment i by' now s = (out, s') \<Longrightarrow> \<forall>p. out \<noteq> Taken p \<Longrightarrow> s' = expire_commitments now s"
  by (auto simp: take_commitment_def Let_def split: option.splits if_splits)

lemma expire_get: "map_ok (cs_entries s) \<Longrightarrow> map_get (cs_entries (expire_commitments now s)) i \<noteq> None \<Longrightarrow> map_get (cs_entries s) i \<noteq> None"
proof -
  assume ok: "map_ok (cs_entries s)" and "map_get (cs_entries (expire_commitments now s)) i \<noteq> None"
  then obtain p where "(i, p) \<in> set (cs_entries (expire_commitments now s))" using map_get_mem by fast
  then have "(i, p) \<in> set (cs_entries s)" using expire_facts(1) by fast
  then show ?thesis by (simp add: map_get_iff [OF ok, symmetric])
qed

lemma parts_ok_expire:
  assumes "history_ok k h"
  shows "parts_ok k (cs_entries (expire_commitments now (ch_store h))) (ch_claimed h) (ch_filed h) (ch_taken h)"
proof -
  note ok = history_okD [OF assms]
  have "map_ok (cs_entries (expire_commitments now (ch_store h)))" using ok by (intro expire_facts(2)) blast
  moreover have "set (cs_entries (expire_commitments now (ch_store h))) \<subseteq> set (ch_filed h)"
    using ok expire_facts(1) by blast
  moreover have "\<forall>i. map_get (cs_entries (expire_commitments now (ch_store h))) i \<noteq> None \<longrightarrow> i \<notin> fst ` set (ch_taken h)"
    using ok expire_get by blast
  moreover have "length (cs_entries (expire_commitments now (ch_store h))) + length (ch_claimed h) \<le> MAX_PENDING_COMMITMENTS - 1 + k"
    using ok expire_facts(3) [where now = now and s = "ch_store h"] by linarith
  ultimately show ?thesis using ok unfolding parts_ok_def by blast
qed

lemma history_ok_expire: "history_ok k h \<Longrightarrow> history_ok k (h\<lparr>ch_store := expire_commitments now (ch_store h)\<rparr>)"
  using parts_ok_expire by (simp add: history_ok_def)

lemma length_delete_le: "length (map_delete i m) \<le> length m"
  by (simp add: map_delete_filter)

lemma length_set_le: "length (map_set i v m) \<le> Suc (length m)"
  by (induction m) auto

lemma history_ok_step:
  assumes "commit_step h h'" "history_ok k h" "length (ch_claimed h') \<le> k"
  shows "history_ok k h'"
  using assms
proof (cases rule: commit_step.cases)
  case (Claim r now i s)
  have s: "s = expire_commitments now (ch_store h)" by (rule reserve_store [OF Claim(2)])
  note ok = parts_okD [OF parts_ok_expire [OF assms(2), of now], folded s]
  have "distinct ((i # ch_claimed h) @ map fst (ch_filed h))" using ok Claim(3,4) by auto
  moreover have "length (i # ch_claimed h) \<le> k" using assms(3) unfolding Claim(1) by simp
  then have "length (cs_entries s) + length (i # ch_claimed h) \<le> MAX_PENDING_COMMITMENTS - 1 + k"
    using reserve_room [OF Claim(2)] by linarith
  ultimately have "parts_ok k (cs_entries s) (i # ch_claimed h) (ch_filed h) (ch_taken h)"
    using ok unfolding parts_ok_def by blast
  then show ?thesis unfolding Claim(1) history_ok_def by simp
next
  case (Claim_refused r now a b c s)
  then show ?thesis using history_ok_expire [OF assms(2)] reserve_store by blast
next
  case (File_answer i p)
  let ?m = "cs_entries (ch_store h)"
  note ok = history_okD [OF assms(2)]
  have d: "distinct (ch_claimed h @ map fst (ch_filed h))" and m: "map_ok ?m" using ok by blast+
  from d File_answer(2) have c: "i \<notin> fst ` set (ch_filed h)" by auto
  have t: "i \<notin> fst ` set (ch_taken h)" using answers_taken_filed ok c by blast
  have 1: "set (map_set i p ?m) \<subseteq> set ((i, p) # ch_filed h)"
    using map_set_mem [OF m, of _ _ i p] ok by (auto split: if_splits)
  have 2: "length (map_set i p ?m) + length (remove1 i (ch_claimed h)) \<le> MAX_PENDING_COMMITMENTS - 1 + k"
  proof -
    have "length (remove1 i (ch_claimed h)) = length (ch_claimed h) - 1" using File_answer(2) by (simp add: length_remove1)
    moreover have "length ?m + length (ch_claimed h) \<le> MAX_PENDING_COMMITMENTS - 1 + k" using ok by blast
    ultimately show ?thesis using length_set_le [of i p ?m] length_pos_if_in_set [OF File_answer(2)] by linarith
  qed
  have 3: "distinct (remove1 i (ch_claimed h) @ map fst ((i, p) # ch_filed h))"
    using d c by (auto dest: notin_set_remove1)
  have 4: "\<forall>j. map_get (map_set i p ?m) j \<noteq> None \<longrightarrow> j \<notin> fst ` set (ch_taken h)"
    using ok t by simp
  have 5: "answers_ok ((i, p) # ch_filed h) (ch_taken h)" using ok by (intro answers_ok_Cons) blast
  have "parts_ok k (map_set i p ?m) (remove1 i (ch_claimed h)) ((i, p) # ch_filed h) (ch_taken h)"
    unfolding parts_ok_def using 1 2 3 4 5 ok map_ok_set [OF m] by blast
  then show ?thesis unfolding File_answer(1) history_ok_def file_commitment_def by simp
next
  case (Give_up i)
  note ok = history_okD [OF assms(2)]
  have "distinct (ch_claimed h @ map fst (ch_filed h))" using ok by blast
  then have "distinct (remove1 i (ch_claimed h) @ map fst (ch_filed h))" by (auto dest: notin_set_remove1)
  moreover have "length (cs_entries (ch_store h)) + length (remove1 i (ch_claimed h)) \<le> MAX_PENDING_COMMITMENTS - 1 + k"
  proof -
    have "length (cs_entries (ch_store h)) + length (ch_claimed h) \<le> MAX_PENDING_COMMITMENTS - 1 + k" using ok by blast
    moreover have "length (remove1 i (ch_claimed h)) \<le> length (ch_claimed h)" by (simp add: length_remove1)
    ultimately show ?thesis by linarith
  qed
  ultimately have "parts_ok k (cs_entries (ch_store h)) (remove1 i (ch_claimed h)) (ch_filed h) (ch_taken h)"
    using ok unfolding parts_ok_def by blast
  then show ?thesis unfolding Give_up(1) history_ok_def by simp
next
  case (Hand_out i by' now p s)
  let ?m = "cs_entries (expire_commitments now (ch_store h))"
  note t = take_Taken [OF Hand_out(2)]
  note ok = parts_okD [OF parts_ok_expire [OF assms(2), of now]]
  have mem: "(i, p) \<in> set ?m" using t(1) by (rule map_get_mem)
  have f: "(i, p) \<in> set (ch_filed h)" using ok mem by blast
  have n: "i \<notin> fst ` set (ch_taken h)" using ok t(1) by (metis option.distinct(1))
  have 1: "answers_ok (ch_filed h) ((i, by', now) # ch_taken h)"
    using ok f t(2) expire_facts(4) [OF mem] unfolding answers_ok_def by auto
  have 2: "\<forall>j. map_get (map_delete i ?m) j \<noteq> None \<longrightarrow> j \<notin> fst ` set ((i, by', now) # ch_taken h)"
    using ok by simp
  have 3: "set (map_delete i ?m) \<subseteq> set (ch_filed h)" using ok by (auto simp: map_delete_filter)
  have 4: "length (map_delete i ?m) + length (ch_claimed h) \<le> MAX_PENDING_COMMITMENTS - 1 + k"
    using ok length_delete_le [of i ?m] by linarith
  have 5: "distinct (map fst ((i, by', now) # ch_taken h))" using ok n by simp
  have "parts_ok k (map_delete i ?m) (ch_claimed h) (ch_filed h) ((i, by', now) # ch_taken h)"
    unfolding parts_ok_def
    by (intro conjI 1 2 3 4 5) (use ok in \<open>simp_all only: map_ok_delete\<close>)
  then show ?thesis unfolding Hand_out(1) history_ok_def by (simp add: t(3))
next
  case (Hand_out_refused i by' now out s)
  then show ?thesis using history_ok_expire [OF assms(2)] take_other by blast
qed

lemma history_ok_reachable: "commit_reachable k n h \<Longrightarrow> history_ok k h"
proof (induction rule: commit_reachable.induct)
  case commit_start
  show ?case by (simp add: history_ok_def parts_ok_def new_commit_store_def answers_ok_def)
qed (rule history_ok_step)

text \<open>C20: A committed answer goes to the peer it was committed to, once, and not after its time: along any
  interleaving of claims, answers filed, reveals asked for by anybody and expiries, every answer
  handed out was filed under the handle asked for, for the peer that asked, less than the time
  to live before; and no handle is served twice.\<close>

theorem revealed_once_to_the_committer:
  assumes "commit_reachable k n h"
  shows "distinct (map fst (ch_taken h)) \<and>
    (\<forall>(i, by', now) \<in> set (ch_taken h).
       \<exists>p. (i, p) \<in> set (ch_filed h) \<and> pc_committedBy p = by' \<and> now - pc_at p < PENDING_COMMITMENT_TTL_MS)"
  using history_okD [OF history_ok_reachable [OF assms]] unfolding answers_ok_def by blast

text \<open>What a node holds is bounded, by its limit and its concurrency: with at most \<open>k\<close> commitments being
  computed at a time, no more than \<open>63 + k\<close> answers are ever held, and the handles are distinct.\<close>

theorem pending_answers_bounded:
  assumes "commit_reachable k n h"
  shows "length (cs_entries (ch_store h)) + length (ch_claimed h) \<le> MAX_PENDING_COMMITMENTS - 1 + k \<and>
    distinct (map_keys (cs_entries (ch_store h)))"
  using history_okD [OF history_ok_reachable [OF assms]] by blast

text \<open>The limit itself is not a bound: \<open>reserve\<close> does not count what it has promised, so two claims made one
  after the other with one place left are both granted, and both answers are then held.\<close>

lemma two_claims_pass_the_limit:
  assumes "length (cs_entries s) = MAX_PENDING_COMMITMENTS - 1" "\<forall>e \<in> set (cs_entries s). now - pc_at (snd e) < PENDING_COMMITMENT_TTL_MS"
    and "i \<notin> set (map_keys (cs_entries s))" "j \<notin> set (map_keys (cs_entries s))" "i \<noteq> j"
    and "toHex (r HANDLE_BYTES) = i" "toHex (r' HANDLE_BYTES) = j"
  shows "reserve r now s = (Reserved i, s) \<and> reserve r' now s = (Reserved j, s) \<and>
    length (cs_entries (file_commitment j q (file_commitment i p s))) = MAX_PENDING_COMMITMENTS + 1"
proof -
  have "filter (\<lambda>e. \<not> now - pc_at (snd e) \<ge> PENDING_COMMITMENT_TTL_MS) (cs_entries s) = cs_entries s"
    using assms(2) by (intro filter_True) auto
  then have "expire_commitments now s = s" by (simp add: expire_commitments_def)
  moreover have "map_set j q (map_set i p (cs_entries s)) = cs_entries s @ [(i, p), (j, q)]"
    using assms(3-5) map_set_fresh [of i "cs_entries s" p] map_set_fresh [of j "cs_entries s @ [(i, p)]" q] by simp
  ultimately show ?thesis using assms(1,6,7)
    by (simp add: reserve_def file_commitment_def MAX_PENDING_COMMITMENTS_def)
qed

definition demo_pending :: pending_commitment where
  "demo_pending = \<lparr>pc_committedBy = ''peer'', pc_nonce = [1], pc_executed = demo_executed True, pc_at = 0\<rparr>"

definition demo_commit_history :: commit_history where
  "demo_commit_history = \<lparr>ch_store = new_commit_store ''n'', ch_claimed = [], ch_filed = [(toHex [1], demo_pending)],
     ch_taken = [(toHex [1], ''peer'', 5)]\<rparr>"

lemma demo_commit_reachable: "commit_reachable 1 ''n'' demo_commit_history"
proof -
  let ?h0 = "\<lparr>ch_store = new_commit_store ''n'', ch_claimed = [], ch_filed = [], ch_taken = []\<rparr>"
  let ?h1 = "?h0\<lparr>ch_store := new_commit_store ''n'', ch_claimed := [toHex [1]]\<rparr>"
  let ?h2 = "?h1\<lparr>ch_store := file_commitment (toHex [1]) demo_pending (ch_store ?h1), ch_claimed := remove1 (toHex [1]) (ch_claimed ?h1),
    ch_filed := (toHex [1], demo_pending) # ch_filed ?h1\<rparr>"
  have "commit_step ?h0 (?h0\<lparr>ch_store := new_commit_store ''n'', ch_claimed := toHex [1] # ch_claimed ?h0\<rparr>)"
    by (rule Claim [of "\<lambda>_. [1]" 0])
      (simp_all add: reserve_def expire_commitments_def new_commit_store_def MAX_PENDING_COMMITMENTS_def del: toHex.simps)
  then have 1: "commit_reachable 1 ''n'' ?h1" by (intro commit_next [OF commit_start]) simp_all
  have 2: "commit_reachable 1 ''n'' ?h2" by (rule commit_next [OF 1 File_answer]) (simp_all del: toHex.simps)
  have "take_commitment (toHex [1]) ''peer'' 5 (ch_store ?h2) = (Taken demo_pending, new_commit_store ''n'')"
    by (simp add: take_commitment_def expire_commitments_def file_commitment_def new_commit_store_def demo_pending_def
        PENDING_COMMITMENT_TTL_MS_def Let_def del: toHex.simps)
  from commit_next [OF 2 Hand_out [OF this]] show ?thesis by (simp add: demo_commit_history_def del: toHex.simps)
qed

theorem revealed_once_to_the_committer_witness:
  "\<exists>p. (toHex [1], p) \<in> set (ch_filed demo_commit_history) \<and> pc_committedBy p = ''peer'' \<and> 5 - pc_at p < PENDING_COMMITMENT_TTL_MS"
  using revealed_once_to_the_committer [OF demo_commit_reachable] by (simp add: demo_commit_history_def del: toHex.simps)

theorem pending_answers_bounded_witness:
  "length (cs_entries (ch_store demo_commit_history)) + length (ch_claimed demo_commit_history) \<le> 64"
  using pending_answers_bounded [OF demo_commit_reachable] by (simp add: MAX_PENDING_COMMITMENTS_def)

end
