(* ===== verification/Transport.thy ===== *)
theory Transport
  imports Canonical
begin

text \<open>
  The \<open>Transport\<close> port of \<open>packages/core/src/ports.ts\<close> and the in-process network of
  \<open>packages/core/src/transport/memory.ts\<close>.

  A handler is a token: what it does when called is its owner's.  The set of handlers of a peer is an
  object that an unsubscribe closure keeps after the peer has gone, so the sets live in a store and
  a peer names one.  \<open>route\<close> gives the calls it makes, in order.
\<close>

type_synonym ('e, 's) sender = "string \<Rightarrow> bytes \<Rightarrow> 's \<Rightarrow> ('e + unit) \<times> 's"

text \<open>What a decorator of a transport may rely on: a send puts the frame it was given on the wire, or nothing.\<close>

locale transport =
  fixes send :: "('e, 's) sender"
    and wire :: "'s \<Rightarrow> (string \<times> bytes) list"
  assumes send_wire: "send to m s = (out, s') \<Longrightarrow> wire s' = wire s \<or> wire s' = wire s @ [(to, m)]"
begin

lemma sent_now: "send to m s = (out, s') \<Longrightarrow> f \<in> set (drop (length (wire s)) (wire s')) \<Longrightarrow> f = (to, m)"
  using send_wire [of to m s out s'] by auto

lemma wire_grows: "send to m s = (out, s') \<Longrightarrow> wire s' = wire s @ drop (length (wire s)) (wire s')"
  using send_wire [of to m s out s'] by auto

end

datatype send_error = Unknown_peer string | Peer_unreachable string

type_synonym handler = nat

record network =
  nw_handlers :: "(string, nat) jsmap"
  nw_sets :: "handler list list"
  nw_unreachable :: "string list"
  nw_delivered :: nat

definition new_network :: network where
  "new_network = \<lparr>nw_handlers = [], nw_sets = [], nw_unreachable = [], nw_delivered = 0\<rparr>"

definition connect :: "string \<Rightarrow> network \<Rightarrow> string + network" where
  "connect localId n =
     (if map_get (nw_handlers n) localId \<noteq> None then Inl localId
      else Inr (n\<lparr>nw_handlers := map_set localId (length (nw_sets n)) (nw_handlers n), nw_sets := nw_sets n @ [[]]\<rparr>))"

definition disconnect :: "string \<Rightarrow> network \<Rightarrow> network" where
  "disconnect localId n =
     n\<lparr>nw_handlers := map_delete localId (nw_handlers n), nw_unreachable := remove1 localId (nw_unreachable n)\<rparr>"

definition partition :: "string \<Rightarrow> network \<Rightarrow> network" where
  "partition localId n = n\<lparr>nw_unreachable := set_add localId (nw_unreachable n)\<rparr>"

definition heal :: "string \<Rightarrow> network \<Rightarrow> network" where
  "heal localId n = n\<lparr>nw_unreachable := remove1 localId (nw_unreachable n)\<rparr>"

definition network_peers :: "network \<Rightarrow> string list" where
  "network_peers n = map_keys (nw_handlers n)"

text \<open>The closure \<open>register\<close> returns holds the set it added to.\<close>

record subscription =
  sb_set :: nat
  sb_handler :: handler

definition register :: "string \<Rightarrow> handler \<Rightarrow> network \<Rightarrow> string + subscription \<times> network" where
  "register localId handler n =
     (case map_get (nw_handlers n) localId of
        None \<Rightarrow> Inl localId
      | Some r \<Rightarrow> Inr (\<lparr>sb_set = r, sb_handler = handler\<rparr>, n\<lparr>nw_sets := (nw_sets n)[r := set_add handler (nw_sets n ! r)]\<rparr>))"

definition unsubscribe :: "subscription \<Rightarrow> network \<Rightarrow> network" where
  "unsubscribe s n = n\<lparr>nw_sets := (nw_sets n)[sb_set s := remove1 (sb_handler s) (nw_sets n ! sb_set s)]\<rparr>"

record delivery =
  dl_handler :: handler
  dl_from :: string
  dl_message :: bytes

definition route :: "string \<Rightarrow> string \<Rightarrow> bytes \<Rightarrow> network \<Rightarrow> send_error + delivery list \<times> network" where
  "route from to message n =
     (case map_get (nw_handlers n) to of
        None \<Rightarrow> Inl (Unknown_peer to)
      | Some r \<Rightarrow>
          if to \<in> set (nw_unreachable n) then Inl (Peer_unreachable to)
          else Inr (map (\<lambda>h. \<lparr>dl_handler = h, dl_from = from, dl_message = message\<rparr>) (nw_sets n ! r),
                    n\<lparr>nw_delivered := nw_delivered n + 1\<rparr>))"

text \<open>
  One node's transport over the network.  The state keeps, beside the network, the handler calls made
  (they are the receivers' to act on) and, for reasoning, the frames this node has put on the wire.
\<close>

record wired_network =
  wn_network :: network
  wn_calls :: "delivery list"
  wn_wire :: "(string \<times> bytes) list"

definition memory_send :: "string \<Rightarrow> (send_error, wired_network) sender" where
  "memory_send localId to message w =
     (case route localId to message (wn_network w) of
        Inl e \<Rightarrow> (Inl e, w)
      | Inr (calls, n) \<Rightarrow>
          (Inr (), \<lparr>wn_network = n, wn_calls = wn_calls w @ calls, wn_wire = wn_wire w @ [(to, message)]\<rparr>))"

definition memory_peers :: "string \<Rightarrow> network \<Rightarrow> string list" where
  "memory_peers localId n = filter (\<lambda>p. p \<noteq> localId) (network_peers n)"

interpretation mem_net: transport "memory_send localId" wn_wire
  by unfold_locales (auto simp: memory_send_def split: sum.splits)

section \<open>The network\<close>

definition network_ok :: "network \<Rightarrow> bool" where
  "network_ok n \<longleftrightarrow> map_ok (nw_handlers n) \<and> distinct (map_values (nw_handlers n)) \<and>
     (\<forall>r \<in> set (map_values (nw_handlers n)). r < length (nw_sets n)) \<and> (\<forall>s \<in> set (nw_sets n). distinct s) \<and> distinct (nw_unreachable n)"

lemma distinct_values_delete: "distinct (map snd m) \<Longrightarrow> distinct (map snd (map_delete k m))"
  by (simp add: map_delete_filter distinct_map_filter)

lemma list_update_all: "(\<forall>s \<in> set xs. P s) \<Longrightarrow> P x \<Longrightarrow> \<forall>s \<in> set (xs[i := x]). P s"
  using set_update_subset_insert [of xs i x] by blast

lemma sets_distinct: "network_ok n \<Longrightarrow> r < length (nw_sets n) \<Longrightarrow> distinct (nw_sets n ! r)"
  by (simp add: network_ok_def)

lemma handlers_valid: "network_ok n \<Longrightarrow> map_get (nw_handlers n) p = Some r \<Longrightarrow> r < length (nw_sets n)"
  using map_get_mem [of "nw_handlers n" p r] by (fastforce simp: network_ok_def)

text \<open>An update of one handler set keeps the invariant.\<close>

lemma network_ok_set: "network_ok n \<Longrightarrow> distinct hs \<Longrightarrow> network_ok (n\<lparr>nw_sets := (nw_sets n)[r := hs]\<rparr>)"
  using list_update_all [of "nw_sets n" distinct hs r] by (simp add: network_ok_def)

lemma network_ok_new: "network_ok new_network"
  by (simp add: network_ok_def new_network_def)

lemma network_ok_connect:
  assumes "network_ok n" "connect p n = Inr n'"
  shows "network_ok n'"
proof -
  from assms(2) have "map_get (nw_handlers n) p = None" and n': "n' = n\<lparr>nw_handlers := nw_handlers n @ [(p, length (nw_sets n))],
      nw_sets := nw_sets n @ [[]]\<rparr>"
    by (auto simp: connect_def map_set_new split: if_splits)
  then have "p \<notin> set (map_keys (nw_handlers n))" by (simp add: map_get_None_iff)
  moreover have r: "\<forall>r \<in> set (map_values (nw_handlers n)). r < length (nw_sets n)"
    using assms(1) unfolding network_ok_def by blast
  moreover have "length (nw_sets n) \<notin> set (map_values (nw_handlers n))"
    using r by blast
  moreover have "\<forall>r \<in> set (map_values (nw_handlers n)). r < Suc (length (nw_sets n))"
    using r less_SucI by blast
  ultimately show ?thesis using assms(1) unfolding network_ok_def n' by simp
qed

lemma network_ok_disconnect: "network_ok n \<Longrightarrow> network_ok (disconnect p n)"
  by (auto simp: network_ok_def disconnect_def distinct_values_delete) (auto simp: map_delete_filter)

lemma network_ok_partition: "network_ok n \<Longrightarrow> network_ok (partition p n)"
  by (simp add: network_ok_def partition_def)

lemma network_ok_heal: "network_ok n \<Longrightarrow> network_ok (heal p n)"
  by (simp add: network_ok_def heal_def)

lemma network_ok_register:
  assumes "network_ok n" "register p h n = Inr (s, n')"
  shows "network_ok n'"
proof -
  from assms(2) obtain r where r: "map_get (nw_handlers n) p = Some r"
    and n': "n' = n\<lparr>nw_sets := (nw_sets n)[r := set_add h (nw_sets n ! r)]\<rparr>"
    by (auto simp: register_def split: option.splits)
  show ?thesis unfolding n'
    by (rule network_ok_set [OF assms(1)]) (simp add: sets_distinct [OF assms(1) handlers_valid [OF assms(1) r]])
qed

lemma network_ok_unsubscribe: "network_ok n \<Longrightarrow> sb_set s < length (nw_sets n) \<Longrightarrow> network_ok (unsubscribe s n)"
  unfolding unsubscribe_def by (rule network_ok_set) (simp_all add: sets_distinct)

text \<open>What a subscriber hears: while it is subscribed and its peer reachable, every frame routed there, once;
  after it has unsubscribed, nothing.\<close>

lemma route_calls:
  assumes "network_ok n" "map_get (nw_handlers n) p = Some r" "p \<notin> set (nw_unreachable n)"
  shows "\<exists>n'. route from p m n = Inr (map (\<lambda>h. \<lparr>dl_handler = h, dl_from = from, dl_message = m\<rparr>) (nw_sets n ! r), n') \<and>
    distinct (nw_sets n ! r)"
  using assms sets_distinct [OF assms(1) handlers_valid [OF assms(1,2)]] by (simp add: route_def)

lemma unsubscribed_hears_nothing:
  assumes "network_ok n" "register p h n = Inr (s, n')" "map_get (nw_handlers n) p = Some r"
  shows "h \<notin> set (nw_sets (unsubscribe s n') ! r)"
proof -
  have r: "r < length (nw_sets n)" using handlers_valid [OF assms(1,3)] .
  then have "distinct (set_add h (nw_sets n ! r))" by (simp add: sets_distinct [OF assms(1)])
  then have "h \<notin> set (remove1 h (set_add h (nw_sets n ! r)))" by (simp only: set_remove1_eq) simp
  then show ?thesis using assms(2,3) r by (auto simp: register_def unsubscribe_def split: option.splits)
qed

text \<open>A peer that left and joined again has a new set: the old subscription does not reach into it.\<close>

lemma rejoin_starts_empty:
  assumes "connect p (disconnect p n) = Inr n'"
  shows "map_get (nw_handlers n') p = Some (length (nw_sets n)) \<and> nw_sets n' ! length (nw_sets n) = []"
  using assms by (auto simp: connect_def disconnect_def split: if_splits)

end
