(* ===== verification/Egress.thy ===== *)
theory Egress
  imports Transport "HOL-Library.Sublist"
begin

text \<open>
  The egress guard: \<open>packages/net/src/egress.ts\<close>, and the hold a node takes before it runs a sovereign
  task, \<open>packages/net/src/sovereign-egress.ts\<close>.

  \<open>egress_guard\<close> is the state of \<open>EgressGuard\<close>; the transport it decorates is a parameter of
  \<open>guard_send\<close>, any \<open>transport\<close>.  A hold is the closure \<open>guard\<close> returns: its label and its \<open>given\<close> flag.
\<close>

record egress_entry =
  ee_to :: string
  ee_bytes :: nat
  ee_violation :: "string option"

record guarded_payload =
  gp_payload :: bytes
  gp_holds :: nat

record egress_guard =
  eg_localId :: string
  eg_ownerId :: string
  eg_entries :: "egress_entry list"
  eg_guarded :: "(string, guarded_payload) jsmap"
  eg_registered :: nat

definition new_egress_guard :: "string \<Rightarrow> string \<Rightarrow> egress_guard" where
  "new_egress_guard localId ownerId =
     \<lparr>eg_localId = localId, eg_ownerId = ownerId, eg_entries = [], eg_guarded = [], eg_registered = 0\<rparr>"

record egress_hold =
  ho_label :: string
  ho_given :: bool

definition guard_payload :: "string \<Rightarrow> bytes \<Rightarrow> egress_guard \<Rightarrow> egress_hold \<times> egress_guard" where
  "guard_payload label payload g =
     (\<lparr>ho_label = label, ho_given = False\<rparr>,
      g\<lparr>eg_guarded := map_set label \<lparr>gp_payload = payload,
             gp_holds = (case map_get (eg_guarded g) label of None \<Rightarrow> 1 | Some held \<Rightarrow> gp_holds held + 1)\<rparr> (eg_guarded g),
        eg_registered := eg_registered g + 1\<rparr>)"

definition release_hold :: "egress_hold \<Rightarrow> egress_guard \<Rightarrow> egress_hold \<times> egress_guard" where
  "release_hold hold g =
     (if ho_given hold then (hold, g)
      else (hold\<lparr>ho_given := True\<rparr>,
        case map_get (eg_guarded g) (ho_label hold) of
          None \<Rightarrow> g
        | Some current \<Rightarrow>
            if gp_holds current \<le> 1 then g\<lparr>eg_guarded := map_delete (ho_label hold) (eg_guarded g)\<rparr>
            else g\<lparr>eg_guarded := map_set (ho_label hold)
                     \<lparr>gp_payload = gp_payload current, gp_holds = gp_holds current - 1\<rparr> (eg_guarded g)\<rparr>))"

definition registrations :: "egress_guard \<Rightarrow> string list" where
  "registrations g = map_keys (eg_guarded g)"

text \<open>The two loops of \<open>contains\<close>; the outer one runs while \<open>start \<le> limit\<close>.\<close>

definition contains :: "bytes \<Rightarrow> bytes \<Rightarrow> bool" where
  "contains haystack needle =
     list_ex (\<lambda>start. list_all (\<lambda>i. haystack ! (start + i) = needle ! i) [0..<length needle])
       [0..<Suc (length haystack) - length needle]"

fun violation_in :: "bytes \<Rightarrow> (string, guarded_payload) jsmap \<Rightarrow> string option" where
  "violation_in frame [] = None"
| "violation_in frame ((label, held) # rest) =
     (if length (gp_payload held) = 0 \<or> length (gp_payload held) > length frame then violation_in frame rest
      else if contains frame (gp_payload held) then Some label else violation_in frame rest)"

definition violationIn :: "bytes \<Rightarrow> egress_guard \<Rightarrow> string option" where
  "violationIn frame g = violation_in frame (eg_guarded g)"

definition record_entry :: "string \<Rightarrow> nat \<Rightarrow> string option \<Rightarrow> egress_guard \<Rightarrow> egress_guard" where
  "record_entry to bytes violation g =
     g\<lparr>eg_entries := eg_entries g @ [\<lparr>ee_to = to, ee_bytes = bytes, ee_violation = violation\<rparr>]\<rparr>"

definition refuse :: "string \<Rightarrow> bytes \<Rightarrow> egress_guard \<Rightarrow> string option \<times> egress_guard" where
  "refuse to frame g =
     (case violationIn frame g of
        None \<Rightarrow> (None, g)
      | Some violation \<Rightarrow> (Some violation, record_entry to (length frame) (Some violation) g))"

datatype 'e guard_failure = Egress_refusal string string nat | Inner_failure 'e

definition guard_send :: "('e, 't) sender \<Rightarrow> ('e guard_failure, egress_guard \<times> 't) sender" where
  "guard_send inner to message s =
     (let (g, t) = s;
          violation = violationIn message g;
          g' = record_entry to (length message) violation g
      in case violation of
           Some v \<Rightarrow> (Inl (Egress_refusal to v (length message)), (g', t))
         | None \<Rightarrow>
             (case inner to message t of
                (Inl e, t') \<Rightarrow> (Inl (Inner_failure e), (g', t'))
              | (Inr u, t') \<Rightarrow> (Inr (), (g', t'))))"

record egress_manifest =
  em_nodeId :: string
  em_ownerId :: string
  em_entries :: "egress_entry list"
  em_totalBytes :: nat
  em_violations :: "string list"
  em_registeredSovereign :: nat

definition manifest :: "egress_guard \<Rightarrow> egress_manifest" where
  "manifest g =
     \<lparr>em_nodeId = eg_localId g, em_ownerId = eg_ownerId g, em_entries = eg_entries g,
      em_totalBytes = foldl (\<lambda>total e. if ee_violation e = None then total + ee_bytes e else total) 0 (eg_entries g),
      em_violations = List.map_filter ee_violation (eg_entries g), em_registeredSovereign = eg_registered g\<rparr>"

definition reset :: "egress_guard \<Rightarrow> egress_guard" where
  "reset g = g\<lparr>eg_entries := [], eg_registered := 0\<rparr>"

section \<open>The scan\<close>

lemma contains_iff: "contains haystack needle \<longleftrightarrow> sublist needle haystack"
proof
  assume "contains haystack needle"
  then obtain start where s: "start < Suc (length haystack) - length needle"
    and eq: "\<forall>i < length needle. haystack ! (start + i) = needle ! i"
    by (auto simp: contains_def list_ex_iff list_all_iff)
  have "take (length needle) (drop start haystack) = needle"
    by (rule nth_equalityI) (use s eq in auto)
  then show "sublist needle haystack"
    by (metis append_take_drop_id sublist_def append_assoc)
next
  assume "sublist needle haystack"
  then obtain ps ss where h: "haystack = ps @ needle @ ss" by (auto simp: sublist_def)
  have "list_all (\<lambda>i. haystack ! (length ps + i) = needle ! i) [0..<length needle]"
    by (auto simp: h list_all_iff nth_append)
  moreover have "length ps \<in> set [0..<Suc (length haystack) - length needle]" by (simp add: h)
  ultimately show "contains haystack needle" unfolding contains_def list_ex_iff by blast
qed

lemma violation_in_None:
  "violation_in frame m = None \<Longrightarrow> (label, held) \<in> set m \<Longrightarrow> gp_payload held \<noteq> [] \<Longrightarrow> \<not> sublist (gp_payload held) frame"
  by (induction frame m rule: violation_in.induct)
    (auto simp: contains_iff split: if_splits dest: sublist_length_le)

lemma violation_in_Some:
  "violation_in frame m = Some label \<Longrightarrow> \<exists>held. (label, held) \<in> set m \<and> gp_payload held \<noteq> [] \<and> sublist (gp_payload held) frame"
  by (induction frame m rule: violation_in.induct) (auto simp: contains_iff split: if_splits)

text \<open>The guard is itself a transport, over any transport, and what it lets pass was clean.\<close>

context transport
begin

lemma guard_send_cases:
  assumes "guard_send send to m (g, t) = (out, (g', t'))"
  shows "g' = record_entry to (length m) (violationIn m g) g"
    "(violationIn m g \<noteq> None \<and> t' = t \<and> out = Inl (Egress_refusal to (the (violationIn m g)) (length m))) \<or>
     (violationIn m g = None \<and> (\<exists>r. send to m t = (r, t') \<and> (out = Inr () \<longleftrightarrow> r = Inr ())))"
  using assms by (auto simp: guard_send_def Let_def split: option.splits prod.splits sum.splits)

lemma guarded_transport: "transport (guard_send send) (\<lambda>s. wire (snd s))"
proof
  fix to m s out s'
  assume a: "guard_send send to m s = (out, s')"
  obtain g t g' t' where "s = (g, t)" "s' = (g', t')" by (metis surj_pair)
  then show "wire (snd s') = wire (snd s) \<or> wire (snd s') = wire (snd s) @ [(to, m)]"
    using guard_send_cases(2) [of to m g t out g' t'] a send_wire [of to m t _ t'] by auto
qed

end

interpretation guarded_mem: transport "guard_send (memory_send localId)" "\<lambda>s. wn_wire (snd s)"
  by (rule mem_net.guarded_transport)

section \<open>Histories of a guarded node\<close>

text \<open>
  \<open>content\<close> gives the bytes of a label: the labels of \<open>takeSovereignHold\<close> are CIDs, which determine them.
  \<open>eh_holds\<close> is every hold ever taken, released or not; \<open>eh_out\<close> pairs each frame on the wire with the
  labels that were held when it went; \<open>eh_reset\<close> is what was on the wire, and how many holds had been
  taken, when the record was last reset.
\<close>

record 't egress_history =
  eh_guard :: egress_guard
  eh_inner :: 't
  eh_holds :: "egress_hold list"
  eh_out :: "((string \<times> bytes) \<times> string list) list"
  eh_reset :: "nat \<times> nat"

definition still_held :: "egress_hold list \<Rightarrow> string list" where
  "still_held hs = map ho_label (filter (\<lambda>h. \<not> ho_given h) hs)"

definition outs_since :: "('t \<Rightarrow> (string \<times> bytes) list) \<Rightarrow> 't \<Rightarrow> 't \<Rightarrow> string list \<Rightarrow> ((string \<times> bytes) \<times> string list) list" where
  "outs_since wire t t' held = map (\<lambda>f. (f, held)) (drop (length (wire t)) (wire t'))"

inductive egress_step ::
  "('e, 't) sender \<Rightarrow> ('t \<Rightarrow> (string \<times> bytes) list) \<Rightarrow> (string \<Rightarrow> bytes) \<Rightarrow> 't egress_history \<Rightarrow> 't egress_history \<Rightarrow> bool"
  for send wire content where
  Hold: "guard_payload label (content label) (eh_guard h) = (ho, g) \<Longrightarrow>
    egress_step send wire content h (h\<lparr>eh_guard := g, eh_holds := eh_holds h @ [ho]\<rparr>)"
| Release: "i < length (eh_holds h) \<Longrightarrow> release_hold (eh_holds h ! i) (eh_guard h) = (ho, g) \<Longrightarrow>
    egress_step send wire content h (h\<lparr>eh_guard := g, eh_holds := (eh_holds h)[i := ho]\<rparr>)"
| Send: "guard_send send to m (eh_guard h, eh_inner h) = (out, (g, t)) \<Longrightarrow>
    egress_step send wire content h
      (h\<lparr>eh_guard := g, eh_inner := t, eh_out := eh_out h @ outs_since wire (eh_inner h) t (still_held (eh_holds h))\<rparr>)"
| Pre_scan: "refuse to m (eh_guard h) = (v, g) \<Longrightarrow> egress_step send wire content h (h\<lparr>eh_guard := g\<rparr>)"
| Reset: "egress_step send wire content h
      (h\<lparr>eh_guard := reset (eh_guard h), eh_reset := (length (wire (eh_inner h)), length (eh_holds h))\<rparr>)"

inductive egress_reachable ::
  "('e, 't) sender \<Rightarrow> ('t \<Rightarrow> (string \<times> bytes) list) \<Rightarrow> (string \<Rightarrow> bytes) \<Rightarrow> 't egress_history \<Rightarrow> bool"
  for send wire content where
  egress_start: "wire t = [] \<Longrightarrow> egress_reachable send wire content
    \<lparr>eh_guard = new_egress_guard n u, eh_inner = t, eh_holds = [], eh_out = [], eh_reset = (0, 0)\<rparr>"
| egress_next: "egress_reachable send wire content h \<Longrightarrow> egress_step send wire content h h' \<Longrightarrow> egress_reachable send wire content h'"

text \<open>The watch list is exactly the still_held holds, counted per label, with the label's bytes.\<close>

definition watch_ok :: "(string \<Rightarrow> bytes) \<Rightarrow> (string, guarded_payload) jsmap \<Rightarrow> string list \<Rightarrow> bool" where
  "watch_ok content m ls \<longleftrightarrow> map_ok m \<and>
     (\<forall>l. map_get m l = (if count_list ls l = 0 then None else Some \<lparr>gp_payload = content l, gp_holds = count_list ls l\<rparr>))"

definition wire_clean :: "(string \<Rightarrow> bytes) \<Rightarrow> ((string \<times> bytes) \<times> string list) list \<Rightarrow> bool" where
  "wire_clean content outs \<longleftrightarrow>
     (\<forall>((to, m), held) \<in> set outs. \<forall>l \<in> set held. content l \<noteq> [] \<longrightarrow> \<not> sublist (content l) m)"

lemma watch_ok_hold:
  assumes "watch_ok content m ls"
  shows "watch_ok content (map_set l \<lparr>gp_payload = content l,
      gp_holds = (case map_get m l of None \<Rightarrow> 1 | Some held \<Rightarrow> gp_holds held + 1)\<rparr> m) (ls @ [l])"
  using assms unfolding watch_ok_def by (auto simp: map_ok_set)

lemma still_held_append: "still_held (hs @ [\<lparr>ho_label = l, ho_given = False\<rparr>]) = still_held hs @ [l]"
  by (simp add: still_held_def)

lemma count_still_held:
  assumes "i < length hs"
  shows "count_list (still_held (hs[i := (hs ! i)\<lparr>ho_given := True\<rparr>])) l =
    count_list (still_held hs) l - (if ho_label (hs ! i) = l \<and> \<not> ho_given (hs ! i) then 1 else 0)"
proof -
  have hs: "hs = take i hs @ hs ! i # drop (Suc i) hs" using assms by (rule id_take_nth_drop)
  have u: "hs[i := x] = take i hs @ x # drop (Suc i) hs" for x using assms by (rule upd_conv_take_nth_drop)
  show ?thesis unfolding u by (subst (4) hs) (simp add: still_held_def)
qed

lemma still_held_mem: "i < length hs \<Longrightarrow> \<not> ho_given (hs ! i) \<Longrightarrow> ho_label (hs ! i) \<in> set (still_held hs)"
  by (auto simp: still_held_def)

lemma watch_ok_release:
  assumes "watch_ok content (eg_guarded g) (still_held hs)" "i < length hs" "release_hold (hs ! i) g = (ho, g')"
  shows "watch_ok content (eg_guarded g') (still_held (hs[i := ho]))"
proof (cases "ho_given (hs ! i)")
  case True
  with assms(3) have "ho = hs ! i" "g' = g" by (simp_all add: release_hold_def)
  with assms(1) show ?thesis by simp
next
  case False
  let ?l = "ho_label (hs ! i)" and ?ls = "still_held hs" and ?ls' = "still_held (hs[i := (hs ! i)\<lparr>ho_given := True\<rparr>])"
  note ok = assms(1) [unfolded watch_ok_def]
  have c: "count_list ?ls' l = count_list ?ls l - (if ?l = l then 1 else 0)" for l
    using count_still_held [OF assms(2), of l] False by simp
  have pos: "count_list ?ls ?l \<noteq> 0" using still_held_mem [OF assms(2) False] by (simp add: count_list_0_iff)
  then have get: "map_get (eg_guarded g) ?l = Some \<lparr>gp_payload = content ?l, gp_holds = count_list ?ls ?l\<rparr>" using ok by simp
  have ho: "ho = (hs ! i)\<lparr>ho_given := True\<rparr>" using assms(3) False by (simp add: release_hold_def)
  show ?thesis
  proof (cases "count_list ?ls ?l \<le> 1")
    case True
    then have "g' = g\<lparr>eg_guarded := map_delete ?l (eg_guarded g)\<rparr>" using assms(3) False get by (simp add: release_hold_def)
    then show ?thesis unfolding watch_ok_def ho c using ok True by simp
  next
    case le: False
    then have "g' = g\<lparr>eg_guarded := map_set ?l \<lparr>gp_payload = content ?l, gp_holds = count_list ?ls ?l - 1\<rparr> (eg_guarded g)\<rparr>"
      using assms(3) False get by (simp add: release_hold_def)
    then show ?thesis unfolding watch_ok_def ho c using ok le by (simp add: map_ok_set)
  qed
qed

lemma watched_clean:
  assumes "watch_ok content (eg_guarded g) ls" "violationIn m g = None" "l \<in> set ls" "content l \<noteq> []"
  shows "\<not> sublist (content l) m"
proof -
  have "map_get (eg_guarded g) l = Some \<lparr>gp_payload = content l, gp_holds = count_list ls l\<rparr>"
    using assms(1,3) by (simp add: watch_ok_def count_list_0_iff)
  from violation_in_None [OF _ map_get_mem [OF this], of m] show ?thesis using assms(2,4) by (simp add: violationIn_def)
qed

text \<open>The record: which frames went, and how much it says left.\<close>

definition clean_entries :: "egress_guard \<Rightarrow> (string \<times> nat) list" where
  "clean_entries g = map (\<lambda>e. (ee_to e, ee_bytes e)) (filter (\<lambda>e. ee_violation e = None) (eg_entries g))"

definition frames_since :: "nat \<Rightarrow> (string \<times> bytes) list \<Rightarrow> (string \<times> nat) list" where
  "frames_since k w = map (\<lambda>(to, m). (to, length m)) (drop k w)"

lemma total_bytes: "em_totalBytes (manifest g) = sum_list (map snd (clean_entries g))"
proof -
  have "foldl (\<lambda>total e. if ee_violation e = None then total + ee_bytes e else total) n es =
      n + sum_list (map ee_bytes (filter (\<lambda>e. ee_violation e = None) es))"
    for n :: nat and es :: "egress_entry list"
    by (induction es arbitrary: n) auto
  then show ?thesis by (simp add: manifest_def clean_entries_def o_def)
qed

lemma sum_list_subseq: "subseq xs ys \<Longrightarrow> sum_list (map snd xs) \<le> sum_list (map snd ys)" for ys :: "('a \<times> nat) list"
  by (induction xs ys rule: list_emb.induct) auto

lemma record_clean: "clean_entries (record_entry to n v g) = clean_entries g @ (if v = None then [(to, n)] else [])"
  by (simp add: clean_entries_def record_entry_def)

lemma refuse_clean: "refuse to m g = (v, g') \<Longrightarrow> clean_entries g' = clean_entries g"
  by (cases "violationIn m g") (simp_all add: refuse_def, metis option.distinct(1) record_clean append_Nil2)

lemma frames_since_append: "k \<le> length w \<Longrightarrow> frames_since k (w @ fs) = frames_since k w @ map (\<lambda>(to, m). (to, length m)) fs"
  by (simp add: frames_since_def)

context transport
begin

lemma watch_ok_reachable:
  assumes "egress_reachable send wire content h"
  shows "watch_ok content (eg_guarded (eh_guard h)) (still_held (eh_holds h))"
  using assms
proof induction
  case (egress_start t n u)
  show ?case by (simp add: watch_ok_def new_egress_guard_def still_held_def)
next
  case (egress_next h h')
  from egress_next(2) show ?case
  proof (cases rule: egress_step.cases)
    case (Hold l ho g)
    then show ?thesis using watch_ok_hold [OF egress_next(3), of l]
      by (auto simp: guard_payload_def still_held_append [unfolded])
  next
    case (Release i ho g)
    then show ?thesis using watch_ok_release [OF egress_next(3) Release(2,3)] by simp
  next
    case (Send to m out g t)
    then show ?thesis using guard_send_cases(1) [OF Send(2)] egress_next(3) by (simp add: record_entry_def)
  next
    case (Pre_scan to m v g)
    then have "eg_guarded g = eg_guarded (eh_guard h)" by (auto simp: refuse_def record_entry_def split: option.splits)
    then show ?thesis using Pre_scan egress_next(3) by simp
  next
    case Reset
    then show ?thesis using egress_next(3) by (simp add: reset_def)
  qed
qed

lemma out_is_wire:
  assumes "egress_reachable send wire content h"
  shows "map fst (eh_out h) = wire (eh_inner h) \<and> wire_clean content (eh_out h)"
  using assms
proof induction
  case (egress_start t n u)
  then show ?case by (simp add: wire_clean_def)
next
  case (egress_next h h')
  from egress_next(2) show ?case
  proof (cases rule: egress_step.cases)
    case (Send to m out g t)
    let ?ls = "still_held (eh_holds h)" and ?new = "drop (length (wire (eh_inner h))) (wire t)"
    have "map fst (eh_out h') = wire t" and "set (eh_out h') = set (eh_out h) \<union> (\<lambda>f. (f, ?ls)) ` set ?new"
    proof -
      have "wire t = wire (eh_inner h) @ ?new"
        using transport.wire_grows [OF guarded_transport Send(2)] by simp
      then show "map fst (eh_out h') = wire t" using egress_next(3) by (simp add: Send(1) outs_since_def o_def)
    qed (simp add: Send(1) outs_since_def)
    moreover have "\<not> sublist (content l) (snd f)" if "f \<in> set ?new" "l \<in> set ?ls" "content l \<noteq> []" for f l
    proof -
      have "f = (to, m)" using transport.sent_now [OF guarded_transport Send(2), of f] that(1) by simp
      moreover have "t \<noteq> eh_inner h" using that(1) by auto
      then have "violationIn m (eh_guard h) = None" using guard_send_cases(2) [OF Send(2)] by auto
      ultimately show ?thesis using watched_clean [OF watch_ok_reachable [OF egress_next(1)]] that(2,3) by simp
    qed
    ultimately show ?thesis using egress_next(3) unfolding wire_clean_def by (fastforce simp: Send(1))
  qed (use egress_next(3) in auto)
qed

lemma manifest_accounts:
  assumes "egress_reachable send wire content h"
  shows "fst (eh_reset h) \<le> length (wire (eh_inner h)) \<and>
    subseq (frames_since (fst (eh_reset h)) (wire (eh_inner h))) (clean_entries (eh_guard h))"
  using assms
proof induction
  case (egress_start t n u)
  then show ?case by (simp add: frames_since_def)
next
  case (egress_next h h')
  from egress_next(2) show ?case
  proof (cases rule: egress_step.cases)
    case (Send to m out g t)
    let ?k = "fst (eh_reset h)"
    have k: "?k \<le> length (wire (eh_inner h))" using egress_next(3) by blast
    have g: "g = record_entry to (length m) (violationIn m (eh_guard h)) (eh_guard h)" using guard_send_cases(1) [OF Send(2)] .
    have sub: "subseq (frames_since ?k (wire (eh_inner h))) (clean_entries g)"
      using egress_next(3) by (auto simp: g record_clean)
    have "wire t = wire (eh_inner h) \<or> wire t = wire (eh_inner h) @ [(to, m)] \<and> violationIn m (eh_guard h) = None"
      using guard_send_cases(2) [OF Send(2)] send_wire [of to m "eh_inner h" _ t] by auto
    then show ?thesis
    proof
      assume "wire t = wire (eh_inner h)"
      with sub k show ?thesis by (simp add: Send(1))
    next
      assume "wire t = wire (eh_inner h) @ [(to, m)] \<and> violationIn m (eh_guard h) = None"
      then show ?thesis using k egress_next(3) by (simp add: Send(1) g record_clean frames_since_append)
    qed
  next
    case (Pre_scan to m v g)
    then have "clean_entries g = clean_entries (eh_guard h)" using refuse_clean by blast
    then show ?thesis using Pre_scan egress_next(3) by simp
  next
    case (Hold l ho g)
    then have "clean_entries g = clean_entries (eh_guard h)" by (auto simp: guard_payload_def clean_entries_def)
    then show ?thesis using Hold egress_next(3) by simp
  next
    case (Release i ho g)
    then have "clean_entries g = clean_entries (eh_guard h)"
      by (auto simp: release_hold_def clean_entries_def split: option.splits if_splits)
    then show ?thesis using Release egress_next(3) by simp
  next
    case Reset
    then show ?thesis by (simp add: frames_since_def)
  qed
qed

lemma registered_since_reset:
  assumes "egress_reachable send wire content h"
  shows "snd (eh_reset h) \<le> length (eh_holds h) \<and> eg_registered (eh_guard h) = length (eh_holds h) - snd (eh_reset h)"
  using assms
proof induction
  case (egress_start t n u)
  then show ?case by (simp add: new_egress_guard_def)
next
  case (egress_next h h')
  from egress_next(2) show ?case
  proof (cases rule: egress_step.cases)
    case (Send to m out g t)
    then show ?thesis using egress_next(3) guard_send_cases(1) [OF Send(2)] by (simp add: record_entry_def)
  qed (use egress_next(3) in \<open>auto simp: guard_payload_def release_hold_def refuse_def record_entry_def reset_def
        split: option.splits if_splits\<close>)
qed

end

section \<open>What the guard promises\<close>


text \<open>The manifest is complete by construction: every frame that has gone on the wire since the record was
  last reset is in it as an entry without a violation, in order; the bytes it reports are the bytes of
  those entries, so never less than what left; and it counts every hold taken since the reset.\<close>

theorem manifest_is_complete:
  assumes "transport send wire" "egress_reachable send wire content h"
  shows "subseq (frames_since (fst (eh_reset h)) (wire (eh_inner h))) (clean_entries (eh_guard h)) \<and>
    em_totalBytes (manifest (eh_guard h)) = sum_list (map snd (clean_entries (eh_guard h))) \<and>
    sum_list (map snd (frames_since (fst (eh_reset h)) (wire (eh_inner h)))) \<le> em_totalBytes (manifest (eh_guard h)) \<and>
    em_registeredSovereign (manifest (eh_guard h)) = length (drop (snd (eh_reset h)) (eh_holds h))"
proof -
  note s = transport.manifest_accounts [OF assms, THEN conjunct2]
  have "em_registeredSovereign (manifest (eh_guard h)) = eg_registered (eh_guard h)" by (simp add: manifest_def)
  then show ?thesis using s sum_list_subseq [OF s] total_bytes [of "eh_guard h"] transport.registered_since_reset [OF assms]
    by simp
qed

text \<open>A send that carries a held payload is refused by name, recorded, and not offered to the inner transport.\<close>

lemma guarded_send_refused:
  assumes "transport send wire" "egress_reachable send wire content h"
    and "l \<in> set (still_held (eh_holds h))" "content l \<noteq> []" "sublist (content l) m"
  shows "\<exists>v g. guard_send send to m (eh_guard h, eh_inner h) = (Inl (Egress_refusal to v (length m)), (g, eh_inner h)) \<and>
    eg_entries g = eg_entries (eh_guard h) @ [\<lparr>ee_to = to, ee_bytes = length m, ee_violation = Some v\<rparr>]"
proof -
  from transport.watch_ok_reachable [OF assms(1,2)] obtain v where "violationIn m (eh_guard h) = Some v"
    using watched_clean [of content "eh_guard h" _ m l] assms(3-5) by blast
  then show ?thesis by (simp add: guard_send_def record_entry_def)
qed

text \<open>The node of the demonstration: a hold is taken twice and given back once; the payload still cannot leave.\<close>

definition demo_world :: wired_network where
  "demo_world = \<lparr>wn_network = \<lparr>nw_handlers = [(''a'', 0), (''b'', 1)], nw_sets = [[], [7]], nw_unreachable = [], nw_delivered = 0\<rparr>,
     wn_calls = [], wn_wire = []\<rparr>"

definition demo_bytes_of :: "string \<Rightarrow> bytes" where
  "demo_bytes_of l = (if l = ''row'' then [1, 2] else [])"

definition demo_egress :: "wired_network egress_history" where
  "demo_egress =
     \<lparr>eh_guard = \<lparr>eg_localId = ''a'', eg_ownerId = ''u'',
         eg_entries = [\<lparr>ee_to = ''b'', ee_bytes = 3, ee_violation = None\<rparr>], eg_guarded = [(''row'', \<lparr>gp_payload = [1, 2], gp_holds = 1\<rparr>)],
         eg_registered = 1\<rparr>,
      eh_inner = demo_world\<lparr>wn_network := (wn_network demo_world)\<lparr>nw_delivered := 1\<rparr>,
         wn_calls := [\<lparr>dl_handler = 7, dl_from = ''a'', dl_message = [1, 3, 2]\<rparr>], wn_wire := [(''b'', [1, 3, 2])]\<rparr>,
      eh_holds = [\<lparr>ho_label = ''row'', ho_given = False\<rparr>],
      eh_out = [((''b'', [1, 3, 2]), [''row''])], eh_reset = (0, 0)\<rparr>"

lemma demo_egress_reachable: "egress_reachable (memory_send ''a'') wn_wire demo_bytes_of demo_egress"
proof -
  let ?h0 = "\<lparr>eh_guard = new_egress_guard ''a'' ''u'', eh_inner = demo_world, eh_holds = [], eh_out = [], eh_reset = (0, 0)\<rparr>"
  let ?g1 = "snd (guard_payload ''row'' (demo_bytes_of ''row'') (eh_guard ?h0))"
  let ?h1 = "?h0\<lparr>eh_guard := ?g1, eh_holds := eh_holds ?h0 @ [\<lparr>ho_label = ''row'', ho_given = False\<rparr>]\<rparr>"
  have 0: "egress_reachable (memory_send ''a'') wn_wire demo_bytes_of ?h0"
    by (rule egress_start) (simp add: demo_world_def)
  have 1: "egress_reachable (memory_send ''a'') wn_wire demo_bytes_of ?h1"
    by (rule egress_next [OF 0 Hold]) (simp add: guard_payload_def)
  have v: "violationIn [1, 3, 2] (eh_guard ?h1) = None"
    by (simp add: violationIn_def guard_payload_def new_egress_guard_def demo_bytes_of_def contains_def upt_rec)
  obtain out g t where s: "guard_send (memory_send ''a'') ''b'' [1, 3, 2] (eh_guard ?h1, eh_inner ?h1) = (out, (g, t))"
    by (metis surj_pair)
  then have "g = eh_guard demo_egress" "t = eh_inner demo_egress"
    using v
    by (auto simp: guard_send_def memory_send_def route_def demo_egress_def demo_world_def record_entry_def
        guard_payload_def new_egress_guard_def demo_bytes_of_def)
  with egress_next [OF 1 Send [OF s]] show ?thesis
    by (simp add: demo_egress_def outs_since_def demo_world_def still_held_def)
qed


theorem manifest_is_complete_witness: "3 \<le> em_totalBytes (manifest (eh_guard demo_egress))"
  using manifest_is_complete [OF mem_net.transport_axioms demo_egress_reachable]
  by (simp add: frames_since_def demo_egress_def)

end
