(* ===== verification/Rpc.thy ===== *)
theory Rpc
  imports Checkpoint
begin

text \<open>
  Request and reply over the one-way transport: \<open>packages/net/src/rpc.ts\<close>.

  \<open>rpc_endpoint\<close> is the state of \<open>RpcEndpoint\<close>.  A promise is named by the id of its request; an operation
  gives the settlements it makes.  \<open>rp_timers\<close> are the timers that have been set and neither fired nor been
  cleared.  The handler is a token and its work happens elsewhere: \<open>receive\<close> gives the call to make and
  \<open>answer\<close> what is done with the result.  \<open>exp_text\<close> is how the engine prints an integer of more than
  21 digits, \<open>error_text\<close> the message of an encoding error.
\<close>

definition DEFAULT_RPC_TIMEOUT_MS :: rat where
  "DEFAULT_RPC_TIMEOUT_MS = 30000"

datatype send_refusal_reason = Per_peer_stream_budget | Control_only_path

datatype rpc_error =
    Timeout string rat
  | Send_failed string string
  | Send_refused string string send_refusal_reason string
  | Rpc_closed
  | Undecodable_frame string string

text \<open>Why a transport's \<open>send\<close> rejected: this node's own refusal, or anything else.\<close>

datatype send_cause = Own_refusal string send_refusal_reason string | Other_cause string

datatype rpc_outcome = Resolved cvalue | Rejected rpc_error

type_synonym settlement = "nat \<times> rpc_outcome"

record rpc_endpoint =
  rp_timeoutMs :: rat
  rp_pending :: "(string, nat) jsmap"
  rp_timers :: "nat list"
  rp_handler :: "nat option"
  rp_nextId :: nat
  rp_closed :: bool
  rp_subscribed :: bool

definition new_endpoint :: "rat option \<Rightarrow> rpc_endpoint" where
  "new_endpoint timeoutMs =
     \<lparr>rp_timeoutMs = (case timeoutMs of None \<Rightarrow> DEFAULT_RPC_TIMEOUT_MS | Some t \<Rightarrow> t), rp_pending = [], rp_timers = [],
      rp_handler = None, rp_nextId = 1, rp_closed = False, rp_subscribed = True\<rparr>"

definition serve :: "nat \<Rightarrow> rpc_endpoint \<Rightarrow> rpc_endpoint" where
  "serve handler e = e\<lparr>rp_handler := Some handler\<rparr>"

definition id_text :: "(int \<Rightarrow> string) \<Rightarrow> int \<Rightarrow> string" where
  "id_text exp_text n =
     (if \<bar>n\<bar> \<ge> 10 ^ 21 then exp_text n
      else if n < 0 then CHR ''-'' # nat_text (nat (- n)) else nat_text (nat n))"

definition pendingKey :: "string \<Rightarrow> string \<Rightarrow> string" where
  "pendingKey peer idText = peer @ [CHR 0x00] @ idText"

definition frame_value :: "string \<Rightarrow> int \<Rightarrow> cvalue \<Rightarrow> cvalue" where
  "frame_value k i body = CObj [(''k'', CStr k), (''id'', CNum (num_of_int i)), (''body'', body)]"

definition encode_frame :: "codec \<Rightarrow> string \<Rightarrow> int \<Rightarrow> cvalue \<Rightarrow> encode_error + bytes" where
  "encode_frame codec k i body = encodeCanonical codec (frame_value k i body)"

datatype request_failure = Request_on_closed | Frame_not_encodable encode_error

definition request :: "codec \<Rightarrow> string \<Rightarrow> cvalue \<Rightarrow> rpc_endpoint \<Rightarrow> (request_failure + nat \<times> bytes) \<times> rpc_endpoint" where
  "request codec to body e =
     (if rp_closed e then (Inl Request_on_closed, e)
      else let i = rp_nextId e;
               e' = e\<lparr>rp_nextId := i + 1\<rparr>
           in case encode_frame codec ''req'' (int i) body of
                Inl err \<Rightarrow> (Inl (Frame_not_encodable err), e')
              | Inr frame \<Rightarrow>
                  (Inr (i, frame),
                   e'\<lparr>rp_pending := map_set (pendingKey to (nat_text i)) i (rp_pending e'), rp_timers := rp_timers e' @ [i]\<rparr>))"

text \<open>The timer of request \<open>i\<close> fires.\<close>

definition request_timeout :: "string \<Rightarrow> nat \<Rightarrow> rpc_endpoint \<Rightarrow> settlement list \<times> rpc_endpoint" where
  "request_timeout to i e =
     ([(i, Rejected (Timeout to (rp_timeoutMs e)))],
      e\<lparr>rp_pending := map_delete (pendingKey to (nat_text i)) (rp_pending e), rp_timers := remove1 i (rp_timers e)\<rparr>)"

text \<open>The send of request \<open>i\<close> rejects.\<close>

definition send_rejected :: "string \<Rightarrow> nat \<Rightarrow> send_cause \<Rightarrow> rpc_endpoint \<Rightarrow> settlement list \<times> rpc_endpoint" where
  "send_rejected to i cause e =
     (case map_get (rp_pending e) (pendingKey to (nat_text i)) of
        None \<Rightarrow> ([], e)
      | Some entry \<Rightarrow>
          ([(entry, Rejected (case cause of
                Own_refusal by' reason detail \<Rightarrow> Send_refused to by' reason detail
              | Other_cause detail \<Rightarrow> Send_failed to detail))],
           e\<lparr>rp_pending := map_delete (pendingKey to (nat_text i)) (rp_pending e), rp_timers := remove1 entry (rp_timers e)\<rparr>))"

definition close_endpoint :: "rpc_endpoint \<Rightarrow> settlement list \<times> rpc_endpoint" where
  "close_endpoint e =
     (if rp_closed e then ([], e)
      else (map (\<lambda>entry. (snd entry, Rejected Rpc_closed)) (rp_pending e),
            e\<lparr>rp_closed := True, rp_subscribed := False, rp_pending := [],
              rp_timers := filter (\<lambda>t. t \<notin> set (map_values (rp_pending e))) (rp_timers e)\<rparr>))"

record handler_call =
  hc_handler :: nat
  hc_from :: string
  hc_id :: int
  hc_body :: cvalue

definition receive ::
  "decoder \<Rightarrow> (int \<Rightarrow> string) \<Rightarrow> string \<Rightarrow> bytes \<Rightarrow> rpc_endpoint
    \<Rightarrow> settlement list \<times> handler_call option \<times> rpc_endpoint" where
  "receive decode exp_text from message e =
     (case decode message of
        None \<Rightarrow> ([], None, e)
      | Some frame \<Rightarrow>
     (case asRecord frame of
        None \<Rightarrow> ([], None, e)
      | Some r \<Rightarrow>
     (case map_get r ''id'' of
        Some (CNum n) \<Rightarrow>
          if \<not> is_integer n then ([], None, e)
          else (case map_get r ''body'' of
                  None \<Rightarrow> ([], None, e)
                | Some body \<Rightarrow>
                    if map_get r ''k'' = Some (CStr ''res'')
                    then let key = pendingKey from (id_text exp_text (int_of_num n))
                         in (case map_get (rp_pending e) key of
                               None \<Rightarrow> ([], None, e)
                             | Some entry \<Rightarrow>
                                 ([(entry, Resolved body)], None,
                                  e\<lparr>rp_pending := map_delete key (rp_pending e), rp_timers := remove1 entry (rp_timers e)\<rparr>))
                    else if map_get r ''k'' \<noteq> Some (CStr ''req'') then ([], None, e)
                    else (case rp_handler e of
                            None \<Rightarrow> ([], None, e)
                          | Some h \<Rightarrow>
                              ([], Some \<lparr>hc_handler = h, hc_from = from, hc_id = int_of_num n, hc_body = body\<rparr>, e)))
      | _ \<Rightarrow> ([], None, e))))"

text \<open>What a handler returns: a body, a body with a callback (a token) to run after the frame, or an error.\<close>

datatype handler_result = Plain cvalue | With_after_sent cvalue nat | Handler_threw string

fun unwrapReply :: "handler_result \<Rightarrow> cvalue \<times> nat option" where
  "unwrapReply (Plain body) = (body, None)"
| "unwrapReply (With_after_sent body after) = (body, Some after)"
| "unwrapReply (Handler_threw text) = (CObj [(''error'', CStr text)], None)"

definition encodeReply :: "codec \<Rightarrow> (encode_error \<Rightarrow> string) \<Rightarrow> int \<Rightarrow> cvalue \<Rightarrow> encode_error + bytes" where
  "encodeReply codec error_text i reply =
     (case encode_frame codec ''res'' i reply of
        Inr frame \<Rightarrow> Inr frame
      | Inl err \<Rightarrow> encode_frame codec ''res'' i (CObj [(''error'', CStr (''reply '' @ error_text err))]))"

datatype reply_action = Send_reply string bytes | Reply_threw encode_error | After_sent nat

text \<open>A send that rejects is swallowed; the callback runs whatever happened before it.\<close>

definition answer ::
  "codec \<Rightarrow> (encode_error \<Rightarrow> string) \<Rightarrow> string \<Rightarrow> int \<Rightarrow> handler_result \<Rightarrow> rpc_endpoint \<Rightarrow> reply_action list" where
  "answer codec error_text from i result e =
     (let (reply, after) = unwrapReply result
      in (if rp_closed e then []
          else (case encodeReply codec error_text i reply of
                  Inr frame \<Rightarrow> [Send_reply from frame]
                | Inl err \<Rightarrow> [Reply_threw err]))
         @ (case after of None \<Rightarrow> [] | Some t \<Rightarrow> [After_sent t]))"

section \<open>Keys\<close>

lemma nat_text_no_NUL: "CHR 0x00 \<notin> set (nat_text n)"
  using nat_text_digits [of "CHR 0x00" n] by auto

lemma pendingKey_inj: "CHR 0x00 \<notin> set s \<Longrightarrow> CHR 0x00 \<notin> set t \<Longrightarrow> pendingKey p s = pendingKey q t \<Longrightarrow> p = q \<and> s = t"
  unfolding pendingKey_def by (rule nul_key_inj) simp_all

text \<open>What is asked of \<open>exp_text\<close>: the exponent notation has the letter e and no NUL.\<close>

definition exponent_notation :: "(int \<Rightarrow> string) \<Rightarrow> bool" where
  "exponent_notation exp_text \<longleftrightarrow> (\<forall>n. CHR ''e'' \<in> set (exp_text n) \<and> CHR 0x00 \<notin> set (exp_text n))"

lemma id_text_is_nat_text:
  assumes "exponent_notation exp_text" "id_text exp_text n = nat_text i"
  shows "n = int i"
proof -
  have "CHR ''e'' \<notin> set (nat_text i)" "CHR ''-'' \<notin> set (nat_text i)"
    using nat_text_digits [of "CHR ''e''" i] nat_text_digits [of "CHR ''-''" i] by auto
  then have "\<not> \<bar>n\<bar> \<ge> 10 ^ 21" "\<not> n < 0" using assms
    by (auto simp: id_text_def exponent_notation_def split: if_splits) (metis list.set_intros(1))+
  then show ?thesis using assms(2) by (auto simp: id_text_def dest!: nat_text_inj)
qed

lemma id_text_no_NUL: "exponent_notation exp_text \<Longrightarrow> CHR 0x00 \<notin> set (id_text exp_text n)"
  using nat_text_no_NUL by (auto simp: id_text_def exponent_notation_def)

section \<open>Histories of an endpoint\<close>

text \<open>The endpoint with the requests it has made, the frames it has heard and the settlements it has given.\<close>

record rpc_history =
  rh_endpoint :: rpc_endpoint
  rh_asked :: "(nat \<times> string) list"
  rh_heard :: "(string \<times> bytes) list"
  rh_settled :: "settlement list"

definition settle :: "rpc_history \<Rightarrow> settlement list \<times> rpc_endpoint \<Rightarrow> rpc_history" where
  "settle h r = h\<lparr>rh_endpoint := snd r, rh_settled := rh_settled h @ fst r\<rparr>"

inductive rpc_step :: "codec \<Rightarrow> decoder \<Rightarrow> (int \<Rightarrow> string) \<Rightarrow> rpc_history \<Rightarrow> rpc_history \<Rightarrow> bool"
  for codec decode exp_text where
  Ask: "request codec to body (rh_endpoint h) = (Inr (i, frame), e) \<Longrightarrow>
    rpc_step codec decode exp_text h (h\<lparr>rh_endpoint := e, rh_asked := rh_asked h @ [(i, to)]\<rparr>)"
| Ask_failed: "request codec to body (rh_endpoint h) = (Inl f, e) \<Longrightarrow>
    rpc_step codec decode exp_text h (h\<lparr>rh_endpoint := e\<rparr>)"
| Timer: "(i, to) \<in> set (rh_asked h) \<Longrightarrow> i \<in> set (rp_timers (rh_endpoint h)) \<Longrightarrow>
    rpc_step codec decode exp_text h (settle h (request_timeout to i (rh_endpoint h)))"
| Send_fails: "(i, to) \<in> set (rh_asked h) \<Longrightarrow>
    rpc_step codec decode exp_text h (settle h (send_rejected to i cause (rh_endpoint h)))"
| Hear: "rp_subscribed (rh_endpoint h) \<Longrightarrow> receive decode exp_text from m (rh_endpoint h) = (out, call, e) \<Longrightarrow>
    rpc_step codec decode exp_text h (settle (h\<lparr>rh_heard := rh_heard h @ [(from, m)]\<rparr>) (out, e))"
| Close: "rpc_step codec decode exp_text h (settle h (close_endpoint (rh_endpoint h)))"
| Serve: "rpc_step codec decode exp_text h (h\<lparr>rh_endpoint := serve hdl (rh_endpoint h)\<rparr>)"

inductive rpc_reachable :: "codec \<Rightarrow> decoder \<Rightarrow> (int \<Rightarrow> string) \<Rightarrow> rpc_history \<Rightarrow> bool"
  for codec decode exp_text where
  rpc_start: "rpc_reachable codec decode exp_text \<lparr>rh_endpoint = new_endpoint t, rh_asked = [], rh_heard = [], rh_settled = []\<rparr>"
| rpc_next: "rpc_reachable codec decode exp_text h \<Longrightarrow> rpc_step codec decode exp_text h h' \<Longrightarrow> rpc_reachable codec decode exp_text h'"

text \<open>The frame \<open>m\<close> is a reply to request \<open>i\<close> with the given body.\<close>

definition replies :: "decoder \<Rightarrow> bytes \<Rightarrow> nat \<Rightarrow> cvalue \<Rightarrow> bool" where
  "replies decode m i body \<longleftrightarrow>
     (\<exists>v r. decode m = Some v \<and> asRecord v = Some r \<and> map_get r ''k'' = Some (CStr ''res'') \<and>
       map_get r ''id'' = Some (CNum (num_of_int (int i))) \<and> map_get r ''body'' = Some body)"

definition entries_ok :: "(string, nat) jsmap \<Rightarrow> (nat \<times> string) list \<Rightarrow> bool" where
  "entries_ok pending asked \<longleftrightarrow> map_ok pending \<and> distinct (map_values pending) \<and>
     (\<forall>(k, i) \<in> set pending. \<exists>to. (i, to) \<in> set asked \<and> k = pendingKey to (nat_text i))"

definition ids_ok :: "nat list \<Rightarrow> nat list \<Rightarrow> nat list \<Rightarrow> nat list \<Rightarrow> nat \<Rightarrow> bool" where
  "ids_ok pending timers settled asked nextId \<longleftrightarrow>
     distinct asked \<and> (\<forall>i \<in> set asked. i < nextId) \<and> distinct settled \<and> distinct timers \<and> set timers = set pending \<and>
     set pending \<inter> set settled = {} \<and> set pending \<union> set settled = set asked"

definition answers_heard :: "decoder \<Rightarrow> (nat \<times> string) list \<Rightarrow> (string \<times> bytes) list \<Rightarrow> settlement list \<Rightarrow> bool" where
  "answers_heard decode asked heard settled \<longleftrightarrow>
     (\<forall>i body. (i, Resolved body) \<in> set settled \<longrightarrow>
        (\<exists>to m. (i, to) \<in> set asked \<and> (to, m) \<in> set heard \<and> replies decode m i body))"

definition rpc_ok :: "decoder \<Rightarrow> rpc_history \<Rightarrow> bool" where
  "rpc_ok decode h \<longleftrightarrow>
     entries_ok (rp_pending (rh_endpoint h)) (rh_asked h) \<and>
     ids_ok (map_values (rp_pending (rh_endpoint h))) (rp_timers (rh_endpoint h)) (map fst (rh_settled h)) (map fst (rh_asked h))
       (rp_nextId (rh_endpoint h)) \<and>
     answers_heard decode (rh_asked h) (rh_heard h) (rh_settled h) \<and>
     (rp_closed (rh_endpoint h) \<longrightarrow> rp_pending (rh_endpoint h) = [])"

lemma rpc_okI:
  assumes "entries_ok (rp_pending e) asked"
    "ids_ok (map_values (rp_pending e)) (rp_timers e) (map fst settled) (map fst asked) (rp_nextId e)"
    "answers_heard decode asked heard settled" "rp_closed e \<Longrightarrow> rp_pending e = []"
  shows "rpc_ok decode \<lparr>rh_endpoint = e, rh_asked = asked, rh_heard = heard, rh_settled = settled\<rparr>"
  using assms by (simp add: rpc_ok_def)

lemma map_delete_values:
  assumes "map_ok m" "distinct (map_values m)" "(k, v) \<in> set m"
  shows "set (map_values (map_delete k m)) = set (map_values m) - {v}" "distinct (map_values (map_delete k m))"
proof -
  have u: "a = k" if "(a, v) \<in> set m" for a
    using assms(2,3) that by (metis distinct_map inj_onD fst_conv snd_conv)
  have w: "b = v" if "(k, b) \<in> set m" for b
    using eq_key_imp_eq_value [OF assms(1) that assms(3)] .
  show "set (map_values (map_delete k m)) = set (map_values m) - {v}"
    by (rule set_eqI) (force simp: map_delete_filter dest: u w)
  show "distinct (map_values (map_delete k m))" using assms(2) by (simp add: map_delete_filter distinct_map_filter)
qed

text \<open>A pending request is settled: its entry goes, its timer is cleared, its promise is added.\<close>

lemma entries_ok_delete: "entries_ok m asked \<Longrightarrow> entries_ok (map_delete k m) asked"
  unfolding entries_ok_def by (auto simp: map_delete_filter distinct_map_filter)

lemma ids_ok_settle:
  assumes "entries_ok m asked" "ids_ok (map_values m) timers settled is n" "(k, i) \<in> set m"
  shows "ids_ok (map_values (map_delete k m)) (remove1 i timers) (settled @ [i]) is n"
proof -
  have "map_ok m" "distinct (map_values m)" using assms(1) by (auto simp: entries_ok_def)
  note d = map_delete_values [OF this assms(3)]
  have i: "i \<in> set (map_values m)" using assms(3) by force
  note ok = assms(2) [unfolded ids_ok_def]
  have "set (remove1 i timers) = set timers - {i}" using ok by (intro set_remove1_eq) blast
  then show ?thesis unfolding ids_ok_def d(1) using ok i by (auto simp: distinct_remove1)
qed

lemma answers_heard_mono:
  "answers_heard decode asked heard settled \<Longrightarrow> set asked \<subseteq> set asked' \<Longrightarrow> set heard \<subseteq> set heard' \<Longrightarrow>
   answers_heard decode asked' heard' settled"
  unfolding answers_heard_def by blast

lemma answers_heard_reject:
  "answers_heard decode asked heard settled \<Longrightarrow> (\<And>i b. (i, Resolved b) \<notin> set out) \<Longrightarrow> answers_heard decode asked heard (settled @ out)"
  unfolding answers_heard_def by auto

lemma pending_entry:
  assumes "entries_ok m asked" "map_get m (pendingKey to (nat_text i)) = Some j"
  shows "j = i \<and> (i, to) \<in> set asked"
proof -
  from map_get_mem [OF assms(2)] assms(1) obtain to' where "(j, to') \<in> set asked" "pendingKey to (nat_text i) = pendingKey to' (nat_text j)"
    unfolding entries_ok_def by blast
  with pendingKey_inj [OF nat_text_no_NUL nat_text_no_NUL, of to i to' j] nat_text_inj [of i j] show ?thesis by simp
qed

lemma timer_entry:
  assumes "entries_ok m asked" "ids_ok (map_values m) timers settled (map fst asked) n" "i \<in> set timers" "(i, to) \<in> set asked"
  shows "(pendingKey to (nat_text i), i) \<in> set m"
proof -
  from assms(2,3) obtain k where k: "(k, i) \<in> set m" unfolding ids_ok_def by auto
  with assms(1) obtain to' where to': "(i, to') \<in> set asked" "k = pendingKey to' (nat_text i)" unfolding entries_ok_def by blast
  have "distinct (map fst asked)" using assms(2) unfolding ids_ok_def by blast
  with to'(1) assms(4) have "to' = to" by (metis eq_key_imp_eq_value)
  with k to'(2) show ?thesis by simp
qed

lemma rpc_ok_settled:
  assumes "rpc_ok decode h" "(k, i) \<in> set (rp_pending (rh_endpoint h))"
    and "answers_heard decode (rh_asked h) heard (rh_settled h @ [(i, out)])"
  shows "rpc_ok decode (settle (h\<lparr>rh_heard := heard\<rparr>) ([(i, out)],
    (rh_endpoint h)\<lparr>rp_pending := map_delete k (rp_pending (rh_endpoint h)), rp_timers := remove1 i (rp_timers (rh_endpoint h))\<rparr>))"
proof -
  note ok = assms(1) [unfolded rpc_ok_def]
  have "rp_closed (rh_endpoint h) \<longrightarrow> map_delete k (rp_pending (rh_endpoint h)) = []" using ok by auto
  moreover have "entries_ok (map_delete k (rp_pending (rh_endpoint h))) (rh_asked h)" using ok entries_ok_delete by blast
  moreover have "ids_ok (map_values (map_delete k (rp_pending (rh_endpoint h)))) (remove1 i (rp_timers (rh_endpoint h)))
      (map fst (rh_settled h) @ [i]) (map fst (rh_asked h)) (rp_nextId (rh_endpoint h))"
    using ok ids_ok_settle [OF _ _ assms(2)] by blast
  ultimately show ?thesis using assms(3) by (simp add: rpc_ok_def settle_def)
qed

lemma rpc_ok_heard:
  assumes "rpc_ok decode h"
  shows "rpc_ok decode (settle (h\<lparr>rh_heard := rh_heard h @ [f]\<rparr>) ([], rh_endpoint h))"
  using assms answers_heard_mono [of decode "rh_asked h" "rh_heard h" "rh_settled h" "rh_asked h" "rh_heard h @ [f]"]
  by (auto simp: rpc_ok_def settle_def)

lemma receive_cases:
  assumes "receive decode exp_text from m e = (out, call, e')"
  shows "(out = [] \<and> e' = e) \<or>
    (\<exists>n i body v r. out = [(i, Resolved body)] \<and> call = None \<and>
       map_get (rp_pending e) (pendingKey from (id_text exp_text n)) = Some i \<and>
       e' = e\<lparr>rp_pending := map_delete (pendingKey from (id_text exp_text n)) (rp_pending e), rp_timers := remove1 i (rp_timers e)\<rparr> \<and>
       decode m = Some v \<and> asRecord v = Some r \<and> map_get r ''k'' = Some (CStr ''res'') \<and>
       map_get r ''id'' = Some (CNum (num_of_int n)) \<and> map_get r ''body'' = Some body)"
proof -
  obtain v r n body where
    "(out = [] \<and> e' = e) \<or>
      (decode m = Some v \<and> asRecord v = Some r \<and> map_get r ''id'' = Some (CNum n) \<and> is_integer n \<and> map_get r ''body'' = Some body)"
    using assms by (auto simp: receive_def split: option.splits cvalue.splits if_splits)
  then show ?thesis
  proof
    assume a: "decode m = Some v \<and> asRecord v = Some r \<and> map_get r ''id'' = Some (CNum n) \<and> is_integer n \<and> map_get r ''body'' = Some body"
    then obtain k where k: "n = num_of_int k" using is_integer_iff by blast
    show ?thesis
    proof (cases "map_get r ''k'' = Some (CStr ''res'')")
      case True
      show ?thesis
      proof (cases "map_get (rp_pending e) (pendingKey from (id_text exp_text k))")
        case None
        with assms a k True show ?thesis by (simp add: receive_def Let_def)
      next
        case (Some i)
        with assms a k True show ?thesis by (simp add: receive_def Let_def)
      qed
    next
      case False
      with assms a k show ?thesis by (auto simp: receive_def split: option.splits if_splits)
    qed
  qed simp
qed

lemma rpc_ok_step:
  assumes "rpc_step codec decode exp_text h h'" "rpc_ok decode h" "exponent_notation exp_text"
  shows "rpc_ok decode h'"
  using assms(1)
proof (cases rule: rpc_step.cases)
  case (Ask to body i frame e)
  let ?e = "rh_endpoint h"
  note ok = assms(2) [unfolded rpc_ok_def]
  from Ask(2) have open': "\<not> rp_closed ?e" and i: "i = rp_nextId ?e"
    and e: "e = ?e\<lparr>rp_nextId := i + 1, rp_pending := map_set (pendingKey to (nat_text i)) i (rp_pending ?e), rp_timers := rp_timers ?e @ [i]\<rparr>"
    by (auto simp: request_def Let_def split: if_splits sum.splits)
  have fresh: "i \<notin> set (map fst (rh_asked h))" using ok i unfolding ids_ok_def by blast
  then have p: "i \<notin> set (map_values (rp_pending ?e))" and t: "i \<notin> set (rp_timers ?e)" and s: "i \<notin> set (map fst (rh_settled h))"
    using ok unfolding ids_ok_def by blast+
  have "map_get (rp_pending ?e) (pendingKey to (nat_text i)) = None"
  proof (rule ccontr)
    assume "map_get (rp_pending ?e) (pendingKey to (nat_text i)) \<noteq> None"
    then obtain j where j: "map_get (rp_pending ?e) (pendingKey to (nat_text i)) = Some j" by blast
    with pending_entry ok have "j = i" by blast
    with map_get_mem [OF j] p show False by force
  qed
  then have k: "pendingKey to (nat_text i) \<notin> set (map_keys (rp_pending ?e))" by (simp add: map_get_None_iff)
  then have m: "map_set (pendingKey to (nat_text i)) i (rp_pending ?e) = rp_pending ?e @ [(pendingKey to (nat_text i), i)]"
    by (rule map_set_fresh)
  have "entries_ok (rp_pending ?e @ [(pendingKey to (nat_text i), i)]) (rh_asked h @ [(i, to)])"
    using ok k p unfolding entries_ok_def by fastforce
  moreover have "ids_ok (map_values (rp_pending ?e) @ [i]) (rp_timers ?e @ [i]) (map fst (rh_settled h)) (map fst (rh_asked h) @ [i]) (i + 1)"
    using ok p t s fresh i unfolding ids_ok_def by (auto simp: less_Suc_eq)
  moreover have "answers_heard decode (rh_asked h @ [(i, to)]) (rh_heard h) (rh_settled h)"
    using ok answers_heard_mono [where asked = "rh_asked h"] by (metis Un_upper1 set_append order_refl)
  ultimately show ?thesis using open' by (simp add: Ask(1) rpc_ok_def e m)
next
  case (Ask_failed to body f e)
  then have "e = rh_endpoint h \<or> e = (rh_endpoint h)\<lparr>rp_nextId := rp_nextId (rh_endpoint h) + 1\<rparr>"
    by (auto simp: request_def Let_def split: if_splits sum.splits)
  moreover have "ids_ok (map_values (rp_pending (rh_endpoint h))) (rp_timers (rh_endpoint h)) (map fst (rh_settled h)) (map fst (rh_asked h))
      (rp_nextId (rh_endpoint h) + 1)"
    using assms(2) unfolding rpc_ok_def ids_ok_def by (auto simp: less_Suc_eq)
  ultimately show ?thesis using assms(2) by (auto simp: Ask_failed(1) rpc_ok_def)
next
  case (Timer i to)
  let ?e = "rh_endpoint h"
  note ok = assms(2) [unfolded rpc_ok_def]
  have "(pendingKey to (nat_text i), i) \<in> set (rp_pending ?e)" using timer_entry Timer(2,3) ok by blast
  moreover have "answers_heard decode (rh_asked h) (rh_heard h) (rh_settled h @ [(i, Rejected (Timeout to (rp_timeoutMs ?e)))])"
    using ok by (intro answers_heard_reject) auto
  ultimately show ?thesis using rpc_ok_settled [OF assms(2)] by (fastforce simp: Timer(1) request_timeout_def)
next
  case (Send_fails i to cause)
  let ?e = "rh_endpoint h" and ?k = "pendingKey to (nat_text i)"
  note ok = assms(2) [unfolded rpc_ok_def]
  show ?thesis
  proof (cases "map_get (rp_pending ?e) ?k")
    case None
    then show ?thesis using assms(2) by (simp add: Send_fails(1) send_rejected_def settle_def)
  next
    case (Some j)
    have "answers_heard decode (rh_asked h) (rh_heard h) (rh_settled h @ [(j, Rejected r)])" for r
      using ok by (intro answers_heard_reject) auto
    from rpc_ok_settled [OF assms(2) map_get_mem [OF Some] this] show ?thesis
      using Some by (simp add: Send_fails(1) send_rejected_def)
  qed
next
  case (Hear peer m out call e)
  note ok = assms(2) [unfolded rpc_ok_def]
  from receive_cases [OF Hear(3)] show ?thesis
  proof (elim disjE exE conjE)
    assume "out = []" "e = rh_endpoint h"
    then show ?thesis using rpc_ok_heard [OF assms(2)] by (simp add: Hear(1))
  next
    fix n i body v r
    assume out: "out = [(i, Resolved body)]"
      and get: "map_get (rp_pending (rh_endpoint h)) (pendingKey peer (id_text exp_text n)) = Some i"
      and e: "e = (rh_endpoint h)\<lparr>rp_pending := map_delete (pendingKey peer (id_text exp_text n)) (rp_pending (rh_endpoint h)),
        rp_timers := remove1 i (rp_timers (rh_endpoint h))\<rparr>"
      and frame: "decode m = Some v" "asRecord v = Some r" "map_get r ''k'' = Some (CStr ''res'')"
        "map_get r ''id'' = Some (CNum (num_of_int n))" "map_get r ''body'' = Some body"
    from map_get_mem [OF get] ok obtain to where to: "(i, to) \<in> set (rh_asked h)"
      "pendingKey peer (id_text exp_text n) = pendingKey to (nat_text i)"
      unfolding entries_ok_def by blast
    then have "peer = to" "id_text exp_text n = nat_text i"
      using pendingKey_inj [OF id_text_no_NUL [OF assms(3)] nat_text_no_NUL] by blast+
    with id_text_is_nat_text [OF assms(3)] have "peer = to" "n = int i" by blast+
    then have "replies decode m i body" using frame unfolding replies_def by blast
    moreover have "answers_heard decode (rh_asked h) (rh_heard h @ [(peer, m)]) (rh_settled h)"
      using ok answers_heard_mono [where heard = "rh_heard h"] by (metis Un_upper1 set_append order_refl)
    ultimately have "answers_heard decode (rh_asked h) (rh_heard h @ [(peer, m)]) (rh_settled h @ [(i, Resolved body)])"
      using to(1) \<open>peer = to\<close> unfolding answers_heard_def by auto
    from rpc_ok_settled [OF assms(2) map_get_mem [OF get] this] show ?thesis by (simp add: Hear(1) out e)
  qed
next
  case Close
  let ?e = "rh_endpoint h"
  note ok = assms(2) [unfolded rpc_ok_def]
  show ?thesis
  proof (cases "rp_closed ?e")
    case True
    with assms(2) show ?thesis by (simp add: Close close_endpoint_def settle_def)
  next
    case False
    have "filter (\<lambda>t. t \<notin> set (map_values (rp_pending ?e))) (rp_timers ?e) = []"
      using ok unfolding ids_ok_def by (auto simp: filter_empty_conv)
    moreover have "ids_ok [] [] (map fst (rh_settled h) @ map_values (rp_pending ?e)) (map fst (rh_asked h)) (rp_nextId ?e)"
      using ok unfolding ids_ok_def entries_ok_def by auto
    moreover have "answers_heard decode (rh_asked h) (rh_heard h) (rh_settled h @ map (\<lambda>entry. (snd entry, Rejected Rpc_closed)) (rp_pending ?e))"
      using ok by (intro answers_heard_reject) auto
    ultimately show ?thesis using False
      by (simp add: Close close_endpoint_def settle_def rpc_ok_def entries_ok_def o_def)
  qed
next
  case (Serve hdl)
  then show ?thesis using assms(2) by (simp add: rpc_ok_def serve_def)
qed

lemma rpc_ok_reachable:
  assumes "rpc_reachable codec decode exp_text h" "exponent_notation exp_text"
  shows "rpc_ok decode h"
  using assms(1)
proof induction
  case (rpc_start t)
  show ?case by (simp add: rpc_ok_def entries_ok_def ids_ok_def answers_heard_def new_endpoint_def)
next
  case (rpc_next h h')
  then show ?case using rpc_ok_step assms(2) by blast
qed

text \<open>C21: A request is answered by the peer it was sent to, or not at all: along any interleaving of requests,
  replies (late, duplicated, forged by other peers, garbage), failed sends, timeouts and a close, a request is
  settled at most once; one that was resolved was resolved by a frame that came from the peer asked, naming its
  id, with that frame's body; and every request that is not settled has its timer running.\<close>

theorem request_settled_once_by_its_peer:
  assumes "rpc_reachable codec decode exp_text h" "exponent_notation exp_text"
  shows "distinct (map fst (rh_settled h)) \<and>
    (\<forall>i body. (i, Resolved body) \<in> set (rh_settled h) \<longrightarrow>
       (\<exists>to m. (i, to) \<in> set (rh_asked h) \<and> (to, m) \<in> set (rh_heard h) \<and> replies decode m i body)) \<and>
    set (map fst (rh_asked h)) - set (map fst (rh_settled h)) = set (rp_timers (rh_endpoint h)) \<and>
    (rp_closed (rh_endpoint h) \<longrightarrow> rp_timers (rh_endpoint h) = [])"
proof -
  note ok = rpc_ok_reachable [OF assms, unfolded rpc_ok_def]
  have "set (map fst (rh_asked h)) - set (map fst (rh_settled h)) = set (rp_timers (rh_endpoint h))"
    using ok unfolding ids_ok_def by blast
  moreover have "rp_timers (rh_endpoint h) = []" if "rp_closed (rh_endpoint h)"
    using ok that unfolding ids_ok_def by auto
  ultimately show ?thesis using ok unfolding ids_ok_def answers_heard_def by blast
qed

text \<open>The callback of a reply runs exactly once and last, after the frame has been offered to the transport, whether
  the endpoint is open, closed, or the reply has no encoding.\<close>

lemma after_sent_runs_last:
  "answer codec error_text from i (With_after_sent body t) e = butlast (answer codec error_text from i (With_after_sent body t) e) @ [After_sent t] \<and>
   (\<forall>t'. After_sent t' \<notin> set (butlast (answer codec error_text from i (With_after_sent body t) e)))"
  by (simp add: answer_def split: sum.splits)

text \<open>A reply that has no canonical form is answered by name.\<close>

lemma unencodable_reply_is_named:
  assumes "\<not> rp_closed e" "encode_frame codec ''res'' i body = Inl err"
    and "encode_frame codec ''res'' i (CObj [(''error'', CStr (''reply '' @ error_text err))]) = Inr frame"
  shows "answer codec error_text from i (Plain body) e = [Send_reply from frame]"
  using assms by (simp add: answer_def encodeReply_def)

text \<open>A demonstration: one request to b, a forged reply from c, then the reply of b.\<close>

definition demo_decode :: decoder where
  "demo_decode m = (if m = [9] then Some (frame_value ''res'' 1 (CStr ''forged''))
     else if m = [7] then Some (frame_value ''res'' 1 (CStr ''yes'')) else None)"

definition demo_rpc :: rpc_history where
  "demo_rpc = \<lparr>rh_endpoint = (new_endpoint None)\<lparr>rp_nextId := 2\<rparr>, rh_asked = [(1, ''b'')],
     rh_heard = [(''c'', [9]), (''b'', [7])], rh_settled = [(1, Resolved (CStr ''yes''))]\<rparr>"

lemma demo_rpc_reachable: "rpc_reachable (\<lambda>v. Some [1]) demo_decode (\<lambda>n. ''e'') demo_rpc"
proof -
  let ?h0 = "\<lparr>rh_endpoint = new_endpoint None, rh_asked = [], rh_heard = [], rh_settled = []\<rparr>"
  have one: "nat_text (Suc 0) = ''1''" "nat_text 1 = ''1''" by code_simp+
  let ?e1 = "(new_endpoint None)\<lparr>rp_nextId := 2, rp_pending := [(pendingKey ''b'' ''1'', 1)], rp_timers := [1]\<rparr>"
  let ?h1 = "?h0\<lparr>rh_endpoint := ?e1, rh_asked := rh_asked ?h0 @ [(1, ''b'')]\<rparr>"
  have "request (\<lambda>v. Some [1]) ''b'' (CStr ''?'') (rh_endpoint ?h0) = (Inr (1, [1]), ?e1)"
    by (simp add: request_def new_endpoint_def encode_frame_def frame_value_def encodeCanonical_def one)
  from rpc_next [OF rpc_start Ask [OF this]]
  have 1: "rpc_reachable (\<lambda>v. Some [1]) demo_decode (\<lambda>n. ''e'') ?h1" .
  have "receive demo_decode (\<lambda>n. ''e'') ''c'' [9] (rh_endpoint ?h1) = ([], None, ?e1)"
    by (simp add: receive_def demo_decode_def frame_value_def asRecord_def pendingKey_def id_text_def one)
  from rpc_next [OF 1 Hear [OF _ this]]
  have 2: "rpc_reachable (\<lambda>v. Some [1]) demo_decode (\<lambda>n. ''e'') (settle (?h1\<lparr>rh_heard := rh_heard ?h1 @ [(''c'', [9])]\<rparr>) ([], ?e1))"
    by (simp add: new_endpoint_def)
  have "receive demo_decode (\<lambda>n. ''e'') ''b'' [7] ?e1 = ([(1, Resolved (CStr ''yes''))], None, (new_endpoint None)\<lparr>rp_nextId := 2\<rparr>)"
    by (simp add: receive_def demo_decode_def frame_value_def asRecord_def pendingKey_def id_text_def one new_endpoint_def)
  from rpc_next [OF 2 Hear [of _ demo_decode "\<lambda>n. ''e''" "''b''" "[7]"]] this show ?thesis
    by (simp add: settle_def demo_rpc_def new_endpoint_def)
qed

theorem request_settled_once_by_its_peer_witness:
  "\<exists>to m. (1, to) \<in> set (rh_asked demo_rpc) \<and> (to, m) \<in> set (rh_heard demo_rpc) \<and> replies demo_decode m 1 (CStr ''yes'')"
  using request_settled_once_by_its_peer [OF demo_rpc_reachable]
  by (simp add: exponent_notation_def) (simp add: demo_rpc_def)

end
