(* ===== verification/Discovery.thy ===== *)
theory Discovery
  imports Verify
begin

text \<open>
  Who may execute a task: \<open>packages/core/src/discovery.ts\<close>.

  Capability records and their signature, the record indexes (in memory, of the node itself, with
  fallback), and \<open>discoverExecutors\<close>, which turns an untrusted index into executors whose papers are in order.
  An index is a pair of operations on a state of its own (\<open>record_index\<close>); an operation that rejects is
  \<open>Threw\<close>.  Characters are code units below 256, so \<open>utf8\<close> has one- and two-byte sequences.
\<close>

section \<open>Capability records\<close>

record capability_extension =
  cx_id :: string
  cx_critical :: bool
  cx_value :: cvalue

record capability_record =
  cb_nodeKey :: string
  cb_features :: "string list"
  cb_sovereignFor :: "string list"
  cb_issuedAt :: rat
  cb_expiresAt :: rat
  cb_extensions :: "capability_extension list"
  cb_signature :: string

definition utf8_char :: "char \<Rightarrow> bytes" where
  "utf8_char c = (let n = of_char c :: nat in
     if n < 128 then [of_nat n] else [of_nat (192 + n div 64), of_nat (128 + n mod 64)])"

definition utf8 :: "string \<Rightarrow> bytes" where
  "utf8 s = concat (map utf8_char s)"

text \<open>The loop over the bytes of the left id and the test after it.\<close>

fun compare_bytes :: "bytes \<Rightarrow> bytes \<Rightarrow> int" where
  "compare_bytes [] right = (if length right = 0 then 0 else -1)"
| "compare_bytes (b # bs) [] = 1"
| "compare_bytes (b # bs) (c # cs) = (if b \<noteq> c then (if b < c then -1 else 1) else compare_bytes bs cs)"

definition compareExtensionIds :: "string \<Rightarrow> string \<Rightarrow> int" where
  "compareExtensionIds a b = compare_bytes (utf8 a) (utf8 b)"

definition ext_cmp :: "capability_extension \<Rightarrow> capability_extension \<Rightarrow> int" where
  "ext_cmp a b = compareExtensionIds (cx_id a) (cx_id b)"

fun adjacent_duplicate :: "capability_extension list \<Rightarrow> string option" where
  "adjacent_duplicate (p # c # rest) = (if cx_id p = cx_id c then Some (cx_id c) else adjacent_duplicate (c # rest))"
| "adjacent_duplicate _ = None"

definition orderExtensions :: "capability_extension list \<Rightarrow> string + capability_extension list" where
  "orderExtensions es =
     (let ordered = js_sort ext_cmp es
      in case adjacent_duplicate ordered of Some d \<Rightarrow> Inl d | None \<Rightarrow> Inr ordered)"

definition extension_value :: "capability_extension \<Rightarrow> cvalue" where
  "extension_value e = CObj [(''id'', CStr (cx_id e)), (''critical'', CBool (cx_critical e)), (''value'', cx_value e)]"

definition capability_value :: "capability_record \<Rightarrow> capability_extension list \<Rightarrow> cvalue" where
  "capability_value r ordered =
     CObj ([(''nodeKey'', CStr (cb_nodeKey r)), (''features'', CList (map CStr (js_sort unit_cmp (cb_features r)))),
            (''sovereignFor'', CList (map CStr (js_sort unit_cmp (cb_sovereignFor r)))),
            (''issuedAt'', CNum (Fin (cb_issuedAt r))), (''expiresAt'', CNum (Fin (cb_expiresAt r)))] @
           (if ordered = [] then [] else [(''extensions'', CList (map extension_value ordered))]))"

datatype payload_result = Payload bytes | Payload_duplicate string | Payload_not_encodable encode_error

definition capabilityPayload :: "codec \<Rightarrow> capability_record \<Rightarrow> payload_result" where
  "capabilityPayload codec r =
     (case orderExtensions (cb_extensions r) of
        Inl d \<Rightarrow> Payload_duplicate d
      | Inr ordered \<Rightarrow>
          (case encodeCanonical codec (capability_value r ordered) of
             Inl e \<Rightarrow> Payload_not_encodable e
           | Inr b \<Rightarrow> Payload b))"

datatype publish_error = Duplicate_extension string | Capability_not_encodable encode_error

text \<open>The fields to publish come as a record whose key and signature are ignored.\<close>

definition publishCapabilities ::
  "codec \<Rightarrow> (bytes \<Rightarrow> bytes \<Rightarrow> bytes) \<Rightarrow> (bytes \<Rightarrow> bytes) \<Rightarrow> bytes \<Rightarrow> capability_record \<Rightarrow> publish_error + capability_record" where
  "publishCapabilities codec sign pub nodePrivateKey f =
     (case orderExtensions (cb_extensions f) of
        Inl d \<Rightarrow> Inl (Duplicate_extension d)
      | Inr ordered \<Rightarrow>
          let unsigned = f\<lparr>cb_nodeKey := toHex (pub nodePrivateKey), cb_features := js_sort unit_cmp (cb_features f),
                           cb_sovereignFor := js_sort unit_cmp (cb_sovereignFor f), cb_extensions := ordered\<rparr>
          in case capabilityPayload codec unsigned of
               Payload_duplicate d \<Rightarrow> Inl (Duplicate_extension d)
             | Payload_not_encodable e \<Rightarrow> Inl (Capability_not_encodable e)
             | Payload m \<Rightarrow> Inr (unsigned\<lparr>cb_signature := toHex (sign m nodePrivateKey)\<rparr>))"

definition verifyCapabilityRecord :: "codec \<Rightarrow> verifier \<Rightarrow> capability_record \<Rightarrow> rat \<Rightarrow> encode_error + bool" where
  "verifyCapabilityRecord codec verify r now =
     (if cb_issuedAt r > now \<or> cb_expiresAt r \<le> now then Inr False
      else case capabilityPayload codec r of
             Payload_not_encodable e \<Rightarrow> Inl e
           | Payload_duplicate d \<Rightarrow> Inr False
           | Payload m \<Rightarrow> Inr (checks verify (cb_signature r) m (cb_nodeKey r)))"

definition UNDERSTOOD_EXTENSIONS :: "string list" where
  "UNDERSTOOD_EXTENSIONS = []"

definition unhonouredCritical :: "capability_record \<Rightarrow> string list \<Rightarrow> string list" where
  "unhonouredCritical r understands =
     map cx_id (filter (\<lambda>e. cx_critical e \<and> cx_id e \<notin> set UNDERSTOOD_EXTENSIONS \<and> cx_id e \<notin> set understands) (cb_extensions r))"

section \<open>Indexes\<close>

record node_records =
  nr_certificate :: node_certificate
  nr_capabilities :: capability_record

record 's record_index =
  ri_providers :: "string \<Rightarrow> 's \<Rightarrow> string list settled \<times> 's"
  ri_recordsFor :: "string \<Rightarrow> 's \<Rightarrow> node_records option settled \<times> 's"

text \<open>\<open>MemoryRecordIndex\<close>.\<close>

record memory_index =
  mi_providers :: "(string, string list) jsmap"
  mi_records :: "(string, node_records) jsmap"

definition provide :: "string \<Rightarrow> string \<Rightarrow> memory_index \<Rightarrow> memory_index" where
  "provide cid nodeKey m =
     (case map_get (mi_providers m) cid of
        Some existing \<Rightarrow> m\<lparr>mi_providers := map_set cid (set_add nodeKey existing) (mi_providers m)\<rparr>
      | None \<Rightarrow> m\<lparr>mi_providers := map_set cid [nodeKey] (mi_providers m)\<rparr>)"

definition publish_records :: "node_records \<Rightarrow> memory_index \<Rightarrow> memory_index" where
  "publish_records r m = m\<lparr>mi_records := map_set (c_nodeKey (nr_certificate r)) r (mi_records m)\<rparr>"

definition memory_record_index :: "memory_index record_index" where
  "memory_record_index =
     \<lparr>ri_providers = (\<lambda>cid m. (Returned (case map_get (mi_providers m) cid of None \<Rightarrow> [] | Some ks \<Rightarrow> ks), m)),
      ri_recordsFor = (\<lambda>nodeKey m. (Returned (map_get (mi_records m) nodeKey), m))\<rparr>"

text \<open>\<open>SelfRecordIndex\<close>: the node's own key, store and records; \<open>withhold\<close> of \<open>None\<close> is
  \<open>advertises-everything-it-holds\<close>, and the records are read when they are asked for.\<close>

record 's self_index =
  sx_nodeKey :: string
  sx_has :: "string \<Rightarrow> 's \<Rightarrow> bool"
  sx_records :: "'s \<Rightarrow> node_records option"
  sx_withhold :: "(string \<Rightarrow> 's \<Rightarrow> bool) option"

definition self_providers :: "'s self_index \<Rightarrow> string \<Rightarrow> 's \<Rightarrow> string list" where
  "self_providers x cid s =
     (if \<not> sx_has x cid s then []
      else if (case sx_withhold x of None \<Rightarrow> False | Some w \<Rightarrow> w cid s) then []
      else [sx_nodeKey x])"

definition self_recordsFor :: "'s self_index \<Rightarrow> string \<Rightarrow> 's \<Rightarrow> node_records option" where
  "self_recordsFor x nodeKey s = (if nodeKey \<noteq> sx_nodeKey x then None else sx_records x s)"

definition self_record_index :: "'s self_index \<Rightarrow> 's record_index" where
  "self_record_index x =
     \<lparr>ri_providers = (\<lambda>cid s. (Returned (self_providers x cid s), s)),
      ri_recordsFor = (\<lambda>nodeKey s. (Returned (self_recordsFor x nodeKey s), s))\<rparr>"

text \<open>\<open>FallbackRecordIndex\<close>: the first available source that has an answer; \<open>lastSource\<close> beside the state.\<close>

record 's index_source =
  is_name :: string
  is_index :: "'s record_index"
  is_available :: "'s \<Rightarrow> bool settled \<times> 's"

fun fallback_providers :: "'s index_source list \<Rightarrow> string \<Rightarrow> string option \<times> 's \<Rightarrow> string list settled \<times> string option \<times> 's" where
  "fallback_providers [] cid (last_source, s) = (Returned [], last_source, s)"
| "fallback_providers (source # rest) cid (last_source, s) =
     (case is_available source s of
        (Threw e, s1) \<Rightarrow> (Threw e, last_source, s1)
      | (Returned a, s1) \<Rightarrow>
          if \<not> a then fallback_providers rest cid (last_source, s1)
          else (case ri_providers (is_index source) cid s1 of
                  (Threw e, s2) \<Rightarrow> (Threw e, last_source, s2)
                | (Returned found, s2) \<Rightarrow>
                    if length found > 0 then (Returned found, Some (is_name source), s2)
                    else fallback_providers rest cid (last_source, s2)))"

fun fallback_recordsFor ::
  "'s index_source list \<Rightarrow> string \<Rightarrow> string option \<times> 's \<Rightarrow> node_records option settled \<times> string option \<times> 's" where
  "fallback_recordsFor [] nodeKey (last_source, s) = (Returned None, last_source, s)"
| "fallback_recordsFor (source # rest) nodeKey (last_source, s) =
     (case is_available source s of
        (Threw e, s1) \<Rightarrow> (Threw e, last_source, s1)
      | (Returned a, s1) \<Rightarrow>
          if \<not> a then fallback_recordsFor rest nodeKey (last_source, s1)
          else (case ri_recordsFor (is_index source) nodeKey s1 of
                  (Threw e, s2) \<Rightarrow> (Threw e, last_source, s2)
                | (Returned (Some r), s2) \<Rightarrow> (Returned (Some r), Some (is_name source), s2)
                | (Returned None, s2) \<Rightarrow> fallback_recordsFor rest nodeKey (last_source, s2)))"

definition fallback_index :: "'s index_source list \<Rightarrow> (string option \<times> 's) record_index" where
  "fallback_index sources = \<lparr>ri_providers = fallback_providers sources, ri_recordsFor = fallback_recordsFor sources\<rparr>"

section \<open>Discovery\<close>

record executor_query =
  eq_inputCid :: string
  eq_requiredFeatures :: "string list option"
  eq_sovereignFor :: "string option"

datatype exclusion_reason =
    No_records string
  | Invalid_certificate string certificate_failure
  | Invalid_capability_record string
  | Critical_extension_not_understood string "string list"
  | Certificate_mismatch string string
  | Missing_features string "string list"
  | Not_cleared_for_owner string string

fun excluded_key :: "exclusion_reason \<Rightarrow> string" where
  "excluded_key (No_records k) = k"
| "excluded_key (Invalid_certificate k f) = k"
| "excluded_key (Invalid_capability_record k) = k"
| "excluded_key (Critical_extension_not_understood k xs) = k"
| "excluded_key (Certificate_mismatch k r) = k"
| "excluded_key (Missing_features k xs) = k"
| "excluded_key (Not_cleared_for_owner k u) = k"

record discovered_executor =
  de_nodeKey :: string
  de_certificate :: node_certificate
  de_capabilities :: capability_record

record discovery_result =
  dr_executors :: "discovered_executor list"
  dr_excluded :: "exclusion_reason list"
  dr_providers :: nat

record discovery_options =
  do_trustedIssuers :: "string list"
  do_now :: rat
  do_understands :: "string list"

datatype discovery_error = Index_rejected string | Record_not_encodable encode_error

text \<open>One pass of the loop: what becomes of the provider \<open>nodeKey\<close>.\<close>

definition judge_provider ::
  "codec \<Rightarrow> verifier \<Rightarrow> x509_codec \<Rightarrow> executor_query \<Rightarrow> discovery_options \<Rightarrow> string \<Rightarrow> node_records option
    \<Rightarrow> encode_error + (exclusion_reason + discovered_executor)" where
  "judge_provider codec verify x q opts nodeKey found =
     (case found of
        None \<Rightarrow> Inr (Inl (No_records nodeKey))
      | Some r \<Rightarrow>
          let certificate = nr_certificate r; capabilities = nr_capabilities r
          in case verifyCertificate codec verify x certificate (do_trustedIssuers opts) (do_now opts) of
               Certificate_threw e \<Rightarrow> Inl e
             | Certificate_refused failure \<Rightarrow> Inr (Inl (Invalid_certificate nodeKey failure))
             | Certificate_ok _ \<Rightarrow>
                 if c_nodeKey certificate \<noteq> nodeKey \<or> cb_nodeKey capabilities \<noteq> nodeKey
                 then Inr (Inl (Certificate_mismatch nodeKey (cb_nodeKey capabilities)))
                 else case verifyCapabilityRecord codec verify capabilities (do_now opts) of
                        Inl e \<Rightarrow> Inl e
                      | Inr False \<Rightarrow> Inr (Inl (Invalid_capability_record nodeKey))
                      | Inr True \<Rightarrow>
                          let unhonoured = unhonouredCritical capabilities (do_understands opts);
                              required = (case eq_requiredFeatures q of None \<Rightarrow> [] | Some fs \<Rightarrow> fs);
                              missing = filter (\<lambda>f. f \<notin> set (cb_features capabilities)) required
                          in if length unhonoured > 0 then Inr (Inl (Critical_extension_not_understood nodeKey unhonoured))
                             else if length missing > 0 then Inr (Inl (Missing_features nodeKey missing))
                             else case eq_sovereignFor q of
                                    Some u \<Rightarrow>
                                      if u \<notin> set (cb_sovereignFor capabilities) then Inr (Inl (Not_cleared_for_owner nodeKey u))
                                      else Inr (Inr \<lparr>de_nodeKey = nodeKey, de_certificate = certificate, de_capabilities = capabilities\<rparr>)
                                  | None \<Rightarrow> Inr (Inr \<lparr>de_nodeKey = nodeKey, de_certificate = certificate, de_capabilities = capabilities\<rparr>))"

fun judge_all ::
  "(string \<Rightarrow> node_records option \<Rightarrow> encode_error + (exclusion_reason + discovered_executor))
    \<Rightarrow> (string \<times> node_records option) list \<Rightarrow> encode_error + (exclusion_reason list \<times> discovered_executor list)" where
  "judge_all judge [] = Inr ([], [])"
| "judge_all judge ((k, r) # rest) =
     (case judge k r of
        Inl e \<Rightarrow> Inl e
      | Inr v \<Rightarrow>
          (case judge_all judge rest of
             Inl e \<Rightarrow> Inl e
           | Inr (excluded, executors) \<Rightarrow>
               Inr (case v of Inl reason \<Rightarrow> (reason # excluded, executors) | Inr d \<Rightarrow> (excluded, d # executors))))"

text \<open>Every record is asked for before any answer is looked at; the first rejection is rethrown.\<close>

fun ask_all :: "'s record_index \<Rightarrow> string list \<Rightarrow> 's \<Rightarrow> (string \<times> node_records option settled) list \<times> 's" where
  "ask_all ix [] s = ([], s)"
| "ask_all ix (k # ks) s =
     (let (a, s1) = ri_recordsFor ix k s; (rest, s2) = ask_all ix ks s1 in ((k, a) # rest, s2))"

fun fulfilled :: "(string \<times> node_records option settled) list \<Rightarrow> string + (string \<times> node_records option) list" where
  "fulfilled [] = Inr []"
| "fulfilled ((k, Threw e) # rest) = Inl e"
| "fulfilled ((k, Returned r) # rest) = map_sum id (\<lambda>rs. (k, r) # rs) (fulfilled rest)"

definition discoverExecutors ::
  "codec \<Rightarrow> verifier \<Rightarrow> x509_codec \<Rightarrow> executor_query \<Rightarrow> 's record_index \<Rightarrow> discovery_options \<Rightarrow> 's
    \<Rightarrow> (discovery_error + discovery_result) \<times> 's" where
  "discoverExecutors codec verify x q ix opts s =
     (case ri_providers ix (eq_inputCid q) s of
        (Threw e, s1) \<Rightarrow> (Inl (Index_rejected e), s1)
      | (Returned listed, s1) \<Rightarrow>
          let providers = js_sort unit_cmp (set_of_list listed);
              (outcomes, s2) = ask_all ix providers s1
          in case fulfilled outcomes of
               Inl e \<Rightarrow> (Inl (Index_rejected e), s2)
             | Inr found \<Rightarrow>
                 (case judge_all (judge_provider codec verify x q opts) found of
                    Inl e \<Rightarrow> (Inl (Record_not_encodable e), s2)
                  | Inr (excluded, executors) \<Rightarrow>
                      (Inr \<lparr>dr_executors = executors, dr_excluded = excluded, dr_providers = length providers\<rparr>, s2)))"

section \<open>The order of extensions\<close>

lemma compare_bytes_total: "compare_bytes a b \<le> 0 \<or> compare_bytes b a \<le> 0"
  by (induction a b rule: compare_bytes.induct) auto

lemma compare_bytes_trans: "compare_bytes a b \<le> 0 \<Longrightarrow> compare_bytes b c \<le> 0 \<Longrightarrow> compare_bytes a c \<le> 0"
proof (induction a arbitrary: b c)
  case (Cons x a)
  then obtain y b' where b: "b = y # b'" by (cases b) auto
  with Cons.prems obtain z c' where c: "c = z # c'" by (cases c) auto
  show ?case using Cons b c by (auto split: if_splits)
qed simp

lemma compare_bytes_antisym: "compare_bytes a b \<le> 0 \<Longrightarrow> compare_bytes b a \<le> 0 \<Longrightarrow> a = b"
proof (induction a arbitrary: b)
  case Nil
  then show ?case by (cases b) auto
next
  case (Cons x a)
  then obtain y b' where b: "b = y # b'" by (cases b) auto
  with Cons show ?case by (auto split: if_splits)
qed

interpretation ext_order: comparator ext_cmp
proof
  fix x y z
  show "ext_cmp x y \<le> 0 \<or> ext_cmp y x \<le> 0"
    unfolding ext_cmp_def compareExtensionIds_def by (rule compare_bytes_total)
  show "ext_cmp x y \<le> 0 \<Longrightarrow> ext_cmp y z \<le> 0 \<Longrightarrow> ext_cmp x z \<le> 0"
    unfolding ext_cmp_def compareExtensionIds_def by (rule compare_bytes_trans)
qed

lemma utf8_char_inj:
  assumes "utf8_char c @ s = utf8_char d @ t"
  shows "c = d \<and> s = t"
proof -
  let ?m = "of_char c :: nat" and ?n = "of_char d :: nat"
  have lt: "?m < 256" "?n < 256" by simp_all
  have w: "(of_nat a :: 8 word) = of_nat b \<longleftrightarrow> a = b" if "a < 256" "b < 256" for a b :: nat
    using that by (simp add: word_of_nat_eq_iff take_bit_eq_mod)
  have "?m = ?n \<and> s = t"
  proof (cases "?m < 128"; cases "?n < 128")
    assume "?m < 128" "?n < 128"
    then show ?thesis using assms w [of ?m ?n] by (simp add: utf8_char_def Let_def)
  next
    assume a: "?m < 128" "\<not> ?n < 128"
    moreover have "192 + ?n div 64 < 256" using lt by linarith
    ultimately show ?thesis using assms w [of ?m "192 + ?n div 64"] by (simp add: utf8_char_def Let_def del: of_nat_add)
  next
    assume a: "\<not> ?m < 128" "?n < 128"
    moreover have "192 + ?m div 64 < 256" using lt by linarith
    ultimately show ?thesis using assms w [of "192 + ?m div 64" ?n] by (simp add: utf8_char_def Let_def del: of_nat_add)
  next
    assume a: "\<not> ?m < 128" "\<not> ?n < 128"
    moreover have "192 + ?m div 64 < 256" "192 + ?n div 64 < 256" "128 + ?m mod 64 < 256" "128 + ?n mod 64 < 256"
      using lt by linarith+
    ultimately have "?m div 64 = ?n div 64" "?m mod 64 = ?n mod 64" "s = t"
      using assms w [of "192 + ?m div 64" "192 + ?n div 64"] w [of "128 + ?m mod 64" "128 + ?n mod 64"]
      by (simp_all add: utf8_char_def Let_def del: of_nat_add)
    then show ?thesis by (metis mult_div_mod_eq)
  qed
  then show ?thesis by simp
qed

lemma utf8_char_not_Nil: "utf8_char c \<noteq> []"
  by (simp add: utf8_char_def Let_def)

lemma utf8_inj: "utf8 a = utf8 b \<Longrightarrow> a = b"
proof (induction a arbitrary: b)
  case Nil
  then show ?case by (cases b) (auto simp: utf8_def utf8_char_not_Nil)
next
  case (Cons c a)
  from Cons.prems obtain d b' where b: "b = d # b'" by (cases b) (auto simp: utf8_def utf8_char_not_Nil)
  with Cons.prems have "utf8_char c @ utf8 a = utf8_char d @ utf8 b'" by (simp add: utf8_def)
  from utf8_char_inj [OF this] Cons.IH b show ?case by blast
qed

lemma ext_cmp_antisym: "ext_cmp a b \<le> 0 \<Longrightarrow> ext_cmp b a \<le> 0 \<Longrightarrow> cx_id a = cx_id b"
  unfolding ext_cmp_def compareExtensionIds_def by (blast dest: compare_bytes_antisym utf8_inj)

lemma adjacent_duplicate_sorted:
  "sorted_wrt (\<lambda>a b. ext_cmp a b \<le> 0) es \<Longrightarrow> adjacent_duplicate es = None \<longleftrightarrow> distinct (map cx_id es)"
proof (induction es rule: adjacent_duplicate.induct)
  case (1 p c rest)
  have "cx_id p \<notin> cx_id ` set rest" if "cx_id p \<noteq> cx_id c"
  proof
    assume "cx_id p \<in> cx_id ` set rest"
    then obtain z where z: "z \<in> set rest" "cx_id z = cx_id p" by auto
    then have "ext_cmp c z \<le> 0" "ext_cmp p c \<le> 0" using "1.prems" by auto
    then have "ext_cmp c p \<le> 0" using z(2) by (simp add: ext_cmp_def)
    with \<open>ext_cmp p c \<le> 0\<close> ext_cmp_antisym that show False by blast
  qed
  with 1 show ?case by auto
qed simp_all

lemma orderExtensions_Inr: "orderExtensions es = Inr ordered \<longleftrightarrow> ordered = js_sort ext_cmp es \<and> distinct (map cx_id es)"
proof -
  have "distinct (map cx_id (js_sort ext_cmp es)) = distinct (map cx_id es)"
    by (metis mset_js_sort mset_map mset_eq_imp_distinct_iff)
  then show ?thesis using adjacent_duplicate_sorted [OF ext_order.sorted_sort, of es]
    by (auto simp: orderExtensions_def Let_def split: option.splits)
qed

lemma order_independent:
  assumes "mset es = mset fs" "distinct (map cx_id es)"
  shows "js_sort ext_cmp es = js_sort ext_cmp fs"
proof (rule ext_order.sort_order_independent [OF assms(1)])
  fix a b assume "a \<in> set es" "b \<in> set es" "ext_cmp a b \<le> 0" "ext_cmp b a \<le> 0"
  with ext_cmp_antisym assms(2) show "a = b" by (metis distinct_map inj_onD)
qed

section \<open>Publishing\<close>

definition same_papers :: "capability_record \<Rightarrow> capability_record \<Rightarrow> bool" where
  "same_papers r r' \<longleftrightarrow> mset (cb_features r) = mset (cb_features r') \<and> mset (cb_sovereignFor r) = mset (cb_sovereignFor r') \<and>
     mset (cb_extensions r) = mset (cb_extensions r') \<and> cb_nodeKey r = cb_nodeKey r' \<and> cb_issuedAt r = cb_issuedAt r' \<and>
     cb_expiresAt r = cb_expiresAt r' \<and> cb_signature r = cb_signature r'"

lemma unit_sort_cong: "mset xs = mset ys \<Longrightarrow> js_sort unit_cmp xs = js_sort unit_cmp ys"
  by (metis js_sort_is_sort properties_for_sort mset_sort sorted_sort)

lemma payload_same_papers:
  assumes "same_papers r r'"
  shows "capabilityPayload codec r = capabilityPayload codec r' \<or>
    (\<exists>d d'. capabilityPayload codec r = Payload_duplicate d \<and> capabilityPayload codec r' = Payload_duplicate d')"
proof (cases "distinct (map cx_id (cb_extensions r))")
  case True
  have m: "mset (cb_extensions r) = mset (cb_extensions r')" using assms by (simp add: same_papers_def)
  with True have d: "distinct (map cx_id (cb_extensions r'))" by (metis mset_map mset_eq_imp_distinct_iff)
  have "orderExtensions (cb_extensions r) = Inr (js_sort ext_cmp (cb_extensions r))"
    "orderExtensions (cb_extensions r') = Inr (js_sort ext_cmp (cb_extensions r))"
    using True d order_independent [OF m True] by (simp_all add: orderExtensions_Inr)
  moreover have "capability_value r ordered = capability_value r' ordered" for ordered
    using assms unit_sort_cong [of "cb_features r" "cb_features r'"] unit_sort_cong [of "cb_sovereignFor r" "cb_sovereignFor r'"]
    by (simp add: same_papers_def capability_value_def)
  ultimately show ?thesis by (simp add: capabilityPayload_def)
next
  case False
  have m: "mset (cb_extensions r) = mset (cb_extensions r')" using assms by (simp add: same_papers_def)
  with False have d: "\<not> distinct (map cx_id (cb_extensions r'))" by (metis mset_map mset_eq_imp_distinct_iff)
  from False d obtain a b where "orderExtensions (cb_extensions r) = Inl a" "orderExtensions (cb_extensions r') = Inl b"
    by (metis orderExtensions_Inr old.sum.exhaust)
  then show ?thesis by (simp add: capabilityPayload_def)
qed

lemma payload_unsigned: "capabilityPayload codec (r\<lparr>cb_signature := sig\<rparr>) = capabilityPayload codec r"
  by (cases "orderExtensions (cb_extensions r)") (simp_all add: capabilityPayload_def capability_value_def)

lemma publish_facts:
  assumes "publishCapabilities codec sign pub sk f = Inr r"
  shows "\<exists>m. capabilityPayload codec r = Payload m \<and> cb_signature r = toHex (sign m sk) \<and> cb_nodeKey r = toHex (pub sk) \<and>
    cb_issuedAt r = cb_issuedAt f \<and> cb_expiresAt r = cb_expiresAt f \<and> cb_features r = js_sort unit_cmp (cb_features f) \<and>
    cb_sovereignFor r = js_sort unit_cmp (cb_sovereignFor f) \<and> mset (cb_extensions r) = mset (cb_extensions f)"
proof -
  from assms obtain ordered m where o: "orderExtensions (cb_extensions f) = Inr ordered"
    and p: "capabilityPayload codec (f\<lparr>cb_nodeKey := toHex (pub sk), cb_features := js_sort unit_cmp (cb_features f),
        cb_sovereignFor := js_sort unit_cmp (cb_sovereignFor f), cb_extensions := ordered\<rparr>) = Payload m"
    and r: "r = f\<lparr>cb_nodeKey := toHex (pub sk), cb_features := js_sort unit_cmp (cb_features f),
        cb_sovereignFor := js_sort unit_cmp (cb_sovereignFor f), cb_extensions := ordered, cb_signature := toHex (sign m sk)\<rparr>"
    by (auto simp: publishCapabilities_def Let_def split: sum.splits payload_result.splits)
  have "capabilityPayload codec r = Payload m" using p payload_unsigned [where sig = "toHex (sign m sk)" and
        r = "f\<lparr>cb_nodeKey := toHex (pub sk), cb_features := js_sort unit_cmp (cb_features f),
          cb_sovereignFor := js_sort unit_cmp (cb_sovereignFor f), cb_extensions := ordered\<rparr>"] by (simp add: r)
  moreover have "mset ordered = mset (cb_extensions f)" using o by (simp add: orderExtensions_Inr)
  ultimately show ?thesis by (simp add: r)
qed

text \<open>A published capability record verifies, whatever order it is carried in: for as long as it is valid, the record
  a node publishes is accepted by every reader that trusts the signature scheme, and so is any
  rearrangement of its features, owners and extensions; before it is issued and once it has expired it
  is not.\<close>

theorem published_record_verifies:
  assumes "\<And>m k. verify (sign m k) m (pub k) = Some True"
    and "publishCapabilities codec sign pub sk f = Inr r" "same_papers r r'"
  shows "verifyCapabilityRecord codec verify r' now = Inr (cb_issuedAt f \<le> now \<and> now < cb_expiresAt f)"
proof -
  from publish_facts [OF assms(2)] obtain m where m: "capabilityPayload codec r = Payload m" "cb_signature r = toHex (sign m sk)"
    "cb_nodeKey r = toHex (pub sk)" "cb_issuedAt r = cb_issuedAt f" "cb_expiresAt r = cb_expiresAt f" by blast
  then have "capabilityPayload codec r' = Payload m" using payload_same_papers [OF assms(3), of codec] by auto
  moreover have "checks verify (cb_signature r) m (cb_nodeKey r)" by (simp add: m(2,3) checks_def assms(1))
  then have "checks verify (cb_signature r') m (cb_nodeKey r')" using assms(3) by (simp add: same_papers_def)
  moreover have "cb_issuedAt r' = cb_issuedAt f" "cb_expiresAt r' = cb_expiresAt f"
    using assms(3) m(4,5) by (simp_all add: same_papers_def)
  ultimately show ?thesis by (auto simp: verifyCapabilityRecord_def)
qed

section \<open>Who is discovered\<close>

text \<open>The papers of the provider \<open>k\<close> are in order.\<close>

definition papers_in_order ::
  "codec \<Rightarrow> verifier \<Rightarrow> x509_codec \<Rightarrow> executor_query \<Rightarrow> discovery_options \<Rightarrow> string \<Rightarrow> node_records \<Rightarrow> bool" where
  "papers_in_order codec verify x q opts k r \<longleftrightarrow>
     verifyCertificate codec verify x (nr_certificate r) (do_trustedIssuers opts) (do_now opts) = Certificate_ok (nr_certificate r) \<and>
     c_nodeKey (nr_certificate r) = k \<and> cb_nodeKey (nr_capabilities r) = k \<and>
     verifyCapabilityRecord codec verify (nr_capabilities r) (do_now opts) = Inr True \<and>
     (\<forall>e \<in> set (cb_extensions (nr_capabilities r)). cx_critical e \<longrightarrow> cx_id e \<in> set (do_understands opts)) \<and>
     (\<forall>fs. eq_requiredFeatures q = Some fs \<longrightarrow> set fs \<subseteq> set (cb_features (nr_capabilities r))) \<and>
     (\<forall>u. eq_sovereignFor q = Some u \<longrightarrow> u \<in> set (cb_sovereignFor (nr_capabilities r)))"

lemma verifyCertificate_ok_same: "verifyCertificate codec verify x c tr now = Certificate_ok d \<Longrightarrow> d = c"
  by (auto simp: verifyCertificate_def split: if_splits option.splits sum.splits)

lemma unhonoured_Nil:
  "unhonouredCritical r us = [] \<longleftrightarrow> (\<forall>e \<in> set (cb_extensions r). cx_critical e \<longrightarrow> cx_id e \<in> set us)"
  by (auto simp: unhonouredCritical_def UNDERSTOOD_EXTENSIONS_def filter_empty_conv)

lemma judge_provider_executor:
  "judge_provider codec verify x q opts k found = Inr (Inr e) \<longleftrightarrow>
     (\<exists>r. found = Some r \<and> papers_in_order codec verify x q opts k r \<and>
        e = \<lparr>de_nodeKey = k, de_certificate = nr_certificate r, de_capabilities = nr_capabilities r\<rparr>)"
proof (cases found)
  case (Some r)
  show ?thesis
  proof (cases "verifyCertificate codec verify x (nr_certificate r) (do_trustedIssuers opts) (do_now opts)")
    case (Certificate_ok d)
    then have d: "d = nr_certificate r" by (rule verifyCertificate_ok_same)
    show ?thesis
    proof (cases "c_nodeKey (nr_certificate r) = k \<and> cb_nodeKey (nr_capabilities r) = k \<and>
        verifyCapabilityRecord codec verify (nr_capabilities r) (do_now opts) = Inr True")
      case True
      then show ?thesis using Some Certificate_ok d unhonoured_Nil [of "nr_capabilities r" "do_understands opts"]
        by (cases "eq_requiredFeatures q"; cases "eq_sovereignFor q")
          (auto simp: judge_provider_def papers_in_order_def Let_def filter_empty_conv)
    next
      case False
      then show ?thesis using Some Certificate_ok
        by (auto simp: judge_provider_def papers_in_order_def Let_def split: sum.splits bool.splits)
    qed
  qed (simp_all add: Some judge_provider_def papers_in_order_def Let_def)
qed (simp add: judge_provider_def)

lemma judge_provider_key: "judge_provider codec verify x q opts k found = Inr (Inl reason) \<Longrightarrow> excluded_key reason = k"
  by (auto simp: judge_provider_def Let_def split: option.splits certificate_result.splits if_splits sum.splits bool.splits)

lemma judge_all_facts:
  "judge_all (judge_provider codec verify x q opts) rs = Inr (excluded, executors) \<Longrightarrow>
   (\<forall>e. e \<in> set executors \<longleftrightarrow> (\<exists>k r. (k, Some r) \<in> set rs \<and> papers_in_order codec verify x q opts k r \<and>
        e = \<lparr>de_nodeKey = k, de_certificate = nr_certificate r, de_capabilities = nr_capabilities r\<rparr>)) \<and>
   mset (map de_nodeKey executors @ map excluded_key excluded) = mset (map fst rs)"
proof (induction rs arbitrary: excluded executors)
  case (Cons p rs)
  obtain k found where p: "p = (k, found)" by fastforce
  from Cons.prems obtain v ex rest where j: "judge_provider codec verify x q opts k found = Inr v"
    and rest: "judge_all (judge_provider codec verify x q opts) rs = Inr (ex, rest)"
    and out: "(excluded, executors) = (case v of Inl reason \<Rightarrow> (reason # ex, rest) | Inr d \<Rightarrow> (ex, d # rest))"
    by (auto simp: p split: sum.splits)
  note IH = Cons.IH [OF rest]
  show ?case
  proof (cases v)
    case (Inl reason)
    have "\<not> papers_in_order codec verify x q opts k r" if "found = Some r" for r
      using judge_provider_executor [of codec verify x q opts k found] j Inl that by auto
    then show ?thesis using IH out judge_provider_key [OF j [unfolded Inl]] by (auto simp: p Inl)
  next
    case (Inr d)
    with j obtain r where "found = Some r" "papers_in_order codec verify x q opts k r"
      "d = \<lparr>de_nodeKey = k, de_certificate = nr_certificate r, de_capabilities = nr_capabilities r\<rparr>"
      by (auto simp: judge_provider_executor)
    then show ?thesis using IH out by (auto simp: p Inr)
  qed
qed simp

lemma ask_all_keys: "fulfilled (fst (ask_all ix ks s)) = Inr rs \<Longrightarrow> map fst rs = ks"
proof (induction ks arbitrary: s rs)
  case (Cons k ks)
  obtain a s1 where a: "ri_recordsFor ix k s = (a, s1)" by fastforce
  obtain rest s2 where r: "ask_all ix ks s1 = (rest, s2)" by fastforce
  from Cons.prems a r obtain v rs' where "a = Returned v" "fulfilled rest = Inr rs'" "rs = (k, v) # rs'"
    by (cases a; cases "fulfilled rest") auto
  then show ?case using Cons.IH [of s1 rs'] r by simp
qed simp

text \<open>Discovery names exactly the providers whose papers are in order: an executor comes back just when the index lists it
  as a provider and gave for it a certificate that verifies, for that key, a capability record that verifies,
  for that key, with every critical extension understood, every required feature, and clearance for the owner
  asked for; and every provider listed is accounted for once, as an executor or as an exclusion with a reason.\<close>

theorem discovery_is_exact:
  assumes "discoverExecutors codec verify x q ix opts s = (Inr d, s')"
    and "ri_providers ix (eq_inputCid q) s = (Returned listed, s1)"
    and "fulfilled (fst (ask_all ix (js_sort unit_cmp (set_of_list listed)) s1)) = Inr found"
  shows "set (dr_executors d) = {\<lparr>de_nodeKey = k, de_certificate = nr_certificate r, de_capabilities = nr_capabilities r\<rparr> | k r.
      k \<in> set listed \<and> (k, Some r) \<in> set found \<and> papers_in_order codec verify x q opts k r} \<and>
    mset (map de_nodeKey (dr_executors d) @ map excluded_key (dr_excluded d)) = mset_set (set listed) \<and>
    dr_providers d = card (set listed)"
proof -
  let ?ps = "js_sort unit_cmp (set_of_list listed)"
  from assms obtain excluded executors where j: "judge_all (judge_provider codec verify x q opts) found = Inr (excluded, executors)"
    and d: "d = \<lparr>dr_executors = executors, dr_excluded = excluded, dr_providers = length ?ps\<rparr>"
    by (auto simp: discoverExecutors_def Let_def split: prod.splits sum.splits)
  note keys = ask_all_keys [OF assms(3)]
  then have mem: "k \<in> set listed" if "(k, r) \<in> set found" for k r
    using that by (metis fst_conv image_eqI list.set_map set_js_sort set_set_of_list)
  have "mset ?ps = mset_set (set listed)"
    by (metis distinct_js_sort distinct_set_of_list mset_set_set set_js_sort set_set_of_list)
  moreover have "length ?ps = card (set listed)" by (simp add: length_set_of_list)
  moreover have "set executors = {\<lparr>de_nodeKey = k, de_certificate = nr_certificate r, de_capabilities = nr_capabilities r\<rparr> | k r.
      k \<in> set listed \<and> (k, Some r) \<in> set found \<and> papers_in_order codec verify x q opts k r}"
    using judge_all_facts [OF j] mem by blast
  ultimately show ?thesis using judge_all_facts [OF j] by (simp add: d keys)
qed

text \<open>The fallback index answers with the first available source that has something, and names it.\<close>

lemma fallback_recordsFor_source:
  "fallback_recordsFor sources k (l, s) = (Returned (Some r), l', s') \<Longrightarrow>
   \<exists>source \<in> set sources. \<exists>s1. ri_recordsFor (is_index source) k s1 = (Returned (Some r), s') \<and> l' = Some (is_name source) \<and>
     (\<exists>s0. is_available source s0 = (Returned True, s1))"
proof (induction sources arbitrary: s)
  case (Cons source rest)
  obtain a s1 where a: "is_available source s = (a, s1)" by fastforce
  show ?case
  proof (cases a)
    case (Returned b)
    show ?thesis
    proof (cases b)
      case True
      obtain f s2 where f: "ri_recordsFor (is_index source) k s1 = (f, s2)" by fastforce
      show ?thesis
      proof (cases f)
        case (Returned g)
        then show ?thesis using Cons.prems Cons.IH [of s2] a \<open>a = Returned b\<close> True f by (cases g; simp; blast)
      qed (use Cons.prems a \<open>a = Returned b\<close> True f in simp)
    next
      case False
      then show ?thesis using Cons.prems Cons.IH [of s1] a Returned by auto
    qed
  qed (use Cons.prems a in simp)
qed simp

section \<open>A demonstration\<close>

definition demo_caps :: capability_record where
  "demo_caps = \<lparr>cb_nodeKey = [], cb_features = [''simd'', ''gc''], cb_sovereignFor = [''u''], cb_issuedAt = 0, cb_expiresAt = 9,
     cb_extensions = [\<lparr>cx_id = ''b'', cx_critical = False, cx_value = CNull\<rparr>, \<lparr>cx_id = ''a'', cx_critical = False, cx_value = CNull\<rparr>],
     cb_signature = []\<rparr>"

definition demo_published :: capability_record where
  "demo_published = demo_caps\<lparr>cb_nodeKey := toHex [1], cb_features := [''gc'', ''simd''], cb_extensions := rev (cb_extensions demo_caps),
     cb_signature := toHex [1]\<rparr>"

definition demo_node_cert :: node_certificate where
  "demo_node_cert = \<lparr>c_nodeKey = toHex [1], c_userKey = ''u'', c_operatorId = ''o'', c_discoverability = Seed, c_relayIds = [], c_issuedAt = 0,
     c_expiresAt = 9, c_issuer = toHex [9], c_signature = toHex [9], c_x509 = None, c_nextKeyCommitment = None\<rparr>"

lemma demo_node_cert_sel [simp]:
  "c_nodeKey demo_node_cert = toHex [1]" "c_issuer demo_node_cert = toHex [9]" "c_signature demo_node_cert = toHex [9]"
  "c_x509 demo_node_cert = None" "c_issuedAt demo_node_cert = 0" "c_expiresAt demo_node_cert = 9"
  by (simp_all only: demo_node_cert_def node_certificate.select_convs)

definition demo_index :: memory_index where
  "demo_index = provide ''cid'' ''ghost'' (provide ''cid'' (toHex [1])
     (publish_records \<lparr>nr_certificate = demo_node_cert, nr_capabilities = demo_published\<rparr> \<lparr>mi_providers = [], mi_records = []\<rparr>))"

lemma demo_publish: "publishCapabilities demo_codec (\<lambda>m k. k) id [1] demo_caps = Inr demo_published"
proof -
  have o: "orderExtensions (cb_extensions demo_caps) = Inr (rev (cb_extensions demo_caps))"
    "orderExtensions (rev (cb_extensions demo_caps)) = Inr (rev (cb_extensions demo_caps))"
    by (simp_all add: demo_caps_def) code_simp+
  have f: "js_sort unit_cmp (cb_features demo_caps) = [''gc'', ''simd'']" "js_sort unit_cmp (cb_sovereignFor demo_caps) = cb_sovereignFor demo_caps"
    by (simp_all add: demo_caps_def) code_simp
  have e: "encodeCanonical demo_codec (capability_value r (rev (cb_extensions demo_caps))) = Inr []" for r
    by (auto simp: encodeCanonical_Inr demo_codec_def capability_value_def list_all_iff extension_value_def demo_caps_def)
  show ?thesis
    by (simp add: publishCapabilities_def o f e capabilityPayload_def Let_def demo_published_def del: toHex.simps)
qed

theorem published_record_verifies_witness:
  "verifyCapabilityRecord demo_codec demo_verify (demo_published\<lparr>cb_features := [''simd'', ''gc'']\<rparr>) 5 = Inr True"
  using published_record_verifies [OF _ demo_publish, where verify = demo_verify and now = 5 and
      r' = "demo_published\<lparr>cb_features := [''simd'', ''gc'']\<rparr>"]
  by (simp add: demo_verify_def same_papers_def demo_published_def demo_caps_def del: toHex.simps)

definition demo_query :: executor_query where
  "demo_query = \<lparr>eq_inputCid = ''cid'', eq_requiredFeatures = Some [''gc''], eq_sovereignFor = Some ''u''\<rparr>"

definition demo_discovery_options :: discovery_options where
  "demo_discovery_options = \<lparr>do_trustedIssuers = [toHex [9]], do_now = 5, do_understands = []\<rparr>"

definition demo_discovered :: discovery_result where
  "demo_discovered = \<lparr>dr_executors = [\<lparr>de_nodeKey = toHex [1], de_certificate = demo_node_cert, de_capabilities = demo_published\<rparr>],
     dr_excluded = [No_records ''ghost''], dr_providers = 2\<rparr>"

lemma demo_providers: "js_sort unit_cmp (set_of_list [toHex [1], ''ghost'']) = [toHex [1], ''ghost'']"
  "ri_providers memory_record_index ''cid'' demo_index = (Returned [toHex [1], ''ghost''], demo_index)"
  by code_simp+

lemma demo_index_answers: "fulfilled (fst (ask_all memory_record_index [toHex [1], ''ghost''] demo_index)) =
    Inr [(toHex [1], Some \<lparr>nr_certificate = demo_node_cert, nr_capabilities = demo_published\<rparr>), (''ghost'', None)]"
  by (simp add: memory_record_index_def demo_index_def provide_def publish_records_def demo_node_cert_def)

lemma demo_in_order: "papers_in_order demo_codec demo_verify demo_x509 demo_query demo_discovery_options (toHex [1])
    \<lparr>nr_certificate = demo_node_cert, nr_capabilities = demo_published\<rparr>"
proof -
  have "certificatePayload demo_codec demo_node_cert = Inr []"
    by (auto simp: certificatePayload_def encodeCanonical_Inr demo_codec_def certificate_value_def demo_node_cert_def)
  then have "verifyCertificate demo_codec demo_verify demo_x509 demo_node_cert [toHex [9]] 5 = Certificate_ok demo_node_cert"
    by (simp add: verifyCertificate_def checkX509Form_def checks_def demo_verify_def del: toHex.simps)
  moreover have "verifyCapabilityRecord demo_codec demo_verify demo_published 5 = Inr True"
  proof -
    obtain m where "capabilityPayload demo_codec demo_published = Payload m" using publish_facts [OF demo_publish] by blast
    then show ?thesis by (simp add: verifyCapabilityRecord_def checks_def demo_verify_def)
        (simp add: demo_published_def demo_caps_def del: toHex.simps)
  qed
  ultimately show ?thesis
    by (simp add: papers_in_order_def demo_discovery_options_def demo_query_def demo_node_cert_def demo_published_def demo_caps_def del: toHex.simps)
qed

lemma demo_discover: "discoverExecutors demo_codec demo_verify demo_x509 demo_query memory_record_index demo_discovery_options demo_index =
    (Inr demo_discovered, snd (ask_all memory_record_index [toHex [1], ''ghost''] demo_index))"
proof -
  have "judge_provider demo_codec demo_verify demo_x509 demo_query demo_discovery_options (toHex [1])
      (Some \<lparr>nr_certificate = demo_node_cert, nr_capabilities = demo_published\<rparr>) = Inr (Inr
      \<lparr>de_nodeKey = toHex [1], de_certificate = demo_node_cert, de_capabilities = demo_published\<rparr>)"
    by (simp add: judge_provider_executor demo_in_order del: toHex.simps)
  moreover have "judge_provider demo_codec demo_verify demo_x509 demo_query demo_discovery_options ''ghost'' None = Inr (Inl (No_records ''ghost''))"
    by (simp add: judge_provider_def)
  ultimately have j: "judge_all (judge_provider demo_codec demo_verify demo_x509 demo_query demo_discovery_options)
      [(toHex [1], Some \<lparr>nr_certificate = demo_node_cert, nr_capabilities = demo_published\<rparr>), (''ghost'', None)] =
      Inr ([No_records ''ghost''], [\<lparr>de_nodeKey = toHex [1], de_certificate = demo_node_cert, de_capabilities = demo_published\<rparr>])"
    by (simp del: toHex.simps)
  obtain os s2 where o: "ask_all memory_record_index [toHex [1], ''ghost''] demo_index = (os, s2)" by fastforce
  have q: "eq_inputCid demo_query = ''cid''" by (simp add: demo_query_def)
  have "fulfilled os = Inr [(toHex [1], Some \<lparr>nr_certificate = demo_node_cert, nr_capabilities = demo_published\<rparr>), (''ghost'', None)]"
    using demo_index_answers o by (simp del: toHex.simps fulfilled.simps ask_all.simps)
  then show ?thesis unfolding discoverExecutors_def q demo_providers(2) prod.case settled.case Let_def demo_providers(1) o
    by (simp only: sum.case prod.case j demo_discovered_def) simp
qed

theorem discovery_is_exact_witness:
  "\<lparr>de_nodeKey = toHex [1], de_certificate = demo_node_cert, de_capabilities = demo_published\<rparr> \<in> set (dr_executors demo_discovered)"
proof -
  have q: "ri_providers memory_record_index (eq_inputCid demo_query) demo_index = (Returned [toHex [1], ''ghost''], demo_index)"
    by (simp only: demo_query_def executor_query.simps demo_providers(2))
  have a: "fulfilled (fst (ask_all memory_record_index (js_sort unit_cmp (set_of_list [toHex [1], ''ghost''])) demo_index)) =
      Inr [(toHex [1], Some \<lparr>nr_certificate = demo_node_cert, nr_capabilities = demo_published\<rparr>), (''ghost'', None)]"
    by (simp only: demo_providers(1) demo_index_answers)
  show ?thesis unfolding discovery_is_exact [OF demo_discover q a, THEN conjunct1] using demo_in_order by force
qed

end
