(* ===== verification/Start_Outcome.thy ===== *)
theory Start_Outcome
  imports Canonical
begin

text \<open>
  What became of the visitors who tried to start: \<open>packages/core/src/start-outcome.ts\<close>.

  Outcomes are told_count per browser and result; a ledger is merged with another that told_count different
  visitors (\<open>mergeDisjoint\<close>) or may have told_count the same ones (\<open>mergeOverlapping\<close>).  A count that arrives
  from elsewhere is any number; one that is held is a positive integer.  \<open>lc\<close> is \<open>localeCompare\<close>.
\<close>

datatype start_failure =
    Wasm_unavailable | Webrtc_unavailable | Storage_denied | Crypto_unavailable | No_relay_reachable | Other_failure

definition START_FAILURES :: "start_failure list" where
  "START_FAILURES = [Wasm_unavailable, Webrtc_unavailable, Storage_denied, Crypto_unavailable, No_relay_reachable, Other_failure]"

fun failure_text :: "start_failure \<Rightarrow> string" where
  "failure_text Wasm_unavailable = ''wasm-unavailable''"
| "failure_text Webrtc_unavailable = ''webrtc-unavailable''"
| "failure_text Storage_denied = ''storage-denied''"
| "failure_text Crypto_unavailable = ''crypto-unavailable''"
| "failure_text No_relay_reachable = ''no-relay-reachable''"
| "failure_text Other_failure = ''other''"

datatype start_result = Started | Start_failed start_failure

fun result_text :: "start_result \<Rightarrow> string" where
  "result_text Started = ''started''"
| "result_text (Start_failed cause) = failure_text cause"

definition BROWSER_FAMILIES :: "string list" where
  "BROWSER_FAMILIES = [''chromium'', ''edge'', ''firefox'', ''safari'', ''other'']"

definition MAJOR_DIGITS :: nat where "MAJOR_DIGITS = 4"

definition MAX_BROWSER_MAJOR :: nat where "MAX_BROWSER_MAJOR = 10 ^ MAJOR_DIGITS - 1"

definition is_digit :: "char \<Rightarrow> bool" where
  "is_digit c \<longleftrightarrow> (let n = of_char c :: nat in 48 \<le> n \<and> n \<le> 57)"

text \<open>The regular expression \<open>BROWSER_LABEL\<close>: a family, or a family, a space and one to four digits.\<close>

definition browser_label :: "string \<Rightarrow> bool" where
  "browser_label s \<longleftrightarrow> list_ex (\<lambda>f. s = f \<or>
     (take (length f + 1) s = f @ '' '' \<and>
      (let d = drop (length f + 1) s in 1 \<le> length d \<and> length d \<le> MAJOR_DIGITS \<and> list_all is_digit d))) BROWSER_FAMILIES"

definition isStartBrowserLabel :: "cvalue option \<Rightarrow> bool" where
  "isStartBrowserLabel v = (case v of Some (CStr s) \<Rightarrow> browser_label s | _ \<Rightarrow> False)"

record start_outcome =
  so_browser :: string
  so_result :: start_result

definition MIN_REPORTS_FOR_RATE :: nat where "MIN_REPORTS_FOR_RATE = 10"

record cause_count =
  cc_cause :: start_failure
  cc_count :: nat

record browser_tally =
  bt_browser :: string
  bt_attempts :: nat
  bt_failed :: nat
  bt_failureRate :: rat
  bt_reliable :: bool
  bt_causes :: "cause_count list"

datatype blind_spot = Unreportable | Declined nat

record start_report =
  sr_reported :: nat
  sr_failed :: nat
  sr_byBrowser :: "browser_tally list"
  sr_blindSpots :: "blind_spot list"

definition STRUCTURAL_BLIND_SPOT :: blind_spot where "STRUCTURAL_BLIND_SPOT = Unreportable"

record 'n outcome_count =
  oc_browser :: string
  oc_result :: start_result
  oc_count :: 'n

section \<open>Reports\<close>

text \<open>The loop of \<open>tally\<close> over the rows of one browser.\<close>

fun tally_row :: "nat outcome_count \<Rightarrow> nat \<times> nat \<times> (start_failure, nat) jsmap \<Rightarrow> nat \<times> nat \<times> (start_failure, nat) jsmap" where
  "tally_row row (attempts, failed, counts) =
     (case oc_result row of
        Started \<Rightarrow> (attempts + oc_count row, failed, counts)
      | Start_failed cause \<Rightarrow>
          (attempts + oc_count row, failed + oc_count row,
           map_set cause ((case map_get counts cause of None \<Rightarrow> 0 | Some n \<Rightarrow> n) + oc_count row) counts))"

definition by_cause :: "(string \<Rightarrow> string \<Rightarrow> int) \<Rightarrow> cause_count \<Rightarrow> cause_count \<Rightarrow> int" where
  "by_cause lc a b = js_or (num_cmp (cc_count b) (cc_count a)) (lc (failure_text (cc_cause a)) (failure_text (cc_cause b)))"

definition tally :: "(string \<Rightarrow> string \<Rightarrow> int) \<Rightarrow> string \<Rightarrow> nat outcome_count list \<Rightarrow> browser_tally" where
  "tally lc browser rows =
     (let (attempts, failed, counts) = foldl (\<lambda>acc row. tally_row row acc) (0, 0, []) rows
      in \<lparr>bt_browser = browser, bt_attempts = attempts, bt_failed = failed,
          bt_failureRate = (if attempts = 0 then 0 else of_nat failed / of_nat attempts),
          bt_reliable = (attempts \<ge> MIN_REPORTS_FOR_RATE),
          bt_causes = js_sort (by_cause lc) (map (\<lambda>(cause, n). \<lparr>cc_cause = cause, cc_count = n\<rparr>) counts)\<rparr>)"

definition by_attempts :: "(string \<Rightarrow> string \<Rightarrow> int) \<Rightarrow> browser_tally \<Rightarrow> browser_tally \<Rightarrow> int" where
  "by_attempts lc a b = js_or (num_cmp (bt_attempts b) (bt_attempts a)) (lc (bt_browser a) (bt_browser b))"

definition startReportFromCounts :: "(string \<Rightarrow> string \<Rightarrow> int) \<Rightarrow> nat outcome_count list \<Rightarrow> nat option \<Rightarrow> start_report" where
  "startReportFromCounts lc counts declined =
     (let d = (case declined of None \<Rightarrow> 0 | Some n \<Rightarrow> n)
      in \<lparr>sr_reported = sum_list (map oc_count counts),
          sr_failed = sum_list (map oc_count (filter (\<lambda>row. oc_result row \<noteq> Started) counts)),
          sr_byBrowser = js_sort (by_attempts lc) (map (\<lambda>(browser, rows). tally lc browser rows) (group_by oc_browser counts)),
          sr_blindSpots = STRUCTURAL_BLIND_SPOT # (if d > 0 then [Declined d] else [])\<rparr>)"

definition count_key :: "string \<Rightarrow> start_result \<Rightarrow> string" where
  "count_key browser r = browser @ [CHR 0x00] @ result_text r"

text \<open>\<open>#add\<close> of the ledger and the loop of \<open>startReport\<close>.\<close>

definition add_outcomes ::
  "string \<Rightarrow> start_result \<Rightarrow> nat \<Rightarrow> (string, nat outcome_count) jsmap \<Rightarrow> (string, nat outcome_count) jsmap" where
  "add_outcomes browser r by' counts =
     (let key = count_key browser r
      in map_set key (case map_get counts key of
             None \<Rightarrow> \<lparr>oc_browser = browser, oc_result = r, oc_count = by'\<rparr>
           | Some existing \<Rightarrow> \<lparr>oc_browser = browser, oc_result = r, oc_count = oc_count existing + by'\<rparr>) counts)"

definition startReport :: "(string \<Rightarrow> string \<Rightarrow> int) \<Rightarrow> start_outcome list \<Rightarrow> nat option \<Rightarrow> start_report" where
  "startReport lc outcomes declined =
     startReportFromCounts lc (map_values (foldl (\<lambda>m out. add_outcomes (so_browser out) (so_result out) 1 m) [] outcomes)) declined"

section \<open>The ledger\<close>

record start_ledger =
  sl_counts :: "(string, nat outcome_count) jsmap"
  sl_declined :: nat

definition empty_ledger :: start_ledger where
  "empty_ledger = \<lparr>sl_counts = [], sl_declined = 0\<rparr>"

definition ledger_add :: "string \<Rightarrow> start_result \<Rightarrow> nat \<Rightarrow> start_ledger \<Rightarrow> start_ledger" where
  "ledger_add browser r by' l = l\<lparr>sl_counts := add_outcomes browser r by' (sl_counts l)\<rparr>"

definition record_start :: "start_outcome \<Rightarrow> start_ledger \<Rightarrow> start_ledger" where
  "record_start out l = ledger_add (so_browser out) (so_result out) 1 l"

definition positive_count :: "jsnum \<Rightarrow> bool" where
  "positive_count n \<longleftrightarrow> is_integer n \<and> \<not> js_le n 0"

definition decline :: "jsnum \<Rightarrow> start_ledger \<Rightarrow> start_ledger" where
  "decline n l = (if is_integer n \<and> js_gt n 0 then l\<lparr>sl_declined := sl_declined l + nat (int_of_num n)\<rparr> else l)"

definition mergeDisjoint :: "jsnum outcome_count list \<Rightarrow> jsnum \<Rightarrow> start_ledger \<Rightarrow> start_ledger" where
  "mergeDisjoint counts declined l =
     decline declined
       (foldl (\<lambda>l entry. if \<not> positive_count (oc_count entry) then l
                         else ledger_add (oc_browser entry) (oc_result entry) (nat (int_of_num (oc_count entry))) l) l counts)"

definition overlap_entry :: "jsnum outcome_count \<Rightarrow> start_ledger \<Rightarrow> start_ledger" where
  "overlap_entry entry l =
     (if \<not> positive_count (oc_count entry) then l
      else let key = count_key (oc_browser entry) (oc_result entry);
               n = nat (int_of_num (oc_count entry))
           in if (case map_get (sl_counts l) key of None \<Rightarrow> True | Some existing \<Rightarrow> n > oc_count existing)
              then l\<lparr>sl_counts := map_set key \<lparr>oc_browser = oc_browser entry, oc_result = oc_result entry, oc_count = n\<rparr> (sl_counts l)\<rparr>
              else l)"

definition mergeOverlapping :: "jsnum outcome_count list \<Rightarrow> jsnum \<Rightarrow> start_ledger \<Rightarrow> start_ledger" where
  "mergeOverlapping counts declined l =
     (let l' = foldl (\<lambda>l entry. overlap_entry entry l) l counts
      in if is_integer declined \<and> js_gt declined (of_nat (sl_declined l'))
         then l'\<lparr>sl_declined := nat (int_of_num declined)\<rparr> else l')"

definition by_label :: "(string \<Rightarrow> string \<Rightarrow> int) \<Rightarrow> nat outcome_count \<Rightarrow> nat outcome_count \<Rightarrow> int" where
  "by_label lc a b = js_or (lc (oc_browser a) (oc_browser b)) (lc (result_text (oc_result a)) (result_text (oc_result b)))"

definition ledger_counts :: "(string \<Rightarrow> string \<Rightarrow> int) \<Rightarrow> start_ledger \<Rightarrow> nat outcome_count list" where
  "ledger_counts lc l = js_sort (by_label lc) (map_values (sl_counts l))"

definition ledger_report :: "(string \<Rightarrow> string \<Rightarrow> int) \<Rightarrow> start_ledger \<Rightarrow> start_report" where
  "ledger_report lc l = startReportFromCounts lc (ledger_counts lc l) (Some (sl_declined l))"

section \<open>What a ledger counts\<close>

lemma failure_text_inj: "failure_text a = failure_text b \<Longrightarrow> a = b"
  by (cases a; cases b) simp_all

lemma result_text_inj: "result_text a = result_text b \<Longrightarrow> a = b"
proof (cases a; cases b)
  fix x assume "result_text a = result_text b" "a = Started" "b = Start_failed x"
  then show "a = b" by (cases x) simp_all
next
  fix x assume "result_text a = result_text b" "b = Started" "a = Start_failed x"
  then show "a = b" by (cases x) simp_all
qed (simp_all add: failure_text_inj)

lemma result_text_no_NUL: "CHR 0x00 \<notin> set (result_text r)"
proof (cases r)
  case (Start_failed c)
  then show ?thesis by (cases c) simp_all
qed simp

lemma count_key_eq [simp]: "count_key b r = count_key b' r' \<longleftrightarrow> b = b' \<and> r = r'"
  unfolding count_key_def using nul_key_inj [OF result_text_no_NUL result_text_no_NUL] result_text_inj by blast

definition told_count :: "start_ledger \<Rightarrow> string \<Rightarrow> start_result \<Rightarrow> nat" where
  "told_count l b r = (case map_get (sl_counts l) (count_key b r) of None \<Rightarrow> 0 | Some c \<Rightarrow> oc_count c)"

definition said_count :: "string \<Rightarrow> start_result \<Rightarrow> jsnum outcome_count \<Rightarrow> nat" where
  "said_count b r e = (if oc_browser e = b \<and> oc_result e = r \<and> positive_count (oc_count e) then nat (int_of_num (oc_count e)) else 0)"

text \<open>Every row is filed under its own label, and none is empty.\<close>

definition ledger_ok :: "start_ledger \<Rightarrow> bool" where
  "ledger_ok l \<longleftrightarrow> map_ok (sl_counts l) \<and> (\<forall>(k, c) \<in> set (sl_counts l). k = count_key (oc_browser c) (oc_result c) \<and> 0 < oc_count c)"

lemma positive_count_nat: "positive_count n \<Longrightarrow> 0 < nat (int_of_num n)"
  by (cases n) (auto simp: positive_count_def)

lemma ledger_ok_set:
  assumes "ledger_ok l" "0 < n"
  shows "ledger_ok (l\<lparr>sl_counts := map_set (count_key b r) \<lparr>oc_browser = b, oc_result = r, oc_count = n\<rparr> (sl_counts l)\<rparr>)"
  using assms by (auto simp: ledger_ok_def map_ok_set map_set_mem split: if_splits)

lemma ledger_ok_add: "ledger_ok l \<Longrightarrow> 0 < n \<Longrightarrow> ledger_ok (ledger_add b r n l)"
  using ledger_ok_set by (auto simp: ledger_add_def add_outcomes_def Let_def split: option.splits)

lemma ledger_ok_overlap: "ledger_ok l \<Longrightarrow> ledger_ok (overlap_entry e l)"
  using ledger_ok_set positive_count_nat by (auto simp: overlap_entry_def Let_def)

lemma counted_add: "told_count (ledger_add b r n l) b' r' = told_count l b' r' + (if b' = b \<and> r' = r then n else 0)"
  by (auto simp: told_count_def ledger_add_def add_outcomes_def Let_def split: option.splits)

lemma counted_overlap: "told_count (overlap_entry e l) b r = max (told_count l b r) (said_count b r e)"
  by (auto simp: told_count_def overlap_entry_def Let_def said_count_def max_def split: option.splits)

lemma counted_overlap_all:
  "told_count (foldl (\<lambda>l e. overlap_entry e l) l counts) b r = foldl (\<lambda>m e. max m (said_count b r e)) (told_count l b r) counts"
  by (induction counts arbitrary: l) (simp_all add: counted_overlap)

lemma foldl_max: "foldl (\<lambda>m e. max m (f e)) a xs = Max (insert a (f ` set xs))" for a :: nat
proof (induction xs arbitrary: a)
  case (Cons x xs)
  have "Max (insert (max a (f x)) (f ` set xs)) = Max (insert a (insert (f x) (f ` set xs)))"
    by (cases "f ` set xs = {}") (simp_all add: Max_insert max.assoc)
  then show ?case using Cons [of "max a (f x)"] by (simp add: insert_commute)
qed simp

lemma sl_counts_declined: "told_count (l\<lparr>sl_declined := d\<rparr>) b r = told_count l b r"
  by (simp add: told_count_def)

lemma counted_overlapping:
  "told_count (mergeOverlapping counts declined l) b r = Max (insert (told_count l b r) (said_count b r ` set counts))"
  by (simp add: mergeOverlapping_def Let_def sl_counts_declined counted_overlap_all foldl_max)

lemma counted_disjoint:
  "told_count (mergeDisjoint counts declined l) b r = told_count l b r + sum_list (map (said_count b r) counts)"
proof -
  have "told_count (foldl (\<lambda>l e. if \<not> positive_count (oc_count e) then l
      else ledger_add (oc_browser e) (oc_result e) (nat (int_of_num (oc_count e))) l) l counts) b r =
      told_count l b r + sum_list (map (said_count b r) counts)"
    by (induction counts arbitrary: l) (auto simp: counted_add said_count_def)
  then show ?thesis by (simp add: mergeDisjoint_def decline_def sl_counts_declined)
qed

lemma ledger_ok_disjoint: "ledger_ok l \<Longrightarrow> ledger_ok (mergeDisjoint counts declined l)"
proof -
  assume "ledger_ok l"
  then have "ledger_ok (foldl (\<lambda>l e. if \<not> positive_count (oc_count e) then l
      else ledger_add (oc_browser e) (oc_result e) (nat (int_of_num (oc_count e))) l) l counts)"
    by (induction counts arbitrary: l) (auto intro!: ledger_ok_add positive_count_nat)
  then show ?thesis by (simp add: mergeDisjoint_def decline_def ledger_ok_def)
qed

lemma ledger_ok_overlapping: "ledger_ok l \<Longrightarrow> ledger_ok (mergeOverlapping counts declined l)"
proof -
  assume "ledger_ok l"
  then have "ledger_ok (foldl (\<lambda>l e. overlap_entry e l) l counts)"
    by (induction counts arbitrary: l) (simp_all add: ledger_ok_overlap)
  then show ?thesis by (simp add: mergeOverlapping_def Let_def ledger_ok_def)
qed

text \<open>The refusals, as an overlapping merge reads them.\<close>

definition said_declined :: "jsnum \<Rightarrow> nat" where
  "said_declined d = (if is_integer d \<and> js_gt d 0 then nat (int_of_num d) else 0)"

lemma declined_overlapping: "sl_declined (mergeOverlapping counts d l) = max (sl_declined l) (said_declined d)"
proof -
  have "sl_declined (overlap_entry e l) = sl_declined l" for e l by (simp add: overlap_entry_def Let_def)
  then have f: "sl_declined (foldl (\<lambda>l e. overlap_entry e l) l counts) = sl_declined l"
    by (induction counts arbitrary: l) simp_all
  show ?thesis
  proof (cases "is_integer d")
    case True
    then obtain k where "d = num_of_int k" using is_integer_iff by blast
    then show ?thesis by (auto simp: mergeOverlapping_def Let_def f said_declined_def max_def)
  qed (simp add: mergeOverlapping_def Let_def f said_declined_def)
qed

lemma start_counts:
  "told_count (foldl (\<lambda>l out. record_start out l) l outs) b r =
   told_count l b r + length (filter (\<lambda>out. so_browser out = b \<and> so_result out = r) outs)"
  by (induction outs arbitrary: l) (simp_all add: record_start_def counted_add)

text \<open>Gossiped start counts converge: what a ledger holds after overlapping merges is, for every browser and result, the
  largest count it was ever told, so a merge repeated changes nothing, the order of merges does not matter, and
  counts that are not positive integers are ignored; the refusals are merged the same way.  A merge of disjoint
  counts adds instead.\<close>

theorem gossiped_counts_converge:
  "told_count (mergeOverlapping cs d l) b r = Max (insert (told_count l b r) (said_count b r ` set cs)) \<and>
   told_count (mergeOverlapping cs d (mergeOverlapping cs d l)) b r = told_count (mergeOverlapping cs d l) b r \<and>
   told_count (mergeOverlapping cs d (mergeOverlapping ds e l)) b r = told_count (mergeOverlapping ds e (mergeOverlapping cs d l)) b r \<and>
   sl_declined (mergeOverlapping cs d (mergeOverlapping ds e l)) = sl_declined (mergeOverlapping ds e (mergeOverlapping cs d l)) \<and>
   told_count (mergeDisjoint cs d l) b r = told_count l b r + sum_list (map (said_count b r) cs)"
proof (intro conjI)
  let ?f = "said_count b r"
  have ins: "Max (insert (Max (insert n A)) B) = Max (insert n (A \<union> B))" if "finite A" "finite B" for n and A B :: "nat set"
  proof -
    have "insert (Max (insert n A)) B \<noteq> {}" by simp
    have "Max (insert n A \<union> B) = max (Max (insert n A)) (Max B)" if "B \<noteq> {}"
      using that \<open>finite A\<close> \<open>finite B\<close> by (intro Max_Un) simp_all
    moreover have "Max (insert (Max (insert n A)) B) = max (Max (insert n A)) (Max B)" if "B \<noteq> {}"
      using that \<open>finite B\<close> by (intro Max_insert) simp_all
    ultimately show ?thesis by (cases "B = {}") simp_all
  qed
  show "told_count (mergeOverlapping cs d l) b r = Max (insert (told_count l b r) (?f ` set cs))" by (rule counted_overlapping)
  show "told_count (mergeOverlapping cs d (mergeOverlapping cs d l)) b r = told_count (mergeOverlapping cs d l) b r"
    unfolding counted_overlapping by (simp add: ins)
  show "told_count (mergeOverlapping cs d (mergeOverlapping ds e l)) b r = told_count (mergeOverlapping ds e (mergeOverlapping cs d l)) b r"
    unfolding counted_overlapping by (simp add: ins Un_commute)
  show "sl_declined (mergeOverlapping cs d (mergeOverlapping ds e l)) = sl_declined (mergeOverlapping ds e (mergeOverlapping cs d l))"
    by (simp add: declined_overlapping max.assoc max.commute max.left_commute)
  show "told_count (mergeDisjoint cs d l) b r = told_count l b r + sum_list (map ?f cs)" by (rule counted_disjoint)
qed

section \<open>What a report says\<close>

lemma sum_values_add: "map_ok m \<Longrightarrow> sum_list (map snd (map_set k ((case map_get m k of None \<Rightarrow> 0 | Some n \<Rightarrow> n) + x) m)) = sum_list (map snd m) + x"
  for m :: "('a, nat) jsmap"
  by (induction m) (auto simp: map_get_None_iff)

lemma tally_rows:
  "foldl (\<lambda>acc row. tally_row row acc) (a, f, m) rows = (a', f', m') \<Longrightarrow> map_ok m \<Longrightarrow>
   a' = a + sum_list (map oc_count rows) \<and> f' = f + sum_list (map oc_count (filter (\<lambda>row. oc_result row \<noteq> Started) rows)) \<and>
   map_ok m' \<and> sum_list (map snd m') + f = sum_list (map snd m) + f'"
proof (induction rows arbitrary: a f m)
  case (Cons row rows)
  show ?case
  proof (cases "oc_result row")
    case Started
    with Cons.prems Cons.IH [of "a + oc_count row" f m] show ?thesis by simp
  next
    case (Start_failed c)
    let ?m = "map_set c ((case map_get m c of None \<Rightarrow> 0 | Some n \<Rightarrow> n) + oc_count row) m"
    have "foldl (\<lambda>acc row. tally_row row acc) (a + oc_count row, f + oc_count row, ?m) rows = (a', f', m')"
      using Cons.prems(1) Start_failed by simp
    from Cons.IH [OF this] sum_values_add [OF Cons.prems(2), of c "oc_count row"] Cons.prems(2) Start_failed show ?thesis
      by (simp add: map_ok_set)
  qed
qed simp

lemma tally_facts:
  "bt_attempts (tally lc b rows) = sum_list (map oc_count rows)"
  "bt_failed (tally lc b rows) = sum_list (map oc_count (filter (\<lambda>row. oc_result row \<noteq> Started) rows))"
  "sum_list (map cc_count (bt_causes (tally lc b rows))) = bt_failed (tally lc b rows)"
  "bt_browser (tally lc b rows) = b"
  "bt_failureRate (tally lc b rows) * of_nat (bt_attempts (tally lc b rows)) = of_nat (bt_failed (tally lc b rows))"
proof -
  obtain a f m where e: "foldl (\<lambda>acc row. tally_row row acc) (0, 0, []) rows = (a, f, m)" by (metis prod_cases3)
  note t = tally_rows [OF e, simplified]
  have le: "sum_list (map oc_count (filter P rows)) \<le> sum_list (map oc_count rows)" for P by (induction rows) auto
  have "sum_list (map cc_count (js_sort (by_cause lc) (map (\<lambda>(cause, n). \<lparr>cc_cause = cause, cc_count = n\<rparr>) m))) = sum_list (map snd m)"
  proof -
    have "mset (map cc_count (js_sort (by_cause lc) (map (\<lambda>(cause, n). \<lparr>cc_cause = cause, cc_count = n\<rparr>) m))) = mset (map snd m)"
      by (simp add: image_mset.compositionality o_def case_prod_beta)
    then show ?thesis by (metis sum_mset_sum_list)
  qed
  then show "bt_attempts (tally lc b rows) = sum_list (map oc_count rows)"
    "bt_failed (tally lc b rows) = sum_list (map oc_count (filter (\<lambda>row. oc_result row \<noteq> Started) rows))"
    "sum_list (map cc_count (bt_causes (tally lc b rows))) = bt_failed (tally lc b rows)" "bt_browser (tally lc b rows) = b"
    using t by (simp_all add: tally_def e)
  have "f = 0" if "a = 0" using t le that by (metis le_zero_eq)
  then show "bt_failureRate (tally lc b rows) * of_nat (bt_attempts (tally lc b rows)) = of_nat (bt_failed (tally lc b rows))"
    by (simp add: tally_def e)
qed

lemma sum_over_groups:
  "sum_list (map (\<lambda>g. sum_list (map f (snd g))) (group_by key xs)) = sum_list (map f xs)" for f :: "'a \<Rightarrow> nat"
proof -
  have "sum_list (map (\<lambda>g. sum_list (map f (snd g))) gs) = sum_list (map f (concat (map_values gs)))" for gs :: "('b, 'a list) jsmap"
    by (induction gs) simp_all
  moreover have "mset (map f (concat (map_values (group_by key xs)))) = mset (map f xs)"
    by (simp only: mset_map mset_group_by)
  then have "sum_list (map f (concat (map_values (group_by key xs)))) = sum_list (map f xs)"
    by (metis sum_mset_sum_list)
  ultimately show ?thesis by simp
qed

lemma sum_filtered: "sum_list (map f (filter P xs)) = sum_list (map (\<lambda>x. if P x then f x else 0) xs)" for f :: "'a \<Rightarrow> nat"
  by (induction xs) simp_all

text \<open>A start report accounts for every attempt it was given: the attempts of its browsers add up to the attempts
  reported, their failures to the failures reported, the causes of a browser to its failures, each browser appears
  once, and its rate is its failures over its attempts; what cannot be seen is named first.\<close>

theorem start_report_accounts:
  "let rep = startReportFromCounts lc counts declined in
   sum_list (map bt_attempts (sr_byBrowser rep)) = sr_reported rep \<and>
   sum_list (map bt_failed (sr_byBrowser rep)) = sr_failed rep \<and>
   list_all (\<lambda>t. sum_list (map cc_count (bt_causes t)) = bt_failed t \<and>
           bt_failureRate t * of_nat (bt_attempts t) = of_nat (bt_failed t)) (sr_byBrowser rep) \<and>
   (distinct (map bt_browser (sr_byBrowser rep)) \<and> set (map bt_browser (sr_byBrowser rep)) = oc_browser ` set counts) \<and>
   hd (sr_blindSpots rep) = Unreportable"
unfolding Let_def
proof (intro conjI)
  let ?rep = "startReportFromCounts lc counts declined"
  let ?gs = "group_by oc_browser counts" and ?ts = "map (\<lambda>(browser, rows). tally lc browser rows) (group_by oc_browser counts)"
  have sorted: "sr_byBrowser ?rep = js_sort (by_attempts lc) ?ts" by (simp add: startReportFromCounts_def Let_def)
  have m: "sum_list (map f (sr_byBrowser ?rep)) = sum_list (map f ?ts)" for f :: "browser_tally \<Rightarrow> nat"
    unfolding sorted by (metis mset_js_sort mset_map sum_mset_sum_list)
  have "sum_list (map bt_attempts ?ts) = sum_list (map (\<lambda>g. sum_list (map oc_count (snd g))) ?gs)"
    by (simp add: o_def case_prod_beta tally_facts(1))
  then show "sum_list (map bt_attempts (sr_byBrowser ?rep)) = sr_reported ?rep"
    unfolding m by (simp add: sum_over_groups startReportFromCounts_def Let_def)
  have "sum_list (map bt_failed ?ts) =
      sum_list (map (\<lambda>g. sum_list (map (\<lambda>row. if oc_result row \<noteq> Started then oc_count row else 0) (snd g))) ?gs)"
    by (simp add: o_def case_prod_beta tally_facts(2) sum_filtered)
  then show "sum_list (map bt_failed (sr_byBrowser ?rep)) = sr_failed ?rep"
    unfolding m by (simp add: sum_over_groups startReportFromCounts_def Let_def sum_filtered)
  show "list_all (\<lambda>t. sum_list (map cc_count (bt_causes t)) = bt_failed t \<and>
      bt_failureRate t * of_nat (bt_attempts t) = of_nat (bt_failed t)) (sr_byBrowser ?rep)"
    unfolding sorted by (auto simp: list_all_iff tally_facts(3,5))
  have k: "map bt_browser ?ts = map_keys ?gs" by (simp add: o_def case_prod_beta tally_facts(4))
  have "mset (map bt_browser (sr_byBrowser ?rep)) = mset (map_keys ?gs)" unfolding sorted by (metis k mset_js_sort mset_map)
  then have "distinct (map bt_browser (sr_byBrowser ?rep))" "set (map bt_browser (sr_byBrowser ?rep)) = set (map_keys ?gs)"
    by (metis map_ok_group_by mset_eq_imp_distinct_iff, metis set_mset_mset)
  moreover have "k \<in> set (map_keys ?gs) \<longleftrightarrow> (\<exists>x \<in> set counts. oc_browser x = k)" for k
  proof (cases "\<exists>x \<in> set counts. oc_browser x = k")
    case True
    with map_get_None_iff [of ?gs k] show ?thesis unfolding map_get_group_by by simp
  next
    case False
    with map_get_None_iff [of ?gs k] show ?thesis unfolding map_get_group_by by (metis option.distinct(1))
  qed
  then have "set (map_keys ?gs) = oc_browser ` set counts" by (intro set_eqI) (simp only: image_iff, metis)
  ultimately show "distinct (map bt_browser (sr_byBrowser ?rep))" "set (map bt_browser (sr_byBrowser ?rep)) = oc_browser ` set counts"
    by simp_all
  show "hd (sr_blindSpots ?rep) = Unreportable"
    by (simp add: startReportFromCounts_def Let_def STRUCTURAL_BLIND_SPOT_def)
qed

end
