(* ===== verification/Protocol.thy ===== *)
theory Protocol
  imports Discovery Start_Outcome Placement Checkpoint "HOL-Library.Monad_Syntax"
begin

text \<open>
  What travels between agents: \<open>packages/net/src/protocol.ts\<close>.

  \<open>encodeRequest\<close> and \<open>encodeResponse\<close> make the value of a frame, \<open>parseRequest\<close> and \<open>parseResponse\<close> read one that
  arrived.  What arrives is what the codec makes of the value sent, its entries in the codec's order
  (\<open>dag_sorted\<close>).  A parser gives \<open>None\<close> where the source gives \<open>null\<close>.
\<close>

section \<open>Reading fields\<close>

definition as_record :: "cvalue \<Rightarrow> (string \<times> cvalue) list option" where
  "as_record v = (case v of CObj es \<Rightarrow> Some es | _ \<Rightarrow> None)"

definition str_field :: "(string \<times> cvalue) list \<Rightarrow> string \<Rightarrow> string option" where
  "str_field r k = (case map_get r k of Some (CStr s) \<Rightarrow> Some s | _ \<Rightarrow> None)"

definition cid_field :: "(string \<times> cvalue) list \<Rightarrow> string \<Rightarrow> string option" where
  "cid_field r k = (case map_get r k of Some (CCid c) \<Rightarrow> Some c | _ \<Rightarrow> None)"

definition asIndex :: "cvalue option \<Rightarrow> int option" where
  "asIndex v = (case v of Some (CNum n) \<Rightarrow> if \<not> is_integer n \<or> js_lt n 0 then None else Some (int_of_num n) | _ \<Rightarrow> None)"

definition str_of_value :: "cvalue \<Rightarrow> string option" where
  "str_of_value v = (case v of CStr s \<Rightarrow> Some s | _ \<Rightarrow> None)"

definition asKeyList :: "cvalue option \<Rightarrow> string list option" where
  "asKeyList v = (case v of Some (CList vs) \<Rightarrow> those (map str_of_value vs) | _ \<Rightarrow> None)"

definition asFiniteNumber :: "cvalue option \<Rightarrow> rat option" where
  "asFiniteNumber v = (case v of Some (CNum (Fin x)) \<Rightarrow> Some x | _ \<Rightarrow> None)"

text \<open>A field that may be absent, and must parse when it is there.\<close>

definition optional :: "cvalue option \<Rightarrow> (cvalue \<Rightarrow> 'a option) \<Rightarrow> 'a option option" where
  "optional v parse = (case v of None \<Rightarrow> Some None | Some x \<Rightarrow> map_option Some (parse x))"

definition parseDiscoverability :: "cvalue option \<Rightarrow> discoverability option" where
  "parseDiscoverability v =
     (if v = Some (CStr ''seed'') then Some Seed else if v = Some (CStr ''via-relay'') then Some Via_relay else None)"

section \<open>Certificates and attestations\<close>

definition certificateToValue :: "node_certificate \<Rightarrow> cvalue" where
  "certificateToValue c =
     CObj ([(''nodeKey'', CStr (c_nodeKey c)), (''userKey'', CStr (c_userKey c)), (''operatorId'', CStr (c_operatorId c)),
            (''discoverability'', CStr (discoverability_text (c_discoverability c))), (''relayIds'', CList (map CStr (c_relayIds c))),
            (''issuedAt'', CNum (Fin (c_issuedAt c))), (''expiresAt'', CNum (Fin (c_expiresAt c))), (''issuer'', CStr (c_issuer c)),
            (''signature'', CStr (c_signature c))] @
           (case c_x509 c of None \<Rightarrow> [] | Some x \<Rightarrow> [(''x509'', CStr x)]))"

definition parseCertificate :: "cvalue option \<Rightarrow> node_certificate option" where
  "parseCertificate v = do {
     v \<leftarrow> v;
     r \<leftarrow> as_record v;
     nodeKey \<leftarrow> str_field r ''nodeKey'';
     userKey \<leftarrow> str_field r ''userKey'';
     operatorId \<leftarrow> str_field r ''operatorId'';
     issuer \<leftarrow> str_field r ''issuer'';
     signature \<leftarrow> str_field r ''signature'';
     disc \<leftarrow> parseDiscoverability (map_get r ''discoverability'');
     relayIds \<leftarrow> asKeyList (map_get r ''relayIds'');
     issuedAt \<leftarrow> asFiniteNumber (map_get r ''issuedAt'');
     expiresAt \<leftarrow> asFiniteNumber (map_get r ''expiresAt'');
     x509 \<leftarrow> optional (map_get r ''x509'') str_of_value;
     Some \<lparr>c_nodeKey = nodeKey, c_userKey = userKey, c_operatorId = operatorId, c_discoverability = disc, c_relayIds = relayIds,
           c_issuedAt = issuedAt, c_expiresAt = expiresAt, c_issuer = issuer, c_signature = signature, c_x509 = x509,
           c_nextKeyCommitment = None\<rparr>
   }"

definition attestationToValue :: "attested_result \<Rightarrow> cvalue" where
  "attestationToValue a =
     (case a of
        Signed_by_nobody \<Rightarrow> CStr ''signed-by-nobody''
      | Attested x \<Rightarrow> CObj [(''certificate'', certificateToValue (ra_certificate x)), (''signature'', CStr (ra_signature x))])"

definition parseAttestation :: "cvalue option \<Rightarrow> attested_result option" where
  "parseAttestation v =
     (if v = Some (CStr ''signed-by-nobody'') then Some Signed_by_nobody
      else do {
        v \<leftarrow> v;
        r \<leftarrow> as_record v;
        certificate \<leftarrow> parseCertificate (map_get r ''certificate'');
        signature \<leftarrow> str_field r ''signature'';
        Some (Attested \<lparr>ra_certificate = certificate, ra_signature = signature\<rparr>)
      })"

section \<open>Enrolment\<close>

definition enrollmentRequestToValue :: "enrollment_request \<Rightarrow> cvalue" where
  "enrollmentRequestToValue q =
     CObj [(''nodeKey'', CStr (er_nodeKey q)), (''userKey'', CStr (er_userKey q)), (''operatorId'', CStr (er_operatorId q)),
           (''discoverability'', CStr (discoverability_text (er_discoverability q))), (''relayIds'', CList (map CStr (er_relayIds q))),
           (''proofOfPossession'', CStr (er_proofOfPossession q)), (''ownerProof'', CStr (er_ownerProof q)),
           (''freshness'', (case er_freshness q of
              None \<Rightarrow> CStr ''answers-no-challenge''
            | Some a \<Rightarrow> CObj [(''nonce'', CStr (ca_nonce a)), (''proof'', CStr (ca_proof a))]))]"

definition parseFreshness :: "cvalue option \<Rightarrow> challenge_answer option option" where
  "parseFreshness v =
     (if v = Some (CStr ''answers-no-challenge'') then Some None
      else do {
        v \<leftarrow> v;
        r \<leftarrow> as_record v;
        nonce \<leftarrow> str_field r ''nonce'';
        proof' \<leftarrow> str_field r ''proof'';
        Some (Some \<lparr>ca_nonce = nonce, ca_proof = proof'\<rparr>)
      })"

definition parseEnrollmentRequest :: "cvalue option \<Rightarrow> enrollment_request option" where
  "parseEnrollmentRequest v = do {
     v \<leftarrow> v;
     r \<leftarrow> as_record v;
     nodeKey \<leftarrow> str_field r ''nodeKey'';
     userKey \<leftarrow> str_field r ''userKey'';
     operatorId \<leftarrow> str_field r ''operatorId'';
     proofOfPossession \<leftarrow> str_field r ''proofOfPossession'';
     ownerProof \<leftarrow> str_field r ''ownerProof'';
     disc \<leftarrow> parseDiscoverability (map_get r ''discoverability'');
     relayIds \<leftarrow> asKeyList (map_get r ''relayIds'');
     freshness \<leftarrow> parseFreshness (map_get r ''freshness'');
     Some \<lparr>er_nodeKey = nodeKey, er_userKey = userKey, er_operatorId = operatorId, er_discoverability = disc, er_relayIds = relayIds,
           er_nextKeyCommitment = None, er_proofOfPossession = proofOfPossession, er_ownerProof = ownerProof, er_freshness = freshness\<rparr>
   }"

text \<open>The outcome of an enrolment on the wire: the certificate, or the refusal with its reason.  A number that the
  authority measured is a \<open>jsnum\<close>; what a reply may carry is finite.\<close>

datatype enrol_reply = Enrol_ok node_certificate | Enrol_refused enrollment_refusal string

definition refusalToValue :: "enrollment_refusal \<Rightarrow> cvalue" where
  "refusalToValue f =
     (case f of
        Bad_proof_of_possession k \<Rightarrow> CObj [(''kind'', CStr ''bad-proof-of-possession''), (''nodeKey'', CStr k)]
      | Bad_owner_proof k \<Rightarrow> CObj [(''kind'', CStr ''bad-owner-proof''), (''userKey'', CStr k)]
      | Issuance_budget_exhausted limit windowMs retry \<Rightarrow>
          CObj [(''kind'', CStr ''issuance-budget-exhausted''), (''limit'', CNum (num_of_nat limit)), (''windowMs'', CNum (Fin windowMs)),
                (''retryAfterMs'', CNum retry)]
      | Stale_challenge ttlMs \<Rightarrow> CObj [(''kind'', CStr ''stale-challenge''), (''ttlMs'', CNum (Fin ttlMs))]
      | Operator_id_not_derivable supplied derived \<Rightarrow>
          CObj [(''kind'', CStr ''operator-id-not-derivable''), (''supplied'', CStr supplied), (''derived'', CStr derived)]
      | Rate_limited k limit windowMs retry \<Rightarrow>
          CObj [(''kind'', CStr ''rate-limited''), (''userKey'', CStr k), (''limit'', CNum (num_of_nat limit)), (''windowMs'', CNum (Fin windowMs)),
                (''retryAfterMs'', CNum retry)])"

definition enrollmentResultToValue :: "enrol_reply \<Rightarrow> cvalue" where
  "enrollmentResultToValue x =
     (case x of
        Enrol_ok c \<Rightarrow> CObj [(''kind'', CStr ''enrol''), (''ok'', CBool True), (''certificate'', certificateToValue c)]
      | Enrol_refused f reason \<Rightarrow>
          CObj [(''kind'', CStr ''enrol''), (''ok'', CBool False), (''reason'', CStr reason), (''refusal'', refusalToValue f)])"

text \<open>A limit that is parsed is any finite number; \<open>wire_refusal\<close> keeps it as one.\<close>

datatype wire_refusal =
    Wire_bad_proof_of_possession string
  | Wire_bad_owner_proof string
  | Wire_issuance_budget_exhausted rat rat rat
  | Wire_stale_challenge rat
  | Wire_operator_id_not_derivable string string
  | Wire_rate_limited string rat rat rat

definition parseEnrollmentRefusal :: "cvalue option \<Rightarrow> wire_refusal option" where
  "parseEnrollmentRefusal v = do {
     v \<leftarrow> v;
     r \<leftarrow> as_record v;
     let kind = map_get r ''kind'';
     if kind = Some (CStr ''bad-proof-of-possession'') then map_option Wire_bad_proof_of_possession (str_field r ''nodeKey'')
     else if kind = Some (CStr ''bad-owner-proof'') then map_option Wire_bad_owner_proof (str_field r ''userKey'')
     else if kind = Some (CStr ''issuance-budget-exhausted'') then do {
       limit \<leftarrow> asFiniteNumber (map_get r ''limit'');
       windowMs \<leftarrow> asFiniteNumber (map_get r ''windowMs'');
       retry \<leftarrow> asFiniteNumber (map_get r ''retryAfterMs'');
       Some (Wire_issuance_budget_exhausted limit windowMs retry)
     }
     else if kind = Some (CStr ''stale-challenge'') then map_option Wire_stale_challenge (asFiniteNumber (map_get r ''ttlMs''))
     else if kind = Some (CStr ''operator-id-not-derivable'') then do {
       supplied \<leftarrow> str_field r ''supplied'';
       derived \<leftarrow> str_field r ''derived'';
       Some (Wire_operator_id_not_derivable supplied derived)
     }
     else if kind \<noteq> Some (CStr ''rate-limited'') then None
     else do {
       userKey \<leftarrow> str_field r ''userKey'';
       limit \<leftarrow> asFiniteNumber (map_get r ''limit'');
       windowMs \<leftarrow> asFiniteNumber (map_get r ''windowMs'');
       retry \<leftarrow> asFiniteNumber (map_get r ''retryAfterMs'');
       Some (Wire_rate_limited userKey limit windowMs retry)
     }
   }"

datatype enrol_parsed = Parsed_certificate node_certificate | Parsed_refusal wire_refusal string

definition stated :: "(string \<times> cvalue) list \<Rightarrow> string \<Rightarrow> string" where
  "stated r otherwise = (case map_get r ''reason'' of Some (CStr s) \<Rightarrow> s | _ \<Rightarrow> otherwise)"

definition parseEnrollmentResult :: "(string \<times> cvalue) list \<Rightarrow> enrol_parsed option" where
  "parseEnrollmentResult r =
     (if map_get r ''ok'' = Some (CBool True) then map_option Parsed_certificate (parseCertificate (map_get r ''certificate''))
      else if map_get r ''ok'' \<noteq> Some (CBool False) then None
      else map_option (\<lambda>f. Parsed_refusal f (stated r ''unspecified'')) (parseEnrollmentRefusal (map_get r ''refusal'')))"

section \<open>Capability records\<close>

definition capabilitiesToValue :: "capability_record \<Rightarrow> cvalue" where
  "capabilitiesToValue c =
     CObj ([(''nodeKey'', CStr (cb_nodeKey c)), (''features'', CList (map CStr (cb_features c))),
            (''sovereignFor'', CList (map CStr (cb_sovereignFor c))), (''issuedAt'', CNum (Fin (cb_issuedAt c))),
            (''expiresAt'', CNum (Fin (cb_expiresAt c))), (''signature'', CStr (cb_signature c))] @
           (if length (cb_extensions c) = 0 then [] else [(''extensions'', CList (map extension_value (cb_extensions c)))]))"

definition parse_extension :: "cvalue \<Rightarrow> capability_extension option" where
  "parse_extension v = do {
     r \<leftarrow> as_record v;
     ident \<leftarrow> str_field r ''id'';
     critical \<leftarrow> (case map_get r ''critical'' of Some (CBool b) \<Rightarrow> Some b | _ \<Rightarrow> None);
     carried \<leftarrow> map_get r ''value'';
     if length r \<noteq> 3 then None else Some \<lparr>cx_id = ident, cx_critical = critical, cx_value = carried\<rparr>
   }"

text \<open>The loop of \<open>asExtensions\<close>, with the ids seen so far.\<close>

fun parse_extensions :: "string list \<Rightarrow> cvalue list \<Rightarrow> capability_extension list option" where
  "parse_extensions seen [] = Some []"
| "parse_extensions seen (v # vs) = do {
     e \<leftarrow> parse_extension v;
     if cx_id e \<in> set seen then None
     else do { rest \<leftarrow> parse_extensions (set_add (cx_id e) seen) vs; Some (e # rest) }
   }"

definition asExtensions :: "cvalue option \<Rightarrow> capability_extension list option" where
  "asExtensions v =
     (case v of
        None \<Rightarrow> Some []
      | Some (CList vs) \<Rightarrow> map_option (js_sort ext_cmp) (parse_extensions [] vs)
      | _ \<Rightarrow> None)"

definition CAPABILITY_KEYS :: "string list" where
  "CAPABILITY_KEYS = [''nodeKey'', ''features'', ''sovereignFor'', ''issuedAt'', ''expiresAt'', ''extensions'', ''signature'']"

definition parseCapabilities :: "cvalue option \<Rightarrow> capability_record option" where
  "parseCapabilities v = do {
     v \<leftarrow> v;
     r \<leftarrow> as_record v;
     nodeKey \<leftarrow> str_field r ''nodeKey'';
     signature \<leftarrow> str_field r ''signature'';
     features \<leftarrow> asKeyList (map_get r ''features'');
     sovereignFor \<leftarrow> asKeyList (map_get r ''sovereignFor'');
     issuedAt \<leftarrow> asFiniteNumber (map_get r ''issuedAt'');
     expiresAt \<leftarrow> asFiniteNumber (map_get r ''expiresAt'');
     extensions \<leftarrow> asExtensions (map_get r ''extensions'');
     if list_ex (\<lambda>key. key \<notin> set CAPABILITY_KEYS) (map_keys r) then None
     else Some \<lparr>cb_nodeKey = nodeKey, cb_features = features, cb_sovereignFor = sovereignFor, cb_issuedAt = issuedAt,
                cb_expiresAt = expiresAt, cb_extensions = extensions, cb_signature = signature\<rparr>
   }"

section \<open>Start reports\<close>

definition asStartResult :: "cvalue option \<Rightarrow> start_result option" where
  "asStartResult v =
     (case v of
        Some (CStr s) \<Rightarrow>
          if s = ''started'' then Some Started else map_option Start_failed (find (\<lambda>f. failure_text f = s) START_FAILURES)
      | _ \<Rightarrow> None)"

definition MAX_REPORTED_COUNT :: int where "MAX_REPORTED_COUNT = 65536"

definition asReportedCount :: "cvalue option \<Rightarrow> int option" where
  "asReportedCount v = do {
     n \<leftarrow> asIndex v;
     if n = 0 \<or> n > MAX_REPORTED_COUNT then None else Some n
   }"

fun parse_counts :: "cvalue list \<Rightarrow> int outcome_count list option" where
  "parse_counts [] = Some []"
| "parse_counts (v # vs) = do {
     r \<leftarrow> as_record v;
     rest \<leftarrow> parse_counts vs;
     Some (case (map_get r ''browser'', asStartResult (map_get r ''result''), asReportedCount (map_get r ''count'')) of
             (Some (CStr browser), Some result, Some n) \<Rightarrow>
               if browser_label browser then \<lparr>oc_browser = browser, oc_result = result, oc_count = n\<rparr> # rest else rest
           | _ \<Rightarrow> rest)
   }"

definition parseCounts :: "cvalue option \<Rightarrow> int outcome_count list option" where
  "parseCounts v = (case v of Some (CList vs) \<Rightarrow> parse_counts vs | _ \<Rightarrow> None)"

section \<open>Names and delegations\<close>

definition nameRecordToValue :: "name_record \<Rightarrow> cvalue" where
  "nameRecordToValue r =
     CObj ([(''name'', CStr (n_name r)), (''cid'', CCid (n_cid r)), (''version'', CNum (n_version r)), (''expiresAt'', CNum (n_expiresAt r)),
            (''signer'', CStr (n_signer r))] @
           (case n_translationKeyCid r of None \<Rightarrow> [] | Some c \<Rightarrow> [(''translationKeyCid'', CCid c)]) @
           (case n_delegation r of None \<Rightarrow> []
            | Some d \<Rightarrow> [(''delegation'', CObj [(''root'', CStr (nd_root d)), (''delegate'', CStr (nd_delegate d)),
                (''expiresAt'', CNum (nd_expiresAt d)), (''signature'', CStr (nd_signature d))])]) @
           (if n_wantsNetworkReach r then [(''wantsNetworkReach'', CBool True)] else []) @
           [(''signature'', CStr (n_signature r))])"

definition parseNameDelegation :: "cvalue \<Rightarrow> name_delegation option" where
  "parseNameDelegation v = do {
     r \<leftarrow> as_record v;
     root \<leftarrow> str_field r ''root'';
     del \<leftarrow> str_field r ''delegate'';
     signature \<leftarrow> str_field r ''signature'';
     expiresAt \<leftarrow> asFiniteNumber (map_get r ''expiresAt'');
     Some \<lparr>nd_root = root, nd_delegate = del, nd_expiresAt = Fin expiresAt, nd_signature = signature\<rparr>
   }"

definition cid_of_value :: "cvalue \<Rightarrow> string option" where
  "cid_of_value v = (case v of CCid c \<Rightarrow> Some c | _ \<Rightarrow> None)"

definition parseNameRecord :: "cvalue \<Rightarrow> name_record option" where
  "parseNameRecord v = do {
     r \<leftarrow> as_record v;
     name \<leftarrow> str_field r ''name'';
     signer \<leftarrow> str_field r ''signer'';
     signature \<leftarrow> str_field r ''signature'';
     cid \<leftarrow> cid_field r ''cid'';
     version \<leftarrow> asIndex (map_get r ''version'');
     expiresAt \<leftarrow> asFiniteNumber (map_get r ''expiresAt'');
     translation \<leftarrow> optional (map_get r ''translationKeyCid'') cid_of_value;
     deleg \<leftarrow> optional (map_get r ''delegation'') parseNameDelegation;
     reach \<leftarrow> optional (map_get r ''wantsNetworkReach'') (\<lambda>x. if x \<noteq> CBool True then None else Some ());
     Some \<lparr>n_name = name, n_cid = cid, n_version = num_of_int version, n_expiresAt = Fin expiresAt, n_signer = signer,
           n_signature = signature, n_translationKeyCid = translation, n_delegation = deleg, n_wantsNetworkReach = (reach \<noteq> None)\<rparr>
   }"

definition delegationToValue :: "delegation \<Rightarrow> cvalue" where
  "delegationToValue d =
     CObj [(''issuer'', CStr (d_issuer d)), (''audience'', CStr (d_audience d)), (''ownerId'', CStr (d_ownerId d)),
           (''abilities'', CList (map (\<lambda>a. CStr (ability_text a)) (d_abilities d))), (''expiresAt'', CNum (d_expiresAt d)),
           (''signature'', CStr (d_signature d))]"

definition parse_ability :: "cvalue \<Rightarrow> ability option" where
  "parse_ability v =
     (if v = CStr ''execute'' then Some Execute else if v = CStr ''read'' then Some Read_data
      else if v = CStr ''delegate'' then Some Delegate else None)"

definition parseDelegation :: "cvalue \<Rightarrow> delegation option" where
  "parseDelegation v = do {
     r \<leftarrow> as_record v;
     issuer \<leftarrow> str_field r ''issuer'';
     audience \<leftarrow> str_field r ''audience'';
     ownerId \<leftarrow> str_field r ''ownerId'';
     signature \<leftarrow> str_field r ''signature'';
     expiresAt \<leftarrow> asFiniteNumber (map_get r ''expiresAt'');
     abilities \<leftarrow> (case map_get r ''abilities'' of Some (CList vs) \<Rightarrow> those (map parse_ability vs) | _ \<Rightarrow> None);
     Some \<lparr>d_issuer = issuer, d_audience = audience, d_ownerId = ownerId, d_abilities = abilities, d_expiresAt = Fin expiresAt,
           d_signature = signature\<rparr>
   }"

section \<open>Task frames\<close>

definition taskFrame :: "string \<Rightarrow> task \<Rightarrow> delegation list option \<Rightarrow> cvalue" where
  "taskFrame kind t capability =
     CObj ([(''kind'', CStr kind), (''moduleCid'', CCid (tk_moduleCid t)), (''inputCid'', CCid (tk_inputCid t)),
            (''partitionIndex'', CNum (num_of_int (tk_partitionIndex t))), (''partitionCount'', CNum (num_of_int (tk_partitionCount t)))] @
           (case tk_label t of
              None \<Rightarrow> []
            | Some Sovereign \<Rightarrow>
                (case tk_ownerId t of
                   Some u \<Rightarrow> [(''label'', CStr ''sovereign''), (''ownerId'', CStr u)]
                 | None \<Rightarrow> [(''label'', CStr ''sovereign'')])
            | Some Public \<Rightarrow> [(''label'', CStr ''public'')]) @
           (case tk_moduleRecord t of None \<Rightarrow> [] | Some r \<Rightarrow> [(''moduleRecord'', nameRecordToValue r)]) @
           (case capability of None \<Rightarrow> [] | Some ds \<Rightarrow> [(''capability'', CList (map delegationToValue ds))]))"

definition parseTaskFrame :: "(string \<times> cvalue) list \<Rightarrow> (task \<times> delegation list option) option" where
  "parseTaskFrame r = do {
     moduleCid \<leftarrow> cid_field r ''moduleCid'';
     inputCid \<leftarrow> cid_field r ''inputCid'';
     partitionIndex \<leftarrow> asIndex (map_get r ''partitionIndex'');
     partitionCount \<leftarrow> asIndex (map_get r ''partitionCount'');
     if partitionCount = 0 \<or> partitionIndex \<ge> partitionCount then None
     else if map_get r ''label'' \<noteq> Some (CStr ''public'') \<and> map_get r ''label'' \<noteq> Some (CStr ''sovereign'') then None
     else do {
       moduleRecord \<leftarrow> optional (map_get r ''moduleRecord'') parseNameRecord;
       t \<leftarrow> (if map_get r ''label'' = Some (CStr ''sovereign'') then do {
               ownerId \<leftarrow> str_field r ''ownerId'';
               if length ownerId = 0 then None
               else Some \<lparr>tk_moduleCid = moduleCid, tk_inputCid = inputCid, tk_partitionIndex = partitionIndex,
                          tk_partitionCount = partitionCount, tk_label = Some Sovereign, tk_ownerId = Some ownerId, tk_moduleRecord = moduleRecord\<rparr>
             }
             else Some \<lparr>tk_moduleCid = moduleCid, tk_inputCid = inputCid, tk_partitionIndex = partitionIndex,
                        tk_partitionCount = partitionCount, tk_label = Some Public, tk_ownerId = None, tk_moduleRecord = moduleRecord\<rparr>);
       capability \<leftarrow> (case map_get r ''capability'' of
           None \<Rightarrow> Some None
         | Some (CList vs) \<Rightarrow> map_option Some (those (map parseDelegation vs))
         | Some _ \<Rightarrow> None);
       Some (t, capability)
     }
   }"

section \<open>Requests\<close>

datatype agent_request =
    Exec_request task "delegation list option"
  | Commit_request task "delegation list option"
  | Reveal_request string
  | Block_request string
  | Providers_request string
  | Records_request string
  | Offer_request string
  | Reservations_request
  | Report_request "start_outcome option" "int option"
  | Combine_request string "string list" int
  | Enrol_request enrollment_request
  | Enrol_challenge_request

definition MAX_COMMITMENT_HANDLE_CHARS :: nat where "MAX_COMMITMENT_HANDLE_CHARS = 128"

definition MAX_COMBINE_INPUTS :: nat where "MAX_COMBINE_INPUTS = 64"

fun encodeRequest :: "agent_request \<Rightarrow> cvalue" where
  "encodeRequest (Block_request cid) = CObj [(''kind'', CStr ''block''), (''cid'', CCid cid)]"
| "encodeRequest (Providers_request cid) = CObj [(''kind'', CStr ''providers''), (''cid'', CCid cid)]"
| "encodeRequest (Records_request nodeKey) = CObj [(''kind'', CStr ''records''), (''nodeKey'', CStr nodeKey)]"
| "encodeRequest (Offer_request shardId) = CObj [(''kind'', CStr ''offer''), (''shardId'', CStr shardId)]"
| "encodeRequest Reservations_request = CObj [(''kind'', CStr ''reservations'')]"
| "encodeRequest (Report_request out declined) =
     (let d = (case declined of None \<Rightarrow> 0 | Some n \<Rightarrow> n)
      in case out of
           None \<Rightarrow> CObj [(''kind'', CStr ''report''), (''declined'', CNum (num_of_int d))]
         | Some x \<Rightarrow> CObj [(''kind'', CStr ''report''), (''declined'', CNum (num_of_int d)), (''browser'', CStr (so_browser x)),
                           (''result'', CStr (result_text (so_result x)))])"
| "encodeRequest (Combine_request combineId inputCids level) =
     CObj [(''kind'', CStr ''combine''), (''combineId'', CStr combineId), (''inputCids'', CList (map CCid inputCids)),
           (''level'', CNum (num_of_int level))]"
| "encodeRequest (Enrol_request q) = CObj [(''kind'', CStr ''enrol''), (''request'', enrollmentRequestToValue q)]"
| "encodeRequest Enrol_challenge_request = CObj [(''kind'', CStr ''enrol-challenge'')]"
| "encodeRequest (Reveal_request handle) = CObj [(''kind'', CStr ''reveal''), (''handle'', CStr handle)]"
| "encodeRequest (Commit_request t capability) = taskFrame ''commit'' t capability"
| "encodeRequest (Exec_request t capability) = taskFrame ''exec'' t capability"

definition parseRequest :: "cvalue \<Rightarrow> agent_request option" where
  "parseRequest body = do {
     r \<leftarrow> as_record body;
     let kind = map_get r ''kind'';
     if kind = Some (CStr ''block'') then map_option Block_request (cid_field r ''cid'')
     else if kind = Some (CStr ''providers'') then map_option Providers_request (cid_field r ''cid'')
     else if kind = Some (CStr ''records'') then map_option Records_request (str_field r ''nodeKey'')
     else if kind = Some (CStr ''offer'') then map_option Offer_request (str_field r ''shardId'')
     else if kind = Some (CStr ''reservations'') then Some Reservations_request
     else if kind = Some (CStr ''report'') then
       (let declined = (case asReportedCount (map_get r ''declined'') of None \<Rightarrow> 0 | Some n \<Rightarrow> n)
        in Some (case (map_get r ''browser'', asStartResult (map_get r ''result'')) of
             (Some (CStr browser), Some result) \<Rightarrow>
               if browser_label browser then Report_request (Some \<lparr>so_browser = browser, so_result = result\<rparr>) (Some declined)
               else Report_request None (Some declined)
           | _ \<Rightarrow> Report_request None (Some declined)))
     else if kind = Some (CStr ''combine'') then do {
       combineId \<leftarrow> str_field r ''combineId'';
       level \<leftarrow> asIndex (map_get r ''level'');
       vs \<leftarrow> (case map_get r ''inputCids'' of Some (CList vs) \<Rightarrow> Some vs | _ \<Rightarrow> None);
       if length combineId = 0 \<or> level < 1 \<or> length vs < 2 \<or> length vs > MAX_COMBINE_INPUTS then None
       else do { cids \<leftarrow> those (map cid_of_value vs); Some (Combine_request combineId cids level) }
     }
     else if kind = Some (CStr ''enrol'') then map_option Enrol_request (parseEnrollmentRequest (map_get r ''request''))
     else if kind = Some (CStr ''enrol-challenge'') then Some Enrol_challenge_request
     else if kind = Some (CStr ''reveal'') then do {
       handle \<leftarrow> str_field r ''handle'';
       if length handle = 0 \<or> length handle > MAX_COMMITMENT_HANDLE_CHARS then None else Some (Reveal_request handle)
     }
     else if kind = Some (CStr ''commit'') then do { (t, capability) \<leftarrow> parseTaskFrame r; Some (Commit_request t capability) }
     else if kind \<noteq> Some (CStr ''exec'') then None
     else do { (t, capability) \<leftarrow> parseTaskFrame r; Some (Exec_request t capability) }
   }"

section \<open>Responses\<close>

datatype agent_response =
    Exec_response execution_outcome
  | Commit_response commit_outcome
  | Reveal_response reveal_outcome
  | Block_response "bytes option"
  | Providers_response "string list"
  | Records_response "node_records option"
  | Offer_response bool string "node_capacity option" offer_standing
  | Reservations_response "string list"
  | Report_response "int outcome_count list" int
  | Combine_response "string option" string attested_result
  | Enrol_response enrol_reply
  | Enrol_challenge_response enrollment_challenge
  | Error_response string

fun standing_text :: "offer_standing \<Rightarrow> string" where
  "standing_text Declining_this_offer = ''declining-this-offer''"
| "standing_text Declining_all_work = ''declining-all-work''"

text \<open>The fields an execution and a reveal share.\<close>

definition executed_fields :: "executed \<Rightarrow> (string \<times> cvalue) list" where
  "executed_fields x =
     [(''output'', xo_output x), (''fuelUsed'', CNum (Fin (co_fuel (xo_cost x)))), (''execMs'', CNum (Fin (co_execMs (xo_cost x)))),
      (''hostCalls'', CNum (Fin (co_hostCalls (xo_cost x)))), (''peakMemoryPages'', CNum (Fin (co_peakMemoryPages (xo_cost x)))),
      (''attestation'', attestationToValue (xo_attestation x))]"

fun encodeResponse :: "agent_response \<Rightarrow> cvalue" where
  "encodeResponse (Error_response reason) = CObj [(''kind'', CStr ''error''), (''reason'', CStr reason)]"
| "encodeResponse (Block_response None) = CObj [(''kind'', CStr ''block''), (''found'', CBool False)]"
| "encodeResponse (Block_response (Some b)) = CObj [(''kind'', CStr ''block''), (''found'', CBool True), (''bytes'', CBytes b)]"
| "encodeResponse (Providers_response ks) = CObj [(''kind'', CStr ''providers''), (''nodeKeys'', CList (map CStr ks))]"
| "encodeResponse (Records_response None) = CObj [(''kind'', CStr ''records''), (''found'', CBool False)]"
| "encodeResponse (Records_response (Some r)) =
     CObj [(''kind'', CStr ''records''), (''found'', CBool True), (''certificate'', certificateToValue (nr_certificate r)),
           (''capabilities'', capabilitiesToValue (nr_capabilities r))]"
| "encodeResponse (Offer_response accepted reason None standing) =
     CObj [(''kind'', CStr ''offer''), (''accepted'', CBool accepted), (''reason'', CStr reason), (''bounded'', CBool False),
           (''standing'', CStr (standing_text standing))]"
| "encodeResponse (Offer_response accepted reason (Some c) standing) =
     CObj [(''kind'', CStr ''offer''), (''accepted'', CBool accepted), (''reason'', CStr reason), (''bounded'', CBool True),
           (''slots'', CNum (Fin (cap_slots c))), (''inFlight'', CNum (Fin (cap_inFlight c))), (''standing'', CStr (standing_text standing))]"
| "encodeResponse (Enrol_response x) = enrollmentResultToValue x"
| "encodeResponse (Enrol_challenge_response c) =
     CObj [(''kind'', CStr ''enrol-challenge''), (''nonce'', CStr (ec_nonce c)), (''expiresAt'', CNum (Fin (ec_expiresAt c)))]"
| "encodeResponse (Reservations_response ps) = CObj [(''kind'', CStr ''reservations''), (''peerIds'', CList (map CStr ps))]"
| "encodeResponse (Combine_response None reason a) = CObj [(''kind'', CStr ''combine''), (''found'', CBool False), (''reason'', CStr reason)]"
| "encodeResponse (Combine_response (Some c) reason a) =
     CObj [(''kind'', CStr ''combine''), (''found'', CBool True), (''resultCid'', CCid c), (''reason'', CStr reason),
           (''attestation'', attestationToValue a)]"
| "encodeResponse (Report_response counts declined) =
     CObj [(''kind'', CStr ''report''), (''declined'', CNum (num_of_int declined)),
           (''counts'', CList (map (\<lambda>e. CObj [(''browser'', CStr (oc_browser e)), (''result'', CStr (result_text (oc_result e))),
               (''count'', CNum (num_of_int (oc_count e)))]) counts))]"
| "encodeResponse (Commit_response (Commit_ok digest handle)) =
     CObj [(''kind'', CStr ''commit''), (''ok'', CBool True), (''digest'', CStr digest), (''handle'', CStr handle)]"
| "encodeResponse (Commit_response (Commit_refused reason)) =
     CObj [(''kind'', CStr ''commit''), (''ok'', CBool False), (''reason'', CStr reason)]"
| "encodeResponse (Reveal_response (Reveal_ok nonce x)) =
     CObj ([(''kind'', CStr ''reveal''), (''ok'', CBool True), (''nonce'', CBytes nonce)] @ executed_fields x)"
| "encodeResponse (Reveal_response (Reveal_refused reason)) =
     CObj [(''kind'', CStr ''reveal''), (''ok'', CBool False), (''reason'', CStr reason)]"
| "encodeResponse (Exec_response (Executed x)) = CObj ([(''kind'', CStr ''exec''), (''ok'', CBool True)] @ executed_fields x)"
| "encodeResponse (Exec_response (Execution_failed reason)) =
     CObj [(''kind'', CStr ''exec''), (''ok'', CBool False), (''reason'', CStr reason)]"

definition parseExecMs :: "cvalue option \<Rightarrow> rat option" where
  "parseExecMs v =
     (case v of None \<Rightarrow> Some 0 | Some (CNum (Fin x)) \<Rightarrow> if x < 0 then None else Some x | Some _ \<Rightarrow> None)"

text \<open>\<open>Number.isSafeInteger\<close>.\<close>

definition safe_integer :: "rat \<Rightarrow> bool" where
  "safe_integer x \<longleftrightarrow> is_integer (Fin x) \<and> \<bar>x\<bar> \<le> 9007199254740991"

definition parseGuestCount :: "cvalue option \<Rightarrow> rat option" where
  "parseGuestCount v =
     (case v of
        None \<Rightarrow> Some 0
      | Some (CNum (Fin x)) \<Rightarrow> if \<not> safe_integer x \<or> x < 0 then None else Some x
      | Some _ \<Rightarrow> None)"

definition parse_executed :: "(string \<times> cvalue) list \<Rightarrow> executed option" where
  "parse_executed r = do {
     output' \<leftarrow> map_get r ''output'';
     fuel \<leftarrow> asFiniteNumber (map_get r ''fuelUsed'');
     execMs \<leftarrow> parseExecMs (map_get r ''execMs'');
     hostCalls \<leftarrow> parseGuestCount (map_get r ''hostCalls'');
     pages \<leftarrow> parseGuestCount (map_get r ''peakMemoryPages'');
     attestation \<leftarrow> parseAttestation (map_get r ''attestation'');
     Some \<lparr>xo_output = output', xo_cost = \<lparr>co_fuel = fuel, co_execMs = execMs, co_hostCalls = hostCalls, co_peakMemoryPages = pages\<rparr>,
           xo_attestation = attestation\<rparr>
   }"

definition bytes_field :: "(string \<times> cvalue) list \<Rightarrow> string \<Rightarrow> bytes option" where
  "bytes_field r k = (case map_get r k of Some (CBytes b) \<Rightarrow> Some b | _ \<Rightarrow> None)"

definition parse_offer :: "(string \<times> cvalue) list \<Rightarrow> agent_response option" where
  "parse_offer r = do {
     accepted \<leftarrow> (case map_get r ''accepted'' of Some (CBool b) \<Rightarrow> Some b | _ \<Rightarrow> None);
     let standing = (if map_get r ''standing'' = Some (CStr ''declining-all-work'') then Declining_all_work else Declining_this_offer);
     if map_get r ''bounded'' \<noteq> Some (CBool True) then Some (Offer_response accepted (stated r []) None standing)
     else do {
       slots \<leftarrow> asIndex (map_get r ''slots'');
       inFlight \<leftarrow> asIndex (map_get r ''inFlight'');
       Some (Offer_response accepted (stated r []) (Some \<lparr>cap_slots = of_int slots, cap_inFlight = of_int inFlight\<rparr>) standing)
     }
   }"

text \<open>What a parsed reply of an enrolment is: \<open>Parsed_enrol\<close> beside the other responses.\<close>

datatype parsed_response = Parsed agent_response | Parsed_enrol enrol_parsed

definition parseResponse :: "cvalue \<Rightarrow> parsed_response option" where
  "parseResponse body = do {
     r \<leftarrow> as_record body;
     let kind = map_get r ''kind'';
     let ok = map_get r ''ok'';
     let found = map_get r ''found'';
     if kind = Some (CStr ''error'') then Some (Parsed (Error_response (stated r ''unspecified'')))
     else if kind = Some (CStr ''block'') then
       if found \<noteq> Some (CBool True) then Some (Parsed (Block_response None))
       else map_option (\<lambda>b. Parsed (Block_response (Some b))) (bytes_field r ''bytes'')
     else if kind = Some (CStr ''providers'') then map_option (\<lambda>ks. Parsed (Providers_response ks)) (asKeyList (map_get r ''nodeKeys''))
     else if kind = Some (CStr ''records'') then
       if found \<noteq> Some (CBool True) then Some (Parsed (Records_response None))
       else do {
         certificate \<leftarrow> parseCertificate (map_get r ''certificate'');
         capabilities \<leftarrow> parseCapabilities (map_get r ''capabilities'');
         Some (Parsed (Records_response (Some \<lparr>nr_certificate = certificate, nr_capabilities = capabilities\<rparr>)))
       }
     else if kind = Some (CStr ''offer'') then map_option Parsed (parse_offer r)
     else if kind = Some (CStr ''reservations'') then map_option (\<lambda>ps. Parsed (Reservations_response ps)) (asKeyList (map_get r ''peerIds''))
     else if kind = Some (CStr ''enrol'') then map_option Parsed_enrol (parseEnrollmentResult r)
     else if kind = Some (CStr ''enrol-challenge'') then do {
       nonce \<leftarrow> str_field r ''nonce'';
       expiresAt \<leftarrow> asFiniteNumber (map_get r ''expiresAt'');
       if length nonce = 0 then None
       else Some (Parsed (Enrol_challenge_response \<lparr>ec_nonce = nonce, ec_expiresAt = expiresAt\<rparr>))
     }
     else if kind = Some (CStr ''report'') then do {
       counts \<leftarrow> parseCounts (map_get r ''counts'');
       Some (Parsed (Report_response counts (case asReportedCount (map_get r ''declined'') of None \<Rightarrow> 0 | Some n \<Rightarrow> n)))
     }
     else if kind = Some (CStr ''combine'') then
       if found \<noteq> Some (CBool True) then Some (Parsed (Combine_response None (stated r ''unspecified'') Signed_by_nobody))
       else do {
         resultCid \<leftarrow> cid_field r ''resultCid'';
         attestation \<leftarrow> parseAttestation (map_get r ''attestation'');
         Some (Parsed (Combine_response (Some resultCid) (stated r ''unspecified'') attestation))
       }
     else if kind = Some (CStr ''commit'') then
       if ok = Some (CBool True) then do {
         digest \<leftarrow> str_field r ''digest'';
         handle \<leftarrow> str_field r ''handle'';
         if length digest = 0 \<or> length handle = 0 \<or> length handle > MAX_COMMITMENT_HANDLE_CHARS then None
         else Some (Parsed (Commit_response (Commit_ok digest handle)))
       }
       else if ok \<noteq> Some (CBool False) then None
       else Some (Parsed (Commit_response (Commit_refused (stated r ''unspecified''))))
     else if kind = Some (CStr ''reveal'') then
       if ok = Some (CBool True) then do {
         nonce \<leftarrow> bytes_field r ''nonce'';
         if length nonce \<noteq> CEREMONY_NONCE_BYTES then None
         else map_option (\<lambda>x. Parsed (Reveal_response (Reveal_ok nonce x))) (parse_executed r)
       }
       else if ok \<noteq> Some (CBool False) then None
       else Some (Parsed (Reveal_response (Reveal_refused (stated r ''unspecified''))))
     else if kind \<noteq> Some (CStr ''exec'') then None
     else if ok = Some (CBool True) then map_option (\<lambda>x. Parsed (Exec_response (Executed x))) (parse_executed r)
     else if ok \<noteq> Some (CBool False) then None
     else Some (Parsed (Exec_response (Execution_failed (stated r ''unspecified''))))
   }"

section \<open>Node records at rest\<close>

definition node_records_value :: "node_records \<Rightarrow> cvalue" where
  "node_records_value r =
     CObj [(''certificate'', certificateToValue (nr_certificate r)), (''capabilities'', capabilitiesToValue (nr_capabilities r))]"

definition encodeNodeRecords :: "codec \<Rightarrow> node_records \<Rightarrow> encode_error + bytes" where
  "encodeNodeRecords codec r = encodeCanonical codec (node_records_value r)"

definition decodeNodeRecords :: "(bytes \<Rightarrow> cvalue option) \<Rightarrow> bytes \<Rightarrow> node_records option" where
  "decodeNodeRecords decode b = do {
     v \<leftarrow> decode b;
     r \<leftarrow> as_record v;
     certificate \<leftarrow> parseCertificate (map_get r ''certificate'');
     capabilities \<leftarrow> parseCapabilities (map_get r ''capabilities'');
     Some \<lparr>nr_certificate = certificate, nr_capabilities = capabilities\<rparr>
   }"

section \<open>What arrives\<close>

text \<open>The entries of an object that was sent, as they are read at the other end.\<close>

definition wired :: "(string \<times> cvalue) list \<Rightarrow> (string \<times> cvalue) list" where
  "wired es = js_sort dag_key_cmp (map (\<lambda>e. (fst e, dag_sorted (snd e))) es)"

lemma as_record_sent [simp]: "as_record (dag_sorted (CObj es)) = Some (wired es)"
  by (simp add: as_record_def wired_def)

lemma wired_get: "map_ok es \<Longrightarrow> map_get (wired es) k = map_option dag_sorted (map_get es k)"
  unfolding wired_def by (simp add: map_get_sorted map_get_mapped o_def)

lemma wired_keys: "set (map_keys (wired es)) = set (map_keys es)" and length_wired: "length (wired es) = length es"
  by (simp_all add: wired_def image_image)

lemma dag_list [simp]: "dag_sorted (CList vs) = CList (map dag_sorted vs)"
  by simp

declare dag_sorted.simps(2) [simp del]

lemma field_simps [simp]:
  "map_get r k = Some (CStr s) \<Longrightarrow> str_field r k = Some s" "map_get r k = Some (CCid c) \<Longrightarrow> cid_field r k = Some c"
  "map_get r k = Some (CBytes b) \<Longrightarrow> bytes_field r k = Some b"
  "asFiniteNumber (Some (CNum (Fin x))) = Some x" "asIndex (Some (CNum (num_of_int n))) = (if n < 0 then None else Some n)"
  by (simp_all add: str_field_def cid_field_def bytes_field_def asFiniteNumber_def asIndex_def)

lemma asIndex_nat [simp]: "asIndex (Some (CNum (num_of_nat k))) = Some (int k)"
  using field_simps(5) [of "int k"] by (simp del: field_simps)

lemma those_map_Some: "(\<And>x. x \<in> set xs \<Longrightarrow> f (g x) = Some (h x)) \<Longrightarrow> those (map f (map g xs)) = Some (map h xs)"
  by (induction xs) simp_all

lemma asKeyList_sent [simp]: "asKeyList (Some (CList (map CStr xs))) = Some xs"
  using those_map_Some [of xs str_of_value CStr id] by (simp add: asKeyList_def str_of_value_def)

lemma dag_map_CStr [simp]: "map dag_sorted (map CStr xs) = map CStr xs" and dag_map_CCid [simp]: "map dag_sorted (map CCid xs) = map CCid xs"
  by simp_all

lemma optional_simps [simp]: "optional None f = Some None" "optional (Some v) f = map_option Some (f v)"
  by (simp_all add: optional_def)

lemma parseDiscoverability_text [simp]: "parseDiscoverability (Some (CStr (discoverability_text d))) = Some d"
  by (cases d) (simp_all add: parseDiscoverability_def)

text \<open>A certificate arrives as it was sent, but for the key commitment, which is not carried.\<close>

lemma certificate_arrives [simp]:
  "parseCertificate (Some (dag_sorted (certificateToValue c))) = Some (c\<lparr>c_nextKeyCommitment := None\<rparr>)"
proof (cases "c_x509 c")
  case None
  then show ?thesis
    by (simp add: certificateToValue_def parseCertificate_def wired_get comp_def)
next
  case (Some x)
  then show ?thesis
    by (simp add: certificateToValue_def parseCertificate_def wired_get comp_def str_of_value_def)
qed

lemma attestation_arrives [simp]:
  "parseAttestation (Some (dag_sorted (attestationToValue a))) =
     Some (case a of Signed_by_nobody \<Rightarrow> Signed_by_nobody
           | Attested x \<Rightarrow> Attested (x\<lparr>ra_certificate := (ra_certificate x)\<lparr>c_nextKeyCommitment := None\<rparr>\<rparr>))"
proof (cases a)
  case (Attested x)
  have "dag_sorted (CObj es) \<noteq> CStr s" for es s by (simp add: dag_sorted.simps(2))
  with Attested show ?thesis by (simp add: attestationToValue_def parseAttestation_def wired_get)
qed (simp add: attestationToValue_def parseAttestation_def)

lemma freshness_arrives [simp]:
  "parseFreshness (Some (dag_sorted (case f of None \<Rightarrow> CStr ''answers-no-challenge''
     | Some a \<Rightarrow> CObj [(''nonce'', CStr (ca_nonce a)), (''proof'', CStr (ca_proof a))]))) = Some f"
proof (cases f)
  case (Some a)
  have "dag_sorted (CObj es) \<noteq> CStr s" for es s by (simp add: dag_sorted.simps(2))
  with Some show ?thesis by (simp add: parseFreshness_def wired_get)
qed (simp add: parseFreshness_def)

lemma enrolment_request_arrives:
  "parseEnrollmentRequest (Some (dag_sorted (enrollmentRequestToValue q))) = Some (q\<lparr>er_nextKeyCommitment := None\<rparr>)"
  by (simp add: enrollmentRequestToValue_def parseEnrollmentRequest_def wired_get comp_def)

text \<open>A refusal as it is read, where the retry time is a finite number.\<close>

fun finite_retry :: "enrollment_refusal \<Rightarrow> bool" where
  "finite_retry (Issuance_budget_exhausted l w r) = is_finite r"
| "finite_retry (Rate_limited k l w r) = is_finite r"
| "finite_retry _ = True"

fun num_value :: "jsnum \<Rightarrow> rat" where
  "num_value (Fin x) = x"
| "num_value _ = 0"

fun as_read :: "enrollment_refusal \<Rightarrow> wire_refusal" where
  "as_read (Bad_proof_of_possession k) = Wire_bad_proof_of_possession k"
| "as_read (Bad_owner_proof k) = Wire_bad_owner_proof k"
| "as_read (Rate_limited k l w r) = Wire_rate_limited k (of_nat l) w (num_value r)"
| "as_read (Issuance_budget_exhausted l w r) = Wire_issuance_budget_exhausted (of_nat l) w (num_value r)"
| "as_read (Stale_challenge t) = Wire_stale_challenge t"
| "as_read (Operator_id_not_derivable a b) = Wire_operator_id_not_derivable a b"

lemma is_finite_iff: "is_finite n \<longleftrightarrow> n = Fin (num_value n)"
  by (cases n) auto

lemma refusal_arrives:
  assumes "finite_retry f"
  shows "parseEnrollmentRefusal (Some (dag_sorted (refusalToValue f))) = Some (as_read f)"
proof (cases f)
  case (Rate_limited k l w r)
  with assms obtain x where "r = Fin x" by (auto simp: is_finite_iff)
  then show ?thesis by (simp add: Rate_limited refusalToValue_def parseEnrollmentRefusal_def wired_get)
next
  case (Issuance_budget_exhausted l w r)
  with assms obtain x where "r = Fin x" by (auto simp: is_finite_iff)
  then show ?thesis by (simp add: Issuance_budget_exhausted refusalToValue_def parseEnrollmentRefusal_def wired_get)
qed (simp_all add: refusalToValue_def parseEnrollmentRefusal_def wired_get)

section \<open>Capability records arrive\<close>

definition ext_read :: "capability_extension \<Rightarrow> capability_extension" where
  "ext_read e = e\<lparr>cx_value := dag_sorted (cx_value e)\<rparr>"

lemma extension_arrives: "parse_extension (dag_sorted (extension_value e)) = Some (ext_read e)"
  by (simp add: extension_value_def parse_extension_def wired_get length_wired ext_read_def)

lemma extensions_arrive:
  "distinct (map cx_id es) \<Longrightarrow> set seen \<inter> cx_id ` set es = {} \<Longrightarrow>
   parse_extensions seen (map dag_sorted (map extension_value es)) = Some (map ext_read es)"
proof (induction es arbitrary: seen)
  case (Cons e es)
  have "parse_extensions (set_add (cx_id e) seen) (map dag_sorted (map extension_value es)) = Some (map ext_read es)"
    using Cons.prems by (intro Cons.IH) auto
  moreover have "cx_id e \<notin> set seen" using Cons.prems by auto
  moreover have "cx_id (ext_read e) = cx_id e" by (simp add: ext_read_def)
  ultimately show ?case by (simp add: extension_arrives)
qed simp

lemma js_sort_map: "(\<And>a b. cmp (f a) (f b) = cmp a b) \<Longrightarrow> js_sort cmp (map f xs) = map f (js_sort cmp xs)"
proof (induction xs)
  case (Cons x xs)
  have "js_insert cmp (f x) (map f ys) = map f (js_insert cmp x ys)" for ys
    by (induction ys) (simp_all add: Cons.prems)
  with Cons show ?case by simp
qed simp

definition caps_read :: "capability_record \<Rightarrow> capability_record" where
  "caps_read c = c\<lparr>cb_extensions := map ext_read (cb_extensions c)\<rparr>"

definition caps_in_order :: "capability_record \<Rightarrow> bool" where
  "caps_in_order c \<longleftrightarrow> distinct (map cx_id (cb_extensions c)) \<and> js_sort ext_cmp (cb_extensions c) = cb_extensions c"

lemma capabilities_arrive:
  assumes "caps_in_order c"
  shows "parseCapabilities (Some (dag_sorted (capabilitiesToValue c))) = Some (caps_read c)"
proof -
  have key: "list_ex (\<lambda>key. key \<notin> set CAPABILITY_KEYS) (map_keys (wired es)) \<longleftrightarrow> \<not> set (map_keys es) \<subseteq> set CAPABILITY_KEYS" for es
    unfolding list_ex_iff wired_keys by blast
  show ?thesis
  proof (cases "cb_extensions c")
    case Nil
    then show ?thesis
      by (simp add: capabilitiesToValue_def parseCapabilities_def wired_get comp_def key asExtensions_def caps_read_def del: list_ex_iff)
        (simp add: CAPABILITY_KEYS_def)
  next
    case (Cons e es)
    have "js_sort ext_cmp (map ext_read (cb_extensions c)) = map ext_read (cb_extensions c)"
      using assms js_sort_map [of ext_cmp ext_read "cb_extensions c"]
      by (simp add: caps_in_order_def ext_read_def ext_cmp_def)
    then have "asExtensions (Some (CList (map dag_sorted (map extension_value (cb_extensions c))))) = Some (map ext_read (cb_extensions c))"
      using assms extensions_arrive [of "cb_extensions c" "[]"] by (simp add: asExtensions_def caps_in_order_def del: map_map)
    moreover have "length (cb_extensions c) \<noteq> 0" using Cons by simp
    ultimately show ?thesis
      by (simp add: capabilitiesToValue_def parseCapabilities_def wired_get key caps_read_def del: list_ex_iff map_map)
        (simp add: CAPABILITY_KEYS_def)
  qed
qed

lemma published_in_order:
  assumes "publishCapabilities codec sign pub sk f = Inr r"
  shows "caps_in_order r"
proof -
  from assms have r: "cb_extensions r = js_sort ext_cmp (cb_extensions f)" "distinct (map cx_id (cb_extensions f))"
    by (auto simp: publishCapabilities_def orderExtensions_Inr Let_def split: sum.splits payload_result.splits)
  then have "distinct (map cx_id (js_sort ext_cmp (cb_extensions f)))"
    by (metis mset_js_sort mset_map mset_eq_imp_distinct_iff)
  with r order_independent [of "js_sort ext_cmp (cb_extensions f)" "cb_extensions f"] show ?thesis
    by (simp add: caps_in_order_def)
qed

section \<open>Tasks arrive\<close>

text \<open>What a frame can carry: finite expiries, and a version that is a natural number.\<close>

definition name_sendable :: "name_record \<Rightarrow> bool" where
  "name_sendable r \<longleftrightarrow> (\<exists>k. n_version r = num_of_nat k) \<and> is_finite (n_expiresAt r) \<and>
     (case n_delegation r of None \<Rightarrow> True | Some d \<Rightarrow> is_finite (nd_expiresAt d))"

lemma name_delegation_arrives:
  assumes "is_finite (nd_expiresAt d)"
  shows "parseNameDelegation (dag_sorted (CObj [(''root'', CStr (nd_root d)), (''delegate'', CStr (nd_delegate d)),
    (''expiresAt'', CNum (nd_expiresAt d)), (''signature'', CStr (nd_signature d))])) = Some d"
proof -
  obtain x where "nd_expiresAt d = Fin x" using assms by (auto simp: is_finite_iff)
  then show ?thesis by (simp add: parseNameDelegation_def wired_get)
qed

lemma name_arrives:
  assumes "name_sendable r"
  shows "parseNameRecord (dag_sorted (nameRecordToValue r)) = Some r"
proof -
  obtain name cid version expiry signer sig tr deleg reach where r: "r = \<lparr>n_name = name, n_cid = cid, n_version = version,
      n_expiresAt = expiry, n_signer = signer, n_signature = sig, n_translationKeyCid = tr, n_delegation = deleg, n_wantsNetworkReach = reach\<rparr>"
    by (cases r) blast
  obtain k x where v: "version = num_of_nat k" "expiry = Fin x"
    using assms by (auto simp: name_sendable_def is_finite_iff r)
  have d: "deleg = Some d \<Longrightarrow> is_finite (nd_expiresAt d)" for d using assms by (simp add: name_sendable_def r)
  show ?thesis
    by (cases tr; cases deleg; cases reach)
      (use v d name_delegation_arrives in \<open>simp_all add: r nameRecordToValue_def parseNameRecord_def wired_get comp_def cid_of_value_def\<close>)
qed

lemma delegation_arrives:
  assumes "is_finite (d_expiresAt d)"
  shows "parseDelegation (dag_sorted (delegationToValue d)) = Some d"
proof -
  obtain x where x: "d_expiresAt d = Fin x" using assms by (auto simp: is_finite_iff)
  have a: "parse_ability (CStr (ability_text a)) = Some a" for a by (cases a) (simp_all add: parse_ability_def)
  have "those (map parse_ability (map (\<lambda>a. CStr (ability_text a)) xs)) = Some xs" for xs
    using those_map_Some [of xs parse_ability "\<lambda>a. CStr (ability_text a)" id] a by simp
  then have "those (map (\<lambda>a. parse_ability (CStr (ability_text a))) xs) = Some xs" for xs by (simp add: comp_def)
  with x show ?thesis by (simp add: delegationToValue_def parseDelegation_def wired_get comp_def)
qed

definition task_sendable :: "task \<Rightarrow> bool" where
  "task_sendable t \<longleftrightarrow> 0 \<le> tk_partitionIndex t \<and> tk_partitionIndex t < tk_partitionCount t \<and>
     (case tk_label t of
        None \<Rightarrow> False
      | Some Public \<Rightarrow> tk_ownerId t = None
      | Some Sovereign \<Rightarrow> (case tk_ownerId t of None \<Rightarrow> False | Some u \<Rightarrow> u \<noteq> [])) \<and>
     (case tk_moduleRecord t of None \<Rightarrow> True | Some r \<Rightarrow> name_sendable r)"

definition capability_sendable :: "delegation list option \<Rightarrow> bool" where
  "capability_sendable c \<longleftrightarrow> (case c of None \<Rightarrow> True | Some ds \<Rightarrow> list_all (\<lambda>d. is_finite (d_expiresAt d)) ds)"

lemma capability_arrives:
  "list_all (\<lambda>d. is_finite (d_expiresAt d)) ds \<Longrightarrow> those (map parseDelegation (map dag_sorted (map delegationToValue ds))) = Some ds"
  by (induction ds) (simp_all add: delegation_arrives)

lemma task_arrives:
  assumes "task_sendable t" "capability_sendable c" "taskFrame kind t c = CObj es"
  shows "parseTaskFrame (wired es) = Some (t, c) \<and> map_get (wired es) ''kind'' = Some (CStr kind)"
proof -
  note defs = taskFrame_def parseTaskFrame_def wired_get comp_def task_sendable_def capability_sendable_def
  have n: "name_sendable r \<Longrightarrow> parseNameRecord (dag_sorted (nameRecordToValue r)) = Some r" for r by (rule name_arrives)
  from assms have es: "CObj es = taskFrame kind t c" by simp
  show ?thesis
  proof (cases "tk_label t")
    case None
    with assms(1) show ?thesis by (simp add: task_sendable_def)
  next
    case (Some l)
    show ?thesis
    proof (cases l)
      case Public
      show ?thesis
        by (cases "tk_moduleRecord t"; cases c)
          (use assms(1,2) es Some Public n capability_arrives in \<open>simp_all add: defs\<close>)
    next
      case Sovereign
      then obtain u where "tk_ownerId t = Some u" "u \<noteq> []" using assms(1) Some by (auto simp: task_sendable_def split: option.splits)
      then show ?thesis
        by (cases "tk_moduleRecord t"; cases c)
          (use assms(1,2) es Some Sovereign n capability_arrives in \<open>simp_all add: defs\<close>)
    qed
  qed
qed

section \<open>Frames arrive\<close>

fun request_sendable :: "agent_request \<Rightarrow> bool" where
  "request_sendable (Exec_request t c) = (task_sendable t \<and> capability_sendable c)"
| "request_sendable (Commit_request t c) = (task_sendable t \<and> capability_sendable c)"
| "request_sendable (Reveal_request h) = (h \<noteq> [] \<and> length h \<le> MAX_COMMITMENT_HANDLE_CHARS)"
| "request_sendable (Report_request out d) =
     ((case out of None \<Rightarrow> True | Some x \<Rightarrow> browser_label (so_browser x)) \<and>
      (case d of None \<Rightarrow> False | Some n \<Rightarrow> 0 \<le> n \<and> n \<le> MAX_REPORTED_COUNT))"
| "request_sendable (Combine_request i cids level) = (i \<noteq> [] \<and> 1 \<le> level \<and> 2 \<le> length cids \<and> length cids \<le> MAX_COMBINE_INPUTS)"
| "request_sendable (Enrol_request q) = (er_nextKeyCommitment q = None)"
| "request_sendable _ = True"

lemma result_arrives [simp]: "asStartResult (Some (CStr (result_text x))) = Some x"
proof (cases x)
  case (Start_failed c)
  then show ?thesis by (cases c) (simp_all add: asStartResult_def START_FAILURES_def)
qed (simp add: asStartResult_def)

lemma reported_count [simp]: "asReportedCount (Some (CNum (num_of_int n))) = (if n \<le> 0 \<or> n > MAX_REPORTED_COUNT then None else Some n)"
  by (simp add: asReportedCount_def)

lemma cids_arrive: "those (map cid_of_value (map CCid xs)) = Some xs"
  using those_map_Some [of xs cid_of_value CCid id] by (simp add: cid_of_value_def)

lemma task_request_arrives:
  assumes "task_sendable t" "capability_sendable c"
  shows "parseRequest (dag_sorted (taskFrame ''exec'' t c)) = Some (Exec_request t c)"
    "parseRequest (dag_sorted (taskFrame ''commit'' t c)) = Some (Commit_request t c)"
proof -
  obtain es where e: "taskFrame ''exec'' t c = CObj es" by (simp add: taskFrame_def)
  from task_arrives [OF assms e] show "parseRequest (dag_sorted (taskFrame ''exec'' t c)) = Some (Exec_request t c)"
    unfolding e by (simp add: parseRequest_def)
  obtain fs where f: "taskFrame ''commit'' t c = CObj fs" by (simp add: taskFrame_def)
  from task_arrives [OF assms f] show "parseRequest (dag_sorted (taskFrame ''commit'' t c)) = Some (Commit_request t c)"
    unfolding f by (simp add: parseRequest_def)
qed

lemma request_parsed:
  assumes "request_sendable q"
  shows "parseRequest (dag_sorted (encodeRequest q)) = Some q"
proof (cases q)
  case (Report_request out d)
  with assms obtain n where "d = Some n" "0 \<le> n" "n \<le> MAX_REPORTED_COUNT" by (auto split: option.splits)
  with Report_request assms show ?thesis
    by (cases out) (auto simp: parseRequest_def wired_get)
next
  case (Combine_request i cids level)
  with assms show ?thesis by (simp add: parseRequest_def wired_get cids_arrive del: map_map)
next
  case (Enrol_request x)
  with assms show ?thesis by (simp add: parseRequest_def wired_get enrolment_request_arrives)
next
  case (Reveal_request h)
  with assms show ?thesis by (simp add: parseRequest_def wired_get)
qed (use assms task_request_arrives in \<open>simp_all add: parseRequest_def wired_get\<close>)


definition attested_read :: "attested_result \<Rightarrow> attested_result" where
  "attested_read a = (case a of Signed_by_nobody \<Rightarrow> Signed_by_nobody
     | Attested x \<Rightarrow> Attested (x\<lparr>ra_certificate := (ra_certificate x)\<lparr>c_nextKeyCommitment := None\<rparr>\<rparr>))"

definition executed_read :: "executed \<Rightarrow> executed" where
  "executed_read x = x\<lparr>xo_output := dag_sorted (xo_output x), xo_attestation := attested_read (xo_attestation x)\<rparr>"

text \<open>What the other end holds: values in the codec's order, certificates without their key commitment, and no
  attestation beside a combine that found nothing.\<close>

fun arrived :: "agent_response \<Rightarrow> parsed_response" where
  "arrived (Exec_response (Executed x)) = Parsed (Exec_response (Executed (executed_read x)))"
| "arrived (Reveal_response (Reveal_ok nonce x)) = Parsed (Reveal_response (Reveal_ok nonce (executed_read x)))"
| "arrived (Records_response (Some r)) =
     Parsed (Records_response (Some \<lparr>nr_certificate = (nr_certificate r)\<lparr>c_nextKeyCommitment := None\<rparr>,
       nr_capabilities = caps_read (nr_capabilities r)\<rparr>))"
| "arrived (Combine_response None reason a) = Parsed (Combine_response None reason Signed_by_nobody)"
| "arrived (Combine_response (Some c) reason a) = Parsed (Combine_response (Some c) reason (attested_read a))"
| "arrived (Enrol_response (Enrol_ok c)) = Parsed_enrol (Parsed_certificate (c\<lparr>c_nextKeyCommitment := None\<rparr>))"
| "arrived (Enrol_response (Enrol_refused f reason)) = Parsed_enrol (Parsed_refusal (as_read f) reason)"
| "arrived x = Parsed x"

definition cost_sendable :: "run_cost \<Rightarrow> bool" where
  "cost_sendable c \<longleftrightarrow> 0 \<le> co_execMs c \<and> 0 \<le> co_hostCalls c \<and> safe_integer (co_hostCalls c) \<and>
     0 \<le> co_peakMemoryPages c \<and> safe_integer (co_peakMemoryPages c)"

definition count_sendable :: "int outcome_count \<Rightarrow> bool" where
  "count_sendable e \<longleftrightarrow> browser_label (oc_browser e) \<and> 0 < oc_count e \<and> oc_count e \<le> MAX_REPORTED_COUNT"

fun response_sendable :: "agent_response \<Rightarrow> bool" where
  "response_sendable (Exec_response (Executed x)) = cost_sendable (xo_cost x)"
| "response_sendable (Reveal_response (Reveal_ok nonce x)) = (length nonce = CEREMONY_NONCE_BYTES \<and> cost_sendable (xo_cost x))"
| "response_sendable (Commit_response (Commit_ok digest h)) = (digest \<noteq> [] \<and> h \<noteq> [] \<and> length h \<le> MAX_COMMITMENT_HANDLE_CHARS)"
| "response_sendable (Records_response (Some r)) = caps_in_order (nr_capabilities r)"
| "response_sendable (Offer_response a reason (Some c) s) = (\<exists>k l. c = \<lparr>cap_slots = of_nat k, cap_inFlight = of_nat l\<rparr>)"
| "response_sendable (Report_response counts d) = (list_all count_sendable counts \<and> 0 \<le> d \<and> d \<le> MAX_REPORTED_COUNT)"
| "response_sendable (Enrol_response (Enrol_refused f reason)) = finite_retry f"
| "response_sendable (Enrol_challenge_response c) = (ec_nonce c \<noteq> [])"
| "response_sendable _ = True"

lemma guest_count_arrives: "0 \<le> x \<Longrightarrow> safe_integer x \<Longrightarrow> parseGuestCount (Some (CNum (Fin x))) = Some x"
  by (simp add: parseGuestCount_def)

lemma map_get_append: "k \<notin> set (map_keys xs) \<Longrightarrow> map_get (xs @ ys) k = map_get ys k"
  by (induction xs) auto

lemma executed_arrives:
  assumes "cost_sendable (xo_cost x)" "map_ok es" "set (map_keys es) \<inter> set (map_keys (executed_fields x)) = {}"
  shows "parse_executed (wired (es @ executed_fields x)) = Some (executed_read x)"
proof -
  have "map_ok (es @ executed_fields x)" using assms(2,3) by (auto simp: executed_fields_def)
  moreover have "map_get (es @ executed_fields x) k = map_get (executed_fields x) k" if "k \<in> set (map_keys (executed_fields x))" for k
    using assms(3) that by (intro map_get_append) blast
  ultimately have get: "map_get (wired (es @ executed_fields x)) k = map_option dag_sorted (map_get (executed_fields x) k)"
    if "k \<in> set (map_keys (executed_fields x))" for k
    using that by (simp add: wired_get)
  obtain out fuel ms calls pages att where x: "x = \<lparr>xo_output = out, xo_cost = \<lparr>co_fuel = fuel, co_execMs = ms, co_hostCalls = calls,
      co_peakMemoryPages = pages\<rparr>, xo_attestation = att\<rparr>"
    by (metis executed.surjective run_cost.surjective old.unit.exhaust)
  define r where "r = wired (es @ executed_fields x)"
  have f: "map_get r ''output'' = Some (dag_sorted out)"
    "map_get r ''fuelUsed'' = Some (CNum (Fin fuel))"
    "map_get r ''execMs'' = Some (CNum (Fin ms))"
    "map_get r ''hostCalls'' = Some (CNum (Fin calls))"
    "map_get r ''peakMemoryPages'' = Some (CNum (Fin pages))"
    "map_get r ''attestation'' = Some (dag_sorted (attestationToValue att))"
    unfolding r_def by (subst get; simp add: executed_fields_def x)+
  show ?thesis using assms(1) unfolding r_def [symmetric]
    by (simp add: parse_executed_def f guest_count_arrives cost_sendable_def parseExecMs_def executed_read_def attested_read_def x)
qed

lemma counts_arrive:
  "list_all count_sendable counts \<Longrightarrow>
   parse_counts (map dag_sorted (map (\<lambda>e. CObj [(''browser'', CStr (oc_browser e)), (''result'', CStr (result_text (oc_result e))),
     (''count'', CNum (num_of_int (oc_count e)))]) counts)) = Some counts"
  by (induction counts) (simp_all add: wired_get count_sendable_def)

lemma response_parsed:
  assumes "response_sendable x"
  shows "parseResponse (dag_sorted (encodeResponse x)) = Some (arrived x)"
proof (cases x)
  case (Exec_response out)
  show ?thesis
  proof (cases out)
    case (Executed y)
    let ?es = "[(''kind'', CStr ''exec''), (''ok'', CBool True)]"
    have "map_get (wired (?es @ executed_fields y)) ''kind'' = Some (CStr ''exec'')" "map_get (wired (?es @ executed_fields y)) ''ok'' = Some (CBool True)"
      by (simp_all add: wired_get executed_fields_def)
    moreover have "parse_executed (wired (?es @ executed_fields y)) = Some (executed_read y)"
      using assms Exec_response Executed by (intro executed_arrives) (simp_all add: executed_fields_def)
    ultimately show ?thesis by (simp add: Exec_response Executed parseResponse_def)
  qed (simp add: Exec_response parseResponse_def wired_get stated_def)
next
  case (Reveal_response out)
  show ?thesis
  proof (cases out)
    case (Reveal_ok nonce y)
    let ?es = "[(''kind'', CStr ''reveal''), (''ok'', CBool True), (''nonce'', CBytes nonce)]"
    have "map_get (wired (?es @ executed_fields y)) ''kind'' = Some (CStr ''reveal'')" "map_get (wired (?es @ executed_fields y)) ''ok'' = Some (CBool True)"
      "map_get (wired (?es @ executed_fields y)) ''nonce'' = Some (CBytes nonce)"
      by (simp_all add: wired_get executed_fields_def)
    moreover have "parse_executed (wired (?es @ executed_fields y)) = Some (executed_read y)"
      using assms Reveal_response Reveal_ok by (intro executed_arrives) (simp_all add: executed_fields_def)
    moreover have "length nonce = CEREMONY_NONCE_BYTES" using assms Reveal_response Reveal_ok by simp
    ultimately show ?thesis by (simp add: Reveal_response Reveal_ok parseResponse_def)
  qed (simp add: Reveal_response parseResponse_def wired_get stated_def)
next
  case (Commit_response out)
  with assms show ?thesis by (cases out) (simp_all add: parseResponse_def wired_get stated_def)
next
  case (Block_response found)
  then show ?thesis by (cases found) (simp_all add: parseResponse_def wired_get)
next
  case (Records_response found)
  with assms show ?thesis by (cases found) (simp_all add: parseResponse_def wired_get capabilities_arrive)
next
  case (Offer_response a reason c s)
  have s: "(if CStr (standing_text s) = CStr ''declining-all-work'' then Declining_all_work else Declining_this_offer) = s"
    by (cases s) simp_all
  show ?thesis
  proof (cases c)
    case None
    then show ?thesis using s by (simp add: Offer_response parseResponse_def parse_offer_def wired_get stated_def)
  next
    case (Some cap)
    with assms Offer_response obtain k l where "cap = \<lparr>cap_slots = of_nat k, cap_inFlight = of_nat l\<rparr>" by auto
    then show ?thesis using Some s by (simp add: Offer_response parseResponse_def parse_offer_def wired_get stated_def)
  qed
next
  case (Combine_response c reason a)
  then show ?thesis by (cases c) (simp_all add: parseResponse_def wired_get stated_def attested_read_def)
next
  case (Report_response counts d)
  with assms show ?thesis
    by (auto simp: parseResponse_def wired_get parseCounts_def counts_arrive simp del: map_map)
next
  case (Enrol_response out)
  show ?thesis
  proof (cases out)
    case (Enrol_ok c)
    then show ?thesis by (simp add: Enrol_response enrollmentResultToValue_def parseResponse_def parseEnrollmentResult_def wired_get)
  next
    case (Enrol_refused f reason)
    with assms refusal_arrives [of f] show ?thesis
      by (simp add: Enrol_response enrollmentResultToValue_def parseResponse_def parseEnrollmentResult_def wired_get stated_def)
  qed
next
  case (Enrol_challenge_response c)
  with assms show ?thesis by (simp add: parseResponse_def wired_get)
qed (simp_all add: parseResponse_def wired_get stated_def comp_def)

text \<open>A response is understood as it was meant: whatever kind of response an agent sends, the node that decodes the
  frame reads back that response, with every value in the codec's canonical order, and with nothing lost but what
  the format does not carry (the key commitment of a certificate, the attestation of a combine without a result).\<close>

theorem response_round_trip:
  assumes "codec_law codec decode" "encodeCanonical codec (encodeResponse x) = Inr b" "response_sendable x"
  shows "map_option parseResponse (decode b) = Some (Some (arrived x))"
proof -
  from assms(1,2) have "decode b = Some (dag_sorted (encodeResponse x))" by (simp add: codec_law_def encodeCanonical_Inr)
  with response_parsed [OF assms(3)] show ?thesis by simp
qed

text \<open>What a node keeps of its records on disk reads back the same way.\<close>

lemma node_records_round_trip:
  assumes "codec_law codec decode" "encodeNodeRecords codec r = Inr b" "caps_in_order (nr_capabilities r)"
  shows "decodeNodeRecords decode b = Some \<lparr>nr_certificate = (nr_certificate r)\<lparr>c_nextKeyCommitment := None\<rparr>,
    nr_capabilities = caps_read (nr_capabilities r)\<rparr>"
proof -
  have "decode b = Some (dag_sorted (node_records_value r))"
    using assms(1,2) by (simp add: codec_law_def encodeNodeRecords_def encodeCanonical_Inr)
  then show ?thesis using assms(3)
    by (simp add: decodeNodeRecords_def node_records_value_def wired_get capabilities_arrive)
qed

text \<open>What a parser accepts is of the frame's type: the converse of the arrivals above.\<close>

lemma asIndex_Some:
  assumes "asIndex v = Some n"
  shows "0 \<le> n"
proof -
  from assms obtain m where m: "\<not> js_lt m 0" "n = int_of_num m" "is_integer m"
    by (auto simp: asIndex_def split: option.splits cvalue.splits if_splits)
  then show ?thesis by (cases m) auto
qed

lemma those_all: "those (map f xs) = Some ys \<Longrightarrow> (\<And>x y. f x = Some y \<Longrightarrow> P y) \<Longrightarrow> list_all P ys"
  by (induction xs arbitrary: ys) (auto split: option.splits)

lemma those_length: "those (map f xs) = Some ys \<Longrightarrow> length ys = length xs"
  by (induction xs arbitrary: ys) (auto split: option.splits)

lemma parseDelegation_finite: "parseDelegation v = Some d \<Longrightarrow> is_finite (d_expiresAt d)"
  by (auto simp: parseDelegation_def bind_eq_Some_conv)

lemma parseNameDelegation_finite: "parseNameDelegation v = Some d \<Longrightarrow> is_finite (nd_expiresAt d)"
  by (auto simp: parseNameDelegation_def bind_eq_Some_conv)

lemma parseNameRecord_sendable:
  assumes "parseNameRecord v = Some r"
  shows "name_sendable r"
proof -
  have deleg: "case d of None \<Rightarrow> True | Some d' \<Rightarrow> is_finite (nd_expiresAt d')"
    if "optional v' parseNameDelegation = Some d" for v' d
    using that by (auto simp: optional_def parseNameDelegation_finite split: option.splits)
  have nat: "\<exists>m. num_of_int k = num_of_nat m" if "0 \<le> k" for k
    using that by (intro exI [of _ "nat k"]) simp
  from assms show ?thesis unfolding name_sendable_def parseNameRecord_def bind_eq_Some_conv
    by (elim exE conjE) (drule deleg, drule asIndex_Some, drule nat, unfold option.inject, hypsubst, simp)
qed

lemma parseTaskFrame_sendable:
  assumes "parseTaskFrame r = Some (t, c)"
  shows "task_sendable t \<and> capability_sendable c"
proof -
  have caps: "list_all (\<lambda>d. is_finite (d_expiresAt d)) ds" if "those (map parseDelegation vs) = Some ds" for vs ds
    by (rule those_all [OF that]) (rule parseDelegation_finite)
  have rec: "case m of None \<Rightarrow> True | Some x \<Rightarrow> name_sendable x" if "optional v parseNameRecord = Some m" for v m
    using that parseNameRecord_sendable by (auto simp: optional_def split: option.splits)
  have cap: "capability_sendable c'" if "(case map_get r ''capability'' of None \<Rightarrow> Some None
      | Some (CList vs) \<Rightarrow> map_option Some (those (map parseDelegation vs)) | Some _ \<Rightarrow> None) = Some c'" for c'
    using that caps by (auto simp: capability_sendable_def split: option.splits cvalue.splits)
  have own: "tk_partitionIndex t' = i \<and> tk_partitionCount t' = n \<and> tk_moduleRecord t' = m \<and>
      (tk_label t' = Some Sovereign \<and> (\<exists>u. tk_ownerId t' = Some u \<and> u \<noteq> []) \<or> tk_label t' = Some Public \<and> tk_ownerId t' = None)"
    if "(if sov then Option.bind (str_field r ''ownerId'') (\<lambda>u. if length u = 0 then None
           else Some \<lparr>tk_moduleCid = mc, tk_inputCid = ic, tk_partitionIndex = i, tk_partitionCount = n,
                      tk_label = Some Sovereign, tk_ownerId = Some u, tk_moduleRecord = m\<rparr>)
         else Some \<lparr>tk_moduleCid = mc, tk_inputCid = ic, tk_partitionIndex = i, tk_partitionCount = n,
                    tk_label = Some Public, tk_ownerId = None, tk_moduleRecord = m\<rparr>) = Some t'" for sov mc ic i n m and t' :: task
    using that by (cases sov) (auto simp: bind_eq_Some_conv split: if_splits)
  have fails: "(if b then None else x) = Some y \<longleftrightarrow> \<not> b \<and> x = Some y" for b x and y :: "task \<times> delegation list option" by simp
  from assms show ?thesis unfolding parseTaskFrame_def bind_eq_Some_conv fails
    by (elim exE conjE) (drule own, drule cap, drule rec, drule asIndex_Some, unfold option.inject prod.inject,
      elim conjE, hypsubst, auto simp: task_sendable_def)
qed

text \<open>C35: What an agent acts on is well formed, whatever bytes it was sent: a request that parses has a partition index
  below its partition count, an owner exactly when it is sovereign, finite expiries, a version that is a natural number, counts and
  handles and inputs within the protocol's limits; and it can be passed on, since encoding it again and parsing that
  gives the same request.\<close>

theorem parsed_request_is_well_formed:
  assumes "parseRequest body = Some q"
  shows "request_sendable q \<and> parseRequest (dag_sorted (encodeRequest q)) = Some q"
proof -
  have count: "0 \<le> n \<and> n \<le> MAX_REPORTED_COUNT" if "asReportedCount v = Some n" for v n
    using that by (auto simp: asReportedCount_def bind_eq_Some_conv dest: asIndex_Some split: if_splits)
  have "0 \<le> MAX_REPORTED_COUNT" by (simp add: MAX_REPORTED_COUNT_def)
  obtain r where r: "as_record body = Some r" using assms by (auto simp: parseRequest_def bind_eq_Some_conv)
  have "request_sendable q"
  proof (cases "map_get r ''kind'' = Some (CStr ''exec'') \<or> map_get r ''kind'' = Some (CStr ''commit'')")
    case True
    with assms r show ?thesis
      by (elim disjE) (simp add: parseRequest_def bind_eq_Some_conv, fastforce dest: parseTaskFrame_sendable)+
  next
    case False
    with assms r show ?thesis
      by (auto simp: parseRequest_def bind_eq_Some_conv Let_def parseEnrollmentRequest_def \<open>0 \<le> MAX_REPORTED_COUNT\<close>
          split: if_splits option.splits cvalue.splits dest: those_length count)
  qed
  with request_parsed show ?thesis by blast
qed

section \<open>The key commitment does not travel\<close>

text \<open>C23: A certificate that names its next key stops verifying when it crosses the wire: the commitment is inside the
  issuer's signature and the encoding leaves it out, so the certificate that verifies where it was issued is
  refused for its signature by every node that receives it, through an attestation, a records reply, an enrolment
  reply or its own disk.\<close>

theorem committed_certificate_fails_on_arrival:
  assumes "codec_law codec decode" "\<And>m m' k. verify (sign m k) m' (pub k) = Some (m = m')"
    and "certificatePayload codec c = Inr m" "certificatePayload codec (c\<lparr>c_nextKeyCommitment := None\<rparr>) = Inr m'"
    and "c_issuer c = toHex (pub sk)" "c_signature c = toHex (sign m sk)" "c_nextKeyCommitment c = Some commitment" "c_x509 c = None"
    and "c_issuer c \<in> set trusted" "c_issuedAt c \<le> now" "now < c_expiresAt c"
  shows "verifyCertificate codec verify x c trusted now = Certificate_ok c \<and>
    parseCertificate (Some (dag_sorted (certificateToValue c))) = Some (c\<lparr>c_nextKeyCommitment := None\<rparr>) \<and>
    verifyCertificate codec verify x (c\<lparr>c_nextKeyCommitment := None\<rparr>) trusted now =
      Certificate_refused (Bad_certificate_signature (c_nodeKey c))"
proof -
  have "m \<noteq> m'"
  proof
    assume eq: "m = m'"
    obtain es fs where v: "certificate_value c = CObj es" "certificate_value (c\<lparr>c_nextKeyCommitment := None\<rparr>) = CObj fs"
      "map_ok es" "map_ok fs" "map_get es ''nextKeyCommitment'' = Some (CStr commitment)" "map_get fs ''nextKeyCommitment'' = None"
      using assms(7,8) by (simp add: certificate_value_def)
    have "encodeCanonical codec (CObj es) = Inr m" "encodeCanonical codec (CObj fs) = Inr m"
      using assms(3,4) v(1,2) eq by (simp_all add: certificatePayload_def)
    from same_bytes_same_fields [OF assms(1) this v(3,4), of "''nextKeyCommitment''"] v(5,6) show False by simp
  qed
  then show ?thesis using assms by (simp add: verifyCertificate_def checkX509Form_def checks_def)
qed

section \<open>Demonstrations\<close>

lemma one_value_law: "codec_law (one_value_codec v) (\<lambda>b. Some (dag_sorted v))"
  by (auto simp: codec_law_def one_value_codec_def split: if_splits)

lemma one_value_encodes: "all_finite v \<Longrightarrow> encodeCanonical (one_value_codec v) v = Inr [0]"
  by (simp add: encodeCanonical_Inr one_value_codec_def)

definition demo_owned_task :: task where
  "demo_owned_task = \<lparr>tk_moduleCid = ''m'', tk_inputCid = ''i'', tk_partitionIndex = 1, tk_partitionCount = 3, tk_label = Some Sovereign,
     tk_ownerId = Some ''ann'', tk_moduleRecord = None\<rparr>"


theorem parsed_request_is_well_formed_witness:
  "request_sendable (Combine_request ''c'' [''x'', ''y''] 2)"
proof -
  have "parseRequest (CObj [(''kind'', CStr ''combine''), (''combineId'', CStr ''c''), (''inputCids'', CList [CCid ''x'', CCid ''y'']),
      (''level'', CNum (Fin 2))]) = Some (Combine_request ''c'' [''x'', ''y''] 2)"
    by code_simp
  from parsed_request_is_well_formed [OF this] show ?thesis by (rule conjunct1)
qed

theorem response_round_trip_witness:
  "parseResponse (dag_sorted (encodeResponse (Offer_response True ''yes'' (Some \<lparr>cap_slots = 2, cap_inFlight = 1\<rparr>) Declining_this_offer))) =
     Some (Parsed (Offer_response True ''yes'' (Some \<lparr>cap_slots = 2, cap_inFlight = 1\<rparr>) Declining_this_offer))"
proof -
  let ?x = "Offer_response True ''yes'' (Some \<lparr>cap_slots = of_nat 2, cap_inFlight = of_nat 1\<rparr>) Declining_this_offer"
  have "response_sendable ?x" unfolding response_sendable.simps by blast
  with response_round_trip [OF one_value_law one_value_encodes, of ?x] show ?thesis by simp
qed

definition demo_committed_cert :: node_certificate where
  "demo_committed_cert = demo_result_cert\<lparr>c_nextKeyCommitment := Some ''aa''\<rparr>"

definition demo_cert_codec :: codec where
  "demo_cert_codec v = (if v = certificate_value demo_committed_cert then Some [0]
     else if v = certificate_value demo_result_cert then Some [1] else None)"

theorem committed_certificate_fails_on_arrival_witness:
  "verifyCertificate demo_cert_codec (\<lambda>s m k. Some (s = m)) demo_x509 demo_result_cert [toHex [9]] 7 =
     Certificate_refused (Bad_certificate_signature (toHex [5]))"
proof -
  have ne: "certificate_value demo_committed_cert \<noteq> certificate_value demo_result_cert"
    by (simp add: certificate_value_def demo_committed_cert_def demo_result_cert_def)
  have law: "codec_law demo_cert_codec (\<lambda>b. Some (dag_sorted (if b = [0] then certificate_value demo_committed_cert
      else certificate_value demo_result_cert)))"
    by (auto simp: codec_law_def demo_cert_codec_def simp del: dag_sorted.simps split: if_splits)
  have d: "demo_committed_cert\<lparr>c_nextKeyCommitment := None\<rparr> = demo_result_cert"
    by (simp add: demo_committed_cert_def demo_result_cert_def del: toHex.simps)
  have p: "certificatePayload demo_cert_codec demo_committed_cert = Inr [0]"
    "certificatePayload demo_cert_codec (demo_committed_cert\<lparr>c_nextKeyCommitment := None\<rparr>) = Inr [1]"
    unfolding d using ne
    by (simp_all add: certificatePayload_def encodeCanonical_Inr demo_cert_codec_def)
      (simp_all add: certificate_value_def demo_committed_cert_def demo_result_cert_def list_all_iff)
  have f: "c_issuer demo_committed_cert = toHex (id [9])" "c_signature demo_committed_cert = toHex ((\<lambda>m k. m) [0] [9 :: 8 word])"
    "c_nextKeyCommitment demo_committed_cert = Some ''aa''" "c_x509 demo_committed_cert = None"
    "c_issuer demo_committed_cert \<in> set [toHex [9]]" "c_issuedAt demo_committed_cert \<le> 7" "7 < c_expiresAt demo_committed_cert"
    "c_nodeKey demo_committed_cert = toHex [5]"
    by (simp_all add: demo_committed_cert_def demo_result_cert_def del: toHex.simps)
  from committed_certificate_fails_on_arrival [where verify = "\<lambda>s m k. Some (s = m)" and sign = "\<lambda>m k. m" and pub = id, OF law _ p f(1-7)]
  show ?thesis unfolding d f(8) by simp
qed

end
