(* ===== verification/Throttle.thy ===== *)
theory Throttle
  imports Governor
begin

text \<open>
  What paces a node's executor: \<open>packages/net/src/governed-executor.ts\<close> and
  \<open>packages/net/src/counting-executor.ts\<close>.

  \<open>execute\<close> of \<open>GovernedExecutor\<close> suspends three times: on the gate of the call before it, on the
  governor's slice and on the executor inside, so a call is a token that passes through the phases of
  \<open>throttle_step\<close>.  A gate is a promise: it is named by a number, and it has settled once its number is
  in \<open>gx_released\<close>.  \<open>throttle\<close> is the pair of wrappers as a node stacks them, the governed one outside,
  with the calls in each phase; \<open>th_started\<close> and \<open>th_straights\<close> record what has run.
\<close>

section \<open>The two wrappers\<close>

record counting_executor =
  ce_inFlight :: int
  ce_peak :: int

definition new_counting :: counting_executor where
  "new_counting = \<lparr>ce_inFlight = 0, ce_peak = 0\<rparr>"

definition count_begin :: "counting_executor \<Rightarrow> counting_executor" where
  "count_begin c =
     (let n = ce_inFlight c + 1
      in \<lparr>ce_inFlight = n, ce_peak = (if n > ce_peak c then n else ce_peak c)\<rparr>)"

definition count_end :: "counting_executor \<Rightarrow> counting_executor" where
  "count_end c = c\<lparr>ce_inFlight := ce_inFlight c - 1\<rparr>"

record governed_executor =
  gx_tail :: "nat option"
  gx_executed :: nat
  gx_gates :: nat
  gx_released :: "nat list"

definition new_governed :: governed_executor where
  "new_governed = \<lparr>gx_tail = None, gx_executed = 0, gx_gates = 0, gx_released = []\<rparr>"

text \<open>A call at a duty cycle of one runs at once; any other hangs its own gate behind the tail.\<close>

datatype governed_call = Straight | Queued nat "nat option"

definition governed_begin :: "rat \<Rightarrow> governed_executor \<Rightarrow> governed_call \<times> governed_executor" where
  "governed_begin duty g =
     (if duty \<ge> 1 then (Straight, g\<lparr>gx_executed := gx_executed g + 1\<rparr>)
      else (Queued (gx_gates g) (gx_tail g), g\<lparr>gx_gates := gx_gates g + 1, gx_tail := Some (gx_gates g)\<rparr>))"

definition gate_settled :: "nat option \<Rightarrow> governed_executor \<Rightarrow> bool" where
  "gate_settled previous g = (case previous of None \<Rightarrow> True | Some p \<Rightarrow> p \<in> set (gx_released g))"

definition governed_run :: "governed_executor \<Rightarrow> governed_executor" where
  "governed_run g = g\<lparr>gx_executed := gx_executed g + 1\<rparr>"

definition release_gate :: "nat \<Rightarrow> governed_executor \<Rightarrow> governed_executor" where
  "release_gate gate g = g\<lparr>gx_released := gx_released g @ [gate]\<rparr>"

section \<open>Any interleaving of calls\<close>

record throttle =
  th_governed :: governed_executor
  th_counting :: counting_executor
  th_waiting :: "(nat \<times> nat option) list"
  th_slicing :: "nat list"
  th_running :: "nat list"
  th_straight :: nat
  th_started :: "nat list"
  th_straights :: nat

definition new_throttle :: throttle where
  "new_throttle = \<lparr>th_governed = new_governed, th_counting = new_counting, th_waiting = [], th_slicing = [],
     th_running = [], th_straight = 0, th_started = [], th_straights = 0\<rparr>"

inductive throttle_step :: "throttle \<Rightarrow> throttle \<Rightarrow> bool" where
  Call_straight: "governed_begin duty (th_governed s) = (Straight, g) \<Longrightarrow>
    throttle_step s (s\<lparr>th_governed := g, th_counting := count_begin (th_counting s), th_straight := th_straight s + 1,
      th_straights := th_straights s + 1\<rparr>)"
| Call_queued: "governed_begin duty (th_governed s) = (Queued gate previous, g) \<Longrightarrow>
    throttle_step s (s\<lparr>th_governed := g, th_waiting := th_waiting s @ [(gate, previous)]\<rparr>)"
| Gate_opens: "(gate, previous) \<in> set (th_waiting s) \<Longrightarrow> gate_settled previous (th_governed s) \<Longrightarrow>
    throttle_step s (s\<lparr>th_waiting := filter (\<lambda>w. fst w \<noteq> gate) (th_waiting s), th_slicing := th_slicing s @ [gate]\<rparr>)"
| Slice_over: "gate \<in> set (th_slicing s) \<Longrightarrow>
    throttle_step s (s\<lparr>th_governed := governed_run (th_governed s), th_counting := count_begin (th_counting s),
      th_slicing := remove1 gate (th_slicing s), th_running := th_running s @ [gate], th_started := th_started s @ [gate]\<rparr>)"
| Slice_threw: "gate \<in> set (th_slicing s) \<Longrightarrow>
    throttle_step s (s\<lparr>th_governed := release_gate gate (th_governed s), th_slicing := remove1 gate (th_slicing s)\<rparr>)"
| Settled: "gate \<in> set (th_running s) \<Longrightarrow>
    throttle_step s (s\<lparr>th_governed := release_gate gate (th_governed s), th_counting := count_end (th_counting s),
      th_running := remove1 gate (th_running s)\<rparr>)"
| Straight_settled: "th_straight s > 0 \<Longrightarrow>
    throttle_step s (s\<lparr>th_counting := count_end (th_counting s), th_straight := th_straight s - 1\<rparr>)"

inductive throttle_reached :: "throttle \<Rightarrow> bool" where
  reached_new [intro]: "throttle_reached new_throttle"
| reached_step [intro]: "throttle_reached s \<Longrightarrow> throttle_step s s' \<Longrightarrow> throttle_reached s'"

section \<open>Turns\<close>

definition gate_before :: "nat \<Rightarrow> nat option" where
  "gate_before n = (if n = 0 then None else Some (n - 1))"

text \<open>The gates are released in order; at most the one after them is in use; the rest wait, in order.\<close>

definition turns_ok :: "throttle \<Rightarrow> bool" where
  "turns_ok s \<longleftrightarrow>
     (let g = th_governed s; k = length (gx_released g); busy = th_slicing s @ th_running s
      in gx_released g = [0..<k] \<and> (busy = [] \<or> busy = [k]) \<and> k + length busy \<le> gx_gates g \<and>
         th_waiting s = map (\<lambda>n. (n, gate_before n)) [k + length busy..<gx_gates g] \<and>
         gx_tail g = gate_before (gx_gates g))"

definition counts_ok :: "throttle \<Rightarrow> bool" where
  "counts_ok s \<longleftrightarrow>
     ce_inFlight (th_counting s) = int (length (th_running s) + th_straight s) \<and>
     ce_inFlight (th_counting s) \<le> ce_peak (th_counting s) \<and> th_straight s \<le> th_straights s \<and>
     ce_peak (th_counting s) \<le> 1 + int (th_straights s) \<and>
     gx_executed (th_governed s) = length (th_started s) + th_straights s"

definition order_ok :: "throttle \<Rightarrow> bool" where
  "order_ok s \<longleftrightarrow>
     sorted_wrt (<) (th_started s) \<and>
     (\<forall>n\<in>set (th_started s). n < length (gx_released (th_governed s)) \<or> n \<in> set (th_running s))"

lemma turns_busy: "turns_ok s \<Longrightarrow> length (th_slicing s) + length (th_running s) \<le> 1"
  by (auto simp: turns_ok_def Let_def append_eq_Cons_conv)

lemma turns_slicing:
  assumes "turns_ok s" "gate \<in> set (th_slicing s)"
  shows "th_slicing s = [gate]" "th_running s = []" "gate = length (gx_released (th_governed s))"
  using assms by (auto simp: turns_ok_def Let_def append_eq_Cons_conv)

lemma turns_running:
  assumes "turns_ok s" "gate \<in> set (th_running s)"
  shows "th_running s = [gate]" "th_slicing s = []" "gate = length (gx_released (th_governed s))"
  using assms by (auto simp: turns_ok_def Let_def append_eq_Cons_conv)

text \<open>Only the first of the waiting calls can find its gate open, and only when none is in use.\<close>

lemma turns_opening:
  assumes "turns_ok s" "(gate, previous) \<in> set (th_waiting s)" "gate_settled previous (th_governed s)"
  shows "th_slicing s = []" "th_running s = []" "gate = length (gx_released (th_governed s))"
proof -
  let ?k = "length (gx_released (th_governed s))"
  let ?busy = "th_slicing s @ th_running s"
  from assms(1,2) have p: "previous = gate_before gate" and ge: "?k + length ?busy \<le> gate"
    and released: "set (gx_released (th_governed s)) = {..<?k}"
    by (auto simp: turns_ok_def Let_def atLeast0LessThan dest: arg_cong [of _ _ set])
  have "gate \<le> ?k"
    using assms(3) released by (auto simp: p gate_settled_def gate_before_def split: if_splits)
  with ge have "length ?busy = 0" "gate = ?k" by linarith+
  then show "gate = ?k" "th_slicing s = []" "th_running s = []" by simp_all
qed

lemma upt_gates: "k < n \<Longrightarrow> map (\<lambda>n. (n, gate_before n)) [k..<n] = (k, gate_before k) # map (\<lambda>n. (n, gate_before n)) [Suc k..<n]"
  by (simp add: upt_conv_Cons)

lemma drop_first_gate: "filter (\<lambda>w. fst w \<noteq> k) (map (\<lambda>n. (n, gate_before n)) [k..<n]) = map (\<lambda>n. (n, gate_before n)) [Suc k..<n]"
proof (cases "k < n")
  case True
  have "filter (\<lambda>w. fst w \<noteq> k) (map (\<lambda>n. (n, gate_before n)) [Suc k..<n]) = map (\<lambda>n. (n, gate_before n)) [Suc k..<n]"
    by (rule filter_True) auto
  with True show ?thesis by (simp add: upt_gates)
qed simp

lemma turns_ok_new: "turns_ok new_throttle" "counts_ok new_throttle" "order_ok new_throttle"
  by (simp_all add: turns_ok_def counts_ok_def order_ok_def new_throttle_def new_governed_def new_counting_def gate_before_def)

lemma turns_ok_step:
  assumes "throttle_step s s'" "turns_ok s"
  shows "turns_ok s'"
  using assms
proof (cases rule: throttle_step.cases)
  case (Call_straight duty g)
  then have "g = (th_governed s)\<lparr>gx_executed := gx_executed (th_governed s) + 1\<rparr>"
    by (simp add: governed_begin_def split: if_splits)
  with Call_straight assms(2) show ?thesis by (simp add: turns_ok_def Let_def)
next
  case (Call_queued duty gate previous g)
  then have "g = (th_governed s)\<lparr>gx_gates := gx_gates (th_governed s) + 1, gx_tail := Some (gx_gates (th_governed s))\<rparr>"
    "gate = gx_gates (th_governed s)" "previous = gx_tail (th_governed s)"
    by (auto simp: governed_begin_def split: if_splits)
  with Call_queued(1) assms(2) show ?thesis
    by (auto simp: turns_ok_def Let_def gate_before_def)
next
  case (Gate_opens gate previous)
  note first = turns_opening [OF assms(2) Gate_opens(2,3)]
  from assms(2) first Gate_opens(2) have "gate < gx_gates (th_governed s)"
    "th_waiting s = map (\<lambda>n. (n, gate_before n)) [gate..<gx_gates (th_governed s)]"
    by (auto simp: turns_ok_def Let_def)
  with assms(2) first Gate_opens(1) show ?thesis
    by (simp add: turns_ok_def Let_def drop_first_gate)
next
  case (Slice_over gate)
  with turns_slicing [OF assms(2) Slice_over(2)] assms(2) show ?thesis
    by (simp add: turns_ok_def Let_def governed_run_def)
next
  case (Slice_threw gate)
  with turns_slicing [OF assms(2) Slice_threw(2)] assms(2) show ?thesis
    by (simp add: turns_ok_def Let_def release_gate_def)
next
  case (Settled gate)
  with turns_running [OF assms(2) Settled(2)] assms(2) show ?thesis
    by (simp add: turns_ok_def Let_def release_gate_def)
next
  case Straight_settled
  with assms(2) show ?thesis by (simp add: turns_ok_def Let_def)
qed

lemma counts_ok_step:
  assumes "throttle_step s s'" "turns_ok s" "counts_ok s"
  shows "counts_ok s'"
  using assms(1)
proof (cases rule: throttle_step.cases)
  case (Slice_over gate)
  with turns_slicing [OF assms(2) Slice_over(2)] assms(3) show ?thesis
    by (auto simp: counts_ok_def governed_run_def count_begin_def Let_def)
next
  case (Settled gate)
  with turns_running [OF assms(2) Settled(2)] assms(3) show ?thesis
    by (simp add: counts_ok_def release_gate_def count_end_def)
qed (use assms(2,3) turns_busy [OF assms(2)] in \<open>auto simp: counts_ok_def governed_begin_def count_begin_def count_end_def
      release_gate_def Let_def split: if_splits\<close>)

lemma order_ok_step:
  assumes "throttle_step s s'" "turns_ok s" "order_ok s"
  shows "order_ok s'"
  using assms(1)
proof (cases rule: throttle_step.cases)
  case (Slice_over gate)
  with turns_slicing [OF assms(2) Slice_over(2)] assms(3) show ?thesis
    by (auto simp: order_ok_def governed_run_def sorted_wrt_append)
next
  case (Slice_threw gate)
  with assms(3) show ?thesis by (auto simp: order_ok_def release_gate_def)
next
  case (Settled gate)
  with turns_running [OF assms(2) Settled(2)] assms(3) show ?thesis
    by (auto simp: order_ok_def release_gate_def)
qed (use assms(3) in \<open>auto simp: order_ok_def governed_begin_def split: if_splits\<close>)

lemma reached_ok: "throttle_reached s \<Longrightarrow> turns_ok s \<and> counts_ok s \<and> order_ok s"
  by (induction rule: throttle_reached.induct) (auto intro: turns_ok_new turns_ok_step counts_ok_step order_ok_step)

text \<open>C24: A throttled node runs its tasks one at a time and in the order they arrived, whatever the interleaving and
  whatever the governor does in between: below full duty at most one call is past its gate, the calls start in
  the order they came, and while one waits and none is past its gate the first of them can go on.  The count of
  calls in flight is exact, and its peak exceeds one only by calls that came in at full duty.\<close>

theorem throttled_calls_take_turns:
  assumes "throttle_reached s"
  shows "length (th_slicing s) + length (th_running s) \<le> 1 \<and> sorted_wrt (<) (th_started s) \<and>
    ce_inFlight (th_counting s) = int (length (th_running s) + th_straight s) \<and>
    ce_inFlight (th_counting s) \<le> ce_peak (th_counting s) \<and> ce_peak (th_counting s) \<le> 1 + int (th_straights s) \<and>
    gx_executed (th_governed s) = length (th_started s) + th_straights s \<and>
    (th_waiting s = [] \<or> th_slicing s @ th_running s \<noteq> [] \<or>
     (gate_settled (snd (th_waiting s ! 0)) (th_governed s) \<and>
      throttle_step s (s\<lparr>th_waiting := filter (\<lambda>w. fst w \<noteq> fst (th_waiting s ! 0)) (th_waiting s),
        th_slicing := th_slicing s @ [fst (th_waiting s ! 0)]\<rparr>)))"
proof -
  from reached_ok [OF assms] have ok: "turns_ok s" "counts_ok s" "order_ok s" by auto
  have "gate_settled (snd (th_waiting s ! 0)) (th_governed s)"
    if "th_waiting s \<noteq> []" "th_slicing s @ th_running s = []"
  proof -
    obtain k where "k = length (gx_released (th_governed s))" by simp
    with that ok(1) have "th_waiting s ! 0 = (k, gate_before k)" "gx_released (th_governed s) = [0..<k]"
      by (auto simp: turns_ok_def Let_def)
    then show ?thesis by (simp add: gate_settled_def gate_before_def)
  qed
  moreover have "throttle_step s (s\<lparr>th_waiting := filter (\<lambda>w. fst w \<noteq> fst (th_waiting s ! 0)) (th_waiting s),
        th_slicing := th_slicing s @ [fst (th_waiting s ! 0)]\<rparr>)"
    if "th_waiting s \<noteq> []" "gate_settled (snd (th_waiting s ! 0)) (th_governed s)"
    by (rule Gate_opens [of _ "snd (th_waiting s ! 0)"]) (use that nth_mem [of 0 "th_waiting s"] in simp_all)
  ultimately have "th_waiting s = [] \<or> th_slicing s @ th_running s \<noteq> [] \<or>
     (gate_settled (snd (th_waiting s ! 0)) (th_governed s) \<and>
      throttle_step s (s\<lparr>th_waiting := filter (\<lambda>w. fst w \<noteq> fst (th_waiting s ! 0)) (th_waiting s),
        th_slicing := th_slicing s @ [fst (th_waiting s ! 0)]\<rparr>))" by blast
  with turns_busy [OF ok(1)] ok(2,3) show ?thesis unfolding counts_ok_def order_ok_def by blast
qed

definition demo_throttled :: throttle where
  "demo_throttled = \<lparr>th_governed = \<lparr>gx_tail = Some 1, gx_executed = 0, gx_gates = 2, gx_released = []\<rparr>, th_counting = new_counting,
     th_waiting = [(1, Some 0)], th_slicing = [0], th_running = [], th_straight = 0, th_started = [], th_straights = 0\<rparr>"

lemma demo_throttled_reached: "throttle_reached demo_throttled"
proof -
  let ?g1 = "\<lparr>gx_tail = Some 0, gx_executed = 0, gx_gates = 1, gx_released = []\<rparr>"
  let ?s1 = "new_throttle\<lparr>th_governed := ?g1, th_waiting := [(0, None)]\<rparr>"
  let ?s2 = "?s1\<lparr>th_governed := ?g1\<lparr>gx_tail := Some 1, gx_gates := 2\<rparr>, th_waiting := [(0, None), (1, Some 0)]\<rparr>"
  have "throttle_step new_throttle ?s1"
    using Call_queued [of "1/2" new_throttle 0 None ?g1] by (simp add: governed_begin_def new_throttle_def new_governed_def)
  moreover have "throttle_step ?s1 ?s2"
    using Call_queued [of "1/2" ?s1 1 "Some 0" "?g1\<lparr>gx_tail := Some 1, gx_gates := 2\<rparr>"] by (simp add: governed_begin_def)
  moreover have "throttle_step ?s2 demo_throttled"
    using Gate_opens [of 0 None ?s2] by (simp add: gate_settled_def demo_throttled_def new_throttle_def)
  ultimately show ?thesis by blast
qed

theorem throttled_calls_take_turns_witness:
  "length (th_slicing demo_throttled) + length (th_running demo_throttled) \<le> 1 \<and> th_waiting demo_throttled \<noteq> []"
  using throttled_calls_take_turns [OF demo_throttled_reached] by (simp add: demo_throttled_def)

end
