(* ===== verification/Guards.thy ===== *)
theory Guards
  imports Verify
begin

text \<open>
  What stands around a node's executor: \<open>packages/core/src/executor/sovereignty-guard.ts\<close>,
  \<open>network-reach-guard.ts\<close>, \<open>module-provenance.ts\<close> and \<open>attesting-executor.ts\<close>, the authoriser
  \<open>packages/net/src/capability-authorizer.ts\<close>, and the wording of the refusals they give.

  An executor works on a world \<open>'s\<close> that a guard either leaves alone or hands to the executor inside, so a
  task that is refused before the executor runs is one that leaves the world unchanged.  The provenance guard keeps
  its resolver beside it.  \<open>texts\<close> is the engine's printing of numbers and of encoding errors.
\<close>

section \<open>Wording\<close>

record texts =
  tx_num :: "jsnum \<Rightarrow> string"
  tx_error :: "encode_error \<Rightarrow> string"

text \<open>The dash the messages use, as UTF-8.\<close>

definition dash :: string where
  "dash = [CHR '' '', CHR 0xE2, CHR 0x80, CHR 0x94, CHR '' '']"

definition quoted :: "string \<Rightarrow> string" where
  "quoted s = CHR 0x22 # s @ [CHR 0x22]"

definition or_unspecified :: "string option \<Rightarrow> string" where
  "or_unspecified owner = (case owner of None \<Rightarrow> ''(unspecified)'' | Some u \<Rightarrow> u)"

fun describeResolveFailure :: "texts \<Rightarrow> resolve_failure \<Rightarrow> string" where
  "describeResolveFailure tx (Unknown_name name) =
     ''no signed mapping for '' @ quoted name @ dash @ ''a bare CID is not executable''"
| "describeResolveFailure tx (Untrusted_signer name signer) =
     quoted name @ '' is signed by '' @ signer @ '', which is not a pinned trust anchor''"
| "describeResolveFailure tx (Bad_name_signature name signer) = quoted name @ '' has an invalid signature for '' @ signer"
| "describeResolveFailure tx (Name_expired name expiresAt now) =
     quoted name @ '' expired at '' @ tx_num tx expiresAt @ '', now '' @ tx_num tx (Fin now)"
| "describeResolveFailure tx (Name_rollback name have offered) =
     quoted name @ '' offered version '' @ tx_num tx offered @ '', but '' @ tx_num tx have @ '' is already known''"
| "describeResolveFailure tx (Authority_changed name have offered) =
     quoted name @ '' is already held under '' @ have @ '' and was offered under '' @ offered @ dash @
     ''two pinned anchors disagree, and this resolver refuses rather than picking one''"
| "describeResolveFailure tx (Untrusted_root name anchor) =
     quoted name @ '' is signed under a delegation from '' @ anchor @ '', which is not a pinned trust anchor''"
| "describeResolveFailure tx (Delegation_mismatch name signer delegate) =
     quoted name @ '' is signed by '' @ signer @ '' but carries a delegation to '' @ delegate @ dash @
     ''a delegation authorises one key and not the bearer''"
| "describeResolveFailure tx (Bad_delegation_signature name anchor delegate) =
     quoted name @ '' carries a delegation of '' @ delegate @ '' that '' @ anchor @ '' did not sign''"
| "describeResolveFailure tx (Delegation_expired name expiresAt now) =
     quoted name @ '' is signed under a delegation that lapsed at '' @ tx_num tx expiresAt @ '', now '' @ tx_num tx (Fin now)"
| "describeResolveFailure tx (Delegation_outlived name recordExpiresAt delegationExpiresAt) =
     quoted name @ '' expires at '' @ tx_num tx recordExpiresAt @ '', outliving the delegation that authorised it, which lapses at '' @
     tx_num tx delegationExpiresAt"

fun describeFailure :: "texts \<Rightarrow> chain_failure \<Rightarrow> string" where
  "describeFailure tx Empty_chain = ''no capability chain supplied''"
| "describeFailure tx (Wrong_root expected found) =
     ''link 0 is issued by '' @ found @ '', but the data owner'' @ [CHR 0x27] @ ''s key is '' @ expected"
| "describeFailure tx (Broken_link i expected found) =
     ''link '' @ nat_text i @ '' is issued by '' @ found @ '', but link '' @ nat_text (i - 1) @ '' delegated to '' @ expected"
| "describeFailure tx (Bad_chain_signature i issuer) =
     ''link '' @ nat_text i @ '' has an invalid signature for issuer '' @ issuer"
| "describeFailure tx (Link_expired i expiresAt now) =
     ''link '' @ nat_text i @ '' expired at '' @ tx_num tx expiresAt @ '', now '' @ tx_num tx (Fin now)"
| "describeFailure tx (Owner_mismatch i expected found) =
     ''link '' @ nat_text i @ '' is scoped to owner '' @ found @ '', not '' @ expected"
| "describeFailure tx (Missing_ability i a) =
     ''link '' @ nat_text i @ '' does not carry the '' @ quoted (ability_text a) @ '' ability''"
| "describeFailure tx (Not_delegable i) =
     ''link '' @ nat_text i @ '' was re-delegated, but its issuer was never granted '' @ quoted ''delegate''"
| "describeFailure tx (Wrong_audience expected found) =
     ''chain ends at '' @ found @ '', but this node is '' @ expected"
| "describeFailure tx (Too_deep depth limit) =
     ''chain carries '' @ nat_text depth @ '' links, more than the '' @ nat_text limit @ '' allowed''"

section \<open>Executors and their guards\<close>

record 's port =
  po_nodeId :: string
  po_execute :: "task \<Rightarrow> 's \<Rightarrow> execution_outcome settled \<times> 's"

abbreviation refused_with :: "string \<Rightarrow> execution_outcome settled" where
  "refused_with reason \<equiv> Returned (Execution_failed reason)"

record node_sovereignty =
  ns_ownerId :: string
  ns_canExecuteSovereign :: bool
  ns_ownerKey :: "string option"

definition guardSovereignty :: "'s port \<Rightarrow> node_sovereignty \<Rightarrow> 's port" where
  "guardSovereignty inner node =
     \<lparr>po_nodeId = po_nodeId inner,
      po_execute = (\<lambda>t s.
        if tk_label t = Some Sovereign \<and> \<not> (tk_ownerId t = Some (ns_ownerId node) \<and> ns_canExecuteSovereign node)
        then (refused_with (''sovereignty violation: node '' @ po_nodeId inner @
                '' is not cleared to execute sovereign data for owner '' @ or_unspecified (tk_ownerId t)), s)
        else po_execute inner t s)\<rparr>"

datatype network_reach_refusal = Declared_against_sovereign string

fun describeNetworkReachRefusal :: "network_reach_refusal \<Rightarrow> string" where
  "describeNetworkReachRefusal (Declared_against_sovereign moduleCid) =
     ''module '' @ moduleCid @ '' declares network reach (wantsNetworkReach), and the task is labelled sovereign'' @ dash @
     ''a module that wants the internet cannot run against sovereign data''"

definition wants_reach :: "task \<Rightarrow> bool" where
  "wants_reach t = (case tk_moduleRecord t of None \<Rightarrow> False | Some r \<Rightarrow> n_wantsNetworkReach r)"

definition guardNetworkReach :: "'s port \<Rightarrow> 's port" where
  "guardNetworkReach inner =
     \<lparr>po_nodeId = po_nodeId inner,
      po_execute = (\<lambda>t s.
        if tk_label t = Some Sovereign \<and> wants_reach t
        then (refused_with (''network reach refused on '' @ po_nodeId inner @ '': '' @
                describeNetworkReachRefusal (Declared_against_sovereign (tk_moduleCid t))), s)
        else po_execute inner t s)\<rparr>"


datatype module_refusal =
    No_module_record string
  | Unresolvable resolve_failure string
  | Cid_mismatch string string string

fun describeModuleRefusal :: "module_refusal \<Rightarrow> string" where
  "describeModuleRefusal (No_module_record moduleCid) =
     ''no signed name record arrived for '' @ moduleCid @ dash @ ''a bare CID names bytes, not a publisher''"
| "describeModuleRefusal (Unresolvable failure reason) = reason"
| "describeModuleRefusal (Cid_mismatch name vouched dispatched) =
     ''the signed name record for '' @ quoted name @ '' vouches for '' @ vouched @ '', but the task dispatched '' @ dispatched @ dash @
     ''the record is for a different artifact''"

text \<open>The resolver is the guard's own state, beside the world of the executor inside.\<close>

definition guardModuleProvenance ::
  "codec \<Rightarrow> verifier \<Rightarrow> texts \<Rightarrow> rat \<Rightarrow> 's port \<Rightarrow> (resolver \<times> 's) port" where
  "guardModuleProvenance codec verify tx now inner =
     \<lparr>po_nodeId = po_nodeId inner,
      po_execute = (\<lambda>t (names, s).
        let refusal = (\<lambda>r. refused_with (''module provenance refused on '' @ po_nodeId inner @ '': '' @ describeModuleRefusal r))
        in case tk_moduleRecord t of
             None \<Rightarrow> (refusal (No_module_record (tk_moduleCid t)), (names, s))
           | Some r \<Rightarrow>
               (case accept_name codec verify r now names of
                  (Resolve_threw e, names') \<Rightarrow> (Threw (''name record not encodable: '' @ tx_error tx e), (names', s))
                | (Resolve_refused failure, names') \<Rightarrow>
                    (refusal (Unresolvable failure (describeResolveFailure tx failure)), (names', s))
                | (Resolved vouched, names') \<Rightarrow>
                    if vouched \<noteq> tk_moduleCid t then (refusal (Cid_mismatch (n_name r) vouched (tk_moduleCid t)), (names', s))
                    else (case po_execute inner t s of (out, s') \<Rightarrow> (out, (names', s')))))\<rparr>"

datatype result_attestor = Signs_nothing | Signs result_signer

text \<open>The fields a task's answer is signed over.\<close>

definition work_of :: "task \<Rightarrow> string \<Rightarrow> result_work" where
  "work_of t outputCid =
     \<lparr>w_moduleCid = tk_moduleCid t, w_inputCid = tk_inputCid t, w_partitionIndex = num_of_int (tk_partitionIndex t),
      w_outputCid = outputCid\<rparr>"

definition signing_error_text :: "texts \<Rightarrow> signing_error \<Rightarrow> string" where
  "signing_error_text tx e =
     (case e of
        Wrong_signing_key derived certified \<Rightarrow>
          ''the signing seed'' @ [CHR 0x27] @ ''s public half is '' @ derived @ '', but the certificate names '' @ certified @ dash @
          ''this node cannot sign for a key it does not hold''
      | Challenge_not_encodable err \<Rightarrow> ''result challenge not encodable: '' @ tx_error tx err)"

text \<open>\<open>Inl\<close> is the throw at composition.\<close>

definition attestResults ::
  "codec \<Rightarrow> (bytes \<Rightarrow> string) \<Rightarrow> (bytes \<Rightarrow> bytes \<Rightarrow> bytes) \<Rightarrow> (bytes \<Rightarrow> bytes) \<Rightarrow> texts \<Rightarrow> 's port \<Rightarrow> result_attestor
    \<Rightarrow> signing_error + 's port" where
  "attestResults codec cid_of sign pub tx inner attestor =
     (case attestor of
        Signs_nothing \<Rightarrow> Inr inner
      | Signs signer \<Rightarrow>
          (case signingKeyOf pub signer of
             Inl e \<Rightarrow> Inl e
           | Inr _ \<Rightarrow> Inr
               \<lparr>po_nodeId = po_nodeId inner,
                po_execute = (\<lambda>t s.
                  case po_execute inner t s of
                    (Returned (Executed x), s') \<Rightarrow>
                      (case canonicalCid codec cid_of (xo_output x) of
                         Inl err \<Rightarrow> (refused_with (''output not encodable on '' @ po_nodeId inner @
                                      '', so it cannot be attested: '' @ tx_error tx err), s')
                       | Inr (cid, _) \<Rightarrow>
                           (case signResult codec sign pub signer (work_of t cid) of
                              Inl e \<Rightarrow> (Threw (signing_error_text tx e), s')
                            | Inr a \<Rightarrow> (Returned (Executed (x\<lparr>xo_attestation := Attested a\<rparr>)), s')))
                  | other \<Rightarrow> other)\<rparr>))"

text \<open>A node's executor as \<open>fabric-node.ts\<close> and \<open>browser-node.ts\<close> stack it, pacing aside: clearance outside reach
  outside provenance; \<open>None\<close> is a node that runs unsigned artifacts.\<close>

definition guarded_executor ::
  "codec \<Rightarrow> verifier \<Rightarrow> texts \<Rightarrow> rat \<Rightarrow> node_sovereignty \<Rightarrow> 's port \<Rightarrow> (resolver \<times> 's) port" where
  "guarded_executor codec verify tx now node inner =
     guardSovereignty (guardNetworkReach (guardModuleProvenance codec verify tx now inner)) node"

section \<open>The authoriser\<close>

record authorizer_options =
  ao_ownerId :: string
  ao_ownerKey :: "string option"
  ao_audience :: string

record combine_work =
  cw_combineId :: string
  cw_inputCids :: "string list"
  cw_level :: int

datatype authorized_work = Exec_work task "delegation list" | Combine_work combine_work "delegation list"

text \<open>\<open>Returned None\<close> lets the work through.\<close>

definition authorizeCapability ::
  "codec \<Rightarrow> verifier \<Rightarrow> texts \<Rightarrow> authorizer_options \<Rightarrow> rat \<Rightarrow> authorized_work \<Rightarrow> string option settled" where
  "authorizeCapability codec verify tx opts now work =
     (case work of
        Combine_work _ _ \<Rightarrow> Returned None
      | Exec_work t chain \<Rightarrow>
          if tk_label t \<noteq> Some Sovereign then Returned None
          else case ao_ownerKey opts of
                 None \<Rightarrow> Returned (Some (''no pinned owner key for '' @ or_unspecified (tk_ownerId t) @ '' on this node''))
               | Some ownerKey \<Rightarrow>
                   if tk_ownerId t \<noteq> Some (ao_ownerId opts)
                   then Returned (Some (''task names owner '' @ or_unspecified (tk_ownerId t) @
                          '', but this node is pinned to owner '' @ ao_ownerId opts))
                   else (case verifyChain codec verify chain
                                \<lparr>vo_ownerKey = ownerKey, vo_ownerId = the (tk_ownerId t), vo_audience = ao_audience opts,
                                 vo_ability = Execute, vo_now = now\<rparr> of
                           Chain_ok _ _ \<Rightarrow> Returned None
                         | Chain_refused failure \<Rightarrow> Returned (Some (describeFailure tx failure))
                         | Chain_threw e \<Rightarrow> Threw (''delegation not encodable: '' @ tx_error tx e)))"

section \<open>What reaches the executor\<close>

definition cleared_for :: "node_sovereignty \<Rightarrow> task \<Rightarrow> bool" where
  "cleared_for node t =
     (case tk_label t of
        Some Sovereign \<Rightarrow> tk_ownerId t = Some (ns_ownerId node) \<and> ns_canExecuteSovereign node \<and> \<not> wants_reach t
      | _ \<Rightarrow> True)"

definition vouched_for :: "codec \<Rightarrow> verifier \<Rightarrow> resolver \<Rightarrow> rat \<Rightarrow> task \<Rightarrow> name_record \<Rightarrow> bool" where
  "vouched_for codec verify names now t r \<longleftrightarrow>
     tk_moduleRecord t = Some r \<and> n_cid r = tk_moduleCid t \<and> authentic codec verify (anchors names) r \<and>
     \<not> js_le (n_expiresAt r) now \<and> accept_name codec verify r now names =
       (Resolved (tk_moduleCid t), names\<lparr>records := map_set (n_name r) r (records names)\<rparr>)"

definition turned_away :: "execution_outcome settled \<Rightarrow> bool" where
  "turned_away out = (case out of Returned (Executed _) \<Rightarrow> False | _ \<Rightarrow> True)"

lemma turned_away_simps [simp]:
  "turned_away (refused_with r)" "turned_away (Threw m)" "\<not> turned_away (Returned (Executed x))"
  by (simp_all add: turned_away_def)

lemma provenance_cases:
  obtains out names' where "po_execute (guardModuleProvenance codec verify tx now inner) t (names, s) = (out, (names', s))"
    "turned_away out"
  | r where "vouched_for codec verify names now t r"
    "po_execute (guardModuleProvenance codec verify tx now inner) t (names, s) =
       (fst (po_execute inner t s), (names\<lparr>records := map_set (n_name r) r (records names)\<rparr>, snd (po_execute inner t s)))"
proof (cases "tk_moduleRecord t")
  case None
  with that(1) show ?thesis by (simp add: guardModuleProvenance_def)
next
  case (Some r)
  show ?thesis
  proof (cases rule: accept_cases [of codec verify r now names])
    case (1 f)
    with Some that(1) show ?thesis by (cases f) (simp_all add: guardModuleProvenance_def)
  next
    case 2
    show ?thesis
    proof (cases "n_cid r = tk_moduleCid t")
      case True
      with Some 2 have "vouched_for codec verify names now t r" by (simp add: vouched_for_def)
      with Some 2 True show ?thesis
        by (intro that(2)) (auto simp: guardModuleProvenance_def split: prod.splits)
    next
      case False
      with Some 2 that(1) show ?thesis by (simp add: guardModuleProvenance_def)
    qed
  qed
qed

lemma guarded_not_cleared:
  assumes "\<not> cleared_for node t"
  shows "\<exists>r. po_execute (guarded_executor codec verify tx now node inner) t s = (refused_with r, s)"
  using assms by (auto simp: cleared_for_def guarded_executor_def guardSovereignty_def guardNetworkReach_def
      split: option.splits sovereignty.splits)

lemma guarded_cleared:
  assumes "cleared_for node t"
  shows "po_execute (guarded_executor codec verify tx now node inner) t = po_execute (guardModuleProvenance codec verify tx now inner) t"
  using assms by (auto simp: cleared_for_def guarded_executor_def guardSovereignty_def guardNetworkReach_def fun_eq_iff
      split: option.splits sovereignty.splits)


lemma signResult_names: "signResult codec sign pub signer w = Inr a \<Longrightarrow> ra_certificate a = rs_certificate signer"
  unfolding signResult_def by (auto dest: sign_challenge_Inr)

lemma signed_work_verifies:
  assumes sound: "\<And>m k. verify (sign m k) m (pub k) = Some True"
    and trusted: "verifyCertificate codec verify x (rs_certificate signer) trusted now = Certificate_ok c"
    and a: "signResult codec sign pub signer w = Inr a"
  shows "verifyResultAttestation codec verify x (Attested a) w trusted now = Attestation_ok (rs_certificate signer)"
proof -
  from sign_challenge_Inr [OF a [unfolded signResult_def]] obtain ch where
    "resultChallenge codec w (c_nodeKey (rs_certificate signer)) = Inr ch"
    "a = \<lparr>ra_certificate = rs_certificate signer, ra_signature = toHex (sign ch (rs_nodeSeed signer))\<rparr>"
    "c_nodeKey (rs_certificate signer) = toHex (pub (rs_nodeSeed signer))" by blast
  with trusted sound show ?thesis
    by (simp add: verifyResultAttestation_def checkAttested_def checks_def Let_def del: toHex.simps)
qed

text \<open>Every answer a signing node gives can be checked: if the wrapper could be built at all, an answer it
  gives is the executor's own with the signature replaced, its output has a CID, and whoever trusts the node's certificate
  verifies the signature for that CID as the output of that module on that input.\<close>

theorem signed_answers_verify:
  assumes "attestResults codec cid_of sign pub tx inner (Signs signer) = Inr p"
    and "\<And>m k. verify (sign m k) m (pub k) = Some True"
    and "verifyCertificate codec verify x (rs_certificate signer) trusted now = Certificate_ok c"
    and "po_execute p t s = (Returned (Executed y), s')"
  shows "\<exists>cid b a0. canonicalCid codec cid_of (xo_output y) = Inr (cid, b) \<and>
    po_execute inner t s = (Returned (Executed (y\<lparr>xo_attestation := a0\<rparr>)), s') \<and>
    verifyResultAttestation codec verify x (xo_attestation y) (work_of t cid) trusted now = Attestation_ok (rs_certificate signer)"
proof -
  from assms(1) have p: "po_execute p t s = (case po_execute inner t s of
      (Returned (Executed x), s') \<Rightarrow>
        (case canonicalCid codec cid_of (xo_output x) of
           Inl err \<Rightarrow> (refused_with (''output not encodable on '' @ po_nodeId inner @ '', so it cannot be attested: '' @ tx_error tx err), s')
         | Inr (cid, _) \<Rightarrow> (case signResult codec sign pub signer (work_of t cid) of
              Inl e \<Rightarrow> (Threw (signing_error_text tx e), s')
            | Inr a \<Rightarrow> (Returned (Executed (x\<lparr>xo_attestation := Attested a\<rparr>)), s')))
      | other \<Rightarrow> other)"
    by (auto simp: attestResults_def split: sum.splits)
  with assms(4) obtain x0 cid b a where i: "po_execute inner t s = (Returned (Executed x0), s')"
    and c: "canonicalCid codec cid_of (xo_output x0) = Inr (cid, b)"
    and a: "signResult codec sign pub signer (work_of t cid) = Inr a" and y: "y = x0\<lparr>xo_attestation := Attested a\<rparr>"
    by (auto split: prod.splits settled.splits execution_outcome.splits sum.splits)
  show ?thesis
    by (intro exI [of _ cid] exI [of _ b] exI [of _ "xo_attestation x0"])
      (use i c y signed_work_verifies [OF assms(2,3) a] in simp)
qed

text \<open>C0: Exactly the authorised work is let through: a merge and a task that is not sovereign always, a sovereign task just when
  this node has a pinned owner key, the task names the pinned owner, and its capability chain leads from that key to this node
  with the right to execute.\<close>

theorem authorised_iff_chain_verifies:
  "authorizeCapability codec verify tx opts now work = Returned None \<longleftrightarrow>
     (case work of
        Combine_work _ _ \<Rightarrow> True
      | Exec_work t chain \<Rightarrow> tk_label t \<noteq> Some Sovereign \<or>
          (\<exists>key aud expiry. ao_ownerKey opts = Some key \<and> tk_ownerId t = Some (ao_ownerId opts) \<and>
             verifyChain codec verify chain \<lparr>vo_ownerKey = key, vo_ownerId = ao_ownerId opts, vo_audience = ao_audience opts,
               vo_ability = Execute, vo_now = now\<rparr> = Chain_ok aud expiry))"
  by (cases work) (auto simp: authorizeCapability_def split: option.splits chain_result.splits)

definition demo_flat_codec :: codec where
  "demo_flat_codec v = Some [0]"

definition demo_port :: "nat port" where
  "demo_port = \<lparr>po_nodeId = ''n'', po_execute = (\<lambda>t s. (Returned (Executed (demo_executed True)), s + 1))\<rparr>"

definition demo_signer :: result_signer where
  "demo_signer = \<lparr>rs_nodeSeed = [5], rs_certificate = demo_result_cert\<rparr>"

definition demo_texts :: texts where
  "demo_texts = \<lparr>tx_num = (\<lambda>_. ''0''), tx_error = (\<lambda>_. ''e'')\<rparr>"

lemma demo_flat: "all_finite v \<Longrightarrow> encodeCanonical demo_flat_codec v = Inr [0]"
  by (simp add: encodeCanonical_Inr demo_flat_codec_def)

theorem signed_answers_verify_witness:
  "case attestResults demo_flat_codec (\<lambda>b. ''o'') (\<lambda>m k. m) id demo_texts demo_port (Signs demo_signer) of
     Inl e \<Rightarrow> False
   | Inr p \<Rightarrow> (case po_execute p demo_task 0 of
       (Returned (Executed y), s') \<Rightarrow> s' = 1 \<and>
         verifyResultAttestation demo_flat_codec (\<lambda>s m k. Some (s = m)) \<lparr>x_tbs = (\<lambda>_. []), x_encode = (\<lambda>_ s. s), x_decode = (\<lambda>_. None)\<rparr>
           (xo_attestation y) (work_of demo_task ''o'') [toHex [9]] 7 = Attestation_ok demo_result_cert
     | _ \<Rightarrow> False)"
proof -
  let ?x = "\<lparr>x_tbs = (\<lambda>_. []), x_encode = (\<lambda>_ s. s), x_decode = (\<lambda>_. None)\<rparr> :: x509_codec"
  have k: "signingKeyOf id demo_signer = Inr (toHex [5])"
    by (simp add: signingKeyOf_def demo_signer_def demo_result_cert_def Let_def del: toHex.simps)
  have oc: "canonicalCid demo_flat_codec (\<lambda>b. ''o'') (CBool b) = Inr (''o'', [0])" for b
    by (simp add: canonicalCid_def demo_flat)
  have s: "signResult demo_flat_codec (\<lambda>m k. m) id demo_signer (work_of demo_task ''o'') =
      Inr \<lparr>ra_certificate = demo_result_cert, ra_signature = toHex [0]\<rparr>"
    using k by (simp add: signResult_def sign_challenge_def resultChallenge_def result_value_def work_of_def demo_flat demo_signer_def
        del: toHex.simps)
  have v: "verifyCertificate demo_flat_codec (\<lambda>s m k. Some (s = m)) ?x demo_result_cert [toHex [9]] 7 = Certificate_ok demo_result_cert"
    by (simp add: verifyCertificate_def checkX509Form_def checks_def certificatePayload_def certificate_value_def demo_flat
        demo_result_cert_def list_all_iff del: toHex.simps)
  obtain p where p: "attestResults demo_flat_codec (\<lambda>b. ''o'') (\<lambda>m k. m) id demo_texts demo_port (Signs demo_signer) = Inr p"
    using k by (simp add: attestResults_def)
  then have e: "po_execute p demo_task 0 =
      (Returned (Executed ((demo_executed True)\<lparr>xo_attestation := Attested \<lparr>ra_certificate = demo_result_cert, ra_signature = toHex [0]\<rparr>\<rparr>)), 1)"
    using k s by (auto simp: attestResults_def demo_port_def demo_executed_def oc simp del: toHex.simps)
  show ?thesis
    using signed_answers_verify [OF p _ _ e, of "\<lambda>s m k. Some (s = m)" ?x "[toHex [9]]" 7 demo_result_cert] v p e
    by (auto simp: demo_signer_def demo_executed_def oc)
qed

end
