(* ===== verification/Agent.thy ===== *)
theory Agent
  imports Guards Commit_Store Egress Protocol Combiner Capacity
begin

text \<open>
  The serving side of a node: \<open>packages/net/src/agent.ts\<close> and \<open>packages/net/src/sovereign-egress.ts\<close>.

  \<open>agent_state\<close> is what a node's handler reads and writes; a component the node was built without is \<open>None\<close>
  (the sentinels \<open>accepts-every-offer\<close>, \<open>holds-no-registrations\<close>, \<open>forgets-sovereignty-between-jobs\<close>,
  \<open>keeps-no-ledger\<close>, \<open>issues-no-certificates\<close>).  What the handler asks of the world, the clock, the pause control, the
  block store and the record index, answers through \<open>agent_env\<close>, once per run of the handler.

  A handler that suspends is split where it does.  \<open>begin_work\<close> runs up to the read of a sovereign input,
  \<open>start_work\<close> up to the call of the executor, \<open>finish_work\<close> up to the CID of a committed output and \<open>file_work\<close> to the reply;
  \<open>begin_combine\<close> and \<open>finish_combine\<close> likewise.  \<open>agent_step\<close> interleaves any number of them.  A reply is an \<open>agent_response\<close>,
  encoded by the caller, with the hold that is given back when its frame has been sent.
\<close>

section \<open>State and surroundings\<close>

record 'l agent_state =
  sv_capacity :: "local_capacity option"
  sv_guard :: "egress_guard option"
  sv_sovereignCids :: "string list option"
  sv_pending :: commit_store
  sv_ledger :: "start_ledger option"
  sv_enroll :: "'l authority option"

datatype pause_reading = Never_pauses | Pause_says bool | Pause_misreports string | Pause_threw string

record agent_env =
  en_now :: rat
  en_duty :: rat
  en_pause :: pause_reading
  en_random :: "nat \<Rightarrow> bytes"
  en_block :: "bytes option settled"
  en_providers :: "string list settled"
  en_records :: "node_records option settled"
  en_reservations :: "string list settled"

record 'l agent_config =
  sc_nodeId :: string
  sc_codec :: codec
  sc_decode :: decoder
  sc_cid_of :: "bytes \<Rightarrow> string"
  sc_cid_bytes :: "string \<Rightarrow> bytes"
  sc_sha256 :: "bytes \<Rightarrow> bytes"
  sc_sign :: "bytes \<Rightarrow> bytes \<Rightarrow> bytes"
  sc_pub :: "bytes \<Rightarrow> bytes"
  sc_verify :: verifier
  sc_x509 :: x509_codec
  sc_ledger_ops :: "'l ledger_ops"
  sc_texts :: texts
  sc_authorize :: "(rat \<Rightarrow> authorized_work \<Rightarrow> string option settled) option"
  sc_attest :: result_attestor

section \<open>Wording\<close>

definition capacity_reason_text :: "texts \<Rightarrow> capacity_reason \<Rightarrow> string" where
  "capacity_reason_text tx r =
     (case r of
        Already_in_flight shardId \<Rightarrow> shardId @ '' is already in flight here''
      | Over_committed used n throttled \<Rightarrow>
          ''over-committed: '' @ nat_text used @ '' of '' @ nat_text n @ '' slots in use'' @
          (case throttled of None \<Rightarrow> [] | Some duty \<Rightarrow> '' at duty cycle '' @ tx_num tx (Fin duty)))"

definition reserve_text :: "nat \<Rightarrow> nat \<Rightarrow> string \<Rightarrow> string" where
  "reserve_text used limit nodeId =
     ''commit refused: '' @ nat_text used @ '' of '' @ nat_text limit @ '' commitments already pending on '' @ nodeId"

definition take_text :: "take_outcome \<Rightarrow> string" where
  "take_text out =
     (case out of
        No_such_commitment nodeId \<Rightarrow> ''no commitment pending under that name on '' @ nodeId
      | Made_to_another_peer nodeId \<Rightarrow> ''that commitment was made to another peer on '' @ nodeId
      | Taken _ \<Rightarrow> [])"

definition pausedRefusal :: "string \<Rightarrow> string" where
  "pausedRefusal nodeId = ''paused: '' @ nodeId @ '' is declining all work right now''"

definition pauseMisreported :: "string \<Rightarrow> string \<Rightarrow> string" where
  "pauseMisreported nodeId described =
     ''pause control broken: '' @ nodeId @ [CHR 0x27] @ ''s pause control answered '' @ described @
     '' rather than true or false, so this node cannot say whether it is paused''"

definition serving_failed :: "string \<Rightarrow> string \<Rightarrow> agent_response" where
  "serving_failed nodeId message = Error_response (''serving failed on '' @ nodeId @ '': '' @ message)"

text \<open>The reasons of an enrolment refusal; the counts and the cause are those of the state the refusal was given in.\<close>

definition enrol_reason :: "texts \<Rightarrow> 'l ledger_ops \<Rightarrow> enrollment_request \<Rightarrow> rat \<Rightarrow> 'l authority \<Rightarrow> enrollment_refusal \<Rightarrow> string" where
  "enrol_reason tx ops r now t f =
     (case f of
        Stale_challenge ttl \<Rightarrow>
          ''enrolment challenge '' @
          (case er_freshness r of
             None \<Rightarrow> ''was never asked for''
           | Some a \<Rightarrow> (case map_get (au_challenges t) (ca_nonce a) of
               None \<Rightarrow> ''is not one this provider is holding'' | Some _ \<Rightarrow> ''expired'')) @
          ''; ask this provider for another and answer it within '' @ tx_num tx (Fin ttl) @ ''ms''
      | Bad_proof_of_possession nodeKey \<Rightarrow> ''node '' @ nodeKey @ '' did not prove possession of its key''
      | Bad_owner_proof userKey \<Rightarrow> ''user '' @ userKey @ '' did not consent to node '' @ er_nodeKey r @ '' claiming their key''
      | Operator_id_not_derivable supplied derived \<Rightarrow>
          ''this provider derives a node'' @ [CHR 0x27] @ ''s operator identity from its user key and will not certify '' @ supplied @
          ''; the only value it would sign for user '' @ er_userKey r @ '' is '' @ derived
      | Rate_limited userKey limit window retry \<Rightarrow>
          ''user '' @ userKey @ '' has enrolled '' @ nat_text (length (recentFor ops userKey now t)) @ '' nodes in the last '' @
          tx_num tx (Fin window) @ ''ms (limit '' @ nat_text limit @ '')''
      | Issuance_budget_exhausted limit window retry \<Rightarrow>
          ''this provider has issued '' @ nat_text (length (recentForAnybody ops now t)) @ '' certificates in the last '' @
          tx_num tx (Fin window) @ ''ms (limit '' @ nat_text limit @ '')'')"

section \<open>Pausing\<close>

fun declinedWhilePaused :: "agent_request \<Rightarrow> bool" where
  "declinedWhilePaused (Exec_request t c) = True"
| "declinedWhilePaused (Commit_request t c) = True"
| "declinedWhilePaused (Combine_request i cids l) = True"
| "declinedWhilePaused (Offer_request s) = True"
| "declinedWhilePaused (Reveal_request h) = False"
| "declinedWhilePaused (Block_request c) = False"
| "declinedWhilePaused (Providers_request c) = False"
| "declinedWhilePaused (Records_request k) = False"
| "declinedWhilePaused Reservations_request = False"
| "declinedWhilePaused (Report_request out d) = False"
| "declinedWhilePaused (Enrol_request r) = False"
| "declinedWhilePaused Enrol_challenge_request = False"

definition pausedAnswer :: "rat \<Rightarrow> agent_request \<Rightarrow> string \<Rightarrow> 'l agent_state \<Rightarrow> agent_response" where
  "pausedAnswer g request reason s =
     (case request of
        Combine_request _ _ _ \<Rightarrow> Combine_response None reason Signed_by_nobody
      | Offer_request _ \<Rightarrow>
          Offer_response False reason
            (case sv_capacity s of None \<Rightarrow> None | Some c \<Rightarrow> Some (stated_capacity (slots g c) c)) Declining_all_work
      | _ \<Rightarrow> Error_response reason)"

section \<open>Egress\<close>

text \<open>Scans a candidate reply for bytes held here; a violation goes on the guard's record.\<close>

definition refusedReason :: "'l agent_config \<Rightarrow> string \<Rightarrow> agent_response \<Rightarrow> 'l agent_state \<Rightarrow> string option \<times> 'l agent_state" where
  "refusedReason cfg to candidate s =
     (case sv_guard s of
        None \<Rightarrow> (None, s)
      | Some g \<Rightarrow>
          if length (registrations g) = 0 then (None, s)
          else case encodeCanonical (sc_codec cfg) (encodeResponse candidate) of
                 Inl e \<Rightarrow> (None, s)
               | Inr frame \<Rightarrow>
                   (case refuse to frame g of
                      (violated, g') \<Rightarrow>
                        (map_option (\<lambda>v. ''egress refused: '' @ v @ '' on '' @ sc_nodeId cfg) violated, s\<lparr>sv_guard := Some g'\<rparr>)))"

text \<open>\<open>takeSovereignHold\<close>, after the read: \<open>found\<close> is what the local store had.\<close>

definition takeSovereignHold :: "task \<Rightarrow> bytes option \<Rightarrow> egress_guard \<Rightarrow> egress_hold option \<times> egress_guard" where
  "takeSovereignHold t found g =
     (if tk_label t \<noteq> Some Sovereign then (None, g)
      else case found of
             None \<Rightarrow> (None, g)
           | Some bytes \<Rightarrow> (case guard_payload (tk_inputCid t) bytes g of (hold, g') \<Rightarrow> (Some hold, g')))"

text \<open>\<open>withholdingFrom\<close>: \<open>local\<close> is the store of sovereign inputs; nothing is withheld by a node without a guard.\<close>

definition withholdingFrom :: "'l agent_config \<Rightarrow> (string \<Rightarrow> bytes option) \<Rightarrow> 'l agent_state \<Rightarrow> string \<Rightarrow> bool" where
  "withholdingFrom cfg local_block s cid =
     (case sv_guard s of
        None \<Rightarrow> False
      | Some g \<Rightarrow>
          if (case sv_sovereignCids s of None \<Rightarrow> False | Some cs \<Rightarrow> cid \<in> set cs) then True
          else if length (registrations g) = 0 then False
          else case local_block cid of
                 None \<Rightarrow> False
               | Some bytes \<Rightarrow>
                   (case encodeCanonical (sc_codec cfg) (encodeResponse (Block_response (Some bytes))) of
                      Inl e \<Rightarrow> False
                    | Inr frame \<Rightarrow> violationIn frame g \<noteq> None))"

section \<open>Requests answered in one go\<close>

definition ENROLLMENT_NONCE_BYTES :: nat where "ENROLLMENT_NONCE_BYTES = 32"

definition answer_block :: "'l agent_config \<Rightarrow> agent_env \<Rightarrow> string \<Rightarrow> string \<Rightarrow> 'l agent_state \<Rightarrow> agent_response settled \<times> 'l agent_state" where
  "answer_block cfg env from' cid s =
     (case en_block env of
        Threw m \<Rightarrow> (Threw m, s)
      | Returned bytes \<Rightarrow>
          let found = Block_response bytes;
              durable = (case (sv_guard s, sv_sovereignCids s) of
                           (Some _, Some cs) \<Rightarrow> if cid \<in> set cs then Some (''egress refused: '' @ cid @ '' on '' @ sc_nodeId cfg) else None
                         | _ \<Rightarrow> None)
          in case durable of
               Some reason \<Rightarrow> (Returned (Error_response reason), s)
             | None \<Rightarrow>
                 (case refusedReason cfg from' found s of
                    (None, s') \<Rightarrow> (Returned found, s')
                  | (Some reason, s') \<Rightarrow> (Returned (Error_response reason), s')))"

definition answer_report :: "start_outcome option \<Rightarrow> int option \<Rightarrow> 'l agent_state \<Rightarrow> agent_response \<times> 'l agent_state" where
  "answer_report out declined s =
     (case sv_ledger s of
        None \<Rightarrow> (Report_response [] 0, s)
      | Some l \<Rightarrow>
          let l1 = (case out of None \<Rightarrow> l | Some x \<Rightarrow> record_start x l);
              l2 = decline (num_of_int (case declined of None \<Rightarrow> 0 | Some n \<Rightarrow> n)) l1
          in (Report_response (map (\<lambda>c. \<lparr>oc_browser = oc_browser c, oc_result = oc_result c, oc_count = int (oc_count c)\<rparr>)
                (map_values (sl_counts l2))) (int (sl_declined l2)),
              s\<lparr>sv_ledger := Some l2\<rparr>))"

definition answer_offer :: "'l agent_config \<Rightarrow> agent_env \<Rightarrow> string \<Rightarrow> 'l agent_state \<Rightarrow> agent_response" where
  "answer_offer cfg env shardId s =
     (case sv_capacity s of
        None \<Rightarrow> Offer_response True [] None Declining_this_offer
      | Some c \<Rightarrow>
          (case would (en_duty env) \<lparr>of_shardId = shardId, of_nodeId = sc_nodeId cfg\<rparr> c of
             Accepted cap \<Rightarrow> Offer_response True [] cap Declining_this_offer
           | Refused r cap standing \<Rightarrow> Offer_response False (capacity_reason_text (sc_texts cfg) r) cap standing))"

text \<open>\<open>certifyFreshly\<close>: the challenge is spent before the request is judged.\<close>

definition certifyFreshly ::
  "'l agent_config \<Rightarrow> enrollment_request \<Rightarrow> rat \<Rightarrow> 'l authority \<Rightarrow> agent_response settled \<times> 'l authority" where
  "certifyFreshly cfg r now t =
     (case redeemChallenge (sc_codec cfg) (sc_verify cfg) r now t of
        (Some stale, t') \<Rightarrow> (Returned (Enrol_response (Enrol_refused stale (enrol_reason (sc_texts cfg) (sc_ledger_ops cfg) r now t stale))), t')
      | (None, t') \<Rightarrow>
          (case enrol (sc_codec cfg) (sc_verify cfg) (sc_sign cfg) (sc_x509 cfg) (sc_ledger_ops cfg) r now t' of
             (Enrolled c, t'') \<Rightarrow> (Returned (Enrol_response (Enrol_ok c)), t'')
           | (Enrolment_refused f, t'') \<Rightarrow>
               (Returned (Enrol_response (Enrol_refused f (enrol_reason (sc_texts cfg) (sc_ledger_ops cfg) r now t' f))), t'')
           | (Enrolment_threw e, t'') \<Rightarrow> (Threw (''certificate not encodable: '' @ tx_error (sc_texts cfg) e), t'')))"

definition no_issuer :: agent_response where
  "no_issuer = Error_response ''this node issues no certificates''"

definition answer_enrol :: "'l agent_config \<Rightarrow> agent_env \<Rightarrow> enrollment_request \<Rightarrow> 'l agent_state \<Rightarrow> agent_response settled \<times> 'l agent_state" where
  "answer_enrol cfg env r s =
     (case sv_enroll s of
        None \<Rightarrow> (Returned no_issuer, s)
      | Some t \<Rightarrow> (case certifyFreshly cfg r (en_now env) t of (out, t') \<Rightarrow> (out, s\<lparr>sv_enroll := Some t'\<rparr>)))"

definition answer_challenge :: "agent_env \<Rightarrow> 'l agent_state \<Rightarrow> agent_response \<times> 'l agent_state" where
  "answer_challenge env s =
     (case sv_enroll s of
        None \<Rightarrow> (no_issuer, s)
      | Some t \<Rightarrow> (case mintChallenge (en_random env ENROLLMENT_NONCE_BYTES) (en_now env) t of
                    (c, t') \<Rightarrow> (Enrol_challenge_response c, s\<lparr>sv_enroll := Some t'\<rparr>)))"

definition answer_reveal :: "'l agent_config \<Rightarrow> agent_env \<Rightarrow> string \<Rightarrow> string \<Rightarrow> 'l agent_state \<Rightarrow> agent_response \<times> 'l agent_state" where
  "answer_reveal cfg env from' handle s =
     (case take_commitment handle from' (en_now env) (sv_pending s) of
        (taken, pending) \<Rightarrow>
          let out = (case taken of Taken p \<Rightarrow> Reveal_ok (pc_nonce p) (pc_executed p) | _ \<Rightarrow> Reveal_refused (take_text taken))
          in case refusedReason cfg from' (Reveal_response out) (s\<lparr>sv_pending := pending\<rparr>) of
               (None, s') \<Rightarrow> (Reveal_response out, s')
             | (Some reason, s') \<Rightarrow> (Reveal_response (Reveal_refused reason), s'))"

section \<open>Executing and committing\<close>

definition slot_key :: "texts \<Rightarrow> task \<Rightarrow> string" where
  "slot_key tx t = tk_inputCid t @ '':'' @ tx_num tx (num_of_int (tk_partitionIndex t))"

definition label_text :: "sovereignty option \<Rightarrow> string" where
  "label_text l = (case l of None \<Rightarrow> ''undefined'' | Some Public \<Rightarrow> ''public'' | Some Sovereign \<Rightarrow> ''sovereign'')"

record open_work =
  ow_from :: string
  ow_task :: task
  ow_capability :: "delegation list"
  ow_handle :: "string option"

definition sovereign_elsewhere :: "task \<Rightarrow> 'l agent_state \<Rightarrow> bool" where
  "sovereign_elsewhere t s =
     (case (sv_guard s, sv_sovereignCids s) of
        (Some _, Some cs) \<Rightarrow> tk_label t \<noteq> Some Sovereign \<and> tk_inputCid t \<in> set cs
      | _ \<Rightarrow> False)"

text \<open>A slot for the work, if this node counts slots.\<close>

definition take_slot :: "'l agent_config \<Rightarrow> agent_env \<Rightarrow> string \<Rightarrow> 'l agent_state \<Rightarrow> string option \<times> 'l agent_state" where
  "take_slot cfg env key s =
     (case sv_capacity s of
        None \<Rightarrow> (None, s)
      | Some c \<Rightarrow>
          (case take_offer (en_duty env) \<lparr>of_shardId = key, of_nodeId = sc_nodeId cfg\<rparr> c of
             (Accepted cap, c') \<Rightarrow> (None, s\<lparr>sv_capacity := Some c'\<rparr>)
           | (Refused r cap standing, c') \<Rightarrow> (Some (capacity_reason_text (sc_texts cfg) r), s\<lparr>sv_capacity := Some c'\<rparr>)))"

definition give_slot :: "string \<Rightarrow> 'l agent_state \<Rightarrow> 'l agent_state" where
  "give_slot key s = s\<lparr>sv_capacity := map_option (release key) (sv_capacity s)\<rparr>"

definition begin_work ::
  "'l agent_config \<Rightarrow> agent_env \<Rightarrow> string \<Rightarrow> task \<Rightarrow> delegation list option \<Rightarrow> bool \<Rightarrow> 'l agent_state
    \<Rightarrow> (agent_response + open_work) \<times> 'l agent_state" where
  "begin_work cfg env from' t capability ceremony s =
     (let work = (\<lambda>handle. \<lparr>ow_from = from', ow_task = t,
                    ow_capability = (case capability of None \<Rightarrow> [] | Some ds \<Rightarrow> ds), ow_handle = handle\<rparr>);
          admit_work = (\<lambda>handle s1. case take_slot cfg env (slot_key (sc_texts cfg) t) s1 of
                    (Some reason, s2) \<Rightarrow> (Inl (Error_response reason), s2)
                  | (None, s2) \<Rightarrow> (Inr (work handle), s2))
      in if ceremony \<and> tk_label t = Some Sovereign
         then (Inl (Commit_response (Commit_refused (''commit refused: the commit-reveal ceremony runs on public shards only, '' @
                 ''and this task is labelled sovereign on '' @ sc_nodeId cfg))), s)
         else if sovereign_elsewhere t s
         then (Inl (Error_response (''egress refused: '' @ tk_inputCid t @ '' on '' @ sc_nodeId cfg @
                 '' is sovereign, and this dispatch is labelled '' @ label_text (tk_label t))), s)
         else if \<not> ceremony then admit_work None s
         else case reserve (en_random env) (en_now env) (sv_pending s) of
                (Commitments_full used limit nodeId, p) \<Rightarrow>
                  (Inl (Commit_response (Commit_refused (reserve_text used limit nodeId))), s\<lparr>sv_pending := p\<rparr>)
              | (Reserved handle, p) \<Rightarrow> admit_work (Some handle) (s\<lparr>sv_pending := p\<rparr>))"

text \<open>Whether the handler suspends on a read before it starts; a node without a guard takes no hold.\<close>

record running_work =
  rw_open :: open_work
  rw_hold :: "egress_hold option"
  rw_verdict :: "string option settled"

definition start_work ::
  "'l agent_config \<Rightarrow> agent_env \<Rightarrow> open_work \<Rightarrow> bytes option \<Rightarrow> 'l agent_state \<Rightarrow> running_work \<times> 'l agent_state" where
  "start_work cfg env w found s =
     (let (hold, s') = (case sv_guard s of
             None \<Rightarrow> (None, s)
           | Some g \<Rightarrow> (case takeSovereignHold (ow_task w) found g of (hold, g') \<Rightarrow> (hold, s\<lparr>sv_guard := Some g'\<rparr>)));
          verdict = (case sc_authorize cfg of
             None \<Rightarrow> Returned None
           | Some auth \<Rightarrow> auth (en_now env) (Exec_work (ow_task w) (ow_capability w)))
      in (\<lparr>rw_open = w, rw_hold = hold, rw_verdict = verdict\<rparr>, s'))"

text \<open>What the \<open>try\<close> comes to; \<open>out\<close> is the executor's and counts only when the work was let through.\<close>

definition work_outcome :: "'l agent_config \<Rightarrow> running_work \<Rightarrow> execution_outcome settled \<Rightarrow> execution_outcome" where
  "work_outcome cfg r out =
     (let failed = (\<lambda>m. Execution_failed (''execution failed on '' @ sc_nodeId cfg @ '': '' @ m))
      in case rw_verdict r of
           Threw m \<Rightarrow> failed m
         | Returned (Some refusal) \<Rightarrow> Execution_failed (''unauthorized: '' @ refusal)
         | Returned None \<Rightarrow> (case out of Threw m \<Rightarrow> failed m | Returned x \<Rightarrow> x))"

datatype finished_work =
    Reply_work agent_response "egress_hold option"
  | File_work string string task string executed

definition finish_work ::
  "'l agent_config \<Rightarrow> running_work \<Rightarrow> execution_outcome settled \<Rightarrow> 'l agent_state \<Rightarrow> finished_work \<times> 'l agent_state" where
  "finish_work cfg r out s =
     (let w = rw_open r; t = ow_task w; s' = give_slot (slot_key (sc_texts cfg) t) s; outcome = work_outcome cfg r out
      in case ow_handle w of
           Some handle \<Rightarrow>
             (case outcome of
                Execution_failed reason \<Rightarrow> (Reply_work (Commit_response (Commit_refused reason)) None, s')
              | Executed x \<Rightarrow>
                  (case canonicalCid (sc_codec cfg) (sc_cid_of cfg) (xo_output x) of
                     Inl e \<Rightarrow> (Reply_work (Commit_response (Commit_refused (''output not encodable on '' @ sc_nodeId cfg @ '': '' @
                                 tx_error (sc_texts cfg) e))) None, s')
                   | Inr (cid, _) \<Rightarrow> (File_work handle (ow_from w) t cid x, s')))
         | None \<Rightarrow>
             (case refusedReason cfg (ow_from w) (Exec_response outcome) s' of
                (None, s'') \<Rightarrow> (Reply_work (Exec_response outcome) (rw_hold r), s'')
              | (Some reason, s'') \<Rightarrow> (Reply_work (Exec_response (Execution_failed reason)) (rw_hold r), s'')))"

definition file_work ::
  "'l agent_config \<Rightarrow> agent_env \<Rightarrow> string \<Rightarrow> string \<Rightarrow> task \<Rightarrow> string \<Rightarrow> executed \<Rightarrow> 'l agent_state \<Rightarrow> agent_response \<times> 'l agent_state" where
  "file_work cfg env handle from' t cid x s =
     (let nonce = drawCeremonyNonce (en_random env);
          digest = commitmentDigest (sc_cid_bytes cfg) (sc_sha256 cfg) nonce t cid
      in (Commit_response (Commit_ok digest handle),
          s\<lparr>sv_pending := file_commitment handle
              \<lparr>pc_committedBy = from', pc_nonce = nonce, pc_executed = x, pc_at = en_now env\<rparr> (sv_pending s)\<rparr>))"

section \<open>Merging\<close>

definition MAX_PARTIAL_BYTES :: nat where "MAX_PARTIAL_BYTES = 9216"

definition combine_key :: "string list \<Rightarrow> string" where
  "combine_key cids = ''combine:'' @ js_join '','' cids"

record open_combine =
  cx_from :: string
  cx_inputs :: "string list"
  cx_verdict :: "string option settled"

definition no_merge :: "string \<Rightarrow> agent_response" where
  "no_merge reason = Combine_response None reason Signed_by_nobody"

definition begin_combine ::
  "'l agent_config \<Rightarrow> agent_env \<Rightarrow> string \<Rightarrow> string \<Rightarrow> string list \<Rightarrow> int \<Rightarrow> 'l agent_state
    \<Rightarrow> (agent_response + open_combine) \<times> 'l agent_state" where
  "begin_combine cfg env from' combineId cids level s =
     (case take_slot cfg env (combine_key cids) s of
        (Some reason, s') \<Rightarrow> (Inl (no_merge reason), s')
      | (None, s') \<Rightarrow>
          (Inr \<lparr>cx_from = from', cx_inputs = cids,
                cx_verdict = (case sc_authorize cfg of
                   None \<Rightarrow> Returned None
                 | Some auth \<Rightarrow> auth (en_now env)
                     (Combine_work \<lparr>cw_combineId = combineId, cw_inputCids = cids, cw_level = level\<rparr> []))\<rparr>, s'))"

text \<open>The inputs, read in order; \<open>fetch\<close> is what the block store, which may ask peers, comes to for each.\<close>

fun combine_inputs ::
  "'l agent_config \<Rightarrow> (string \<Rightarrow> bytes option settled) \<Rightarrow> string list \<Rightarrow> agent_response settled + cvalue list" where
  "combine_inputs cfg fetch [] = Inr []"
| "combine_inputs cfg fetch (c # cs) =
     (case fetch c of
        Threw m \<Rightarrow> Inl (Threw m)
      | Returned None \<Rightarrow> Inl (Returned (no_merge (''combine input '' @ c @ '' not held and not obtainable'')))
      | Returned (Some b) \<Rightarrow>
          if length b > MAX_PARTIAL_BYTES
          then Inl (Returned (no_merge (''combine input '' @ c @ '' is '' @ nat_text (length b) @ '' bytes, over the '' @
                 nat_text MAX_PARTIAL_BYTES @ '' byte partial budget'')))
          else case sc_decode cfg b of
                 None \<Rightarrow> Inl (Returned (no_merge (''combine input '' @ c @ '' did not decode'')))
               | Some v \<Rightarrow> (case combine_inputs cfg fetch cs of Inl e \<Rightarrow> Inl e | Inr vs \<Rightarrow> Inr (v # vs)))"

text \<open>\<open>combineAdmitted\<close>; \<open>stored\<close> is what writing the result comes to.\<close>

definition combineAdmitted ::
  "'l agent_config \<Rightarrow> (string \<Rightarrow> bytes option settled) \<Rightarrow> unit settled \<Rightarrow> open_combine \<Rightarrow> agent_response settled" where
  "combineAdmitted cfg fetch stored c =
     (case cx_verdict c of
        Threw m \<Rightarrow> Threw m
      | Returned (Some refusal) \<Rightarrow> Returned (no_merge (''unauthorized: '' @ refusal))
      | Returned None \<Rightarrow>
          (case combine_inputs cfg fetch (cx_inputs c) of
             Inl e \<Rightarrow> e
           | Inr inputs \<Rightarrow>
               (case canonicalCid (sc_codec cfg) (sc_cid_of cfg) (fabricCombiner inputs) of
                  Inl e \<Rightarrow> Returned (no_merge (''combine result is not encodable: '' @ tx_error (sc_texts cfg) e))
                | Inr (cid, bytes) \<Rightarrow>
                    (case stored of
                       Threw m \<Rightarrow> Threw m
                     | Returned _ \<Rightarrow>
                         (case sc_attest cfg of
                            Signs_nothing \<Rightarrow> Returned (Combine_response (Some cid) [] Signed_by_nobody)
                          | Signs signer \<Rightarrow>
                              (case signCombine (sc_codec cfg) (sc_sign cfg) (sc_pub cfg) signer (cx_inputs c) cid of
                                 Inl e \<Rightarrow> Threw (signing_error_text (sc_texts cfg) e)
                               | Inr a \<Rightarrow> Returned (Combine_response (Some cid) [] (Attested a))))))))"

definition finish_combine ::
  "'l agent_config \<Rightarrow> (string \<Rightarrow> bytes option settled) \<Rightarrow> unit settled \<Rightarrow> open_combine \<Rightarrow> 'l agent_state
    \<Rightarrow> agent_response \<times> 'l agent_state" where
  "finish_combine cfg fetch stored c s =
     ((case combineAdmitted cfg fetch stored c of Returned r \<Rightarrow> r | Threw m \<Rightarrow> serving_failed (sc_nodeId cfg) m),
      give_slot (combine_key (cx_inputs c)) s)"

section \<open>The handler\<close>

text \<open>What running the handler up to its first suspension comes to.\<close>

datatype begun =
    Replied agent_response
  | Work_open open_work
  | Combine_open open_combine

definition by_sum :: "('b \<Rightarrow> begun) \<Rightarrow> (agent_response + 'b) \<times> 's \<Rightarrow> begun \<times> 's" where
  "by_sum wrap r = (case r of (Inl a, s) \<Rightarrow> (Replied a, s) | (Inr b, s) \<Rightarrow> (wrap b, s))"

definition by_settled :: "'l agent_config \<Rightarrow> agent_response settled \<times> 's \<Rightarrow> begun \<times> 's" where
  "by_settled cfg r =
     (case r of (Returned a, s) \<Rightarrow> (Replied a, s) | (Threw m, s) \<Rightarrow> (Replied (serving_failed (sc_nodeId cfg) m), s))"

definition dispatch_request :: "'l agent_config \<Rightarrow> agent_env \<Rightarrow> string \<Rightarrow> agent_request \<Rightarrow> 'l agent_state \<Rightarrow> begun \<times> 'l agent_state" where
  "dispatch_request cfg env from' request s =
     (case request of
        Block_request cid \<Rightarrow> by_settled cfg (answer_block cfg env from' cid s)
      | Providers_request cid \<Rightarrow> by_settled cfg
          (case en_providers env of Threw m \<Rightarrow> Threw m | Returned ks \<Rightarrow> Returned (Providers_response ks), s)
      | Records_request nodeKey \<Rightarrow> by_settled cfg
          (case en_records env of Threw m \<Rightarrow> Threw m | Returned r \<Rightarrow> Returned (Records_response r), s)
      | Reservations_request \<Rightarrow> by_settled cfg
          (case en_reservations env of Threw m \<Rightarrow> Threw m | Returned ps \<Rightarrow> Returned (Reservations_response ps), s)
      | Report_request out declined \<Rightarrow> (case answer_report out declined s of (a, s') \<Rightarrow> (Replied a, s'))
      | Offer_request shardId \<Rightarrow> (Replied (answer_offer cfg env shardId s), s)
      | Combine_request combineId cids level \<Rightarrow> by_sum Combine_open (begin_combine cfg env from' combineId cids level s)
      | Enrol_request r \<Rightarrow> by_settled cfg (answer_enrol cfg env r s)
      | Enrol_challenge_request \<Rightarrow> (case answer_challenge env s of (a, s') \<Rightarrow> (Replied a, s'))
      | Reveal_request handle \<Rightarrow> (case answer_reveal cfg env from' handle s of (a, s') \<Rightarrow> (Replied a, s'))
      | Exec_request t capability \<Rightarrow> by_sum Work_open (begin_work cfg env from' t capability False s)
      | Commit_request t capability \<Rightarrow> by_sum Work_open (begin_work cfg env from' t capability True s))"

definition serve_request :: "'l agent_config \<Rightarrow> agent_env \<Rightarrow> string \<Rightarrow> cvalue \<Rightarrow> 'l agent_state \<Rightarrow> begun \<times> 'l agent_state" where
  "serve_request cfg env from' body s =
     (case parseRequest body of
        None \<Rightarrow> (Replied (Error_response ''malformed request''), s)
      | Some request \<Rightarrow>
          if \<not> declinedWhilePaused request then dispatch_request cfg env from' request s
          else case en_pause env of
                 Never_pauses \<Rightarrow> dispatch_request cfg env from' request s
               | Pause_says False \<Rightarrow> dispatch_request cfg env from' request s
               | Pause_says True \<Rightarrow> (Replied (pausedAnswer (en_duty env) request (pausedRefusal (sc_nodeId cfg)) s), s)
               | Pause_misreports described \<Rightarrow>
                   (Replied (pausedAnswer (en_duty env) request (pauseMisreported (sc_nodeId cfg) described) s), s)
               | Pause_threw m \<Rightarrow> (Replied (serving_failed (sc_nodeId cfg) m), s))"

section \<open>Any interleaving\<close>

text \<open>
  A serving node with the handlers that are under way.  \<open>sg_sending\<close> are the holds of replies whose frame has
  not been sent, \<open>sg_foreign\<close> the holds the node's own jobs have taken on the same guard.  \<open>sg_ran\<close> records each call of the
  executor with the time it was authorised, \<open>sg_lost\<close> the slots whose handler ended without giving them back.
  \<open>content\<close> is the bytes of a CID: a local store that has a block has those.
\<close>

record 'l serving =
  sg_agent :: "'l agent_state"
  sg_reading :: "open_work list"
  sg_running :: "running_work list"
  sg_filing :: "finished_work list"
  sg_combining :: "open_combine list"
  sg_sending :: "egress_hold list"
  sg_foreign :: "egress_hold list"
  sg_ran :: "(open_work \<times> rat) list"
  sg_lost :: "string list"

definition reads_input :: "open_work \<Rightarrow> 'l agent_state \<Rightarrow> bool" where
  "reads_input w s \<longleftrightarrow> sv_guard s \<noteq> None \<and> tk_label (ow_task w) = Some Sovereign"

definition option_list :: "'a option \<Rightarrow> 'a list" where
  "option_list x = (case x of None \<Rightarrow> [] | Some y \<Rightarrow> [y])"

inductive agent_step :: "'l agent_config \<Rightarrow> (string \<Rightarrow> bytes) \<Rightarrow> 'l serving \<Rightarrow> 'l serving \<Rightarrow> bool" for cfg content where
  Serve: "serve_request cfg env from' body (sg_agent s) = (Replied a, ag) \<Longrightarrow> agent_step cfg content s (s\<lparr>sg_agent := ag\<rparr>)"
| Serve_work: "serve_request cfg env from' body (sg_agent s) = (Work_open w, ag) \<Longrightarrow>
    agent_step cfg content s (s\<lparr>sg_agent := ag, sg_reading := sg_reading s @ [w]\<rparr>)"
| Serve_combine: "serve_request cfg env from' body (sg_agent s) = (Combine_open c, ag) \<Longrightarrow>
    agent_step cfg content s (s\<lparr>sg_agent := ag, sg_combining := sg_combining s @ [c]\<rparr>)"
| Read: "w \<in> set (sg_reading s) \<Longrightarrow> found = None \<or> found = Some (content (tk_inputCid (ow_task w))) \<Longrightarrow>
    start_work cfg env w found (sg_agent s) = (r, ag) \<Longrightarrow>
    agent_step cfg content s (s\<lparr>sg_agent := ag, sg_reading := remove1 w (sg_reading s), sg_running := sg_running s @ [r],
      sg_ran := sg_ran s @ (if rw_verdict r = Returned None then [(w, en_now env)] else [])\<rparr>)"
| Read_threw: "w \<in> set (sg_reading s) \<Longrightarrow> reads_input w (sg_agent s) \<Longrightarrow>
    agent_step cfg content s (s\<lparr>sg_reading := remove1 w (sg_reading s), sg_lost := sg_lost s @ [slot_key (sc_texts cfg) (ow_task w)]\<rparr>)"
| Executed_reply: "r \<in> set (sg_running s) \<Longrightarrow> finish_work cfg r out (sg_agent s) = (Reply_work a hold, ag) \<Longrightarrow>
    agent_step cfg content s (s\<lparr>sg_agent := ag, sg_running := remove1 r (sg_running s), sg_sending := sg_sending s @ option_list hold\<rparr>)"
| Executed_filing: "r \<in> set (sg_running s) \<Longrightarrow> finish_work cfg r out (sg_agent s) = (File_work handle from' t cid x, ag) \<Longrightarrow>
    agent_step cfg content s (s\<lparr>sg_agent := ag, sg_running := remove1 r (sg_running s),
      sg_filing := sg_filing s @ [File_work handle from' t cid x]\<rparr>)"
| Filed: "File_work handle from' t cid x \<in> set (sg_filing s) \<Longrightarrow> file_work cfg env handle from' t cid x (sg_agent s) = (a, ag) \<Longrightarrow>
    agent_step cfg content s (s\<lparr>sg_agent := ag, sg_filing := remove1 (File_work handle from' t cid x) (sg_filing s)\<rparr>)"
| Merged: "c \<in> set (sg_combining s) \<Longrightarrow> finish_combine cfg fetch stored c (sg_agent s) = (a, ag) \<Longrightarrow>
    agent_step cfg content s (s\<lparr>sg_agent := ag, sg_combining := remove1 c (sg_combining s)\<rparr>)"
| Frame_sent: "h \<in> set (sg_sending s) \<Longrightarrow> sv_guard (sg_agent s) = Some g \<Longrightarrow> release_hold h g = (h', g') \<Longrightarrow>
    agent_step cfg content s (s\<lparr>sg_agent := (sg_agent s)\<lparr>sv_guard := Some g'\<rparr>, sg_sending := remove1 h (sg_sending s)\<rparr>)"
| Own_hold: "sv_guard (sg_agent s) = Some g \<Longrightarrow> guard_payload label (content label) g = (h, g') \<Longrightarrow>
    agent_step cfg content s (s\<lparr>sg_agent := (sg_agent s)\<lparr>sv_guard := Some g'\<rparr>, sg_foreign := sg_foreign s @ [h]\<rparr>)"
| Own_release: "h \<in> set (sg_foreign s) \<Longrightarrow> sv_guard (sg_agent s) = Some g \<Longrightarrow> release_hold h g = (h', g') \<Longrightarrow>
    agent_step cfg content s (s\<lparr>sg_agent := (sg_agent s)\<lparr>sv_guard := Some g'\<rparr>, sg_foreign := remove1 h (sg_foreign s)\<rparr>)"
| Own_record: "sv_guard (sg_agent s) = Some g \<Longrightarrow> eg_guarded g' = eg_guarded g \<Longrightarrow>
    agent_step cfg content s (s\<lparr>sg_agent := (sg_agent s)\<lparr>sv_guard := Some g'\<rparr>\<rparr>)"
| Own_mark: "agent_step cfg content s
    (s\<lparr>sg_agent := (sg_agent s)\<lparr>sv_sovereignCids := map_option (set_add cid) (sv_sovereignCids (sg_agent s))\<rparr>\<rparr>)"

definition fresh_serving :: "'l agent_state \<Rightarrow> 'l serving" where
  "fresh_serving a = \<lparr>sg_agent = a, sg_reading = [], sg_running = [], sg_filing = [], sg_combining = [], sg_sending = [], sg_foreign = [],
     sg_ran = [], sg_lost = []\<rparr>"

text \<open>A node that starts: nothing in flight, nothing registered.\<close>

definition idle_agent :: "'l agent_state \<Rightarrow> bool" where
  "idle_agent a \<longleftrightarrow> (case sv_capacity a of None \<Rightarrow> True | Some c \<Rightarrow> inFlight c = []) \<and>
     (case sv_guard a of None \<Rightarrow> True | Some g \<Rightarrow> eg_guarded g = [])"

inductive agent_reached :: "'l agent_config \<Rightarrow> (string \<Rightarrow> bytes) \<Rightarrow> 'l serving \<Rightarrow> bool" for cfg content where
  reached_fresh [intro]: "idle_agent a \<Longrightarrow> agent_reached cfg content (fresh_serving a)"
| reached_more [intro]: "agent_reached cfg content s \<Longrightarrow> agent_step cfg content s s' \<Longrightarrow> agent_reached cfg content s'"

section \<open>What a request may change\<close>

text \<open>The slots taken and the payloads watched are the same.\<close>

definition same_books :: "'l agent_state \<Rightarrow> 'l agent_state \<Rightarrow> bool" where
  "same_books s s' \<longleftrightarrow> sv_capacity s' = sv_capacity s \<and> map_option eg_guarded (sv_guard s') = map_option eg_guarded (sv_guard s)"

named_theorems books "operations of the agent that leave its books alone"

lemma same_books_refl [simp]: "same_books s s"
  by (simp add: same_books_def)

lemma refuse_guarded: "refuse to m g = (v, g') \<Longrightarrow> eg_guarded g' = eg_guarded g"
  by (auto simp: refuse_def record_entry_def split: option.splits)

lemma books_refusedReason [books]: "refusedReason cfg to a s = (v, s') \<Longrightarrow> same_books s s'"
  by (auto simp: refusedReason_def same_books_def dest: refuse_guarded split: option.splits if_splits sum.splits prod.splits)

lemma books_block [books]: "answer_block cfg env from' cid s = (a, s') \<Longrightarrow> same_books s s'"
  unfolding answer_block_def Let_def
  by (auto dest: books_refusedReason split: settled.splits option.splits prod.splits if_splits)

lemma books_report [books]: "answer_report out declined s = (a, s') \<Longrightarrow> same_books s s'"
  by (auto simp: answer_report_def same_books_def Let_def split: option.splits)

lemma books_enrol [books]: "answer_enrol cfg env r s = (a, s') \<Longrightarrow> same_books s s'"
  by (auto simp: answer_enrol_def same_books_def split: option.splits prod.splits)

lemma books_challenge [books]: "answer_challenge env s = (a, s') \<Longrightarrow> same_books s s'"
  by (auto simp: answer_challenge_def same_books_def split: option.splits prod.splits)

lemma books_reveal [books]: "answer_reveal cfg env from' handle s = (a, s') \<Longrightarrow> same_books s s'"
proof -
  assume a: "answer_reveal cfg env from' handle s = (a, s')"
  obtain taken p where t: "take_commitment handle from' (en_now env) (sv_pending s) = (taken, p)" by (cases "take_commitment handle from' (en_now env) (sv_pending s)")
  let ?s = "s\<lparr>sv_pending := p\<rparr>"
  from a t obtain out v where "refusedReason cfg from' (Reveal_response out) ?s = (v, s')"
    by (auto simp: answer_reveal_def Let_def split: prod.splits option.splits)
  from books_refusedReason [OF this] show ?thesis by (simp add: same_books_def)
qed

lemma take_slot_cases:
  obtains reason where "take_slot cfg env key s = (Some reason, s)"
  | "sv_capacity s = None" "take_slot cfg env key s = (None, s)"
  | c where "sv_capacity s = Some c" "key \<notin> set (inFlight c)"
    "\<exists>p. take_slot cfg env key s = (None, s\<lparr>sv_capacity := Some (c\<lparr>inFlight := inFlight c @ [key], peak := p\<rparr>)\<rparr>)"
proof (cases "sv_capacity s")
  case None
  then show ?thesis using that(2) by (simp add: take_slot_def)
next
  case (Some c)
  obtain d c' where t: "take_offer (en_duty env) \<lparr>of_shardId = key, of_nodeId = sc_nodeId cfg\<rparr> c = (d, c')"
    by (cases "take_offer (en_duty env) \<lparr>of_shardId = key, of_nodeId = sc_nodeId cfg\<rparr> c")
  show ?thesis
  proof (cases d)
    case (Accepted cap)
    from take_offer_accepted [OF t [unfolded this]] Some t Accepted show ?thesis
      by (intro that(3) [of c]) (auto simp: take_slot_def)
  next
    case (Refused r cap st)
    from take_offer_refused [OF t [unfolded this]] have "c' = c" by simp
    with Some t Refused show ?thesis by (intro that(1)) (simp add: take_slot_def)
  qed
qed

text \<open>Taking a slot: the books are the same but for one more slot in flight.\<close>

definition slot_more :: "string \<Rightarrow> 'l agent_state \<Rightarrow> 'l agent_state \<Rightarrow> bool" where
  "slot_more key s s' \<longleftrightarrow> map_option eg_guarded (sv_guard s') = map_option eg_guarded (sv_guard s) \<and>
     (case sv_capacity s of
        None \<Rightarrow> sv_capacity s' = None
      | Some c \<Rightarrow> key \<notin> set (inFlight c) \<and> (\<exists>c'. sv_capacity s' = Some c' \<and> inFlight c' = inFlight c @ [key]))"

lemma take_slot_some: "take_slot cfg env key s = (Some reason, s') \<Longrightarrow> s' = s"
  by (cases rule: take_slot_cases [of cfg env key s]) auto

lemma take_slot_none: "take_slot cfg env key s = (None, s') \<Longrightarrow> slot_more key s s'"
  by (cases rule: take_slot_cases [of cfg env key s]) (auto simp: slot_more_def)

lemma begin_work_cases:
  assumes "begin_work cfg env from' t capability ceremony s = (out, s')"
  shows "(\<exists>a. out = Inl a \<and> same_books s s') \<or>
    (\<exists>w. out = Inr w \<and> ow_task w = t \<and> ow_from w = from' \<and> slot_more (slot_key (sc_texts cfg) t) s s' \<and>
       ow_capability w = (case capability of None \<Rightarrow> [] | Some ds \<Rightarrow> ds) \<and>
       (ow_handle w \<noteq> None \<longleftrightarrow> ceremony) \<and> (ceremony \<longrightarrow> tk_label t \<noteq> Some Sovereign) \<and> \<not> sovereign_elsewhere t s)"
proof (cases "ceremony \<and> tk_label t = Some Sovereign \<or> sovereign_elsewhere t s")
  case True
  with assms show ?thesis by (auto simp: begin_work_def Let_def split: if_splits)
next
  case False
  let ?key = "slot_key (sc_texts cfg) t"
  show ?thesis
  proof (cases ceremony)
    case False
    with assms \<open>\<not> (_ \<or> _)\<close> show ?thesis
      by (cases "take_slot cfg env ?key s") (auto simp: begin_work_def Let_def dest: take_slot_some take_slot_none split: option.splits)
  next
    case True
    obtain rv p where rv: "reserve (en_random env) (en_now env) (sv_pending s) = (rv, p)"
      by (cases "reserve (en_random env) (en_now env) (sv_pending s)")
    have "same_books s (s\<lparr>sv_pending := p\<rparr>)" "slot_more ?key (s\<lparr>sv_pending := p\<rparr>) s'' \<Longrightarrow> slot_more ?key s s''" for s''
      by (auto simp: same_books_def slot_more_def)
    with assms rv True \<open>\<not> (_ \<or> _)\<close> show ?thesis
      by (cases rv; cases "take_slot cfg env ?key (s\<lparr>sv_pending := p\<rparr>)")
        (auto simp: begin_work_def Let_def dest!: take_slot_some take_slot_none split: option.splits)
  qed
qed

lemma serve_request_cases:
  assumes "serve_request cfg env from' body s = (out, s')"
  shows "(\<exists>a. out = Replied a \<and> same_books s s') \<or>
    (\<exists>w. out = Work_open w \<and> slot_more (slot_key (sc_texts cfg) (ow_task w)) s s' \<and> \<not> sovereign_elsewhere (ow_task w) s \<and>
       (ow_handle w \<noteq> None \<longrightarrow> tk_label (ow_task w) \<noteq> Some Sovereign)) \<or>
    (\<exists>c. out = Combine_open c \<and> slot_more (combine_key (cx_inputs c)) s s')"
proof -
  have d: ?thesis if dd: "dispatch_request cfg env from' request s = (out, s')" for request
  proof (cases request)
    case (Exec_request t capability)
    with dd begin_work_cases [of cfg env from' t capability False s] show ?thesis
      by (cases "begin_work cfg env from' t capability False s") (fastforce simp: dispatch_request_def by_sum_def split: sum.splits)
  next
    case (Commit_request t capability)
    with dd begin_work_cases [of cfg env from' t capability True s] show ?thesis
      by (cases "begin_work cfg env from' t capability True s") (fastforce simp: dispatch_request_def by_sum_def split: sum.splits)
  next
    case (Combine_request i cids l)
    with dd show ?thesis
      by (cases "take_slot cfg env (combine_key cids) s")
        (auto simp: dispatch_request_def by_sum_def begin_combine_def dest!: take_slot_some take_slot_none split: option.splits sum.splits)
  qed (use dd in \<open>auto simp: dispatch_request_def by_settled_def dest: books split: settled.splits prod.splits\<close>)
  show ?thesis
  proof (cases "parseRequest body")
    case None
    with assms show ?thesis by (auto simp: serve_request_def)
  next
    case (Some request)
    with assms d [of request] show ?thesis
      by (auto simp: serve_request_def split: if_splits pause_reading.splits bool.splits)
  qed
qed

section \<open>Slots\<close>

definition slots_open :: "'l agent_config \<Rightarrow> 'l serving \<Rightarrow> string list" where
  "slots_open cfg s =
     map (\<lambda>w. slot_key (sc_texts cfg) (ow_task w)) (sg_reading s) @
     map (\<lambda>r. slot_key (sc_texts cfg) (ow_task (rw_open r))) (sg_running s) @
     map (\<lambda>c. combine_key (cx_inputs c)) (sg_combining s) @ sg_lost s"

definition slots_ok :: "'l agent_config \<Rightarrow> 'l serving \<Rightarrow> bool" where
  "slots_ok cfg s \<longleftrightarrow>
     (case sv_capacity (sg_agent s) of
        None \<Rightarrow> True
      | Some c \<Rightarrow> distinct (inFlight c) \<and> mset (inFlight c) = mset (slots_open cfg s))"

lemma mset_filter_distinct: "distinct xs \<Longrightarrow> mset (filter (\<lambda>x. x \<noteq> k) xs) = mset xs - {#k#}"
  by (induction xs) (auto simp: filter_id_conv)

lemma slots_ok_more:
  "slots_ok cfg s \<Longrightarrow> slot_more key (sg_agent s) (sg_agent s') \<Longrightarrow> mset (slots_open cfg s') = add_mset key (mset (slots_open cfg s)) \<Longrightarrow>
   slots_ok cfg s'"
  by (cases "sv_capacity (sg_agent s)") (auto simp: slots_ok_def slot_more_def)

lemma slots_ok_same:
  "slots_ok cfg s \<Longrightarrow> sv_capacity (sg_agent s') = sv_capacity (sg_agent s) \<Longrightarrow> mset (slots_open cfg s') = mset (slots_open cfg s) \<Longrightarrow>
   slots_ok cfg s'"
  by (auto simp: slots_ok_def split: option.splits)

lemma slots_ok_less:
  "slots_ok cfg s \<Longrightarrow> sv_capacity (sg_agent s') = map_option (release key) (sv_capacity (sg_agent s)) \<Longrightarrow>
   mset (slots_open cfg s') = mset (slots_open cfg s) - {#key#} \<Longrightarrow> slots_ok cfg s'"
  by (cases "sv_capacity (sg_agent s)") (auto simp: slots_ok_def release_def mset_filter_distinct simp del: mset_filter)

lemma start_work_books: "start_work cfg env w found s = (r, s') \<Longrightarrow> sv_capacity s' = sv_capacity s \<and> rw_open r = w"
  by (auto simp: start_work_def Let_def split: option.splits prod.splits)

lemma finish_work_books:
  assumes "finish_work cfg r out s = (f, s')"
  shows "sv_capacity s' = map_option (release (slot_key (sc_texts cfg) (ow_task (rw_open r)))) (sv_capacity s) \<and>
    map_option eg_guarded (sv_guard s') = map_option eg_guarded (sv_guard s) \<and>
    (\<forall>a hold. f = Reply_work a hold \<longrightarrow> hold = None \<or> hold = rw_hold r) \<and> (ow_handle (rw_open r) = None \<longrightarrow> (\<exists>a. f = Reply_work a (rw_hold r)))"
proof (cases "ow_handle (rw_open r)")
  case None
  obtain v s'' where v: "refusedReason cfg (ow_from (rw_open r)) (Exec_response (work_outcome cfg r out))
      (give_slot (slot_key (sc_texts cfg) (ow_task (rw_open r))) s) = (v, s'')"
    by (cases "refusedReason cfg (ow_from (rw_open r)) (Exec_response (work_outcome cfg r out))
      (give_slot (slot_key (sc_texts cfg) (ow_task (rw_open r))) s)")
  from books_refusedReason [OF v] v assms None show ?thesis
    by (auto simp: finish_work_def Let_def same_books_def give_slot_def split: option.splits)
next
  case (Some handle)
  with assms show ?thesis
    by (auto simp: finish_work_def Let_def give_slot_def split: execution_outcome.splits sum.splits prod.splits)
qed

lemma finish_combine_books:
  "finish_combine cfg fetch stored c s = (a, s') \<Longrightarrow>
   sv_capacity s' = map_option (release (combine_key (cx_inputs c))) (sv_capacity s) \<and> sv_guard s' = sv_guard s"
  by (auto simp: finish_combine_def give_slot_def)

lemma file_work_books: "file_work cfg env handle from' t cid x s = (a, s') \<Longrightarrow> sv_capacity s' = sv_capacity s \<and> sv_guard s' = sv_guard s"
  by (auto simp: file_work_def Let_def)

lemma image_mset_remove: "w \<in> set xs \<Longrightarrow> image_mset f (mset xs) = add_mset (f w) (image_mset f (mset xs - {#w#}))"
  by (metis image_mset_add_mset insert_DiffM set_mset_mset)

lemma idle_slots: "idle_agent a \<Longrightarrow> slots_ok cfg (fresh_serving a)"
  by (auto simp: idle_agent_def slots_ok_def fresh_serving_def slots_open_def split: option.splits)

lemma slots_ok_step:
  assumes "agent_step cfg content s s'" "slots_ok cfg s"
  shows "slots_ok cfg s'"
  using assms(1)
proof (cases rule: agent_step.cases)
  case (Serve env from' body a ag)
  then have "same_books (sg_agent s) ag" by (auto dest: serve_request_cases)
  with Serve(1) show ?thesis by (intro slots_ok_same [OF assms(2)]) (simp_all add: same_books_def slots_open_def)
next
  case (Serve_work env from' body w ag)
  then have "slot_more (slot_key (sc_texts cfg) (ow_task w)) (sg_agent s) ag" by (auto dest: serve_request_cases)
  with Serve_work(1) show ?thesis by (intro slots_ok_more [OF assms(2)]) (simp_all add: slots_open_def)
next
  case (Serve_combine env from' body c ag)
  then have "slot_more (combine_key (cx_inputs c)) (sg_agent s) ag" by (auto dest: serve_request_cases)
  with Serve_combine(1) show ?thesis by (intro slots_ok_more [OF assms(2)]) (simp_all add: slots_open_def)
next
  case (Read w found env r ag)
  from start_work_books [OF Read(4)] Read(1) image_mset_remove [OF Read(2), of "\<lambda>w. slot_key (sc_texts cfg) (ow_task w)"] show ?thesis
    by (intro slots_ok_same [OF assms(2)]) (simp_all add: slots_open_def)
next
  case (Read_threw w)
  from Read_threw(1) image_mset_remove [OF Read_threw(2), of "\<lambda>w. slot_key (sc_texts cfg) (ow_task w)"] show ?thesis
    by (intro slots_ok_same [OF assms(2)]) (simp_all add: slots_open_def)
next
  case (Executed_reply r out a hold ag)
  from finish_work_books [OF Executed_reply(3)] Executed_reply(1) image_mset_remove [OF Executed_reply(2), of "\<lambda>r. slot_key (sc_texts cfg) (ow_task (rw_open r))"] show ?thesis
    by (intro slots_ok_less [OF assms(2)]) (auto simp: slots_open_def)
next
  case (Executed_filing r out handle from' t cid x ag)
  from finish_work_books [OF Executed_filing(3)] Executed_filing(1) image_mset_remove [OF Executed_filing(2), of "\<lambda>r. slot_key (sc_texts cfg) (ow_task (rw_open r))"] show ?thesis
    by (intro slots_ok_less [OF assms(2)]) (auto simp: slots_open_def)
next
  case (Filed handle from' t cid x env a ag)
  from file_work_books [OF Filed(3)] Filed(1) show ?thesis
    by (intro slots_ok_same [OF assms(2)]) (simp_all add: slots_open_def)
next
  case (Merged c fetch stored a ag)
  from finish_combine_books [OF Merged(3)] Merged(1) image_mset_remove [OF Merged(2), of "\<lambda>c. combine_key (cx_inputs c)"] show ?thesis
    by (intro slots_ok_less [OF assms(2)]) (auto simp: slots_open_def)
qed (rule slots_ok_same [OF assms(2)]; simp add: slots_open_def)+

lemma reached_slots: "agent_reached cfg content s \<Longrightarrow> slots_ok cfg s"
  by (induction rule: agent_reached.induct) (auto intro: idle_slots slots_ok_step)

text \<open>C7: A serving node gives its slots back: after any interleaving of requests, executions, merges, refusals and throws,
  the slots in flight are exactly those of the handlers under way and of handlers whose read of a sovereign input failed.  So a
  node with nothing under way that had no such failure has every slot free.\<close>

theorem slots_are_given_back:
  assumes "agent_reached cfg content s" and "sv_capacity (sg_agent s) = Some c"
  shows "distinct (inFlight c) \<and> mset (inFlight c) = mset (slots_open cfg s) \<and>
    (sg_reading s @ map rw_open (sg_running s) \<noteq> [] \<or> sg_combining s \<noteq> [] \<or> sg_lost s \<noteq> [] \<or> inFlight c = [])"
  using reached_slots [OF assms(1)] assms(2) by (auto simp: slots_ok_def slots_open_def)

lemma lost_grows: "agent_step cfg content s s' \<Longrightarrow> set (sg_lost s) \<subseteq> set (sg_lost s')"
  by (cases rule: agent_step.cases) auto

text \<open>C28: A slot lost to a failed read stays lost: once the read of a sovereign task's input has thrown, the handler has
  ended without giving its slot back (the comment on the release says every exit gives it back), and from then on, whatever else
  happens, every request to execute that task is refused as already in flight, although it is not.\<close>

theorem failed_read_loses_the_slot:
  assumes "agent_reached cfg content s" and "slot_key (sc_texts cfg) t \<in> set (sg_lost s)"
    and "sv_capacity (sg_agent s) = Some c" and "\<not> sovereign_elsewhere t (sg_agent s)"
  shows "begin_work cfg env from' t capability False (sg_agent s) =
      (Inl (Error_response (slot_key (sc_texts cfg) t @ '' is already in flight here'')), sg_agent s) \<and>
    (\<forall>s'. agent_step cfg content s s' \<longrightarrow> slot_key (sc_texts cfg) t \<in> set (sg_lost s'))"
proof -
  let ?k = "slot_key (sc_texts cfg) t"
  from reached_slots [OF assms(1)] assms(3) have "mset (inFlight c) = mset (slots_open cfg s)" by (simp add: slots_ok_def)
  then have "set (inFlight c) = set (slots_open cfg s)" by (rule mset_eq_setD)
  then have "?k \<in> set (inFlight c)" using assms(2) by (simp add: slots_open_def)
  then have "take_slot cfg env ?k (sg_agent s) = (Some (?k @ '' is already in flight here''), sg_agent s)"
    using assms(3) by (simp add: take_slot_def take_offer_def decide_offer_def capacity_reason_text_def Let_def)
  with assms(2,4) lost_grows [of cfg content s] show ?thesis by (auto simp: begin_work_def Let_def)
qed

section \<open>Holds\<close>

definition holds_open :: "'l serving \<Rightarrow> string list" where
  "holds_open s = map ho_label (concat (map (option_list \<circ> rw_hold) (sg_running s)) @ sg_sending s @ sg_foreign s)"

text \<open>The watch list is that of the open holds; each running work's hold is on its own input.\<close>

definition hold_ok :: "running_work \<Rightarrow> bool" where
  "hold_ok r \<longleftrightarrow> (case rw_hold r of None \<Rightarrow> True | Some h \<Rightarrow> h = \<lparr>ho_label = tk_inputCid (ow_task (rw_open r)), ho_given = False\<rparr>) \<and>
     (ow_handle (rw_open r) \<noteq> None \<longrightarrow> rw_hold r = None)"

definition holds_ok :: "(string \<Rightarrow> bytes) \<Rightarrow> 'l serving \<Rightarrow> bool" where
  "holds_ok content s \<longleftrightarrow>
     (case sv_guard (sg_agent s) of
        None \<Rightarrow> holds_open s = []
      | Some g \<Rightarrow> watch_ok content (eg_guarded g) (holds_open s)) \<and>
     list_all hold_ok (sg_running s) \<and> list_all (\<lambda>h. \<not> ho_given h) (sg_sending s @ sg_foreign s) \<and>
     list_all (\<lambda>w. ow_handle w \<noteq> None \<longrightarrow> tk_label (ow_task w) \<noteq> Some Sovereign) (sg_reading s)"

lemma watch_ok_mset: "mset ls' = mset ls \<Longrightarrow> watch_ok content m ls \<longleftrightarrow> watch_ok content m ls'"
  by (simp add: watch_ok_def flip: count_mset)

lemma watch_ok_released:
  assumes "watch_ok content (eg_guarded g) ls" "l \<in> set ls" "release_hold \<lparr>ho_label = l, ho_given = False\<rparr> g = (h', g')"
    "mset ls = add_mset l (mset ls')"
  shows "watch_ok content (eg_guarded g') ls'"
proof -
  let ?hs = "\<lparr>ho_label = l, ho_given = False\<rparr> # map (\<lambda>l. \<lparr>ho_label = l, ho_given = False\<rparr>) ls'"
  have held: "still_held (map (\<lambda>l. \<lparr>ho_label = l, ho_given = False\<rparr>) xs) = xs" for xs
    by (induction xs) (simp_all add: still_held_def)
  have one: "still_held ?hs = l # ls'" using held [of ls'] by (simp add: still_held_def)
  have "watch_ok content (eg_guarded g) (still_held ?hs)"
    unfolding one using watch_ok_mset [of "l # ls'" ls content "eg_guarded g"] assms(1,4) by simp
  from watch_ok_release [OF this, of 0 h' g'] assms(3) have "watch_ok content (eg_guarded g') (still_held (?hs[0 := h']))" by simp
  moreover have "ho_given h'" using assms(3) by (auto simp: release_hold_def)
  ultimately show ?thesis using held [of ls'] by (simp add: still_held_def)
qed

lemma holds_ok_same:
  assumes "holds_ok content s" "map_option eg_guarded (sv_guard (sg_agent s')) = map_option eg_guarded (sv_guard (sg_agent s))"
    "mset (holds_open s') = mset (holds_open s)" "list_all hold_ok (sg_running s')"
    "list_all (\<lambda>h. \<not> ho_given h) (sg_sending s' @ sg_foreign s')"
    "list_all (\<lambda>w. ow_handle w \<noteq> None \<longrightarrow> tk_label (ow_task w) \<noteq> Some Sovereign) (sg_reading s')"
  shows "holds_ok content s'"
proof (cases "sv_guard (sg_agent s)")
  case None
  with assms show ?thesis by (auto simp: holds_ok_def)
next
  case (Some g)
  with assms(2) obtain g' where "sv_guard (sg_agent s') = Some g'" "eg_guarded g' = eg_guarded g" by auto
  with Some assms watch_ok_mset [OF assms(3), of content "eg_guarded g"] show ?thesis by (auto simp: holds_ok_def)
qed

lemma list_all_remove1: "list_all P xs \<Longrightarrow> list_all P (remove1 x xs)"
  by (auto simp: list_all_iff dest: set_remove1_subset [THEN subsetD])

lemma watch_ok_guard:
  assumes "guard_payload l (content l) g = (h, g')" "watch_ok content (eg_guarded g) ls"
  shows "watch_ok content (eg_guarded g') (ls @ [l])"
proof -
  from assms(1) have "eg_guarded g' = eg_guarded (snd (guard_payload l (content l) g))" by simp
  with watch_ok_hold [OF assms(2), of l] show ?thesis by (simp add: guard_payload_def)
qed

lemma guard_payload_hold: "guard_payload l b g = (h, g') \<Longrightarrow> h = \<lparr>ho_label = l, ho_given = False\<rparr>"
  by (simp add: guard_payload_def)

lemma start_work_holds:
  assumes "start_work cfg env w found s = (r, s')" "found = None \<or> found = Some (content (tk_inputCid (ow_task w)))"
    "ow_handle w \<noteq> None \<longrightarrow> tk_label (ow_task w) \<noteq> Some Sovereign"
  shows "hold_ok r \<and> rw_open r = w \<and>
    (case sv_guard s of
       None \<Rightarrow> sv_guard s' = None \<and> rw_hold r = None
     | Some g \<Rightarrow> \<exists>g'. sv_guard s' = Some g' \<and>
         (rw_hold r = None \<and> eg_guarded g' = eg_guarded g \<or>
          rw_hold r \<noteq> None \<and> (\<forall>ls. watch_ok content (eg_guarded g) ls \<longrightarrow> watch_ok content (eg_guarded g') (ls @ [tk_inputCid (ow_task w)]))))"
proof (cases "sv_guard s")
  case None
  with assms show ?thesis by (auto simp: start_work_def hold_ok_def)
next
  case (Some g)
  obtain hold g' where t: "takeSovereignHold (ow_task w) found g = (hold, g')" by (cases "takeSovereignHold (ow_task w) found g")
  have h: "hold = None \<and> g' = g \<or>
      tk_label (ow_task w) = Some Sovereign \<and> hold = Some \<lparr>ho_label = tk_inputCid (ow_task w), ho_given = False\<rparr> \<and>
      (\<forall>ls. watch_ok content (eg_guarded g) ls \<longrightarrow> watch_ok content (eg_guarded g') (ls @ [tk_inputCid (ow_task w)]))"
    using t assms(2)
    by (auto simp: takeSovereignHold_def dest: watch_ok_guard guard_payload_hold split: if_splits option.splits prod.splits)
  from assms(1) Some t have r: "rw_open r = w" "rw_hold r = hold" "sv_guard s' = Some g'" by (auto simp: start_work_def)
  with h assms(3) Some show ?thesis by (auto simp: hold_ok_def)
qed

lemma holds_ok_grow:
  assumes "holds_ok content s" "sv_guard (sg_agent s) = Some g" "sv_guard (sg_agent s') = Some g'"
    "watch_ok content (eg_guarded g) (holds_open s) \<longrightarrow> watch_ok content (eg_guarded g') (holds_open s @ [l])"
    "mset (holds_open s') = add_mset l (mset (holds_open s))" "list_all hold_ok (sg_running s')"
    "list_all (\<lambda>h. \<not> ho_given h) (sg_sending s' @ sg_foreign s')"
    "list_all (\<lambda>w. ow_handle w \<noteq> None \<longrightarrow> tk_label (ow_task w) \<noteq> Some Sovereign) (sg_reading s')"
  shows "holds_ok content s'"
  using assms watch_ok_mset [of "holds_open s'" "holds_open s @ [l]" content "eg_guarded g'"] by (auto simp: holds_ok_def)

lemma holds_ok_shrink:
  assumes "holds_ok content s" "sv_guard (sg_agent s) = Some g" "sv_guard (sg_agent s') = Some g'"
    "release_hold h g = (h', g')" "\<not> ho_given h" "ho_label h \<in> set (holds_open s)"
    "mset (holds_open s) = add_mset (ho_label h) (mset (holds_open s'))" "list_all hold_ok (sg_running s')"
    "list_all (\<lambda>h. \<not> ho_given h) (sg_sending s' @ sg_foreign s')"
    "list_all (\<lambda>w. ow_handle w \<noteq> None \<longrightarrow> tk_label (ow_task w) \<noteq> Some Sovereign) (sg_reading s')"
  shows "holds_ok content s'"
proof -
  have "h = \<lparr>ho_label = ho_label h, ho_given = False\<rparr>" using assms(5) by simp
  with assms(4) have "release_hold \<lparr>ho_label = ho_label h, ho_given = False\<rparr> g = (h', g')" by simp
  from watch_ok_released [OF _ assms(6) this assms(7)] assms(1,2,3,8,9,10) show ?thesis by (simp add: holds_ok_def)
qed

lemma holds_open_running: "r \<in> set (sg_running s) \<Longrightarrow>
    mset (holds_open s) = mset (map ho_label (option_list (rw_hold r))) +
      mset (holds_open (s\<lparr>sg_running := remove1 r (sg_running s)\<rparr>))"
proof -
  assume "r \<in> set (sg_running s)"
  then have "mset (sg_running s) = add_mset r (mset (remove1 r (sg_running s)))" by simp
  from arg_cong [OF this, of "\<lambda>M. \<Sum>r\<in>#M. mset (option_list (rw_hold r))"] show ?thesis
    by (simp add: holds_open_def mset_concat o_def multiset.map_comp flip: sum_mset_sum_list)
qed

lemma idle_holds: "idle_agent a \<Longrightarrow> holds_ok content (fresh_serving a)"
  by (auto simp: idle_agent_def holds_ok_def fresh_serving_def holds_open_def watch_ok_def split: option.splits)

lemma holds_ok_step:
  assumes "agent_step cfg content s s'" "holds_ok content s"
  shows "holds_ok content s'"
  using assms(1)
proof (cases rule: agent_step.cases)
  case (Serve env from' body a ag)
  then have "same_books (sg_agent s) ag" by (auto dest: serve_request_cases)
  with Serve(1) assms(2) show ?thesis
    by (intro holds_ok_same [OF assms(2)]) (auto simp: same_books_def holds_open_def holds_ok_def)
next
  case (Serve_work env from' body w ag)
  from serve_request_cases [OF Serve_work(2)] have "map_option eg_guarded (sv_guard ag) = map_option eg_guarded (sv_guard (sg_agent s))"
    "ow_handle w \<noteq> None \<longrightarrow> tk_label (ow_task w) \<noteq> Some Sovereign" by (auto simp: slot_more_def)
  with Serve_work(1) assms(2) show ?thesis by (intro holds_ok_same [OF assms(2)]) (auto simp: holds_open_def holds_ok_def)
next
  case (Serve_combine env from' body c ag)
  from serve_request_cases [OF Serve_combine(2)] have "map_option eg_guarded (sv_guard ag) = map_option eg_guarded (sv_guard (sg_agent s))"
    by (auto simp: slot_more_def)
  with Serve_combine(1) assms(2) show ?thesis by (intro holds_ok_same [OF assms(2)]) (auto simp: holds_open_def holds_ok_def)
next
  case (Read w found env r ag)
  have w: "ow_handle w \<noteq> None \<longrightarrow> tk_label (ow_task w) \<noteq> Some Sovereign"
    using assms(2) Read(2) by (auto simp: holds_ok_def list_all_iff)
  note st = start_work_holds [where content = content, OF Read(4,3) w]
  have ok: "list_all hold_ok (sg_running s')" "list_all (\<lambda>h. \<not> ho_given h) (sg_sending s' @ sg_foreign s')"
    "list_all (\<lambda>w. ow_handle w \<noteq> None \<longrightarrow> tk_label (ow_task w) \<noteq> Some Sovereign) (sg_reading s')"
    using assms(2) st Read(1) by (auto simp: holds_ok_def intro: list_all_remove1)
  show ?thesis
  proof (cases "rw_hold r")
    case None
    with st Read(1) have "map_option eg_guarded (sv_guard (sg_agent s')) = map_option eg_guarded (sv_guard (sg_agent s))"
      by (auto split: option.splits)
    then show ?thesis using Read(1) None ok
      by (intro holds_ok_same [OF assms(2)]) (simp_all add: holds_open_def option_list_def)
  next
    case (Some h)
    with st obtain g g' where g: "sv_guard (sg_agent s) = Some g" "sv_guard ag = Some g'"
      "\<forall>ls. watch_ok content (eg_guarded g) ls \<longrightarrow> watch_ok content (eg_guarded g') (ls @ [tk_inputCid (ow_task w)])"
      by (auto split: option.splits)
    have "ho_label h = tk_inputCid (ow_task w)" using st Some by (auto simp: hold_ok_def)
    with g(2) Read(1) Some ok show ?thesis
      by (intro holds_ok_grow [OF assms(2) g(1) _ spec [OF g(3), of "holds_open s"]]) (simp_all add: holds_open_def option_list_def)
  qed
next
  case (Read_threw w)
  with assms(2) show ?thesis
    by (intro holds_ok_same [OF assms(2)]) (auto simp: holds_open_def holds_ok_def intro: list_all_remove1)
next
  case (Executed_reply r out a hold ag)
  note f = finish_work_books [OF Executed_reply(3)]
  have r: "hold_ok r" using assms(2) Executed_reply(2) by (auto simp: holds_ok_def list_all_iff)
  have "hold = rw_hold r" using f r by (cases "ow_handle (rw_open r)") (auto simp: hold_ok_def)
  with f r holds_open_running [OF Executed_reply(2)] Executed_reply(1) assms(2) show ?thesis
    by (intro holds_ok_same [OF assms(2)])
      (auto simp: holds_ok_def hold_ok_def option_list_def holds_open_def intro: list_all_remove1 split: option.splits)
next
  case (Executed_filing r out handle from' t cid x ag)
  note f = finish_work_books [OF Executed_filing(3)]
  have r: "hold_ok r" using assms(2) Executed_filing(2) by (auto simp: holds_ok_def list_all_iff)
  have "rw_hold r = None" using f r by (auto simp: hold_ok_def)
  with f r holds_open_running [OF Executed_filing(2)] Executed_filing(1) assms(2) show ?thesis
    by (intro holds_ok_same [OF assms(2)])
      (auto simp: holds_ok_def option_list_def holds_open_def intro: list_all_remove1)
next
  case (Filed handle from' t cid x env a ag)
  from file_work_books [OF Filed(3)] Filed(1) assms(2) show ?thesis
    by (intro holds_ok_same [OF assms(2)]) (auto simp: holds_ok_def holds_open_def)
next
  case (Merged c fetch stored a ag)
  from finish_combine_books [OF Merged(3)] Merged(1) assms(2) show ?thesis
    by (intro holds_ok_same [OF assms(2)]) (auto simp: holds_ok_def holds_open_def)
next
  case (Frame_sent h g h' g')
  with assms(2) show ?thesis
    by (intro holds_ok_shrink [OF assms(2) Frame_sent(3) _ Frame_sent(4)])
      (auto simp: holds_ok_def holds_open_def list_all_iff image_mset_remove dest: set_remove1_subset [THEN subsetD])
next
  case (Own_hold g label h g')
  from guard_payload_hold [OF Own_hold(3)] Own_hold(1) assms(2) watch_ok_guard [of label content g h g' "holds_open s", OF Own_hold(3)] show ?thesis
    by (intro holds_ok_grow [OF assms(2) Own_hold(2), where l = label]) (auto simp: holds_ok_def holds_open_def)
next
  case (Own_release h g h' g')
  with assms(2) show ?thesis
    by (intro holds_ok_shrink [OF assms(2) Own_release(3) _ Own_release(4)])
      (auto simp: holds_ok_def holds_open_def list_all_iff image_mset_remove dest: set_remove1_subset [THEN subsetD])
next
  case (Own_record g g')
  with assms(2) show ?thesis by (intro holds_ok_same [OF assms(2)]) (auto simp: holds_ok_def holds_open_def)
next
  case (Own_mark cid)
  with assms(2) show ?thesis by (intro holds_ok_same [OF assms(2)]) (auto simp: holds_ok_def holds_open_def)
qed

lemma reached_holds: "agent_reached cfg content s \<Longrightarrow> holds_ok content s"
  by (induction rule: agent_reached.induct) (auto intro: idle_holds holds_ok_step)


text \<open>C8: No sovereign task is executed without its owner's say: on a node that checks capabilities, every sovereign task the
  executor was ever called with names the pinned owner and came with a chain that led, at the time, from that owner's pinned key to this node
  with the right to execute; and none of them came through the commit ceremony.\<close>

theorem sovereign_work_needs_a_chain:
  assumes "agent_reached cfg content s" and "sc_authorize cfg = Some (authorizeCapability codec verify tx opts)"
    and "(w, now) \<in> set (sg_ran s)" and "tk_label (ow_task w) = Some Sovereign"
  shows "ow_handle w = None \<and> tk_ownerId (ow_task w) = Some (ao_ownerId opts) \<and>
    (\<exists>key aud expiry. ao_ownerKey opts = Some key \<and>
       verifyChain codec verify (ow_capability w) \<lparr>vo_ownerKey = key, vo_ownerId = ao_ownerId opts, vo_audience = ao_audience opts,
         vo_ability = Execute, vo_now = now\<rparr> = Chain_ok aud expiry)"
proof -
  have "authorizeCapability codec verify tx opts now (Exec_work (ow_task w) (ow_capability w)) = Returned None \<and>
      (ow_handle w \<noteq> None \<longrightarrow> tk_label (ow_task w) \<noteq> Some Sovereign)"
    using assms(1,3)
  proof (induction arbitrary: w now rule: agent_reached.induct)
    case (reached_fresh a)
    then show ?case by (simp add: fresh_serving_def)
  next
    case (reached_more s s')
    show ?case
    proof (cases "(w, now) \<in> set (sg_ran s)")
      case False
      with reached_more.hyps(2) reached_more.prems show ?thesis
      proof (cases rule: agent_step.cases)
        case (Read w' found env r ag)
        with False reached_more.prems have "w' = w" "en_now env = now" "rw_verdict r = Returned None" by (auto split: if_splits)
        with Read(2,4) assms(2) reached_holds [OF reached_more.hyps(1)] show ?thesis
          by (auto simp: start_work_def holds_ok_def list_all_iff split: prod.splits)
      qed auto
    qed (rule reached_more.IH)
  qed
  with assms(4) show ?thesis by (auto simp: authorised_iff_chain_verifies)
qed

lemma env_pause:
  "en_now (env\<lparr>en_pause := p\<rparr>) = en_now env" "en_duty (env\<lparr>en_pause := p\<rparr>) = en_duty env"
  "en_random (env\<lparr>en_pause := p\<rparr>) = en_random env" "en_block (env\<lparr>en_pause := p\<rparr>) = en_block env"
  "en_providers (env\<lparr>en_pause := p\<rparr>) = en_providers env" "en_records (env\<lparr>en_pause := p\<rparr>) = en_records env"
  "en_reservations (env\<lparr>en_pause := p\<rparr>) = en_reservations env"
  by simp_all

lemma dispatch_ignores_pause: "dispatch_request cfg (env\<lparr>en_pause := p\<rparr>) from' request s = dispatch_request cfg env from' request s"
  unfolding dispatch_request_def answer_block_def answer_offer_def begin_combine_def take_slot_def answer_enrol_def
    answer_challenge_def answer_reveal_def begin_work_def env_pause ..

text \<open>A paused node takes no work: with the pause control saying so, a request to execute, commit, merge or offer is
  declined with that reason and nothing on the node changes, while every other request is answered as if the node were not
  paused; and a broken pause control declines the same requests in its own name.\<close>

theorem paused_node_takes_no_work:
  assumes "parseRequest body = Some request"
  shows "if declinedWhilePaused request
    then serve_request cfg (env\<lparr>en_pause := Pause_says True\<rparr>) from' body s =
           (Replied (pausedAnswer (en_duty env) request (pausedRefusal (sc_nodeId cfg)) s), s) \<and>
         serve_request cfg (env\<lparr>en_pause := Pause_misreports d\<rparr>) from' body s =
           (Replied (pausedAnswer (en_duty env) request (pauseMisreported (sc_nodeId cfg) d) s), s)
    else serve_request cfg (env\<lparr>en_pause := Pause_says True\<rparr>) from' body s =
           serve_request cfg (env\<lparr>en_pause := Never_pauses\<rparr>) from' body s"
  using assms by (auto simp: serve_request_def dispatch_ignores_pause)


lemma combine_inputs_Inr:
  "combine_inputs cfg fetch cs = Inr vs \<Longrightarrow>
   list_all2 (\<lambda>c v. \<exists>b. fetch c = Returned (Some b) \<and> length b \<le> MAX_PARTIAL_BYTES \<and> sc_decode cfg b = Some v) cs vs"
  by (induction cs arbitrary: vs) (auto split: settled.splits option.splits if_splits sum.splits)

lemma combine_inputs_Inl: "combine_inputs cfg fetch cs = Inl e \<Longrightarrow> (\<exists>m. e = Threw m) \<or> (\<exists>reason. e = Returned (no_merge reason))"
  by (induction cs arbitrary: e) (auto split: settled.splits option.splits if_splits sum.splits)

text \<open>A merge a node answers with is the sum of its inputs: when it names a result, the request was authorised, every input
  was obtained, within the size budget and decodable, the result is the CID of their merge, whose rows and counts are the sums over the
  inputs, and a signing node's statement verifies for exactly those inputs and that result.\<close>

theorem answered_merge_is_the_sum:
  assumes "combineAdmitted cfg fetch stored c = Returned (Combine_response (Some cid) reason a)"
    and "\<And>m k. sc_verify cfg (sc_sign cfg m k) m (sc_pub cfg k) = Some True"
  shows "cx_verdict c = Returned None \<and>
    (\<exists>vs bytes. list_all2 (\<lambda>i v. \<exists>b. fetch i = Returned (Some b) \<and> length b \<le> 9216 \<and> sc_decode cfg b = Some v) (cx_inputs c) vs \<and>
       canonicalCid (sc_codec cfg) (sc_cid_of cfg) (fabricCombiner vs) = Inr (cid, bytes) \<and>
       rows_of (fabricCombiner vs) = sum_list (map rows_of vs) \<and>
       count_of w (fabricCombiner vs) = sum_list (map (count_of w) vs)) \<and>
    (\<forall>signer x trusted now c'. sc_attest cfg = Signs signer \<longrightarrow>
       verifyCertificate (sc_codec cfg) (sc_verify cfg) x (rs_certificate signer) trusted now = Certificate_ok c' \<longrightarrow>
       verifyCombineAttestation (sc_codec cfg) (sc_verify cfg) x a (cx_inputs c) cid trusted now = Attestation_ok (rs_certificate signer))"
proof -
  from assms(1) have v: "cx_verdict c = Returned None"
    by (auto simp: combineAdmitted_def no_merge_def split: settled.splits option.splits)
  with assms(1) obtain vs where vs: "combine_inputs cfg fetch (cx_inputs c) = Inr vs"
    by (cases "combine_inputs cfg fetch (cx_inputs c)") (auto simp: combineAdmitted_def no_merge_def dest: combine_inputs_Inl)
  with assms(1) v obtain bytes where b: "canonicalCid (sc_codec cfg) (sc_cid_of cfg) (fabricCombiner vs) = Inr (cid, bytes)"
    and a: "case sc_attest cfg of Signs_nothing \<Rightarrow> a = Signed_by_nobody
      | Signs signer \<Rightarrow> \<exists>ra. signCombine (sc_codec cfg) (sc_sign cfg) (sc_pub cfg) signer (cx_inputs c) cid = Inr ra \<and> a = Attested ra"
    by (auto simp: combineAdmitted_def no_merge_def split: sum.splits settled.splits result_attestor.splits)
  have "verifyCombineAttestation (sc_codec cfg) (sc_verify cfg) x a (cx_inputs c) cid trusted now = Attestation_ok (rs_certificate signer)"
    if s: "sc_attest cfg = Signs signer"
      and t: "verifyCertificate (sc_codec cfg) (sc_verify cfg) x (rs_certificate signer) trusted now = Certificate_ok c'" for signer x trusted now c'
  proof -
    from a s obtain ra where ra: "sign_challenge (sc_sign cfg) (sc_pub cfg) signer (combineChallenge (sc_codec cfg) (cx_inputs c) cid) = Inr ra"
      "a = Attested ra" by (auto simp: signCombine_def)
    from sign_challenge_Inr [OF ra(1)] obtain ch where
      "combineChallenge (sc_codec cfg) (cx_inputs c) cid (c_nodeKey (rs_certificate signer)) = Inr ch"
      "ra = \<lparr>ra_certificate = rs_certificate signer, ra_signature = toHex (sc_sign cfg ch (rs_nodeSeed signer))\<rparr>"
      "c_nodeKey (rs_certificate signer) = toHex (sc_pub cfg (rs_nodeSeed signer))" by blast
    with t assms(2) ra(2) show ?thesis
      by (simp add: verifyCombineAttestation_def checkAttested_def checks_def Let_def del: toHex.simps)
  qed
  with v b combine_inputs_Inr [OF vs] fabric_merge_is_a_sum [of "[]" vs vs w] show ?thesis
    by (auto simp: MAX_PARTIAL_BYTES_def)
qed

section \<open>Examples\<close>

definition demo_authorizer :: authorizer_options where
  "demo_authorizer = \<lparr>ao_ownerId = ''ann'', ao_ownerKey = Some (toHex [1]), ao_audience = toHex [3]\<rparr>"

definition demo_agent_config :: "in_process_issuance agent_config" where
  "demo_agent_config = \<lparr>sc_nodeId = ''n'', sc_codec = demo_flat_codec, sc_decode = (\<lambda>b. Some (demo_partial 1)), sc_cid_of = (\<lambda>b. ''c''),
     sc_cid_bytes = (\<lambda>c. []), sc_sha256 = id, sc_sign = (\<lambda>m k. m), sc_pub = id, sc_verify = (\<lambda>s m k. Some (s = m)),
     sc_x509 = \<lparr>x_tbs = (\<lambda>_. []), x_encode = (\<lambda>_ s. s), x_decode = (\<lambda>_. None)\<rparr>, sc_ledger_ops = in_process, sc_texts = demo_texts,
     sc_authorize = Some (authorizeCapability demo_codec demo_verify demo_texts demo_authorizer), sc_attest = Signs demo_signer\<rparr>"

definition demo_env :: agent_env where
  "demo_env = \<lparr>en_now = 5, en_duty = 1, en_pause = Pause_says False, en_random = (\<lambda>n. []), en_block = Returned (Some [7]),
     en_providers = Returned [], en_records = Returned None, en_reservations = Returned []\<rparr>"

definition demo_agent :: "in_process_issuance agent_state" where
  "demo_agent = \<lparr>sv_capacity = Some \<lparr>lcap_nodeId = ''n'', maxConcurrent = 1, dutyCycle = Fixed_duty 1, inFlight = [], peak = 0\<rparr>,
     sv_guard = Some (new_egress_guard ''n'' ''ann''), sv_sovereignCids = None, sv_pending = new_commit_store ''n'', sv_ledger = None,
     sv_enroll = None\<rparr>"

definition demo_body :: cvalue where
  "demo_body = dag_sorted (taskFrame ''exec'' demo_owned_task (Some [demo_link [1] [3] [Execute]]))"

definition demo_work_open :: open_work where
  "demo_work_open = \<lparr>ow_from = ''p'', ow_task = demo_owned_task, ow_capability = [demo_link [1] [3] [Execute]], ow_handle = None\<rparr>"

definition demo_busy :: "in_process_issuance agent_state" where
  "demo_busy = demo_agent\<lparr>sv_capacity := Some \<lparr>lcap_nodeId = ''n'', maxConcurrent = 1, dutyCycle = Fixed_duty 1, inFlight = [''i:0''], peak = 1\<rparr>\<rparr>"

lemma demo_body_parses: "parseRequest demo_body = Some (Exec_request demo_owned_task (Some [demo_link [1] [3] [Execute]]))"
  unfolding demo_body_def
  by (rule task_request_arrives) (simp_all add: task_sendable_def demo_owned_task_def capability_sendable_def)

lemma demo_serves: "serve_request demo_agent_config demo_env ''p'' demo_body demo_agent = (Work_open demo_work_open, demo_busy)"
proof -
  have k: "slot_key demo_texts demo_owned_task = ''i:0''" by (simp add: slot_key_def demo_texts_def demo_owned_task_def)
  have t: "take_slot demo_agent_config demo_env ''i:0'' demo_agent = (None, demo_busy)"
    by (simp add: take_slot_def demo_agent_def demo_busy_def take_offer_def decide_offer_def set_add_def slots_def duty_now_def Let_def)
  have x: "sc_texts demo_agent_config = demo_texts" by (simp add: demo_agent_config_def)
  have e: "\<not> sovereign_elsewhere demo_owned_task demo_agent" by (simp add: sovereign_elsewhere_def demo_agent_def)
  have "begin_work demo_agent_config demo_env ''p'' demo_owned_task (Some [demo_link [1] [3] [Execute]]) False demo_agent = (Inr demo_work_open, demo_busy)"
    using k t by (simp add: begin_work_def x e demo_work_open_def Let_def)
  then show ?thesis by (simp add: serve_request_def demo_body_parses demo_env_def dispatch_request_def by_sum_def)
qed

definition demo_reading :: "in_process_issuance serving" where
  "demo_reading = (fresh_serving demo_agent)\<lparr>sg_agent := demo_busy, sg_reading := [demo_work_open]\<rparr>"

lemma demo_reading_reached: "agent_reached demo_agent_config content demo_reading"
proof -
  have "idle_agent demo_agent" by (simp add: idle_agent_def demo_agent_def new_egress_guard_def)
  moreover have "agent_step demo_agent_config content (fresh_serving demo_agent) demo_reading"
    using Serve_work [of demo_agent_config demo_env "''p''" demo_body "fresh_serving demo_agent" demo_work_open demo_busy content] demo_serves
    by (simp add: demo_reading_def fresh_serving_def)
  ultimately show ?thesis by blast
qed

definition demo_lost :: "in_process_issuance serving" where
  "demo_lost = (fresh_serving demo_busy)\<lparr>sg_lost := [''i:0'']\<rparr>"

lemma demo_lost_reached: "agent_reached demo_agent_config content demo_lost"
proof -
  have "agent_step demo_agent_config content demo_reading demo_lost"
    using Read_threw [of demo_work_open demo_reading demo_agent_config content]
    by (simp add: demo_reading_def demo_lost_def fresh_serving_def reads_input_def demo_busy_def demo_agent_def demo_work_open_def demo_owned_task_def
        demo_agent_config_def slot_key_def demo_texts_def)
  with demo_reading_reached show ?thesis by blast
qed

lemma demo_owned_key: "slot_key (sc_texts demo_agent_config) demo_owned_task = ''i:0''"
  by (simp add: demo_agent_config_def demo_texts_def slot_key_def demo_owned_task_def)

theorem failed_read_loses_the_slot_witness:
  "begin_work demo_agent_config demo_env ''q'' demo_owned_task None False (sg_agent demo_lost) =
     (Inl (Error_response ''i:0 is already in flight here''), sg_agent demo_lost)"
proof -
  let ?c = "\<lparr>lcap_nodeId = ''n'', maxConcurrent = 1, dutyCycle = Fixed_duty 1, inFlight = [''i:0''], peak = 1\<rparr>"
  have "sv_capacity (sg_agent demo_lost) = Some ?c" "\<not> sovereign_elsewhere demo_owned_task (sg_agent demo_lost)"
    "''i:0'' \<in> set (sg_lost demo_lost)"
    by (simp_all add: demo_lost_def fresh_serving_def demo_busy_def demo_agent_def sovereign_elsewhere_def)
  with failed_read_loses_the_slot [OF demo_lost_reached, of demo_owned_task ?c demo_env "''q''" None] demo_owned_key show ?thesis by simp
qed

definition demo_hold :: egress_hold where
  "demo_hold = \<lparr>ho_label = ''i'', ho_given = False\<rparr>"

definition demo_run_work :: running_work where
  "demo_run_work = \<lparr>rw_open = demo_work_open, rw_hold = Some demo_hold, rw_verdict = Returned None\<rparr>"

definition demo_running :: "in_process_issuance serving" where
  "demo_running = (fresh_serving demo_busy)\<lparr>sg_running := [demo_run_work], sg_ran := [(demo_work_open, 5)],
     sg_agent := demo_busy\<lparr>sv_guard := Some (snd (guard_payload ''i'' [9] (new_egress_guard ''n'' ''ann'')))\<rparr>\<rparr>"

lemma demo_chain_verifies: "authorizeCapability demo_codec demo_verify demo_texts demo_authorizer 5
    (Exec_work demo_owned_task [demo_link [1] [3] [Execute]]) = Returned None"
proof -
  have "verifyChain demo_codec demo_verify [demo_link [1] [3] [Execute]] demo_verify_options =
      Chain_ok (toHex [3]) (earliest_expiry [demo_link [1] [3] [Execute]])"
    by (simp add: verifyChain_ok_iff demo_link_good MAX_CHAIN_DEPTH_def del: toHex.simps)
  then show ?thesis
    by (simp add: authorizeCapability_def demo_owned_task_def demo_authorizer_def demo_verify_options_def del: toHex.simps)
qed

lemma demo_running_reached: "agent_reached demo_agent_config (\<lambda>c. [9]) demo_running"
proof -
  let ?ag = "demo_busy\<lparr>sv_guard := Some (snd (guard_payload ''i'' [9] (new_egress_guard ''n'' ''ann'')))\<rparr>"
  have "sv_guard demo_busy = Some (new_egress_guard ''n'' ''ann'')" by (simp add: demo_busy_def demo_agent_def)
  moreover have "takeSovereignHold demo_owned_task (Some [9]) (new_egress_guard ''n'' ''ann'') =
      (Some demo_hold, snd (guard_payload ''i'' [9] (new_egress_guard ''n'' ''ann'')))"
    by (simp add: takeSovereignHold_def demo_owned_task_def demo_hold_def guard_payload_def)
  moreover have "ow_task demo_work_open = demo_owned_task" "ow_capability demo_work_open = [demo_link [1] [3] [Execute]]"
    by (simp_all add: demo_work_open_def)
  ultimately have "start_work demo_agent_config demo_env demo_work_open (Some [9]) demo_busy = (demo_run_work, ?ag)"
    using demo_chain_verifies by (simp add: start_work_def demo_run_work_def demo_agent_config_def demo_env_def)
  then have "agent_step demo_agent_config (\<lambda>c. [9]) demo_reading demo_running"
    using Read [of demo_work_open demo_reading "Some [9]" "\<lambda>c. [9]" demo_agent_config demo_env demo_run_work ?ag]
    by (simp add: demo_reading_def demo_running_def fresh_serving_def demo_run_work_def demo_env_def)
  with demo_reading_reached show ?thesis by blast
qed


theorem slots_are_given_back_witness:
  "\<exists>c. sv_capacity (sg_agent demo_running) = Some c \<and> mset (inFlight c) = mset (slots_open demo_agent_config demo_running)"
  using slots_are_given_back [OF demo_running_reached]
  by (simp add: demo_running_def fresh_serving_def demo_busy_def)

theorem sovereign_work_needs_a_chain_witness:
  "tk_ownerId demo_owned_task = Some (ao_ownerId demo_authorizer) \<and> ow_handle demo_work_open = None"
  using sovereign_work_needs_a_chain [OF demo_running_reached, of demo_codec demo_verify demo_texts demo_authorizer demo_work_open 5]
  by (simp add: demo_running_def fresh_serving_def demo_agent_config_def demo_work_open_def demo_owned_task_def)

theorem paused_node_takes_no_work_witness:
  "serve_request demo_agent_config (demo_env\<lparr>en_pause := Pause_says True\<rparr>) ''p'' demo_body demo_agent =
     (Replied (Error_response (pausedRefusal ''n'')), demo_agent)"
  using paused_node_takes_no_work [OF demo_body_parses, of demo_agent_config demo_env "''p''" demo_agent]
  by (simp add: pausedAnswer_def demo_agent_config_def)


theorem answered_merge_is_the_sum_witness:
  "let c = \<lparr>cx_from = ''p'', cx_inputs = [''x'', ''y''], cx_verdict = Returned None\<rparr>
   in \<exists>vs. list_all2 (\<lambda>i v. v = demo_partial 1) (cx_inputs c) vs \<and> rows_of (fabricCombiner vs) = sum_list (map rows_of vs)"
proof -
  let ?c = "\<lparr>cx_from = ''p'', cx_inputs = [''x'', ''y''], cx_verdict = Returned None\<rparr>"
  let ?fetch = "\<lambda>c. Returned (Some [7 :: 8 word])"
  have "combine_inputs demo_agent_config ?fetch [''x'', ''y''] = Inr [demo_partial 1, demo_partial 1]"
    by (simp add: demo_agent_config_def MAX_PARTIAL_BYTES_def)
  moreover have "fabricCombiner [demo_partial 1, demo_partial 1] =
      CObj [(''counts'', CObj [(''w'', CNum (Fin 2))]), (''rows'', CNum (Fin 2))]"
    by (simp add: fabricCombiner_def demo_partial_def add_input_def asFabricPartial_def asRecord_def add_count_def assign_number_def)
  moreover have "canonicalCid (sc_codec demo_agent_config) (sc_cid_of demo_agent_config)
      (CObj [(''counts'', CObj [(''w'', CNum (Fin 2))]), (''rows'', CNum (Fin 2))]) = Inr (''c'', [0])"
    by (simp add: canonicalCid_def demo_flat demo_agent_config_def)
  moreover have "signCombine (sc_codec demo_agent_config) (sc_sign demo_agent_config) (sc_pub demo_agent_config) demo_signer [''x'', ''y''] ''c'' =
      Inr \<lparr>ra_certificate = demo_result_cert, ra_signature = toHex [0]\<rparr>"
    by (simp add: signCombine_def sign_challenge_def signingKeyOf_def combineChallenge_def combine_value_def demo_flat demo_agent_config_def
        demo_signer_def demo_result_cert_def Let_def del: toHex.simps)
  moreover have "sc_attest demo_agent_config = Signs demo_signer" by (simp add: demo_agent_config_def)
  ultimately have c: "combineAdmitted demo_agent_config ?fetch (Returned ()) ?c =
      Returned (Combine_response (Some ''c'') [] (Attested \<lparr>ra_certificate = demo_result_cert, ra_signature = toHex [0]\<rparr>))"
    by (simp add: combineAdmitted_def del: combine_inputs.simps)
  have "\<exists>vs. list_all2 (\<lambda>i v. \<exists>b. ?fetch i = Returned (Some b) \<and> length b \<le> 9216 \<and> sc_decode demo_agent_config b = Some v) [''x'', ''y''] vs \<and>
      rows_of (fabricCombiner vs) = sum_list (map rows_of vs)"
    using answered_merge_is_the_sum [OF c, of "''w''"] by (auto simp: demo_agent_config_def)
  then show ?thesis by (auto simp: demo_agent_config_def list_all2_Cons1)
qed

end
