(* ===== verification/Submit.thy ===== *)
theory Submit
  imports Lease Placement Speculation Coverage Quorum Checkpoint Verify
begin

text \<open>
  The parts of \<open>packages/core/src/job/submit.ts\<close> around its dispatch loop: what a job is, the fold of
  two generations of one shard (\<open>mergeVerifications\<close>), the receipt for an agreement (\<open>receiptFor\<close>,
  \<open>jobAttestationOf\<close>), resumption from a checkpoint (\<open>jobIdOf\<close>, \<open>resumeState\<close>, \<open>carriedResult\<close>), the quorum
  gates and the placements \<open>submitJob\<close> makes before it dispatches anything, and the accounting it returns
  when every shard has settled.  The loop between the two is in \<open>Shard_Loop\<close>.

  A message the source builds as a string is a value of a datatype here, with the values it interpolates.
  The store, the codec, the certificate check and the admission control are parameters.
\<close>

section \<open>The job and its shards\<close>

text \<open>An owner of \<open>None\<close> is one that is not a string, which the source checks for.\<close>

datatype shard_spec =
    Public_shard (sh_value: cvalue)
  | Sovereign_shard (sh_value: cvalue) (sh_owner: "string option")

fun is_sovereign :: "shard_spec \<Rightarrow> bool" where
  "is_sovereign (Public_shard v) = False"
| "is_sovereign (Sovereign_shard v ow) = True"

datatype shortfall_policy = Runs_at_available_redundancy | Refuses_the_shard

text \<open>An executor is its node id and whether it speaks both rounds of the ceremony.\<close>

record job_spec =
  jo_moduleCid :: string
  jo_moduleRecord :: "name_record option"
  jo_shards :: "shard_spec list"
  jo_executors :: "(string \<times> bool) list"
  jo_nodes :: "node_descriptor list"
  jo_redundancy :: jsnum
  jo_onQuorumShortfall :: shortfall_policy
  jo_leaseMs :: "jsnum option"

datatype submit_error =
    No_shards
  | Bad_redundancy_asked jsnum
  | Input_not_encodable nat encode_error
  | Missing_node_descriptor string
  | Shard_missing_owner nat
  | Checkpoint_unreadable checkpoint_failure nat
  | Checkpoint_names_another_job string string

datatype submit_throw =
    Bad_ledger ledger_error
  | Bad_lease_table lease_error
  | Job_id_not_encodable encode_error
  | Checkpoint_not_encodable encode_error
  | Attestation_not_encodable encode_error
  | Two_replicas_one_key

definition shard_label :: "shard_spec \<Rightarrow> sovereignty" where
  "shard_label shard = (if is_sovereign shard then Sovereign else Public)"

definition requestFor :: "shard_spec \<Rightarrow> string \<Rightarrow> jsnum \<Rightarrow> placement_request" where
  "requestFor shard shardId redundancy =
     (case shard of
        Sovereign_shard v ow \<Rightarrow> \<lparr>pr_shardId = shardId, pr_label = Sovereign, pr_ownerId = ow, pr_redundancy = redundancy\<rparr>
      | Public_shard v \<Rightarrow> \<lparr>pr_shardId = shardId, pr_label = Public, pr_ownerId = None, pr_redundancy = redundancy\<rparr>)"

definition capacitySlotKey :: "string \<Rightarrow> nat \<Rightarrow> string" where
  "capacitySlotKey inputCid partitionIndex = inputCid @ '':'' @ nat_text partitionIndex"

definition inFlightRefusal :: "string \<Rightarrow> string" where
  "inFlightRefusal slotKey = slotKey @ '' is already in flight here''"

definition task_of :: "job_spec \<Rightarrow> nat \<Rightarrow> string \<Rightarrow> shard_spec \<Rightarrow> task" where
  "task_of spec i inputCid shard =
     \<lparr>tk_moduleCid = jo_moduleCid spec, tk_inputCid = inputCid, tk_partitionIndex = int i,
      tk_partitionCount = int (length (jo_shards spec)), tk_label = Some (shard_label shard),
      tk_ownerId = (if is_sovereign shard then sh_owner shard else None), tk_moduleRecord = jo_moduleRecord spec\<rparr>"

section \<open>What a shard's verification is\<close>

datatype unplaced_reason =
    By_plan unplaceable_reason
  | By_offers offer_failure
  | By_quorum quorum_refusal
  | Carried_not_placed

datatype shard_reason =
    Verdict_said insufficient_reason
  | Dispatch_threw string
  | Joined "shard_reason list"
  | Not_placed unplaced_reason
  | Generations_used nat
  | None_left_untried nat

datatype shard_verification =
    V_agreed string cvalue "agreeing_replica list" nat failures run_cost run_cost
  | V_disagreed "(string \<times> string list) list" failures run_cost
  | V_insufficient shard_reason failures

fun of_verdict :: "verification_result \<Rightarrow> shard_verification" where
  "of_verdict (Agreed cid out ag n fs gross useful) = V_agreed cid out ag n fs gross useful"
| "of_verdict (Disagreed groups fs gross) = V_disagreed groups fs gross"
| "of_verdict (Insufficient r fs) = V_insufficient (Verdict_said r) fs"

fun is_insufficient :: "shard_verification \<Rightarrow> bool" where
  "is_insufficient (V_insufficient r fs) = True"
| "is_insufficient (V_agreed cid out ag n fs gross useful) = False"
| "is_insufficient (V_disagreed groups fs gross) = False"

fun is_agreed :: "shard_verification \<Rightarrow> bool" where
  "is_agreed (V_agreed cid out ag n fs gross useful) = True"
| "is_agreed (V_disagreed groups fs gross) = False"
| "is_agreed (V_insufficient r fs) = False"

section \<open>Two generations of one shard\<close>

definition no_cost :: run_cost where
  "no_cost = \<lparr>co_fuel = 0, co_execMs = 0, co_hostCalls = 0, co_peakMemoryPages = 0\<rparr>"

definition add_cost :: "run_cost \<Rightarrow> run_cost \<Rightarrow> run_cost" where
  "add_cost a b = \<lparr>co_fuel = co_fuel a + co_fuel b, co_execMs = co_execMs a + co_execMs b,
     co_hostCalls = co_hostCalls a + co_hostCalls b, co_peakMemoryPages = co_peakMemoryPages a + co_peakMemoryPages b\<rparr>"

text \<open>What the fold has gathered so far: the nodes by result, the agreeing replicas, the failures, the
  reasons, the first agreeing generation's result, output and cost, and the gross cost.\<close>

record merge_state =
  mg_nodes :: "(string, string list) jsmap"
  mg_agreeing :: "agreeing_replica list"
  mg_failures :: failures
  mg_reasons :: "shard_reason list"
  mg_winner :: "(string \<times> cvalue \<times> run_cost) option"
  mg_gross :: run_cost

definition merge_start :: merge_state where
  "merge_start = \<lparr>mg_nodes = [], mg_agreeing = [], mg_failures = [], mg_reasons = [], mg_winner = None, mg_gross = no_cost\<rparr>"

definition note_nodes :: "string \<Rightarrow> string list \<Rightarrow> (string, string list) jsmap \<Rightarrow> (string, string list) jsmap" where
  "note_nodes key ns m = map_set key ((case map_get m key of None \<Rightarrow> [] | Some old \<Rightarrow> old) @ ns) m"

fun merge_one :: "merge_state \<Rightarrow> shard_verification \<Rightarrow> merge_state" where
  "merge_one st (V_agreed cid out ag n fs gross useful) =
     st\<lparr>mg_gross := add_cost (mg_gross st) gross,
        mg_winner := (case mg_winner st of None \<Rightarrow> Some (cid, out, useful) | Some w \<Rightarrow> Some w),
        mg_nodes := note_nodes cid (map ag_nodeId ag) (mg_nodes st),
        mg_agreeing := mg_agreeing st @ ag\<rparr>"
| "merge_one st (V_disagreed groups fs gross) =
     st\<lparr>mg_failures := mg_failures st @ fs,
        mg_gross := add_cost (mg_gross st) gross,
        mg_nodes := foldl (\<lambda>m g. note_nodes (fst g) (snd g) m) (mg_nodes st) groups\<rparr>"
| "merge_one st (V_insufficient r fs) =
     st\<lparr>mg_failures := mg_failures st @ fs, mg_reasons := mg_reasons st @ [r]\<rparr>"

definition merge_end :: "merge_state \<Rightarrow> shard_verification" where
  "merge_end st =
     (if length (mg_nodes st) > 1 then V_disagreed (mg_nodes st) (mg_failures st) (mg_gross st)
      else case mg_winner st of
             None \<Rightarrow> V_insufficient (Joined (mg_reasons st)) (mg_failures st)
           | Some (cid, out, useful) \<Rightarrow>
               V_agreed cid out (mg_agreeing st) (length (mg_agreeing st)) (mg_failures st) (mg_gross st) useful)"

definition mergeVerifications :: "shard_verification \<Rightarrow> shard_verification \<Rightarrow> shard_verification" where
  "mergeVerifications v w = merge_end (foldl merge_one merge_start [v, w])"

section \<open>The receipt\<close>

datatype unaccounted =
    No_descriptor_held
  | No_certificate_held
  | Signs_nothing
  | Other_node_key string string
  | Check_refused attestation_refusal

datatype absence_reason =
    No_replica_checked "(string \<times> unaccounted) list"
  | Only_some_checked nat nat "(string \<times> unaccounted) list"
  | Not_agreed string
  | Answer_carried

datatype shard_attestation =
    Receipt attestation_receipt
  | No_verified_attestation absence_reason nat nat

definition noAgreementToAttest :: "string \<Rightarrow> shard_attestation" where
  "noAgreementToAttest status = No_verified_attestation (Not_agreed status) 0 0"

definition descriptor_map :: "node_descriptor list \<Rightarrow> (string, node_descriptor) jsmap" where
  "descriptor_map nodes = foldl (\<lambda>m n. map_set (nd_nodeId n) n m) [] nodes"

text \<open>The check of one replica: its verified certificate, or why it counts for nothing.\<close>

datatype replica_check = Checked node_certificate | Unaccounted unaccounted | Check_threw encode_error

definition check_replica ::
  "codec \<Rightarrow> verifier \<Rightarrow> x509_codec \<Rightarrow> result_work \<Rightarrow> (string, node_descriptor) jsmap \<Rightarrow> rat \<Rightarrow> agreeing_replica
    \<Rightarrow> replica_check" where
  "check_replica codec verify x w descriptors now replica =
     (case map_get descriptors (ag_nodeId replica) of
        None \<Rightarrow> Unaccounted No_descriptor_held
      | Some d \<Rightarrow>
          (case nd_certificate d of
             None \<Rightarrow> Unaccounted No_certificate_held
           | Some c \<Rightarrow>
               (case ag_attestation replica of
                  Signed_by_nobody \<Rightarrow> Unaccounted Signs_nothing
                | Attested a \<Rightarrow>
                    if c_nodeKey (ra_certificate a) \<noteq> c_nodeKey c
                    then Unaccounted (Other_node_key (c_nodeKey (ra_certificate a)) (c_nodeKey c))
                    else (case verifyResultAttestation codec verify x (ag_attestation replica) w [c_issuer c] now of
                            Attestation_threw e \<Rightarrow> Check_threw e
                          | Attestation_refused refusal \<Rightarrow> Unaccounted (Check_refused refusal)
                          | Attestation_ok cert \<Rightarrow> Checked cert))))"

fun check_replicas ::
  "(agreeing_replica \<Rightarrow> replica_check) \<Rightarrow> agreeing_replica list
    \<Rightarrow> encode_error + node_certificate list \<times> (string \<times> unaccounted) list" where
  "check_replicas check [] = Inr ([], [])"
| "check_replicas check (r # rs) =
     (case check r of
        Check_threw e \<Rightarrow> Inl e
      | Checked c \<Rightarrow> map_sum id (\<lambda>(cs, us). (c # cs, us)) (check_replicas check rs)
      | Unaccounted u \<Rightarrow> map_sum id (\<lambda>(cs, us). (cs, (ag_nodeId r, u) # us)) (check_replicas check rs))"

definition receiptFor ::
  "codec \<Rightarrow> verifier \<Rightarrow> x509_codec \<Rightarrow> agreeing_replica list \<Rightarrow> result_work \<Rightarrow> (string, node_descriptor) jsmap \<Rightarrow> rat
    \<Rightarrow> submit_throw + shard_attestation" where
  "receiptFor codec verify x agreeing w descriptors now =
     (case check_replicas (check_replica codec verify x w descriptors now) agreeing of
        Inl e \<Rightarrow> Inl (Attestation_not_encodable e)
      | Inr (verified, unaccounted) \<Rightarrow>
          if length unaccounted > 0 \<or> length verified = 0
          then Inr (No_verified_attestation
                 (if length verified = 0 then No_replica_checked unaccounted
                  else Only_some_checked (length verified) (length agreeing) unaccounted)
                 (length agreeing) (length verified))
          else if length (set_of_list (map c_nodeKey verified)) \<noteq> length verified then Inl Two_replicas_one_key
          else Inr (Receipt (attestationReceipt verified)))"

section \<open>The identity of a job, and resuming one\<close>

definition job_value :: "string \<Rightarrow> string list \<Rightarrow> cvalue" where
  "job_value moduleCid inputCids = CObj [(''module'', CStr moduleCid), (''inputs'', CList (map CStr inputCids))]"

definition jobIdOf :: "codec \<Rightarrow> (bytes \<Rightarrow> string) \<Rightarrow> string \<Rightarrow> string list \<Rightarrow> submit_throw + string" where
  "jobIdOf codec cid_of moduleCid inputCids =
     (case canonicalCid codec cid_of (job_value moduleCid inputCids) of
        Inl e \<Rightarrow> Inl (Job_id_not_encodable e)
      | Inr (cid, bytes) \<Rightarrow> Inr cid)"

record carried_shard =
  ca_resultCid :: string
  ca_output :: cvalue

record resume_state =
  re_carried :: "(rat, carried_shard) jsmap"
  re_from :: "string option"
  re_skipped :: nat

text \<open>\<open>parse\<close> is \<open>CID.parse\<close>, which throws on a string that is not a CID; \<open>decode\<close> throws on bytes it cannot read.\<close>

definition carry_shard ::
  "(string \<Rightarrow> string option) \<Rightarrow> decoder \<Rightarrow> 'w store_ops \<Rightarrow> 'w \<Rightarrow> nat \<Rightarrow> (rat, carried_shard) jsmap \<Rightarrow> completed_shard
    \<Rightarrow> (rat, carried_shard) jsmap" where
  "carry_shard parse decode ops s partitionCount m shard =
     (if cs_index shard \<ge> of_nat partitionCount then m
      else case parse (cs_result shard) of
             None \<Rightarrow> m
           | Some resultCid \<Rightarrow>
               (case get_block ops resultCid s of
                  None \<Rightarrow> m
                | Some bytes \<Rightarrow>
                    (case decode bytes of
                       None \<Rightarrow> m
                     | Some v \<Rightarrow> map_set (cs_index shard) \<lparr>ca_resultCid = resultCid, ca_output = v\<rparr> m)))"

definition resumeState ::
  "(string \<Rightarrow> string option) \<Rightarrow> decoder \<Rightarrow> 'w store_ops \<Rightarrow> string list option \<Rightarrow> 'w \<Rightarrow> string \<Rightarrow> nat
    \<Rightarrow> submit_error + resume_state" where
  "resumeState parse decode ops handles s jobId partitionCount =
     (case handles of
        None \<Rightarrow> Inr \<lparr>re_carried = [], re_from = None, re_skipped = 0\<rparr>
      | Some hs \<Rightarrow>
          if length hs = 0 then Inr \<lparr>re_carried = [], re_from = None, re_skipped = 0\<rparr>
          else (case recoverCheckpoint decode ops hs s of
                  None \<Rightarrow>
                    Inl (Checkpoint_unreadable
                          (case readCheckpoint decode ops (hd hs) s of Inr c \<Rightarrow> Block_missing (hd hs) | Inl f \<Rightarrow> f)
                          (length hs))
                | Some recovered \<Rightarrow>
                    if ck_jobId (found_checkpoint recovered) \<noteq> jobId
                    then Inl (Checkpoint_names_another_job jobId (ck_jobId (found_checkpoint recovered)))
                    else Inr \<lparr>re_carried = foldl (carry_shard parse decode ops s partitionCount) []
                                (ck_completed (found_checkpoint recovered)),
                              re_from = Some (found_cid recovered), re_skipped = found_skipped recovered\<rparr>))"

section \<open>The quorum gates\<close>

datatype quorum_skipped = Owner_is_one_operator | Redundancy_one | Certificate_missing | Answer_was_carried

datatype shard_quorum =
    Composed "string list"
  | Not_composed quorum_refusal
  | Not_attempted quorum_skipped

text \<open>The two arrays a gate can point its shard at; the offers are grouped by which of them it is.\<close>

datatype pool_ref = All_candidates | Quorum_pool

record shard_gate =
  gt_quorum :: shard_quorum
  gt_pool :: pool_ref
  gt_degraded :: bool
  gt_refusal :: "quorum_refusal option"

definition candidate_nodes :: "job_spec \<Rightarrow> node_descriptor list" where
  "candidate_nodes spec = filter (\<lambda>n. nd_nodeId n \<in> set (map fst (jo_executors spec))) (jo_nodes spec)"

definition certificated :: "node_descriptor list \<Rightarrow> node_certificate list" where
  "certificated nodes = concat (map (\<lambda>n. case nd_certificate n of None \<Rightarrow> [] | Some c \<Rightarrow> [c]) nodes)"

definition peer_ids :: "node_descriptor list \<Rightarrow> (string, string) jsmap" where
  "peer_ids nodes =
     foldl (\<lambda>m n. case nd_certificate n of None \<Rightarrow> m | Some c \<Rightarrow> map_set (c_nodeKey c) (nd_nodeId n) m) [] nodes"

definition compose_for ::
  "(string \<Rightarrow> string \<Rightarrow> int) \<Rightarrow> node_descriptor list \<Rightarrow> nat \<Rightarrow> quorum_result option" where
  "compose_for lc candidates redundancy =
     (if length candidates > 0 \<and> length (certificated candidates) = length candidates \<and> redundancy \<ge> 2
      then Some (composeQuorum lc (certificated candidates)
             \<lparr>q_size = redundancy, q_requireIndependentPaths = None, q_requireDistinctIssuers = Some False,
              q_peerIdOf = Some (\<lambda>c. map_get (peer_ids candidates) (c_nodeKey c))\<rparr>)
      else None)"

definition quorum_pool :: "quorum_result option \<Rightarrow> node_descriptor list \<Rightarrow> node_descriptor list" where
  "quorum_pool composition candidates =
     (case composition of
        Some (Quorum_ok members operators strength) \<Rightarrow>
          filter (\<lambda>n. case nd_certificate n of None \<Rightarrow> False
                      | Some c \<Rightarrow> c_nodeKey c \<in> set (map c_nodeKey members)) candidates
      | _ \<Rightarrow> candidates)"

definition gate_of ::
  "quorum_result option \<Rightarrow> nat \<Rightarrow> shortfall_policy \<Rightarrow> shard_spec \<Rightarrow> shard_gate" where
  "gate_of composition redundancy policy shard =
     (if is_sovereign shard
      then \<lparr>gt_quorum = Not_attempted Owner_is_one_operator, gt_pool = All_candidates, gt_degraded = False, gt_refusal = None\<rparr>
      else if redundancy < 2
      then \<lparr>gt_quorum = Not_attempted Redundancy_one, gt_pool = All_candidates, gt_degraded = False, gt_refusal = None\<rparr>
      else case composition of
             None \<Rightarrow> \<lparr>gt_quorum = Not_attempted Certificate_missing, gt_pool = All_candidates, gt_degraded = False,
                      gt_refusal = None\<rparr>
           | Some (Quorum_ok members operators strength) \<Rightarrow>
               \<lparr>gt_quorum = Composed operators, gt_pool = Quorum_pool, gt_degraded = False, gt_refusal = None\<rparr>
           | Some (Quorum_refused refusal) \<Rightarrow>
               \<lparr>gt_quorum = Not_composed refusal, gt_pool = All_candidates,
                gt_degraded = (policy = Runs_at_available_redundancy),
                gt_refusal = (if policy = Refuses_the_shard then Some refusal else None)\<rparr>)"

section \<open>Where every shard runs first\<close>

datatype shard_placement =
    Sp_placed (sp_nodeIds: "string list") (sp_degraded: bool)
  | Sp_unplaceable unplaced_reason

definition of_placement :: "placement \<Rightarrow> shard_placement" where
  "of_placement p = (case p of Placed sid ids n degraded \<Rightarrow> Sp_placed ids degraded | Unplaceable sid r \<Rightarrow> Sp_unplaceable (By_plan r))"

definition of_offered :: "'r offered_placement \<Rightarrow> shard_placement" where
  "of_offered p = (case p of Offered_placed sid ids n degraded rjs k \<Rightarrow> Sp_placed ids degraded
     | Offered_unplaceable sid f rjs k \<Rightarrow> Sp_unplaceable (By_offers f))"

definition rejections_of :: "'r offered_placement \<Rightarrow> 'r rejection list" where
  "rejections_of p = (case p of Offered_placed sid ids n degraded rjs k \<Rightarrow> rjs | Offered_unplaceable sid f rjs k \<Rightarrow> rjs)"

text \<open>A shard as the placements see it: its index, whether a checkpoint carries it, its specification, its gate.\<close>

record gated_shard =
  gs_index :: nat
  gs_carried :: bool
  gs_spec :: shard_spec
  gs_gate :: shard_gate

definition not_placed :: "gated_shard \<Rightarrow> unplaced_reason option" where
  "not_placed g = (if gs_carried g then Some Carried_not_placed else map_option By_quorum (gt_refusal (gs_gate g)))"

definition request_of :: "jsnum \<Rightarrow> gated_shard \<Rightarrow> placement_request" where
  "request_of redundancy g = requestFor (gs_spec g) (nat_text (gs_index g)) redundancy"

definition placed_count :: "(string, rat) jsmap \<Rightarrow> string \<Rightarrow> rat" where
  "placed_count m k = (case map_get m k of None \<Rightarrow> 0 | Some n \<Rightarrow> n)"

definition bump :: "(string, rat) jsmap \<Rightarrow> string \<Rightarrow> (string, rat) jsmap" where
  "bump m k = map_set k (placed_count m k + 1) m"

text \<open>Without an admission control: shard after shard, the load of a node raised by what this job gave it.\<close>

fun place_by_load ::
  "(string \<Rightarrow> string \<Rightarrow> int) \<Rightarrow> (pool_ref \<Rightarrow> node_descriptor list) \<Rightarrow> jsnum \<Rightarrow> (string, rat) jsmap \<Rightarrow> gated_shard list
    \<Rightarrow> shard_placement list" where
  "place_by_load lc pools redundancy dispatched [] = []"
| "place_by_load lc pools redundancy dispatched (g # gs) =
     (case not_placed g of
        Some r \<Rightarrow> Sp_unplaceable r # place_by_load lc pools redundancy dispatched gs
      | None \<Rightarrow>
          let nodes = map (\<lambda>n. n\<lparr>nd_load := nd_load n + placed_count dispatched (nd_nodeId n)\<rparr>) (pools (gt_pool (gs_gate g)));
              placement = of_placement (hd (plan_placements (planPlacement lc [request_of redundancy g] nodes)));
              dispatched' = (case placement of Sp_placed ids degraded \<Rightarrow> foldl bump dispatched ids
                             | Sp_unplaceable r \<Rightarrow> dispatched)
          in placement # place_by_load lc pools redundancy dispatched' gs)"

text \<open>With one: the shards that may be placed, grouped by pool, each group one negotiation.\<close>

fun offer_groups ::
  "(string \<Rightarrow> string) \<Rightarrow> (string \<Rightarrow> string \<Rightarrow> int) \<Rightarrow> (string, 'a) admit \<Rightarrow> (pool_ref \<Rightarrow> node_descriptor list) \<Rightarrow> jsnum
    \<Rightarrow> (pool_ref, gated_shard list) jsmap \<Rightarrow> 'a \<Rightarrow> (nat, string offered_placement) jsmap \<times> 'a" where
  "offer_groups hash lc admit pools redundancy [] a = ([], a)"
| "offer_groups hash lc admit pools redundancy ((ref, gs) # rest) a =
     (let (offered, a1) = planWithOffers hash lc (map (request_of redundancy) gs) (pools ref) \<lparr>oo_d = None, oo_admit = Some admit\<rparr> a;
          (placed, a2) = offer_groups hash lc admit pools redundancy rest a1
      in (zip (map gs_index gs) offered @ placed, a2))"

definition place_by_offers ::
  "(string \<Rightarrow> string) \<Rightarrow> (string \<Rightarrow> string \<Rightarrow> int) \<Rightarrow> (string, 'a) admit \<Rightarrow> (pool_ref \<Rightarrow> node_descriptor list) \<Rightarrow> jsnum
    \<Rightarrow> gated_shard list \<Rightarrow> 'a \<Rightarrow> (shard_placement \<times> string rejection list) list \<times> 'a" where
  "place_by_offers hash lc admit pools redundancy gs a =
     (let groups = group_by (\<lambda>g. gt_pool (gs_gate g)) (filter (\<lambda>g. not_placed g = None) gs);
          (placed, a') = offer_groups hash lc admit pools redundancy groups a
      in (map (\<lambda>g. case not_placed g of
                     Some r \<Rightarrow> (Sp_unplaceable r, [])
                   | None \<Rightarrow> let p = the (map_get placed (gs_index g)) in (of_offered p, rejections_of p)) gs, a'))"

section \<open>Everything before the first dispatch\<close>

record ('w, 'a) job_ports =
  jp_codec :: codec
  jp_cid_of :: "bytes \<Rightarrow> string"
  jp_decode :: decoder
  jp_parse :: "string \<Rightarrow> string option"
  jp_ops :: "'w store_ops"
  jp_watch :: "(string \<Rightarrow> 'w \<Rightarrow> 'w) option"
  jp_lc :: "string \<Rightarrow> string \<Rightarrow> int"
  jp_hash :: "string \<Rightarrow> string"
  jp_admit :: "(string, 'a) admit option"
  jp_verify :: verifier
  jp_x509 :: x509_codec

record speculation_options =
  sn_fraction :: "jsnum option"
  sn_factor :: "rat option"
  sn_watchdogMs :: "rat option"
  sn_compareGraceMs :: "rat option"

datatype speculation_dial = Dial_absent | Duplicates_no_stragglers | Dial speculation_options

record submit_options =
  sb_speculation :: speculation_dial
  sb_checkpoints :: bool
  sb_resumeFrom :: "string list option"

definition dial_of :: "submit_options \<Rightarrow> speculation_options" where
  "dial_of options = (case sb_speculation options of Dial d \<Rightarrow> d
     | _ \<Rightarrow> \<lparr>sn_fraction = None, sn_factor = None, sn_watchdogMs = None, sn_compareGraceMs = None\<rparr>)"

definition fraction_of :: "submit_options \<Rightarrow> jsnum" where
  "fraction_of options =
     (if sb_speculation options = Duplicates_no_stragglers then Fin 0
      else case sn_fraction (dial_of options) of None \<Rightarrow> Fin DEFAULT_SPECULATION_FRACTION | Some f \<Rightarrow> f)"

datatype submit_stop = Refused_job submit_error | Job_threw submit_throw

record prepared_job =
  pj_inputCids :: "string list"
  pj_jobId :: string
  pj_resumed :: resume_state
  pj_gates :: "shard_gate list"
  pj_placements :: "(shard_placement \<times> string rejection list) list"
  pj_ledger :: speculation_ledger
  pj_leases :: lease_table
  pj_candidates :: "node_descriptor list"
  pj_quorumPool :: "node_descriptor list"
  pj_now :: rat

definition pool_of :: "prepared_job \<Rightarrow> pool_ref \<Rightarrow> node_descriptor list" where
  "pool_of p ref = (case ref of All_candidates \<Rightarrow> pj_candidates p | Quorum_pool \<Rightarrow> pj_quorumPool p)"

text \<open>The first descriptor no executor has, the first sovereign shard without an owner.\<close>

definition missing_descriptor :: "job_spec \<Rightarrow> string option" where
  "missing_descriptor spec =
     find (\<lambda>e. e \<notin> set (map nd_nodeId (jo_nodes spec))) (map fst (jo_executors spec))"

definition ownerless :: "shard_spec \<Rightarrow> bool" where
  "ownerless shard = (is_sovereign shard \<and> (case sh_owner shard of None \<Rightarrow> True | Some ow \<Rightarrow> length ow = 0))"

definition missing_owner :: "job_spec \<Rightarrow> nat option" where
  "missing_owner spec = find (\<lambda>i. ownerless (jo_shards spec ! i)) [0..<length (jo_shards spec)]"

definition spec_refusal :: "job_spec \<Rightarrow> submit_error option" where
  "spec_refusal spec =
     (if length (jo_shards spec) = 0 then Some No_shards
      else if \<not> is_integer (jo_redundancy spec) \<or> js_lt (jo_redundancy spec) 1
      then Some (Bad_redundancy_asked (jo_redundancy spec))
      else case missing_descriptor spec of
             Some nodeId \<Rightarrow> Some (Missing_node_descriptor nodeId)
           | None \<Rightarrow> map_option Shard_missing_owner (missing_owner spec))"

text \<open>The inputs, in order: a sovereign one is watched before its block is put.  What was put before an
  input that cannot be encoded stays put.\<close>

fun encode_inputs ::
  "('w, 'a) job_ports \<Rightarrow> nat \<Rightarrow> shard_spec list \<Rightarrow> 'w \<Rightarrow> (submit_error + string list) \<times> 'w" where
  "encode_inputs ports i [] w = (Inr [], w)"
| "encode_inputs ports i (shard # shards) w =
     (case canonicalCid (jp_codec ports) (jp_cid_of ports) (sh_value shard) of
        Inl e \<Rightarrow> (Inl (Input_not_encodable i e), w)
      | Inr (cid, bytes) \<Rightarrow>
          let w1 = (if is_sovereign shard then (case jp_watch ports of None \<Rightarrow> w | Some watch \<Rightarrow> watch cid w) else w);
              w2 = snd (put_block (jp_ops ports) bytes w1);
              (rest, w3) = encode_inputs ports (i + 1) shards w2
          in (map_sum id (\<lambda>cids. cid # cids) rest, w3))"

definition redundancy_of :: "job_spec \<Rightarrow> nat" where
  "redundancy_of spec = nat (int_of_num (jo_redundancy spec))"

definition gated_shards :: "job_spec \<Rightarrow> shard_gate list \<Rightarrow> (rat, carried_shard) jsmap \<Rightarrow> gated_shard list" where
  "gated_shards spec gates carried =
     map (\<lambda>i. \<lparr>gs_index = i, gs_carried = (map_get carried (of_nat i) \<noteq> None), gs_spec = jo_shards spec ! i, gs_gate = gates ! i\<rparr>)
       [0..<length (jo_shards spec)]"

definition first_placements ::
  "('w, 'a) job_ports \<Rightarrow> (pool_ref \<Rightarrow> node_descriptor list) \<Rightarrow> jsnum \<Rightarrow> gated_shard list \<Rightarrow> 'a
    \<Rightarrow> (shard_placement \<times> string rejection list) list \<times> 'a" where
  "first_placements ports pools redundancy gs a =
     (case jp_admit ports of
        None \<Rightarrow> (map (\<lambda>p. (p, [])) (place_by_load (jp_lc ports) pools redundancy [] gs), a)
      | Some admit \<Rightarrow> place_by_offers (jp_hash ports) (jp_lc ports) admit pools redundancy gs a)"

text \<open>From a valid specification to the first placements.\<close>

definition place_job ::
  "('w, 'a) job_ports \<Rightarrow> submit_options \<Rightarrow> job_spec \<Rightarrow> rat \<Rightarrow> speculation_ledger \<Rightarrow> lease_table \<Rightarrow> string list \<Rightarrow> string
    \<Rightarrow> resume_state \<Rightarrow> 'a \<Rightarrow> prepared_job \<times> 'a" where
  "place_job ports options spec now ledger leases inputCids jobId resumed a =
     (let candidates = candidate_nodes spec;
          composition = compose_for (jp_lc ports) candidates (redundancy_of spec);
          qpool = quorum_pool composition candidates;
          gates = map (gate_of composition (redundancy_of spec) (jo_onQuorumShortfall spec)) (jo_shards spec);
          (placements, a') = first_placements ports (\<lambda>ref. case ref of All_candidates \<Rightarrow> candidates | Quorum_pool \<Rightarrow> qpool)
                               (jo_redundancy spec) (gated_shards spec gates (re_carried resumed)) a
      in (\<lparr>pj_inputCids = inputCids, pj_jobId = jobId, pj_resumed = resumed, pj_gates = gates, pj_placements = placements,
           pj_ledger = ledger, pj_leases = leases, pj_candidates = candidates, pj_quorumPool = qpool, pj_now = now\<rparr>, a'))"

definition prepare_job ::
  "('w, 'a) job_ports \<Rightarrow> submit_options \<Rightarrow> job_spec \<Rightarrow> rat \<Rightarrow> 'w \<Rightarrow> 'a \<Rightarrow> (submit_stop + prepared_job) \<times> 'w \<times> 'a" where
  "prepare_job ports options spec now w a =
     (case spec_refusal spec of
        Some e \<Rightarrow> (Inl (Refused_job e), w, a)
      | None \<Rightarrow>
          (case new_speculation_ledger (num_of_nat (length (jo_shards spec))) (Some (fraction_of options)) of
             Inl e \<Rightarrow> (Inl (Job_threw (Bad_ledger e)), w, a)
           | Inr ledger \<Rightarrow>
          (case new_lease_table (jo_leaseMs spec) (Some DEFAULT_MAX_GENERATIONS) of
             Inl e \<Rightarrow> (Inl (Job_threw (Bad_lease_table e)), w, a)
           | Inr leases \<Rightarrow>
          (case encode_inputs ports 0 (jo_shards spec) w of
             (Inl e, w1) \<Rightarrow> (Inl (Refused_job e), w1, a)
           | (Inr inputCids, w1) \<Rightarrow>
          (case jobIdOf (jp_codec ports) (jp_cid_of ports) (jo_moduleCid spec) inputCids of
             Inl e \<Rightarrow> (Inl (Job_threw e), w1, a)
           | Inr jobId \<Rightarrow>
          (case resumeState (jp_parse ports) (jp_decode ports) (jp_ops ports) (sb_resumeFrom options) w1 jobId (length (jo_shards spec)) of
             Inl e \<Rightarrow> (Inl (Refused_job e), w1, a)
           | Inr resumed \<Rightarrow>
               (let (p, a') = place_job ports options spec now ledger leases inputCids jobId resumed a
                in (Inr p, w1, a'))))))))"

section \<open>What a shard and a job come back as\<close>

datatype shard_ending =
    Ended_agreed
  | Ended_disagreed
  | No_untried_node
  | Generations_spent
  | Never_placed
  | Carried_from_checkpoint

datatype copy_failure = Own_reason shard_reason | Node_failures failures

datatype uncompared_reason = No_single_result | Not_answered_within rat

datatype speculative_copy =
    Copy_agreed (cp_nodes: "string list")
  | Copy_disagreed (cp_nodes: "string list") "string list"
  | Copy_failed (cp_nodes: "string list") copy_failure
  | Copy_uncompared (cp_nodes: "string list") uncompared_reason

record shard_result =
  sr_partitionIndex :: nat
  sr_inputCid :: string
  sr_verification :: shard_verification
  sr_attempted :: "string list"
  sr_speculated :: bool
  sr_judgedAt :: "rat option"
  sr_disagreed :: bool
  sr_copies :: "speculative_copy list"
  sr_generations :: nat
  sr_ending :: shard_ending
  sr_degraded :: bool
  sr_quorum :: shard_quorum
  sr_attestation :: shard_attestation
  sr_rejections :: "string rejection list"

definition carriedResult :: "nat \<Rightarrow> string \<Rightarrow> carried_shard \<Rightarrow> shard_result" where
  "carriedResult i inputCid shard =
     \<lparr>sr_partitionIndex = i, sr_inputCid = inputCid,
      sr_verification = V_agreed (ca_resultCid shard) (ca_output shard) [] 0 [] no_cost no_cost,
      sr_attempted = [], sr_speculated = False, sr_judgedAt = None, sr_disagreed = False, sr_copies = [],
      sr_generations = 0, sr_ending = Carried_from_checkpoint, sr_degraded = True,
      sr_quorum = Not_attempted Answer_was_carried, sr_attestation = No_verified_attestation Answer_carried 0 0,
      sr_rejections = []\<rparr>"

definition unplaceable_result ::
  "nat \<Rightarrow> string \<Rightarrow> unplaced_reason \<Rightarrow> shard_quorum \<Rightarrow> string rejection list \<Rightarrow> shard_result" where
  "unplaceable_result i inputCid reason quorum rejections =
     \<lparr>sr_partitionIndex = i, sr_inputCid = inputCid, sr_verification = V_insufficient (Not_placed reason) [],
      sr_attempted = [], sr_speculated = False, sr_judgedAt = None, sr_disagreed = False, sr_copies = [],
      sr_generations = 0, sr_ending = Never_placed, sr_degraded = False, sr_quorum = quorum,
      sr_attestation = noAgreementToAttest ''unplaceable'', sr_rejections = rejections\<rparr>"

text \<open>A late copy: \<open>None\<close> is the comparison window closing first.\<close>

definition compare_copy :: "string option \<Rightarrow> rat \<Rightarrow> string list \<times> shard_verification option \<Rightarrow> speculative_copy" where
  "compare_copy winnerCid graceMs copy =
     (case winnerCid of
        None \<Rightarrow> Copy_uncompared (fst copy) No_single_result
      | Some cid \<Rightarrow>
          (case snd copy of
             None \<Rightarrow> Copy_uncompared (fst copy) (Not_answered_within graceMs)
           | Some (V_insufficient r fs) \<Rightarrow> Copy_failed (fst copy) (if length fs = 0 then Own_reason r else Node_failures fs)
           | Some (V_disagreed groups fs gross) \<Rightarrow> Copy_disagreed (fst copy) (map fst groups)
           | Some (V_agreed cid' out ag n fs gross useful) \<Rightarrow>
               if cid' = cid then Copy_agreed (fst copy) else Copy_disagreed (fst copy) [cid']))"

definition compareOutstanding ::
  "rat \<Rightarrow> (string option \<times> (string list \<times> shard_verification option) list) list \<Rightarrow> speculative_copy list list" where
  "compareOutstanding graceMs shards =
     (if \<not> list_ex (\<lambda>(winner, copies). winner \<noteq> None \<and> length copies > 0) shards
      then map (\<lambda>(winner, copies). map (\<lambda>c. Copy_uncompared (fst c) No_single_result) copies) shards
      else map (\<lambda>(winner, copies). map (compare_copy winner graceMs) copies) shards)"

section \<open>The accounting\<close>

fun is_absent :: "shard_attestation \<Rightarrow> bool" where
  "is_absent (No_verified_attestation r n k) = True"
| "is_absent (Receipt rc) = False"

text \<open>The first absence, or the first receipt of the weakest strength.\<close>

definition weaker :: "shard_attestation \<Rightarrow> shard_attestation \<Rightarrow> shard_attestation" where
  "weaker weakest shard =
     (case (weakest, shard) of
        (Receipt rw, Receipt rs) \<Rightarrow>
          if attestationRank (ar_strength rs) < attestationRank (ar_strength rw) then shard else weakest
      | _ \<Rightarrow> weakest)"

definition jobAttestationOf :: "shard_result list \<Rightarrow> shard_attestation" where
  "jobAttestationOf shards =
     (case find (\<lambda>s. is_absent (sr_attestation s)) shards of
        Some s \<Rightarrow> sr_attestation s
      | None \<Rightarrow> foldl weaker (sr_attestation (hd shards)) (map sr_attestation shards))"

definition landedForItsOwner :: "shard_result \<Rightarrow> bool" where
  "landedForItsOwner s \<longleftrightarrow> is_agreed (sr_verification s) \<and> \<not> sr_disagreed s"

definition owner_counts :: "string list \<Rightarrow> (string, nat) jsmap" where
  "owner_counts owners = foldl (\<lambda>m ow. map_set ow ((case map_get m ow of None \<Rightarrow> 0 | Some n \<Rightarrow> n) + 1) m) [] owners"

definition owned_by :: "shard_spec \<Rightarrow> string list" where
  "owned_by shard = (case shard of Public_shard v \<Rightarrow> [] | Sovereign_shard v ow \<Rightarrow> (case ow of None \<Rightarrow> [] | Some x \<Rightarrow> [x]))"

definition owed_by_owner :: "job_spec \<Rightarrow> (string, nat) jsmap" where
  "owed_by_owner spec = owner_counts (concat (map owned_by (jo_shards spec)))"

definition done_by_owner :: "job_spec \<Rightarrow> shard_result list \<Rightarrow> (string, nat) jsmap" where
  "done_by_owner spec shards =
     owner_counts (concat (map (\<lambda>s. owned_by (jo_shards spec ! sr_partitionIndex s)) (filter landedForItsOwner shards)))"

text \<open>\<open>None\<close> is the literal \<open>defines-no-owners\<close>.\<close>

definition job_coverage :: "job_spec \<Rightarrow> shard_result list \<Rightarrow> coverage_report option" where
  "job_coverage spec shards =
     (let owed = owed_by_owner spec; landed = done_by_owner spec shards
      in if length owed = 0 then None
         else Some (coverageOf (map_keys owed)
                (map_keys (filter (\<lambda>(ow, n). (case map_get landed ow of None \<Rightarrow> 0 | Some k \<Rightarrow> k) \<ge> n) owed))))"

fun gross_of :: "shard_verification \<Rightarrow> run_cost" where
  "gross_of (V_agreed cid out ag n fs gross useful) = gross"
| "gross_of (V_disagreed groups fs gross) = gross"
| "gross_of (V_insufficient r fs) = no_cost"

fun useful_of :: "shard_verification \<Rightarrow> run_cost" where
  "useful_of (V_agreed cid out ag n fs gross useful) = useful"
| "useful_of (V_disagreed groups fs gross) = no_cost"
| "useful_of (V_insufficient r fs) = no_cost"

definition total_cost :: "(shard_verification \<Rightarrow> run_cost) \<Rightarrow> shard_result list \<Rightarrow> run_cost" where
  "total_cost cost shards = foldl (\<lambda>c s. add_cost c (cost (sr_verification s))) no_cost shards"

record job_result =
  jr_moduleCid :: string
  jr_shards :: "shard_result list"
  jr_attestation :: shard_attestation
  jr_complete :: bool
  jr_gross :: run_cost
  jr_useful :: run_cost
  jr_verificationMultiplier :: rat
  jr_redispatches :: int
  jr_leaseHistory :: "lease_event list"
  jr_speculationMultiplier :: rat
  jr_speculationSpent :: nat
  jr_coverage :: "coverage_report option"

definition with_copies :: "shard_result \<Rightarrow> speculative_copy list \<Rightarrow> shard_result" where
  "with_copies r copies =
     (if length copies = 0 then r
      else r\<lparr>sr_copies := copies,
             sr_disagreed := list_ex (\<lambda>c. case c of Copy_disagreed ns cids \<Rightarrow> True | _ \<Rightarrow> False) copies\<rparr>)"

definition shard_complete :: "shard_result \<Rightarrow> bool" where
  "shard_complete s \<longleftrightarrow> is_agreed (sr_verification s) \<and> \<not> sr_degraded s \<and> \<not> sr_disagreed s"

definition finish_job ::
  "job_spec \<Rightarrow> lease_table \<Rightarrow> speculation_ledger \<Rightarrow> (shard_result \<times> speculative_copy list) list \<Rightarrow> job_result" where
  "finish_job spec leases ledger settled =
     (let shards = map (\<lambda>(r, copies). with_copies r copies) settled;
          gross = total_cost gross_of shards; useful = total_cost useful_of shards
      in \<lparr>jr_moduleCid = jo_moduleCid spec, jr_shards = shards, jr_attestation = jobAttestationOf shards,
          jr_complete = list_all shard_complete shards, jr_gross = gross, jr_useful = useful,
          jr_verificationMultiplier = (if co_fuel useful = 0 then 0 else co_fuel gross / co_fuel useful),
          jr_redispatches = redispatches leases, jr_leaseHistory = history leases,
          jr_speculationMultiplier = multiplier ledger, jr_speculationSpent = spent ledger,
          jr_coverage = job_coverage spec shards\<rparr>)"

section \<open>Two generations are compared, not counted\<close>

text \<open>What a generation says of the nodes it asked: the result each of them gave.\<close>

fun answers_in :: "shard_verification \<Rightarrow> (string \<times> string) list" where
  "answers_in (V_agreed cid out ag n fs gross useful) = map (\<lambda>r. (cid, ag_nodeId r)) ag"
| "answers_in (V_disagreed groups fs gross) = concat (map (\<lambda>(cid, ns). map (\<lambda>n. (cid, n)) ns) groups)"
| "answers_in (V_insufficient r fs) = []"

fun results_in :: "shard_verification \<Rightarrow> string list" where
  "results_in (V_agreed cid out ag n fs gross useful) = [cid]"
| "results_in (V_disagreed groups fs gross) = map fst groups"
| "results_in (V_insufficient r fs) = []"

definition group_answers :: "(string, string list) jsmap \<Rightarrow> (string \<times> string) set" where
  "group_answers m = {(cid, n). \<exists>ns. map_get m cid = Some ns \<and> n \<in> set ns}"

lemma map_get_note_nodes:
  "map_get (note_nodes k ns m) c =
     (if c = k then Some ((case map_get m k of None \<Rightarrow> [] | Some old \<Rightarrow> old) @ ns) else map_get m c)"
  by (simp add: note_nodes_def)

lemma note_nodes_ok [simp]: "map_ok m \<Longrightarrow> map_ok (note_nodes k ns m)"
  by (simp add: note_nodes_def distinct_update)

lemma group_answers_note:
  "group_answers (note_nodes k ns m) = group_answers m \<union> {(k, n) |n. n \<in> set ns}"
  by (auto simp: group_answers_def map_get_note_nodes split: if_splits option.splits)

lemma keys_note_nodes: "fst ` set (note_nodes k ns m) = insert k (fst ` set m)"
  unfolding note_nodes_def using map_keys_set [of k _ m] by (metis list.set_map)

lemma fold_note:
  "map_ok m \<Longrightarrow> map_ok (foldl (\<lambda>m g. note_nodes (fst g) (snd g) m) m groups)"
  "group_answers (foldl (\<lambda>m g. note_nodes (fst g) (snd g) m) m groups) =
     group_answers m \<union> set (concat (map (\<lambda>(cid, ns). map (\<lambda>n. (cid, n)) ns) groups))"
  by (induction groups arbitrary: m) (auto simp: group_answers_note)

lemma fold_note_keys:
  "fst ` set (foldl (\<lambda>m g. note_nodes (fst g) (snd g) m) m groups) = fst ` set m \<union> fst ` set groups"
  by (induction groups arbitrary: m) (simp_all add: keys_note_nodes)

fun agreeing_in :: "shard_verification \<Rightarrow> agreeing_replica list" where
  "agreeing_in (V_agreed cid out ag n fs gross useful) = ag"
| "agreeing_in (V_disagreed groups fs gross) = []"
| "agreeing_in (V_insufficient r fs) = []"

definition merge_inv :: "shard_verification list \<Rightarrow> merge_state \<Rightarrow> bool" where
  "merge_inv vs st \<longleftrightarrow> map_ok (mg_nodes st) \<and> set (map_keys (mg_nodes st)) = set (concat (map results_in vs)) \<and>
     group_answers (mg_nodes st) = set (concat (map answers_in vs)) \<and>
     mg_agreeing st = concat (map agreeing_in vs) \<and>
     mg_gross st = foldl add_cost no_cost (map gross_of vs) \<and>
     (case mg_winner st of None \<Rightarrow> list_all (\<lambda>v. \<not> is_agreed v) vs
      | Some (cid, out, useful) \<Rightarrow> \<exists>v \<in> set vs. is_agreed v \<and> results_in v = [cid] \<and> useful_of v = useful)"

lemma add_no_cost [simp]: "add_cost c no_cost = c"
  by (simp add: add_cost_def no_cost_def)

lemma merge_inv_one: "merge_inv vs st \<Longrightarrow> merge_inv (vs @ [v]) (merge_one st v)"
  unfolding merge_inv_def
  by (cases v; cases "mg_winner st") (auto simp: keys_note_nodes group_answers_note fold_note fold_note_keys)

lemma no_cost_add [simp]: "add_cost no_cost c = c"
  by (simp add: add_cost_def no_cost_def)

lemma merge_inv_two: "merge_inv [v, w] (foldl merge_one merge_start [v, w])"
proof -
  have "merge_inv [] merge_start" by (simp add: merge_inv_def merge_start_def group_answers_def)
  from merge_inv_one [OF merge_inv_one [OF this, of v], of w] show ?thesis by simp
qed

lemma merge_cases:
  obtains (split) st where "merge_inv [v, w] st" "1 < length (mg_nodes st)"
      "mergeVerifications v w = V_disagreed (mg_nodes st) (mg_failures st) (mg_gross st)"
  | (agreed) st cid out useful where "merge_inv [v, w] st" "length (mg_nodes st) \<le> 1" "mg_winner st = Some (cid, out, useful)"
      "mergeVerifications v w =
         V_agreed cid out (mg_agreeing st) (length (mg_agreeing st)) (mg_failures st) (mg_gross st) useful"
  | (neither) st where "merge_inv [v, w] st" "length (mg_nodes st) \<le> 1" "mg_winner st = None"
      "mergeVerifications v w = V_insufficient (Joined (mg_reasons st)) (mg_failures st)"
proof -
  let ?st = "foldl merge_one merge_start [v, w]"
  have m: "mergeVerifications v w = merge_end ?st" by (simp add: mergeVerifications_def)
  show thesis
  proof (cases "1 < length (mg_nodes ?st)")
    case True
    then show thesis using split [OF merge_inv_two] m by (simp add: merge_end_def)
  next
    case False
    show thesis
    proof (cases "mg_winner ?st")
      case None
      with False show thesis using neither [OF merge_inv_two] m by (simp add: merge_end_def)
    next
      case (Some x)
      obtain cid out useful where x: "x = (cid, out, useful)" by (cases x)
      with False Some show thesis using agreed [OF merge_inv_two _ Some [unfolded x]] m by (simp add: merge_end_def)
    qed
  qed
qed

lemma one_key: "length m \<le> 1 \<Longrightarrow> c \<in> set (map_keys m) \<Longrightarrow> set (map_keys m) = {c}"
  by (cases m) auto

text \<open>C31: Two generations of one shard are compared, never counted: they come to an agreement only
  when every result either of them named is the same one, and then the replicas are those of
  both and the cost is what both burned; two different results come to a disagreement that names
  every node under the result it gave, whichever generation is newer; and they are inconclusive
  only when neither agreed.\<close>

theorem two_generations_are_compared:
  shows "case mergeVerifications v w of
      V_agreed cid out agreeing n fs gross useful \<Rightarrow>
        set (results_in v @ results_in w) = {cid} \<and> agreeing = agreeing_in v @ agreeing_in w \<and> n = length agreeing \<and>
        gross = add_cost (gross_of v) (gross_of w) \<and> (\<exists>u \<in> {v, w}. is_agreed u \<and> useful_of u = useful)
    | V_disagreed groups fs gross \<Rightarrow>
        2 \<le> length groups \<and> distinct (map fst groups) \<and> set (map fst groups) = set (results_in v @ results_in w) \<and>
        group_answers groups = set (answers_in v @ answers_in w) \<and> gross = add_cost (gross_of v) (gross_of w)
    | V_insufficient r fs \<Rightarrow>
        \<not> is_agreed v \<and> \<not> is_agreed w \<and> card (set (results_in v @ results_in w)) \<le> 1"
proof (cases v w rule: merge_cases)
  case (split st)
  then show ?thesis by (auto simp: merge_inv_def)
next
  case (agreed st cid out useful)
  then obtain u where u: "u \<in> {v, w}" "is_agreed u" "results_in u = [cid]" "useful_of u = useful"
    by (auto simp: merge_inv_def)
  from agreed(1) have keys: "set (map_keys (mg_nodes st)) = set (results_in v @ results_in w)" by (simp add: merge_inv_def)
  with u have "cid \<in> set (map_keys (mg_nodes st))" by auto
  from one_key [OF agreed(2) this] keys have "set (results_in v @ results_in w) = {cid}" by simp
  with agreed u show ?thesis by (auto simp: merge_inv_def)
next
  case (neither st)
  have "card (set (map_keys (mg_nodes st))) \<le> 1"
    using card_length [of "map_keys (mg_nodes st)"] neither(2) by simp
  with neither show ?thesis by (auto simp: merge_inv_def)
qed

text \<open>C32: The failures an agreeing generation already had are lost in the fold: when two
  generations agree on one result, the merged agreement carries no failure at all, although the
  executors that refused or threw are in the failures of the generations it was made from.\<close>

theorem merged_agreement_forgets_refusals:
  shows "mergeVerifications (V_agreed cid out ag n fs gross useful) (V_agreed cid out' ag' n' fs' gross' useful') =
    V_agreed cid out (ag @ ag') (length ag + length ag') [] (add_cost gross gross') useful"
  by (simp add: mergeVerifications_def merge_start_def merge_end_def note_nodes_def)

section \<open>What a receipt counts\<close>

lemma check_replicas_all:
  "check_replicas check rs = Inr (verified, []) \<Longrightarrow> list_all2 (\<lambda>r c. check r = Checked c) rs verified"
proof (induction rs arbitrary: verified)
  case (Cons r rs)
  show ?case
  proof (cases "check r")
    case (Checked c)
    with Cons.prems obtain vs where "check_replicas check rs = Inr (vs, [])" "verified = c # vs"
      by (cases "check_replicas check rs") (auto split: prod.splits)
    with Cons.IH Checked show ?thesis by simp
  next
    case (Unaccounted u)
    with Cons.prems show ?thesis by (cases "check_replicas check rs") (auto split: prod.splits)
  qed (use Cons.prems in simp)
qed simp

lemma check_replica_Checked:
  assumes "check_replica codec verify x w descriptors now r = Checked c"
  shows "\<exists>d cd a. map_get descriptors (ag_nodeId r) = Some d \<and> nd_certificate d = Some cd \<and>
     ag_attestation r = Attested a \<and> c_nodeKey (ra_certificate a) = c_nodeKey cd \<and>
     verifyResultAttestation codec verify x (Attested a) w [c_issuer cd] now = Attestation_ok c"
  using assms by (auto simp: check_replica_def split: option.splits attested_result.splits if_splits attestation_result.splits)

lemma length_set_of_list_distinct: "length (set_of_list xs) = length xs \<longleftrightarrow> distinct xs"
  by (metis distinct_set_of_list set_set_of_list card_distinct distinct_card)

text \<open>C33: A receipt speaks for every replica behind it: when a shard's agreement gets one, each agreeing
  replica is a node this requestor holds a certificate for, it answered under the very node key it was
  discovered under, and its signature was verified for this module, input, partition and output against
  that certificate's issuer; no two of them share a node key, and the receipt's redundancy is
  their number.  A single replica that cannot be checked leaves no receipt at all.\<close>

theorem receipt_speaks_for_every_replica:
  assumes "receiptFor codec verify x agreeing w descriptors now = Inr (Receipt rc)"
  shows "agreeing \<noteq> [] \<and> ar_replicas rc = length agreeing \<and>
    (\<exists>certs. rc = attestationReceipt certs \<and> distinct (map c_nodeKey certs) \<and>
       list_all2 (\<lambda>r c. \<exists>d cd a. map_get descriptors (ag_nodeId r) = Some d \<and> nd_certificate d = Some cd \<and>
           ag_attestation r = Attested a \<and> c_nodeKey (ra_certificate a) = c_nodeKey cd \<and>
           verifyResultAttestation codec verify x (Attested a) w [c_issuer cd] now = Attestation_ok c)
         agreeing certs)"
proof -
  obtain certs where c: "check_replicas (check_replica codec verify x w descriptors now) agreeing = Inr (certs, [])"
    "certs \<noteq> []" "distinct (map c_nodeKey certs)" "rc = attestationReceipt certs"
    using assms length_set_of_list_distinct [of "map c_nodeKey _"]
    by (auto simp: receiptFor_def split: sum.splits prod.splits if_splits)
  from check_replicas_all [OF c(1)]
  have all: "list_all2 (\<lambda>r c. check_replica codec verify x w descriptors now r = Checked c) agreeing certs" .
  from list_all2_lengthD [OF all] c have "agreeing \<noteq> [] \<and> ar_replicas rc = length agreeing"
    by (auto simp: attestationReceipt_def)
  moreover have "list_all2 (\<lambda>r c. \<exists>d cd a. map_get descriptors (ag_nodeId r) = Some d \<and> nd_certificate d = Some cd \<and>
           ag_attestation r = Attested a \<and> c_nodeKey (ra_certificate a) = c_nodeKey cd \<and>
           verifyResultAttestation codec verify x (Attested a) w [c_issuer cd] now = Attestation_ok c) agreeing certs"
    by (rule list_all2_mono [OF all]) (rule check_replica_Checked)
  ultimately show ?thesis using c by blast
qed

text \<open>An inhabited instance: one replica, signing the work of the attestation theory's example.\<close>

definition demo_issuer_node :: node_descriptor where
  "demo_issuer_node = \<lparr>nd_nodeId = ''n'', nd_ownerId = ''o'', canExecuteSovereign = True, nd_load = 0,
     nd_certificate = Some demo_result_cert\<rparr>"

definition plain_x509 :: x509_codec where
  "plain_x509 = \<lparr>x_tbs = (\<lambda>_. []), x_encode = (\<lambda>_ s. s), x_decode = (\<lambda>_. None)\<rparr>"

definition demo_replica :: agreeing_replica where
  "demo_replica = \<lparr>ag_nodeId = ''n'', ag_attestation = Attested \<lparr>ra_certificate = demo_result_cert, ra_signature = toHex [1]\<rparr>\<rparr>"

lemma demo_receipt:
  "receiptFor demo_result_codec (\<lambda>s m k. Some (s = m)) plain_x509 [demo_replica] demo_work [(''n'', demo_issuer_node)] 7 =
     Inr (Receipt (attestationReceipt [demo_result_cert]))"
proof -
  have c: "certificatePayload demo_result_codec demo_result_cert = Inr [0]"
    by (auto simp: certificatePayload_def encodeCanonical_Inr demo_result_codec_def certificate_value_def demo_result_cert_def list_all_iff)
  have "certificate_value demo_result_cert \<noteq> result_value demo_work (toHex [5])"
    by (simp add: certificate_value_def result_value_def)
  then have r: "resultChallenge demo_result_codec demo_work (toHex [5]) = Inr [1]"
    by (auto simp: resultChallenge_def encodeCanonical_Inr demo_result_codec_def result_value_def demo_work_def)
  have f: "c_issuer demo_result_cert = toHex [9]" "c_x509 demo_result_cert = None" "c_signature demo_result_cert = toHex [0]"
    "c_issuedAt demo_result_cert = 0" "c_expiresAt demo_result_cert = 50" "c_nodeKey demo_result_cert = toHex [5]"
    by (simp_all add: demo_result_cert_def)
  have "verifyCertificate demo_result_codec (\<lambda>s m k. Some (s = m)) plain_x509 demo_result_cert [toHex [9]] 7 = Certificate_ok demo_result_cert"
    using c f by (simp add: verifyCertificate_def checkX509Form_def checks_def plain_x509_def del: toHex.simps)
  then have "verifyResultAttestation demo_result_codec (\<lambda>s m k. Some (s = m)) plain_x509 (ag_attestation demo_replica) demo_work [toHex [9]] 7 =
      Attestation_ok demo_result_cert"
    using r f by (simp add: verifyResultAttestation_def checkAttested_def demo_replica_def checks_def Let_def del: toHex.simps)
  then show ?thesis using f
    by (simp add: receiptFor_def check_replica_def demo_replica_def demo_issuer_node_def del: toHex.simps)
qed

theorem receipt_speaks_for_every_replica_witness:
  "ar_replicas (attestationReceipt [demo_result_cert]) = length [demo_replica]"
  using receipt_speaks_for_every_replica [OF demo_receipt] by blast

section \<open>What a resumed job carries\<close>

lemma job_id_inj:
  assumes "codec_law codec decode" "\<And>b c. cid_of b = cid_of c \<Longrightarrow> b = c"
    and "jobIdOf codec cid_of m inputs = Inr j" "jobIdOf codec cid_of m' inputs' = Inr j"
  shows "m = m' \<and> inputs = inputs'"
proof -
  obtain b b' where b: "encodeCanonical codec (job_value m inputs) = Inr b" "encodeCanonical codec (job_value m' inputs') = Inr b'"
    "cid_of b = j" "cid_of b' = j"
    using assms(3,4) by (auto simp: jobIdOf_def canonicalCid_def split: sum.splits prod.splits)
  with assms(2) have "b = b'" by metis
  have same: "map_option dag_sorted (map_get [(''module'', CStr m), (''inputs'', CList (map CStr inputs))] k) =
      map_option dag_sorted (map_get [(''module'', CStr m'), (''inputs'', CList (map CStr inputs'))] k)" for k
    by (rule same_bytes_same_fields [OF assms(1)]) (use b \<open>b = b'\<close> in \<open>simp_all add: job_value_def\<close>)
  from same [of "''module''"] have "m = m'" by simp
  moreover from same [of "''inputs''"] have "map (dag_sorted \<circ> CStr) inputs = map (dag_sorted \<circ> CStr) inputs'" by simp
  then have "inputs = inputs'" by (induction inputs inputs' rule: list_induct2') auto
  ultimately show ?thesis by simp
qed

lemma map_set_cases: "(i, v) \<in> set (map_set k x m) \<Longrightarrow> (i, v) = (k, x) \<or> (i, v) \<in> set m"
  by (induction m) (auto split: if_splits)

lemma carry_one:
  assumes "(i, ca) \<in> set (carry_shard parse decode ops s n m sh)" "(i, ca) \<notin> set m"
  shows "i = cs_index sh \<and> i < of_nat n \<and> parse (cs_result sh) = Some (ca_resultCid ca) \<and>
    Option.bind (get_block ops (ca_resultCid ca) s) decode = Some (ca_output ca)"
proof (cases "cs_index sh \<ge> of_nat n")
  case False
  show ?thesis
  proof (cases "parse (cs_result sh)")
    case None
    with assms show ?thesis by (simp add: carry_shard_def split: if_splits)
  next
    case (Some cid)
    show ?thesis
    proof (cases "Option.bind (get_block ops cid s) decode")
      case None
      with assms Some show ?thesis by (auto simp: carry_shard_def bind_eq_None_conv split: if_splits option.splits)
    next
      case (Some v)
      with False \<open>parse (cs_result sh) = Some cid\<close>
      have "carry_shard parse decode ops s n m sh = map_set (cs_index sh) \<lparr>ca_resultCid = cid, ca_output = v\<rparr> m"
        by (auto simp: carry_shard_def bind_eq_Some_conv)
      from map_set_cases [OF assms(1) [unfolded this]] assms(2)
      have "i = cs_index sh" "ca = \<lparr>ca_resultCid = cid, ca_output = v\<rparr>" by simp_all
      with False Some \<open>parse (cs_result sh) = Some cid\<close> show ?thesis by simp
    qed
  qed
qed (use assms in \<open>simp add: carry_shard_def\<close>)

lemma carry_all:
  "(i, ca) \<in> set (foldl (carry_shard parse decode ops s n) m shs) \<Longrightarrow> (i, ca) \<notin> set m \<Longrightarrow>
   \<exists>sh \<in> set shs. i = cs_index sh \<and> i < of_nat n \<and> parse (cs_result sh) = Some (ca_resultCid ca) \<and>
     Option.bind (get_block ops (ca_resultCid ca) s) decode = Some (ca_output ca)"
proof (induction shs arbitrary: m)
  case (Cons sh shs)
  show ?case
  proof (cases "(i, ca) \<in> set (carry_shard parse decode ops s n m sh)")
    case True
    from carry_one [OF this Cons.prems(2)] show ?thesis by auto
  next
    case False
    with Cons show ?thesis by auto
  qed
qed simp

lemma recover_loop_found:
  "recover_loop decode ops s k hs = Some r \<Longrightarrow>
   \<exists>pre post. hs = pre @ found_cid r # post \<and> readCheckpoint decode ops (found_cid r) s = Inr (found_checkpoint r) \<and>
     (\<forall>h \<in> set pre. \<exists>f. readCheckpoint decode ops h s = Inl f) \<and> found_skipped r = k + length pre"
proof (induction hs arbitrary: k)
  case (Cons h hs)
  show ?case
  proof (cases "readCheckpoint decode ops h s")
    case (Inl f)
    with Cons.prems Cons.IH [of "k + 1"] obtain pre post where
      "hs = pre @ found_cid r # post" "readCheckpoint decode ops (found_cid r) s = Inr (found_checkpoint r)"
      "\<forall>h \<in> set pre. \<exists>f. readCheckpoint decode ops h s = Inl f" "found_skipped r = k + 1 + length pre" by auto
    with Inl show ?thesis by (intro exI [of _ "h # pre"] exI [of _ post]) auto
  next
    case (Inr c)
    with Cons.prems show ?thesis by (intro exI [of _ "[]"] exI [of _ hs]) auto
  qed
qed simp

text \<open>C34: A resumed job carries only its own answers: it takes the newest handle that can be read,
  and refuses a checkpoint whose job id is not its own, a job id being one module and one list of inputs
  and no other; and each answer it carries is in that checkpoint, belongs to a partition this
  job has, and was read from a block the store holds.  The codec is assumed to decode what it
  encoded and the digest not to collide.\<close>

theorem resumed_job_carries_its_own_answers:
  assumes "codec_law codec decode'" "\<And>b c. cid_of b = cid_of c \<Longrightarrow> b = c"
    and "jobIdOf codec cid_of m inputs = Inr jobId" "hs \<noteq> []"
    and "resumeState parse decode ops (Some hs) s jobId n = Inr r"
  shows "\<exists>pre h post c. hs = pre @ h # post \<and> re_from r = Some h \<and> re_skipped r = length pre \<and>
    readCheckpoint decode ops h s = Inr c \<and> (\<forall>h' \<in> set pre. \<exists>f. readCheckpoint decode ops h' s = Inl f) \<and>
    (\<forall>m' inputs'. jobIdOf codec cid_of m' inputs' = Inr (ck_jobId c) \<longrightarrow> m' = m \<and> inputs' = inputs) \<and>
    (\<forall>(i, ca) \<in> set (re_carried r). \<exists>sh \<in> set (ck_completed c). i = cs_index sh \<and> i < of_nat n \<and>
       parse (cs_result sh) = Some (ca_resultCid ca) \<and>
       Option.bind (get_block ops (ca_resultCid ca) s) decode = Some (ca_output ca))"
proof -
  obtain q where q: "recoverCheckpoint decode ops hs s = Some q" "ck_jobId (found_checkpoint q) = jobId"
    "re_carried r = foldl (carry_shard parse decode ops s n) [] (ck_completed (found_checkpoint q))"
    "re_from r = Some (found_cid q)" "re_skipped r = found_skipped q"
    using assms(4,5) by (auto simp: resumeState_def split: option.splits if_splits)
  from recover_loop_found [OF q(1) [unfolded recoverCheckpoint_def]]
  obtain pre post where p: "hs = pre @ found_cid q # post" "found_skipped q = length pre"
    "readCheckpoint decode ops (found_cid q) s = Inr (found_checkpoint q)"
    "\<forall>h \<in> set pre. \<exists>f. readCheckpoint decode ops h s = Inl f" by auto
  have "\<forall>(i, ca) \<in> set (re_carried r). \<exists>sh \<in> set (ck_completed (found_checkpoint q)). i = cs_index sh \<and> i < of_nat n \<and>
       parse (cs_result sh) = Some (ca_resultCid ca) \<and>
       Option.bind (get_block ops (ca_resultCid ca) s) decode = Some (ca_output ca)"
    using carry_all q(3) by fastforce
  moreover have "\<forall>m' inputs'. jobIdOf codec cid_of m' inputs' = Inr (ck_jobId (found_checkpoint q)) \<longrightarrow> m' = m \<and> inputs' = inputs"
    using job_id_inj [OF assms(1,2) assms(3)] q(2) by metis
  ultimately show ?thesis
    by (intro exI [of _ pre] exI [of _ "found_cid q"] exI [of _ post] exI [of _ "found_checkpoint q"] conjI)
      (rule p q(4) | assumption | simp add: q(5) p(2))+
qed

definition demo_resume :: job_checkpoint where
  "demo_resume = \<lparr>ck_jobId = toHex [1], ck_moduleCid = ''m'', ck_partitions = Fin 3,
     ck_completed = [\<lparr>cs_index = 2, cs_result = toHex [2]\<rparr>], ck_at = Fin 7, ck_previous = None\<rparr>"

definition demo_block_decode :: decoder where
  "demo_block_decode b = Some (if b = [0] then dag_sorted (checkpoint_value demo_resume) else CStr ''answer'')"

definition demo_blocks :: memory_store where
  "demo_blocks = [(toHex [0], [0]), (toHex [2], [2])]"

definition demo_job_codec :: codec where
  "demo_job_codec v = (if v = job_value ''m'' [''i''] then Some [1] else None)"

lemma demo_resume_read: "readCheckpoint demo_block_decode (memory_ops toHex) (toHex [0]) demo_blocks = Inr (checkpointOf demo_resume)"
proof -
  have "\<exists>k<3. (2 :: rat) = of_nat k" "\<exists>m. (7 :: rat) = of_nat m" by (rule exI [of _ 2], simp) (rule exI [of _ 7], simp)
  then have w: "whole_checkpoint 3 demo_resume" by (simp add: whole_checkpoint_def demo_resume_def)
  obtain rs where "dag_sorted (checkpoint_value demo_resume) = CObj rs" by (simp add: checkpoint_value_def)
  with read_record_value [OF w this] show ?thesis
    by (simp add: readCheckpoint_def memory_ops_def memory_get_def asRecord_def demo_block_decode_def demo_blocks_def del: toHex.simps)
qed

theorem resumed_job_carries_its_own_answers_witness:
  "\<exists>c. readCheckpoint demo_block_decode (memory_ops toHex) (toHex [0]) demo_blocks = Inr c \<and>
     (\<forall>m' inputs'. jobIdOf demo_job_codec toHex m' inputs' = Inr (ck_jobId c) \<longrightarrow> m' = ''m'' \<and> inputs' = [''i''])"
proof -
  have law: "codec_law demo_job_codec (\<lambda>b. Some (dag_sorted (job_value ''m'' [''i''])))"
    by (simp add: codec_law_def demo_job_codec_def)
  have "encodeCanonical demo_job_codec (job_value ''m'' [''i'']) = Inr [1]"
    by (simp add: encodeCanonical_Inr demo_job_codec_def job_value_def)
  then have id: "jobIdOf demo_job_codec toHex ''m'' [''i''] = Inr (toHex [1])"
    by (simp add: jobIdOf_def canonicalCid_def del: toHex.simps)
  have ck: "ck_jobId (checkpointOf demo_resume) = toHex [1]" by (simp add: demo_resume_def del: toHex.simps)
  obtain r where "resumeState Some demo_block_decode (memory_ops toHex) (Some [toHex [0]]) demo_blocks (toHex [1]) 3 = Inr r"
    using recover_head [OF demo_resume_read, of "[]"] ck by (simp add: resumeState_def del: toHex.simps)
  from resumed_job_carries_its_own_answers [OF law toHex_inj id _ this]
  obtain pre h post c where c: "[toHex [0]] = pre @ h # post" "readCheckpoint demo_block_decode (memory_ops toHex) h demo_blocks = Inr c"
    "\<forall>m' inputs'. jobIdOf demo_job_codec toHex m' inputs' = Inr (ck_jobId c) \<longrightarrow> m' = ''m'' \<and> inputs' = [''i'']"
    by (auto simp del: toHex.simps)
  then have "h = toHex [0]" by (cases pre) (auto simp del: toHex.simps)
  with c show ?thesis by blast
qed

section \<open>Where a shard may be placed\<close>

definition chosen_for :: "placement_request \<Rightarrow> node_descriptor list \<Rightarrow> string list \<Rightarrow> bool \<Rightarrow> bool" where
  "chosen_for r nodes ids degraded \<longleftrightarrow> ids \<noteq> [] \<and> set ids \<subseteq> nd_nodeId ` set (eligibleNodes r nodes) \<and>
     length ids \<le> wanted_replicas r \<and> (distinct (map nd_nodeId nodes) \<longrightarrow> distinct ids) \<and>
     (degraded \<longleftrightarrow> length ids < wanted_replicas r)"

lemma chosen_by_load:
  assumes "place_one lc nodes r = Placed sid ids n deg"
  shows "chosen_for r nodes ids deg"
proof -
  let ?o = "js_sort (by_load lc) (eligibleNodes r nodes)"
  have p: "eligibleNodes r nodes \<noteq> []" "\<not> bad_redundancy r" "ids = map nd_nodeId (take (wanted_replicas r) ?o)"
    "deg = (length (take (wanted_replicas r) ?o) < wanted_replicas r)"
    using assms by (auto simp: place_one_def Let_def split: if_splits)
  have "?o \<noteq> []" using p(1) by simp
  moreover have "0 < wanted_replicas r" using wanted_replicas_pos [OF p(2)] by simp
  moreover have "set (take (wanted_replicas r) ?o) \<subseteq> set (eligibleNodes r nodes)"
    by (metis set_js_sort set_take_subset)
  moreover have "distinct ids" if "distinct (map nd_nodeId nodes)"
  proof -
    have "distinct (map nd_nodeId (eligibleNodes r nodes))"
      using that by (simp add: eligible_filter distinct_map inj_on_def)
    moreover have "mset (map nd_nodeId ?o) = mset (map nd_nodeId (eligibleNodes r nodes))" by simp
    ultimately have "distinct (map nd_nodeId ?o)" by (metis mset_eq_imp_distinct_iff)
    then show ?thesis by (simp add: p(3) take_map [symmetric])
  qed
  ultimately show ?thesis by (auto simp: chosen_for_def p(3,4))
qed

lemma chosen_for_mono:
  "chosen_for r (filter P nodes) ids deg \<Longrightarrow> chosen_for r nodes ids deg"
  by (auto simp: chosen_for_def eligible_filter distinct_map_filter)

lemma chosen_by_offer:
  assumes "placeWithOffers hash lc r nodes options s = (Offered_placed sid ids n deg rjs k, s')"
  shows "chosen_for r nodes ids deg"
  using assms by (cases rule: place_cases [of hash lc r nodes options s])
    (auto simp: chosen_for_def books_ok_def split: if_splits)

lemma chosen_in_plan:
  assumes "plan_shard hash lc nodes options r p = (Offered_placed sid ids n deg rjs k, p')"
  shows "chosen_for r nodes ids deg"
  using assms by (auto simp: plan_shard_def Let_def split: if_splits intro: chosen_for_mono chosen_by_offer)

definition offered_fits :: "node_descriptor list \<Rightarrow> placement_request \<Rightarrow> 'r offered_placement \<Rightarrow> bool" where
  "offered_fits nodes r p = (case of_offered p of Sp_placed ids deg \<Rightarrow> chosen_for r nodes ids deg | Sp_unplaceable f \<Rightarrow> True)"

lemma plan_shards_fit: "list_all2 (offered_fits nodes) rs (fst (plan_shards hash lc nodes options rs p))"
proof (induction rs arbitrary: p)
  case (Cons r rs)
  obtain pl p1 where one: "plan_shard hash lc nodes options r p = (pl, p1)" by force
  have "offered_fits nodes r pl"
    using chosen_in_plan one by (cases pl) (auto simp: offered_fits_def of_offered_def)
  with one Cons [of p1] show ?case by (simp add: case_prod_unfold Let_def)
qed simp

lemma planWithOffers_fit: "list_all2 (offered_fits nodes) rs (fst (planWithOffers hash lc rs nodes options s))"
  using plan_shards_fit by (simp add: planWithOffers_def case_prod_unfold Let_def)

text \<open>What a first placement must be: refused with the gate's own reason, or on nodes the request and the pool allow.\<close>

definition placement_fits :: "(pool_ref \<Rightarrow> node_descriptor list) \<Rightarrow> jsnum \<Rightarrow> gated_shard \<Rightarrow> shard_placement \<Rightarrow> bool" where
  "placement_fits pools redundancy g p =
     (case not_placed g of
        Some r \<Rightarrow> p = Sp_unplaceable r
      | None \<Rightarrow> (case p of Sp_placed ids deg \<Rightarrow> chosen_for (request_of redundancy g) (pools (gt_pool (gs_gate g))) ids deg
                | Sp_unplaceable r \<Rightarrow> True))"

lemma chosen_for_load:
  "chosen_for r (map (\<lambda>n. n\<lparr>nd_load := f n\<rparr>) nodes) ids deg \<longleftrightarrow> chosen_for r nodes ids deg"
proof -
  have "eligibleNodes r (map (\<lambda>n. n\<lparr>nd_load := f n\<rparr>) nodes) = map (\<lambda>n. n\<lparr>nd_load := f n\<rparr>) (eligibleNodes r nodes)"
    by (simp add: eligible_filter filter_map o_def)
  then show ?thesis by (simp add: chosen_for_def image_image o_def)
qed

lemma place_by_load_fits:
  "list_all2 (placement_fits pools redundancy) gs (place_by_load lc pools redundancy dispatched gs)"
proof (induction gs arbitrary: dispatched)
  case (Cons g gs)
  show ?case
  proof (cases "not_placed g")
    case None
    let ?nodes = "map (\<lambda>n. n\<lparr>nd_load := nd_load n + placed_count dispatched (nd_nodeId n)\<rparr>) (pools (gt_pool (gs_gate g)))"
    have "placement_fits pools redundancy g (of_placement (place_one lc ?nodes (request_of redundancy g)))"
      using chosen_by_load [of lc ?nodes "request_of redundancy g"] None
      by (auto simp: placement_fits_def of_placement_def chosen_for_load split: placement.splits)
    with None Cons show ?thesis by (simp add: Let_def planPlacement_def)
  qed (use Cons in \<open>simp add: placement_fits_def\<close>)
qed simp

lemma zip_fst_mem: "list_all2 P xs ys \<Longrightarrow> (i, y) \<in> set (zip (map f xs) ys) \<Longrightarrow> \<exists>x \<in> set xs. f x = i \<and> P x y"
  by (auto simp: in_set_zip list_all2_conv_all_nth)

lemma offer_groups_fit:
  "(i, p) \<in> set (fst (offer_groups hash lc admit pools redundancy groups a)) \<Longrightarrow>
   \<exists>(ref, gs) \<in> set groups. \<exists>g \<in> set gs. gs_index g = i \<and> offered_fits (pools ref) (request_of redundancy g) p"
proof (induction groups arbitrary: a)
  case (Cons x groups)
  obtain ref gs where x: "x = (ref, gs)" by force
  obtain offered a1 where o': "planWithOffers hash lc (map (request_of redundancy) gs) (pools ref) \<lparr>oo_d = None, oo_admit = Some admit\<rparr> a = (offered, a1)"
    by force
  have fit: "list_all2 (\<lambda>g. offered_fits (pools ref) (request_of redundancy g)) gs offered"
    using planWithOffers_fit [of "pools ref" "map (request_of redundancy) gs"] o' by (metis fst_conv list_all2_map1)
  from Cons.prems have "(i, p) \<in> set (zip (map gs_index gs) offered) \<or> (i, p) \<in> set (fst (offer_groups hash lc admit pools redundancy groups a1))"
    by (auto simp: x o' Let_def split: prod.splits)
  then show ?case
  proof
    assume "(i, p) \<in> set (zip (map gs_index gs) offered)"
    from zip_fst_mem [OF fit this] show ?thesis by (auto simp: x)
  next
    assume "(i, p) \<in> set (fst (offer_groups hash lc admit pools redundancy groups a1))"
    from Cons.IH [OF this] show ?thesis by auto
  qed
qed simp

lemma offer_groups_keys:
  "fst ` set (fst (offer_groups hash lc admit pools redundancy groups a)) = gs_index ` set (concat (map_values groups))"
proof (induction groups arbitrary: a)
  case (Cons x groups)
  obtain ref gs where x: "x = (ref, gs)" by force
  obtain offered a1 where o': "planWithOffers hash lc (map (request_of redundancy) gs) (pools ref) \<lparr>oo_d = None, oo_admit = Some admit\<rparr> a = (offered, a1)"
    by force
  have "length offered = length gs"
    using planWithOffers_fit [of "pools ref" "map (request_of redundancy) gs" hash lc "\<lparr>oo_d = None, oo_admit = Some admit\<rparr>" a] o'
    by (auto dest: list_all2_lengthD)
  then have "fst ` set (zip (map gs_index gs) offered) = gs_index ` set gs"
    by (metis length_map map_fst_zip set_map)
  moreover obtain placed a2 where "offer_groups hash lc admit pools redundancy groups a1 = (placed, a2)" by force
  moreover note Cons [of a1]
  ultimately show ?case by (simp add: x o' Let_def image_Un)
qed simp

lemma place_by_offers_fits:
  assumes "distinct (map gs_index gs)"
  shows "list_all2 (placement_fits pools redundancy) gs (map fst (fst (place_by_offers hash lc admit pools redundancy gs a)))"
proof -
  let ?go = "filter (\<lambda>g. not_placed g = None) gs"
  let ?groups = "group_by (\<lambda>g. gt_pool (gs_gate g)) ?go"
  obtain placed a' where pl: "offer_groups hash lc admit pools redundancy ?groups a = (placed, a')" by force
  have mem: "set (concat (map_values ?groups)) = set ?go" using mset_group_by [of _ ?go] by (metis set_mset_mset)
  have "placement_fits pools redundancy g (of_offered (the (map_get placed (gs_index g))))" if "g \<in> set gs" "not_placed g = None" for g
  proof -
    have "gs_index g \<in> fst ` set placed"
      using offer_groups_keys [of hash lc admit pools redundancy ?groups a] pl mem that by auto
    then obtain p where p: "map_get placed (gs_index g) = Some p" using map_get_None_iff [of placed "gs_index g"] by auto
    from offer_groups_fit [of "gs_index g" p hash lc admit pools redundancy ?groups a] map_get_mem [OF this] pl
    obtain ref grp g' where g': "(ref, grp) \<in> set ?groups" "g' \<in> set grp" "gs_index g' = gs_index g"
      "offered_fits (pools ref) (request_of redundancy g') p" by auto
    then have "g' \<in> set gs" "gt_pool (gs_gate g') = ref" by (auto simp: group_by_mem)
    with g' that assms have "g' = g" by (metis distinct_map inj_onD)
    with g' \<open>gt_pool (gs_gate g') = ref\<close> p that show ?thesis
      by (auto simp: placement_fits_def offered_fits_def split: shard_placement.splits)
  qed
  then show ?thesis
    by (auto simp: place_by_offers_def pl Let_def list_all2_map2 list.rel_refl_strong list_all2_same placement_fits_def split: option.splits)
qed

lemma quorum_members:
  assumes "composeQuorum lc candidates rules = Quorum_ok members ops strength"
  shows "length members = q_size rules" "distinct (map c_operatorId members)" "set members \<subseteq> set candidates"
proof -
  let ?d = "first_per_operator lc candidates"
  have m: "members = spreadAcrossIssuers lc ?d (q_size rules)" "q_size rules \<le> length ?d"
    using assms by (auto simp: composeQuorum_def Let_def split: if_splits option.splits)
  note sub = spread_ok [of lc ?d "q_size rules"]
  show "length members = q_size rules" using sub(2) m by simp
  have "mset (map c_operatorId members) \<subseteq># mset (map c_operatorId ?d)"
    using image_mset_subseteq_mono [OF sub(1), of c_operatorId] by (simp add: m)
  then show "distinct (map c_operatorId members)" using distinct_sub_mset first_per_operator_ok(1) by blast
  show "set members \<subseteq> set candidates"
    using set_mset_mono [OF sub(1)] first_per_operator_ok(2) [of lc candidates] by (auto simp: m)
qed

lemma length_gated [simp]: "length (gated_shards spec gates carried) = length (jo_shards spec)"
  by (simp add: gated_shards_def)

lemma nth_gated: "i < length (jo_shards spec) \<Longrightarrow> gated_shards spec gates carried ! i =
    \<lparr>gs_index = i, gs_carried = (map_get carried (of_nat i) \<noteq> None), gs_spec = jo_shards spec ! i, gs_gate = gates ! i\<rparr>"
  by (simp add: gated_shards_def)

lemma first_placements_fit:
  "list_all2 (placement_fits pools redundancy) (gated_shards spec gates carried)
     (map fst (fst (first_placements ports pools redundancy (gated_shards spec gates carried) a)))"
proof (cases "jp_admit ports")
  case None
  then show ?thesis using place_by_load_fits by (simp add: first_placements_def o_def)
next
  case (Some f)
  have "distinct (map gs_index (gated_shards spec gates carried))" by (simp add: gated_shards_def o_def)
  from place_by_offers_fits [OF this] Some show ?thesis by (simp add: first_placements_def)
qed

lemma prepare_job_places:
  assumes "prepare_job ports options spec now w a = (Inr p, w', a')"
  obtains ledger leases inputCids jobId resumed where "spec_refusal spec = None"
    "new_speculation_ledger (num_of_nat (length (jo_shards spec))) (Some (fraction_of options)) = Inr ledger"
    "new_lease_table (jo_leaseMs spec) (Some DEFAULT_MAX_GENERATIONS) = Inr leases"
    "encode_inputs ports 0 (jo_shards spec) w = (Inr inputCids, w')"
    "jobIdOf (jp_codec ports) (jp_cid_of ports) (jo_moduleCid spec) inputCids = Inr jobId"
    "resumeState (jp_parse ports) (jp_decode ports) (jp_ops ports) (sb_resumeFrom options) w' jobId (length (jo_shards spec)) = Inr resumed"
    "place_job ports options spec now ledger leases inputCids jobId resumed a = (p, a')"
  using assms by (auto simp: prepare_job_def split: option.splits sum.splits prod.splits)

lemma spec_redundancy:
  assumes "spec_refusal spec = None"
  shows "1 \<le> redundancy_of spec" "jo_redundancy spec = num_of_nat (redundancy_of spec)" "jo_shards spec \<noteq> []"
  using assms by (cases "jo_redundancy spec"; auto simp: spec_refusal_def redundancy_of_def is_integer_iff split: if_splits)+

lemma place_job_fits:
  assumes "place_job ports options spec now ledger leases inputCids jobId resumed a = (p, a')" "i < length (jo_shards spec)"
  shows "placement_fits (pool_of p) (jo_redundancy spec)
      \<lparr>gs_index = i, gs_carried = (map_get (re_carried (pj_resumed p)) (of_nat i) \<noteq> None), gs_spec = jo_shards spec ! i,
       gs_gate = pj_gates p ! i\<rparr> (fst (pj_placements p ! i)) \<and> length (pj_placements p) = length (jo_shards spec) \<and>
    length (pj_gates p) = length (jo_shards spec) \<and> pj_resumed p = resumed"
proof -
  let ?c = "candidate_nodes spec"
  let ?q = "compose_for (jp_lc ports) ?c (redundancy_of spec)"
  let ?gates = "map (gate_of ?q (redundancy_of spec) (jo_onQuorumShortfall spec)) (jo_shards spec)"
  let ?pools = "\<lambda>ref. case ref of All_candidates \<Rightarrow> ?c | Quorum_pool \<Rightarrow> quorum_pool ?q ?c"
  let ?gs = "gated_shards spec ?gates (re_carried resumed)"
  obtain placements a2 where pl: "first_placements ports ?pools (jo_redundancy spec) ?gs a = (placements, a2)" by force
  then have p: "pj_placements p = placements" "pj_gates p = ?gates" "pj_resumed p = resumed" "pool_of p = ?pools"
    using assms(1) by (auto simp: place_job_def Let_def pool_of_def split: pool_ref.splits)
  from first_placements_fit [of ?pools "jo_redundancy spec" spec ?gates "re_carried resumed" ports a] pl
  have fit: "list_all2 (placement_fits ?pools (jo_redundancy spec)) ?gs (map fst placements)" by simp
  from list_all2_lengthD [OF fit] have len: "length placements = length (jo_shards spec)" by simp
  with list_all2_nthD [OF fit, of i] assms(2)
  have "placement_fits ?pools (jo_redundancy spec) (?gs ! i) (fst (placements ! i))" by simp
  then show ?thesis using p len assms(2) by (simp add: nth_gated)
qed

lemma place_job_gates:
  assumes "place_job ports options spec now ledger leases inputCids jobId resumed a = (p, a')" "i < length (jo_shards spec)"
  shows "pj_gates p ! i = gate_of (compose_for (jp_lc ports) (candidate_nodes spec) (redundancy_of spec)) (redundancy_of spec)
      (jo_onQuorumShortfall spec) (jo_shards spec ! i)"
    "pool_of p = (\<lambda>ref. case ref of All_candidates \<Rightarrow> candidate_nodes spec
       | Quorum_pool \<Rightarrow> quorum_pool (compose_for (jp_lc ports) (candidate_nodes spec) (redundancy_of spec)) (candidate_nodes spec))"
  using assms by (auto simp: place_job_def Let_def pool_of_def split: prod.splits pool_ref.splits)

lemma pool_candidates:
  assumes "place_job ports options spec now ledger leases inputCids jobId resumed a = (p, a')"
  shows "set (pool_of p ref) \<subseteq> set (candidate_nodes spec)"
  using assms by (auto simp: place_job_def Let_def pool_of_def quorum_pool_def split: prod.splits pool_ref.splits
      option.splits quorum_result.splits)

lemma composed_gate:
  assumes "gt_quorum (gate_of q redundancy policy shard) = Composed ops"
  shows "\<exists>members strength. q = Some (Quorum_ok members ops strength) \<and> gt_pool (gate_of q redundancy policy shard) = Quorum_pool \<and>
    \<not> is_sovereign shard"
  using assms by (auto simp: gate_of_def split: if_splits option.splits quorum_result.splits)

lemma candidate_is_executor: "n \<in> set (candidate_nodes spec) \<Longrightarrow> nd_nodeId n \<in> set (map fst (jo_executors spec)) \<and> n \<in> set (jo_nodes spec)"
  by (auto simp: candidate_nodes_def)

lemma composed_seats:
  assumes "place_job ports options spec now ledger leases inputCids jobId resumed a = (p, a')" "i < length (jo_shards spec)"
    "gt_quorum (pj_gates p ! i) = Composed ops"
    "\<And>k. k \<in> set ids \<Longrightarrow> \<exists>n \<in> set (eligibleNodes r (pool_of p (gt_pool (pj_gates p ! i)))). nd_nodeId n = k"
  shows "\<exists>members :: node_certificate list. length members = redundancy_of spec \<and> map c_operatorId members = ops \<and> distinct ops \<and>
    (\<forall>k \<in> set ids. \<exists>n \<in> set (jo_nodes spec). \<exists>c. nd_nodeId n = k \<and> nd_certificate n = Some c \<and>
       c_nodeKey c \<in> c_nodeKey ` set members)"
proof -
  let ?nodes = "pool_of p (gt_pool (pj_gates p ! i))"
  from composed_gate [OF assms(3) [unfolded place_job_gates(1) [OF assms(1,2)]]]
  obtain members strength where q: "compose_for (jp_lc ports) (candidate_nodes spec) (redundancy_of spec) =
      Some (Quorum_ok members ops strength)" "gt_pool (pj_gates p ! i) = Quorum_pool"
    by (auto simp: place_job_gates(1) [OF assms(1,2)])
  then have cq: "composeQuorum (jp_lc ports) (certificated (candidate_nodes spec))
      \<lparr>q_size = redundancy_of spec, q_requireIndependentPaths = None, q_requireDistinctIssuers = Some False,
       q_peerIdOf = Some (\<lambda>c. map_get (peer_ids (candidate_nodes spec)) (c_nodeKey c))\<rparr> = Quorum_ok members ops strength"
    by (auto simp: compose_for_def split: if_splits)
  have ops: "ops = map c_operatorId members"
    using cq by (auto simp: composeQuorum_def Let_def split: if_splits option.splits)
  have "\<exists>n \<in> set (jo_nodes spec). \<exists>c. nd_nodeId n = k \<and> nd_certificate n = Some c \<and> c_nodeKey c \<in> c_nodeKey ` set members"
    if "k \<in> set ids" for k
    using assms(4) [OF that] eligible_subset [of r ?nodes] q candidate_is_executor
    by (fastforce simp: place_job_gates(2) [OF assms(1,2)] quorum_pool_def split: option.splits)
  then have "\<forall>k \<in> set ids. \<exists>n \<in> set (jo_nodes spec). \<exists>c. nd_nodeId n = k \<and> nd_certificate n = Some c \<and>
      c_nodeKey c \<in> c_nodeKey ` set members" by blast
  moreover have "length members = redundancy_of spec" using quorum_members(1) [OF cq] by simp
  ultimately show ?thesis using quorum_members(2) [OF cq] ops by (intro exI [of _ members]) simp
qed

text \<open>Before anything is dispatched, every shard is placed within bounds or not at all: a placed
  shard is on at least one and at most the redundancy's number of nodes, each of them an executor
  of this job, and says it is degraded exactly when they are fewer; a sovereign shard is only on nodes of
  its owner that run sovereign work; a shard whose quorum composed is only on nodes that hold a node key of that
  quorum, whose members are as many as the redundancy and share no operator; and a shard
  that a checkpoint carries, or whose quorum was refused, is placed nowhere and says which.\<close>

theorem first_placements_stay_in_bounds:
  assumes "prepare_job ports options spec now w a = (Inr p, w', a')" "i < length (jo_shards spec)"
  shows "case fst (pj_placements p ! i) of
      Sp_placed ids deg \<Rightarrow>
        1 \<le> length ids \<and> length ids \<le> redundancy_of spec \<and> (deg \<longleftrightarrow> length ids < redundancy_of spec) \<and>
        set ids \<subseteq> set (map fst (jo_executors spec)) \<and>
        map_get (re_carried (pj_resumed p)) (of_nat i) = None \<and> gt_refusal (pj_gates p ! i) = None \<and>
        (\<forall>v ow. jo_shards spec ! i = Sovereign_shard v ow \<longrightarrow>
           (\<forall>k \<in> set ids. \<exists>n \<in> set (jo_nodes spec). nd_nodeId n = k \<and> ow = Some (nd_ownerId n) \<and> canExecuteSovereign n)) \<and>
        (\<forall>ops. gt_quorum (pj_gates p ! i) = Composed ops \<longrightarrow>
           (\<exists>members :: node_certificate list. length members = redundancy_of spec \<and> map c_operatorId members = ops \<and> distinct ops \<and>
              (\<forall>k \<in> set ids. \<exists>n \<in> set (jo_nodes spec). \<exists>c. nd_nodeId n = k \<and> nd_certificate n = Some c \<and>
                 c_nodeKey c \<in> c_nodeKey ` set members)))
    | Sp_unplaceable r \<Rightarrow>
        (map_get (re_carried (pj_resumed p)) (of_nat i) \<noteq> None \<longrightarrow> r = Carried_not_placed) \<and>
        (\<forall>refusal. map_get (re_carried (pj_resumed p)) (of_nat i) = None \<and> gt_refusal (pj_gates p ! i) = Some refusal \<longrightarrow>
           r = By_quorum refusal)"
proof -
  obtain ledger leases inputCids jobId resumed where ok: "spec_refusal spec = None"
    and pj: "place_job ports options spec now ledger leases inputCids jobId resumed a = (p, a')"
    using prepare_job_places [OF assms(1)] by metis
  note red = spec_redundancy [OF ok]
  let ?g = "\<lparr>gs_index = i, gs_carried = (map_get (re_carried (pj_resumed p)) (of_nat i) \<noteq> None), gs_spec = jo_shards spec ! i,
       gs_gate = pj_gates p ! i\<rparr>"
  from place_job_fits [OF pj assms(2)] have fit: "placement_fits (pool_of p) (jo_redundancy spec) ?g (fst (pj_placements p ! i))" by (rule conjunct1)
  show ?thesis
  proof (cases "fst (pj_placements p ! i)")
    case (Sp_placed ids deg)
    let ?r = "request_of (jo_redundancy spec) ?g"
    let ?nodes = "pool_of p (gt_pool (pj_gates p ! i))"
    from fit Sp_placed have go: "not_placed ?g = None" and ch: "chosen_for ?r ?nodes ids deg"
      by (auto simp: placement_fits_def split: option.splits)
    have w: "wanted_replicas ?r = redundancy_of spec"
      by (simp add: request_of_def requestFor_def redundancy_of_def split: shard_spec.splits)
    have sub: "\<exists>n \<in> set (eligibleNodes ?r ?nodes). nd_nodeId n = k" if "k \<in> set ids" for k
      using ch that by (auto simp: chosen_for_def)
    have "set ids \<subseteq> set (map fst (jo_executors spec))"
      using sub eligible_subset pool_candidates [OF pj] candidate_is_executor by blast
    moreover have "\<exists>n \<in> set (jo_nodes spec). nd_nodeId n = k \<and> ow = Some (nd_ownerId n) \<and> canExecuteSovereign n"
      if "jo_shards spec ! i = Sovereign_shard v ow" "k \<in> set ids" for v ow k
      using sub [OF that(2)] that(1) pool_candidates [OF pj] candidate_is_executor
      by (fastforce simp: eligible_filter request_of_def requestFor_def)
    moreover have "\<exists>members :: node_certificate list. length members = redundancy_of spec \<and> map c_operatorId members = ops \<and> distinct ops \<and>
              (\<forall>k \<in> set ids. \<exists>n \<in> set (jo_nodes spec). \<exists>c. nd_nodeId n = k \<and> nd_certificate n = Some c \<and>
                 c_nodeKey c \<in> c_nodeKey ` set members)" if "gt_quorum (pj_gates p ! i) = Composed ops" for ops
      using composed_seats [OF pj assms(2) that sub] .
    moreover have "map_get (re_carried (pj_resumed p)) (of_nat i) = None \<and> gt_refusal (pj_gates p ! i) = None"
      using go by (simp add: not_placed_def split: if_splits)
    moreover have "1 \<le> length ids \<and> length ids \<le> redundancy_of spec \<and> (deg \<longleftrightarrow> length ids < redundancy_of spec)"
      using ch w by (auto simp: chosen_for_def Suc_le_eq)
    ultimately show ?thesis by (simp only: Sp_placed shard_placement.case) blast
  next
    case (Sp_unplaceable r)
    with fit show ?thesis by (auto simp: placement_fits_def not_placed_def split: option.splits if_splits)
  qed
qed

text \<open>An inhabited instance: one sovereign shard of \<open>ann\<close>, offered to three nodes of which two are hers.\<close>

definition demo_spec :: job_spec where
  "demo_spec = \<lparr>jo_moduleCid = ''m'', jo_moduleRecord = None, jo_shards = [Sovereign_shard (CStr ''x'') (Some ''ann'')],
     jo_executors = [(''a'', False), (''b'', False), (''c'', False)], jo_nodes = demo_nodes, jo_redundancy = Fin 1,
     jo_onQuorumShortfall = Refuses_the_shard, jo_leaseMs = Some (Fin 30)\<rparr>"

definition demo_ports :: "(memory_store, nat) job_ports" where
  "demo_ports = \<lparr>jp_codec = (\<lambda>v. Some [0]), jp_cid_of = (\<lambda>b. ''i''), jp_decode = (\<lambda>b. None), jp_parse = Some,
     jp_ops = memory_ops (\<lambda>b. ''i''), jp_watch = None, jp_lc = unit_cmp, jp_hash = id, jp_admit = None,
     jp_verify = (\<lambda>s m k. Some True), jp_x509 = plain_x509\<rparr>"

definition demo_submit_options :: submit_options where
  "demo_submit_options = \<lparr>sb_speculation = Duplicates_no_stragglers, sb_checkpoints = False, sb_resumeFrom = None\<rparr>"

definition demo_gate :: shard_gate where
  "demo_gate = \<lparr>gt_quorum = Not_attempted Owner_is_one_operator, gt_pool = All_candidates, gt_degraded = False, gt_refusal = None\<rparr>"

definition demo_lease_table :: lease_table where
  "demo_lease_table = \<lparr>leaseMs = Fin 30, maxGenerations = 3, held = [], generations = [], abandoned = [], completed = [], history = []\<rparr>"

definition demo_job :: prepared_job where
  "demo_job = \<lparr>pj_inputCids = [''i''], pj_jobId = ''i'', pj_resumed = \<lparr>re_carried = [], re_from = None, re_skipped = 0\<rparr>,
     pj_gates = [demo_gate], pj_placements = [(Sp_placed [''a''] False, [])],
     pj_ledger = \<lparr>allowance = Fin 0, sl_tasks = 1, sl_duplicated = [], sl_discarded = [], spent = 0\<rparr>,
     pj_leases = demo_lease_table, pj_candidates = demo_nodes, pj_quorumPool = demo_nodes, pj_now = 0\<rparr>"

lemma demo_prepared: "prepare_job demo_ports demo_submit_options demo_spec 0 [] 0 = (Inr demo_job, [(''i'', [0])], 0)"
proof -
  have enc: "encodeCanonical (\<lambda>v. Some [0]) (CStr ''x'') = Inr [0]" "encodeCanonical (\<lambda>v. Some [0]) (job_value ''m'' [''i'']) = Inr [0]"
    by (simp_all add: encodeCanonical_Inr job_value_def)
  have spec: "jo_shards demo_spec = [Sovereign_shard (CStr ''x'') (Some ''ann'')]" "jo_redundancy demo_spec = Fin 1"
    "jo_onQuorumShortfall demo_spec = Refuses_the_shard" "jo_moduleCid demo_spec = ''m''" "jo_leaseMs demo_spec = Some (Fin 30)"
    "jo_nodes demo_spec = demo_nodes"
    by (simp_all add: demo_spec_def)
  have ref: "spec_refusal demo_spec = None"
    by (simp add: spec_refusal_def demo_spec_def missing_descriptor_def missing_owner_def ownerless_def demo_nodes_def demo_node_def)
  have led: "new_speculation_ledger (num_of_nat (length (jo_shards demo_spec))) (Some (fraction_of demo_submit_options)) = Inr (pj_ledger demo_job)"
    by (simp add: new_speculation_ledger_def spec fraction_of_def demo_submit_options_def allowance_for_def demo_job_def)
  have lea: "new_lease_table (jo_leaseMs demo_spec) (Some DEFAULT_MAX_GENERATIONS) = Inr demo_lease_table"
    by (simp add: new_lease_table_def spec DEFAULT_MAX_GENERATIONS_def demo_lease_table_def)
  have inp: "encode_inputs demo_ports 0 (jo_shards demo_spec) [] = (Inr [''i''], [(''i'', [0])])"
    using enc by (simp add: demo_ports_def spec canonicalCid_def memory_ops_def memory_put_def)
  have jid: "jobIdOf (jp_codec demo_ports) (jp_cid_of demo_ports) (jo_moduleCid demo_spec) [''i''] = Inr ''i''"
    using enc by (simp add: jobIdOf_def demo_ports_def spec canonicalCid_def)
  have cand: "candidate_nodes demo_spec = demo_nodes"
    by (simp add: candidate_nodes_def demo_spec_def demo_nodes_def demo_node_def)
  have comp: "compose_for lc demo_nodes (Suc 0) = None" for lc by (simp add: compose_for_def)
  have r1: "redundancy_of demo_spec = 1" by (simp add: redundancy_of_def spec)
  have gate: "gate_of None (Suc 0) Refuses_the_shard (Sovereign_shard (CStr ''x'') (Some ''ann'')) = demo_gate"
    by (simp add: gate_of_def demo_gate_def)
  have place: "place_one unit_cmp demo_nodes \<lparr>pr_shardId = ''0'', pr_label = Sovereign, pr_ownerId = Some ''ann'', pr_redundancy = Fin 1\<rparr> =
      Placed ''0'' [''a''] 1 False"
    by (simp add: place_one_def demo_nodes_def demo_node_def bad_redundancy_def eligibleNodes_def by_load_def js_or_def num_cmp_def)
  have dec: "nat_text 0 = ''0''" by code_simp
  have same: "map (\<lambda>n. n\<lparr>nd_load := nd_load n + placed_count [] (nd_nodeId n)\<rparr>) ns = ns" for ns
    by (simp add: placed_count_def)
  have "first_placements demo_ports pools (Fin 1) (gated_shards demo_spec [demo_gate] []) 0 = ([(Sp_placed [''a''] False, [])], 0)"
    if "pools All_candidates = demo_nodes" for pools
    using place that dec
    by (simp add: first_placements_def demo_ports_def gated_shards_def spec demo_gate_def not_placed_def request_of_def
        requestFor_def of_placement_def Let_def same planPlacement_def)
  then have "place_job demo_ports demo_submit_options demo_spec 0 (pj_ledger demo_job) demo_lease_table [''i''] ''i''
      \<lparr>re_carried = [], re_from = None, re_skipped = 0\<rparr> 0 = (demo_job, 0)"
    by (simp add: place_job_def Let_def cand comp r1 gate spec) (simp add: demo_job_def quorum_pool_def)
  then show ?thesis
    using ref led lea inp jid by (simp add: prepare_job_def resumeState_def) (simp add: demo_submit_options_def)
qed

theorem first_placements_stay_in_bounds_witness:
  "\<exists>n \<in> set demo_nodes. nd_nodeId n = ''a'' \<and> nd_ownerId n = ''ann'' \<and> canExecuteSovereign n"
  using first_placements_stay_in_bounds [OF demo_prepared, of 0] by (auto simp: demo_spec_def demo_job_def)

section \<open>The owners a job answers for\<close>

lemma owner_counts_snoc: "owner_counts (xs @ [x]) =
    map_set x ((case map_get (owner_counts xs) x of None \<Rightarrow> 0 | Some n \<Rightarrow> n) + 1) (owner_counts xs)"
  by (simp add: owner_counts_def)

lemma owner_counts_get: "map_get (owner_counts xs) k = (if k \<in> set xs then Some (count_list xs k) else None)"
proof (induction xs rule: rev_induct)
  case (snoc x xs)
  then show ?case by (auto simp: owner_counts_snoc)
qed (simp add: owner_counts_def)

lemma owner_counts_ok: "map_ok (owner_counts xs)"
  by (induction xs rule: rev_induct) (simp_all add: owner_counts_snoc distinct_update, simp add: owner_counts_def)

lemma owner_counts_keys: "set (map_keys (owner_counts xs)) = set xs"
  using map_get_None_iff [of "owner_counts xs"] by (fastforce simp: owner_counts_get split: if_splits)

lemma owner_counts_mem: "(k, n) \<in> set (owner_counts xs) \<longleftrightarrow> k \<in> set xs \<and> n = count_list xs k"
  unfolding map_get_iff [OF owner_counts_ok, symmetric] owner_counts_get by auto

lemma count_filtered:
  "count_list (concat (map g (filter P ss))) ow \<le> count_list (concat (map g ss)) ow"
  by (induction ss) (auto simp: count_list_append)

lemma count_all_landed:
  "count_list (concat (map g ss)) ow \<le> count_list (concat (map g (filter P ss))) ow \<longleftrightarrow> (\<forall>s \<in> set ss. ow \<in> set (g s) \<longrightarrow> P s)"
proof (induction ss)
  case (Cons s ss)
  have zero: "count_list (g s) ow = 0 \<longleftrightarrow> ow \<notin> set (g s)" by (rule count_list_0_iff)
  show ?case
  proof (cases "P s")
    case True
    then show ?thesis using Cons by (simp add: count_list_append)
  next
    case False
    then have "count_list (g s) ow + count_list (concat (map g ss)) ow \<le> count_list (concat (map g (filter P ss))) ow \<longleftrightarrow>
        count_list (g s) ow = 0 \<and> count_list (concat (map g ss)) ow \<le> count_list (concat (map g (filter P ss))) ow"
      using count_filtered [of g P ss ow] by arith
    with False Cons zero show ?thesis by (simp add: count_list_append)
  qed
qed simp

definition owned_shards :: "job_spec \<Rightarrow> string \<Rightarrow> nat set" where
  "owned_shards spec ow = {i. i < length (jo_shards spec) \<and> ow \<in> set (owned_by (jo_shards spec ! i))}"

lemma owner_report:
  assumes "map sr_partitionIndex shards = [0..<length (jo_shards spec)]"
  shows "set (map_keys (owed_by_owner spec)) = {ow. owned_shards spec ow \<noteq> {}} \<and> distinct (map_keys (owed_by_owner spec)) \<and>
    (\<forall>ow. ow \<in> set (map_keys (filter (\<lambda>(ow, n). (case map_get (done_by_owner spec shards) ow of None \<Rightarrow> 0 | Some k \<Rightarrow> k) \<ge> n)
         (owed_by_owner spec))) \<longleftrightarrow>
       owned_shards spec ow \<noteq> {} \<and> (\<forall>i \<in> owned_shards spec ow. landedForItsOwner (shards ! i)))"
proof -
  let ?g = "\<lambda>s. owned_by (jo_shards spec ! sr_partitionIndex s)"
  let ?owners = "concat (map owned_by (jo_shards spec))"
  have len: "length shards = length (jo_shards spec)" using arg_cong [OF assms, of length] by simp
  have idx: "sr_partitionIndex (shards ! i) = i" if "i < length shards" for i
    using arg_cong [OF assms, of "\<lambda>xs. xs ! i"] that len by simp
  have "map ?g shards = map owned_by (jo_shards spec)"
    using len idx by (intro nth_equalityI) simp_all
  then have owners: "?owners = concat (map ?g shards)" by simp
  have mem: "ow \<in> set ?owners \<longleftrightarrow> owned_shards spec ow \<noteq> {}" for ow
    by (auto simp: owned_shards_def) (metis in_set_conv_nth)
  have all: "(\<forall>s \<in> set shards. ow \<in> set (?g s) \<longrightarrow> landedForItsOwner s) \<longleftrightarrow>
      (\<forall>i \<in> owned_shards spec ow. landedForItsOwner (shards ! i))" for ow
    using len idx by (auto simp: owned_shards_def in_set_conv_nth all_set_conv_all_nth)
  let ?owed = "owed_by_owner spec" and ?done = "done_by_owner spec shards"
  let ?whole = "\<lambda>(ow, n). (case map_get ?done ow of None \<Rightarrow> 0 | Some k \<Rightarrow> k) \<ge> n"
  have owed: "?owed = owner_counts ?owners" by (simp add: owed_by_owner_def)
  have keys: "set (map_keys ?owed) = set ?owners" by (simp only: owed owner_counts_keys)
  have landed: "(case map_get ?done ow of None \<Rightarrow> 0 | Some k \<Rightarrow> k) = count_list (concat (map ?g (filter landedForItsOwner shards))) ow" for ow
    by (simp add: done_by_owner_def owner_counts_get count_list_0_iff del: set_concat)
  have whole: "ow \<in> set (map_keys (filter ?whole ?owed)) \<longleftrightarrow>
      ow \<in> set ?owners \<and> (\<forall>i \<in> owned_shards spec ow. landedForItsOwner (shards ! i))" for ow
  proof -
    have "(ow, n) \<in> set ?owed \<longleftrightarrow> ow \<in> set ?owners \<and> n = count_list ?owners ow" for n
      unfolding owed by (rule owner_counts_mem)
    then show ?thesis
      using count_all_landed [of ?g shards ow landedForItsOwner] all
      by (auto simp: landed owners image_iff simp del: set_concat)
  qed
  have "set (map_keys ?owed) = {ow. owned_shards spec ow \<noteq> {}}" using keys mem by blast
  moreover have "distinct (map_keys ?owed)" using owner_counts_ok owed by simp
  ultimately show ?thesis using whole mem by blast
qed

text \<open>The coverage of a job counts an owner only when all of its shards landed: a job without
  sovereign shards states that it defines no owners; otherwise the owners it defines are those of
  its sovereign shards, exactly the ones with a shard that did not agree, or whose copies later
  disagreed, are missing, and no other owner is ever reported.\<close>

theorem coverage_counts_whole_owners:
  assumes "map sr_partitionIndex shards = [0..<length (jo_shards spec)]"
  shows "case job_coverage spec shards of
      None \<Rightarrow> \<forall>ow. owned_shards spec ow = {}
    | Some report \<Rightarrow>
        (\<exists>ow. owned_shards spec ow \<noteq> {}) \<and> unexpected report = [] \<and>
        set (missing report) = {ow. \<exists>i \<in> owned_shards spec ow. \<not> landedForItsOwner (shards ! i)} \<and>
        total report = card {ow. owned_shards spec ow \<noteq> {}}"
proof -
  let ?owed = "owed_by_owner spec"
  let ?whole = "\<lambda>(ow, n). (case map_get (done_by_owner spec shards) ow of None \<Rightarrow> 0 | Some k \<Rightarrow> k) \<ge> n"
  let ?r = "coverageOf (map_keys ?owed) (map_keys (filter ?whole ?owed))"
  from owner_report [OF assms] have keys: "set (map_keys ?owed) = {ow. owned_shards spec ow \<noteq> {}}"
    and d: "distinct (map_keys ?owed)"
    and whole: "ow \<in> set (map_keys (filter ?whole ?owed)) \<longleftrightarrow>
      owned_shards spec ow \<noteq> {} \<and> (\<forall>i \<in> owned_shards spec ow. landedForItsOwner (shards ! i))" for ow by blast+
  show ?thesis
  proof (cases "?owed = []")
    case True
    then show ?thesis using keys by (simp add: job_coverage_def)
  next
    case False
    have "set (missing ?r) = set (map_keys ?owed) - set (map_keys (filter ?whole ?owed))"
      by (auto simp: coverageOf_def Let_def simp del: set_map set_concat)
    then have "set (missing ?r) = {ow. \<exists>i \<in> owned_shards spec ow. \<not> landedForItsOwner (shards ! i)}"
      unfolding keys set_eq_iff Diff_iff whole by blast
    moreover have "unexpected ?r = []"
      by (auto simp: coverageOf_def Let_def filter_empty_conv)
    moreover have "total ?r = card {ow. owned_shards spec ow \<noteq> {}}"
      using distinct_card [OF d] d unfolding keys [symmetric] by (simp add: coverageOf_def Let_def)
    moreover have "\<exists>ow. owned_shards spec ow \<noteq> {}"
      using keys False by (metis (mono_tags, lifting) empty_iff empty_set map_is_Nil_conv mem_Collect_eq set_empty equals0I)
    ultimately show ?thesis using False by (simp add: job_coverage_def Let_def)
  qed
qed

definition demo_owner_spec :: job_spec where
  "demo_owner_spec = demo_spec\<lparr>jo_shards := [Sovereign_shard (CStr ''x'') (Some ''ann''), Public_shard (CStr ''y'')]\<rparr>"

definition demo_shards :: "shard_result list" where
  "demo_shards = [unplaceable_result 0 ''i'' Carried_not_placed (Not_attempted Owner_is_one_operator) [],
     carriedResult 1 ''j'' \<lparr>ca_resultCid = ''r'', ca_output = CStr ''z''\<rparr>]"

theorem coverage_counts_whole_owners_witness:
  "\<exists>report. job_coverage demo_owner_spec demo_shards = Some report \<and> set (missing report) = {''ann''}"
proof -
  have two: "[0..<length (jo_shards demo_owner_spec)] = [0, 1]" by (simp add: demo_owner_spec_def upt_rec)
  then have idx: "map sr_partitionIndex demo_shards = [0..<length (jo_shards demo_owner_spec)]"
    by (simp add: demo_shards_def unplaceable_result_def carriedResult_def)
  have own: "owned_shards demo_owner_spec ow = (if ow = ''ann'' then {0} else {})" for ow
  proof -
    have "i \<in> owned_shards demo_owner_spec ow \<longleftrightarrow> i = 0 \<and> ow = ''ann''" for i
      by (cases i; cases "i - 1") (auto simp: owned_shards_def demo_owner_spec_def owned_by_def)
    then show ?thesis by auto
  qed
  have no: "\<not> landedForItsOwner (demo_shards ! 0)"
    by (simp add: demo_shards_def landedForItsOwner_def unplaceable_result_def)
  note it = coverage_counts_whole_owners [OF idx]
  show ?thesis
  proof (cases "job_coverage demo_owner_spec demo_shards")
    case None
    with it own [of "''ann''"] show ?thesis by simp
  next
    case (Some report)
    with it have "set (missing report) = {ow. \<exists>i \<in> owned_shards demo_owner_spec ow. \<not> landedForItsOwner (demo_shards ! i)}" by simp
    also have "\<dots> = {''ann''}" using no by (auto simp: own split: if_splits)
    finally show ?thesis using Some by blast
  qed
qed

end
