(* ===== verification/Shard_Loop.thy ===== *)
theory Shard_Loop
  imports Submit
begin

text \<open>
  The dispatch loop of \<open>packages/core/src/job/submit.ts\<close>: \<open>dispatchUnderLease\<close> and the loop \<open>submitJob\<close> runs for
  every shard at once, with \<open>placeAgain\<close>, the checkpoint log and the result a shard settles on.

  The shards share the lease table, the speculation ledger, the durations, the store and the log; each
  has its own run.  A step is what one shard does between two awaits, so the steps of different shards
  interleave in any order.  What a step waits for is the environment's: a dispatch answers what executors
  can make of it, whatever they do; a probe answers anything; a tick may come at any time, since the
  computed sleep only decides when; the clock is read as any number, once for each reading of the source.
\<close>

section \<open>The context and the state\<close>

record ('w, 'a) job_context =
  jc_spec :: job_spec
  jc_ports :: "('w, 'a) job_ports"
  jc_options :: submit_options
  jc_job :: prepared_job
  jc_cid_bytes :: "string \<Rightarrow> bytes"
  jc_sha256 :: "bytes \<Rightarrow> bytes"

record 'w shared_state =
  sx_leases :: lease_table
  sx_ledger :: speculation_ledger
  sx_durations :: "rat list"
  sx_store :: 'w
  sx_completed :: "completed_shard list"
  sx_previous :: "string option"
  sx_published :: "(string \<times> job_checkpoint) list"

text \<open>One generation in flight: its lease, the copies still running by their key, what has answered.\<close>

record flight =
  fl_lease :: lease
  fl_startedAt :: rat
  fl_copies :: "(string, string list) jsmap"
  fl_answered :: "shard_verification option"
  fl_speculated :: bool
  fl_judgedAt :: "rat option"
  fl_renewable :: bool
  fl_watching :: bool

datatype dispatched =
    Was_answered shard_verification "string list list" bool "rat option"
  | Has_lapsed bool "rat option"

datatype loop_phase =
    Granting
  | Racing flight
  | Probing flight rat
  | Returned_with rat dispatched
  | Placing
  | Settling
  | Settled shard_result "string option"

record shard_run =
  lp_phase :: loop_phase
  lp_nodeIds :: "string list"
  lp_attempted :: "string list"
  lp_rejections :: "string rejection list"
  lp_outstanding :: "string list list"
  lp_verification :: "shard_verification option"
  lp_generations :: nat
  lp_speculated :: bool
  lp_judgedAt :: "rat option"
  lp_degraded :: bool
  lp_ending :: shard_ending

definition shard_id :: "nat \<Rightarrow> string" where
  "shard_id i = nat_text i"

definition shard_at :: "('w, 'a) job_context \<Rightarrow> nat \<Rightarrow> shard_spec" where
  "shard_at ctx i = jo_shards (jc_spec ctx) ! i"

definition gate_at :: "('w, 'a) job_context \<Rightarrow> nat \<Rightarrow> shard_gate" where
  "gate_at ctx i = pj_gates (jc_job ctx) ! i"

definition gate_pool :: "('w, 'a) job_context \<Rightarrow> nat \<Rightarrow> node_descriptor list" where
  "gate_pool ctx i = pool_of (jc_job ctx) (gt_pool (gate_at ctx i))"

definition shard_slot_key :: "('w, 'a) job_context \<Rightarrow> nat \<Rightarrow> string" where
  "shard_slot_key ctx i = capacitySlotKey (pj_inputCids (jc_job ctx) ! i) i"

definition probes_holder :: "('w, 'a) job_context \<Rightarrow> bool" where
  "probes_holder ctx = (jp_admit (jc_ports ctx) \<noteq> None)"

definition speculation_enabled :: "('w, 'a) job_context \<Rightarrow> bool" where
  "speculation_enabled ctx = js_gt (allowance (pj_ledger (jc_job ctx))) 0"

definition straggler_factor :: "('w, 'a) job_context \<Rightarrow> rat" where
  "straggler_factor ctx = (case sn_factor (dial_of (jc_options ctx)) of None \<Rightarrow> DEFAULT_STRAGGLER_FACTOR | Some f \<Rightarrow> f)"

section \<open>What a dispatch can answer\<close>

definition speaks_both :: "job_spec \<Rightarrow> string \<Rightarrow> bool" where
  "speaks_both spec nodeId = (case map_get (rev (jo_executors spec)) nodeId of None \<Rightarrow> False | Some b \<Rightarrow> b)"

definition uses_ceremony :: "job_spec \<Rightarrow> shard_spec \<Rightarrow> string list \<Rightarrow> bool" where
  "uses_ceremony spec shard on \<longleftrightarrow>
     \<not> is_sovereign shard \<and> length on \<ge> MIN_CEREMONY_REPLICAS \<and> list_all (speaks_both spec) on"

definition task_at :: "('w, 'a) job_context \<Rightarrow> nat \<Rightarrow> task" where
  "task_at ctx i = task_of (jc_spec ctx) i (pj_inputCids (jc_job ctx) ! i) (shard_at ctx i)"

text \<open>\<open>runOn\<close>, for every way the executors of these nodes can behave: their shared world in the ceremony
  is a memory of bytes.  A dispatch that throws is an inconclusive answer.\<close>

inductive dispatch_answer :: "('w, 'a) job_context \<Rightarrow> nat \<Rightarrow> string list \<Rightarrow> shard_verification \<Rightarrow> bool"
  for ctx :: "('w, 'a) job_context" and i :: nat where
  answer_round: "\<not> uses_ceremony (jc_spec ctx) (shard_at ctx i) (map ex_nodeId executors) \<Longrightarrow>
    dispatch_answer ctx i (map ex_nodeId executors)
      (of_verdict (executeVerified (jp_codec (jc_ports ctx)) (jp_cid_of (jc_ports ctx)) (task_at ctx i) executors))"
| answer_ceremony: "uses_ceremony (jc_spec ctx) (shard_at ctx i) (map cm_nodeId committers) \<Longrightarrow>
    dispatch_answer ctx i (map cm_nodeId committers)
      (of_verdict (fst (executeCommitReveal (jp_codec (jc_ports ctx)) (jp_cid_of (jc_ports ctx)) (jc_cid_bytes ctx)
        (jc_sha256 ctx) (task_at ctx i) committers (world :: bytes))))"
| answer_threw: "dispatch_answer ctx i on (V_insufficient (Dispatch_threw m) [])"

section \<open>One generation under its lease\<close>

definition lease_over :: "lease \<Rightarrow> rat \<Rightarrow> bool" where
  "lease_over l now = (case checkLease l now of Still_valid x \<Rightarrow> False | Overdue x \<Rightarrow> True)"

definition lapse :: "flight \<Rightarrow> loop_phase" where
  "lapse f = Returned_with (fl_startedAt f) (Has_lapsed (fl_speculated f) (fl_judgedAt f))"

definition loop_top :: "rat \<Rightarrow> flight \<Rightarrow> loop_phase" where
  "loop_top now f = (if lease_over (fl_lease f) now then lapse f else Racing f)"

text \<open>A copy answered.  An answer that is not one leaves the loop waiting while another copy runs.\<close>

definition copy_answers :: "string \<Rightarrow> shard_verification \<Rightarrow> rat \<Rightarrow> flight \<Rightarrow> loop_phase" where
  "copy_answers key v now f =
     (let copies = map_delete key (fl_copies f);
          answered = (case fl_answered f of None \<Rightarrow> v | Some a \<Rightarrow> mergeVerifications a v)
      in if \<not> is_insufficient v \<or> length copies = 0
         then Returned_with (fl_startedAt f) (Was_answered answered (map_values copies) (fl_speculated f) (fl_judgedAt f))
         else loop_top now (f\<lparr>fl_copies := copies, fl_answered := Some answered\<rparr>))"

text \<open>The straggler question of a tick: a second copy, at most once, within the ledger, on a node never tried.\<close>

definition speculate ::
  "('w, 'a) job_context \<Rightarrow> nat \<Rightarrow> rat \<Rightarrow> flight \<Rightarrow> string list \<Rightarrow> rat list \<Rightarrow> speculation_ledger
    \<Rightarrow> flight \<times> string list \<times> speculation_ledger" where
  "speculate ctx i woke f attempted durations ledger =
     (let l = fl_lease f
      in if \<not> fl_watching f then (f, attempted, ledger)
         else if was_duplicated (l_taskId l) ledger \<or> js_le (ledger_remaining ledger) 0
         then (f\<lparr>fl_watching := False\<rparr>, attempted, ledger)
         else case speculativeCandidates (requestFor (shard_at ctx i) (shard_id i) (Fin 1)) (gate_pool ctx i) attempted of
                [] \<Rightarrow> (f\<lparr>fl_watching := False\<rparr>, attempted, ledger)
              | target # others \<Rightarrow>
                  let slow = stragglers (jp_lc (jc_ports ctx))
                               [\<lparr>if_taskId = l_taskId l, if_nodeId = l_nodeId l, if_startedAt = fl_startedAt f\<rparr>] woke
                               \<lparr>so_completed = durations, so_factor = Some (straggler_factor ctx), so_minSamples = None\<rparr>
                  in if slow = [] then (f, attempted, ledger)
                     else (case request_copy (l_taskId l) ledger of
                             (False, ledger') \<Rightarrow> (f\<lparr>fl_watching := False\<rparr>, attempted, ledger')
                           | (True, ledger') \<Rightarrow>
                               (f\<lparr>fl_speculated := True, fl_judgedAt := Some woke,
                                  fl_copies := map_set (nd_nodeId target) [nd_nodeId target] (fl_copies f)\<rparr>,
                                attempted @ [nd_nodeId target], ledger')))"

text \<open>The probe's evidence: the holder refuses because it is running this very task.\<close>

definition shows_work :: "string \<Rightarrow> string admission settled \<Rightarrow> bool" where
  "shows_work slotKey answer =
     (case answer of
        Returned (Refused reason c standing) \<Rightarrow> reason = inFlightRefusal slotKey
      | Returned (Accepted c) \<Rightarrow> False
      | Threw m \<Rightarrow> False)"

section \<open>The steps of a shard\<close>

definition grant_generation ::
  "('w, 'a) job_context \<Rightarrow> nat \<Rightarrow> rat \<Rightarrow> rat \<Rightarrow> rat \<Rightarrow> 'w shared_state \<times> shard_run \<Rightarrow> 'w shared_state \<times> shard_run" where
  "grant_generation ctx i t1 t2 t3 st =
     (let (sx, r) = st;
          holderId = hd (lp_nodeIds r);
          (lease, leases) = grant (shard_id i) holderId t1 (sx_leases sx);
          sx' = sx\<lparr>sx_leases := leases\<rparr>
      in case lease of
           None \<Rightarrow> (sx', r\<lparr>lp_ending := Generations_spent, lp_phase := Settling\<rparr>)
         | Some l \<Rightarrow>
             (sx', r\<lparr>lp_generations := lp_generations r + 1, lp_attempted := lp_attempted r @ lp_nodeIds r,
                     lp_phase := loop_top t3 \<lparr>fl_lease = l, fl_startedAt = t2, fl_copies = [(holderId, lp_nodeIds r)],
                       fl_answered = None, fl_speculated = False, fl_judgedAt = None, fl_renewable = probes_holder ctx,
                       fl_watching = speculation_enabled ctx\<rparr>\<rparr>))"

definition tick ::
  "('w, 'a) job_context \<Rightarrow> nat \<Rightarrow> flight \<Rightarrow> rat \<Rightarrow> rat \<Rightarrow> 'w shared_state \<times> shard_run \<Rightarrow> 'w shared_state \<times> shard_run" where
  "tick ctx i f woke now st =
     (let (sx, r) = st
      in if lease_over (fl_lease f) woke then (sx, r\<lparr>lp_phase := lapse f\<rparr>)
         else let (f', attempted, ledger) = speculate ctx i woke f (lp_attempted r) (sx_durations sx) (sx_ledger sx)
              in (sx\<lparr>sx_ledger := ledger\<rparr>,
                  r\<lparr>lp_attempted := attempted,
                    lp_phase := (if \<not> fl_renewable f' \<or> \<not> shouldRenew (fl_lease f') woke then loop_top now f'
                                 else Probing f' woke)\<rparr>))"

definition probe_answered ::
  "('w, 'a) job_context \<Rightarrow> nat \<Rightarrow> flight \<Rightarrow> rat \<Rightarrow> string admission settled \<Rightarrow> rat \<Rightarrow> 'w shared_state \<times> shard_run
    \<Rightarrow> 'w shared_state \<times> shard_run" where
  "probe_answered ctx i f woke answer now st =
     (let (sx, r) = st
      in if \<not> shows_work (shard_slot_key ctx i) answer then (sx, r\<lparr>lp_phase := loop_top now (f\<lparr>fl_renewable := False\<rparr>)\<rparr>)
         else let (renewed, leases) = renew (l_taskId (fl_lease f)) (l_nodeId (fl_lease f)) woke (sx_leases sx);
                  sx' = sx\<lparr>sx_leases := leases\<rparr>
              in case renewed of
                   None \<Rightarrow> (sx', r\<lparr>lp_phase := lapse f\<rparr>)
                 | Some l \<Rightarrow> (sx', r\<lparr>lp_phase := loop_top now (f\<lparr>fl_lease := l\<rparr>)\<rparr>))"

definition enough_replicas :: "('w, 'a) job_context \<Rightarrow> nat \<Rightarrow> bool" where
  "enough_replicas ctx n \<longleftrightarrow> redundancy_of (jc_spec ctx) \<le> n"

definition take_answer ::
  "('w, 'a) job_context \<Rightarrow> nat \<Rightarrow> rat \<Rightarrow> shard_verification \<Rightarrow> string list list \<Rightarrow> rat \<Rightarrow> rat \<Rightarrow> 'w shared_state \<times> shard_run
    \<Rightarrow> 'w shared_state \<times> shard_run" where
  "take_answer ctx i startedAt v out t1 t2 st =
     (let (sx, r) = st;
          holderId = hd (lp_nodeIds r);
          durations = (if \<not> is_insufficient v then sx_durations sx @ [max 1 (t1 - startedAt)] else sx_durations sx);
          merged = (case lp_verification r of None \<Rightarrow> v | Some u \<Rightarrow> mergeVerifications u v);
          r' = r\<lparr>lp_outstanding := lp_outstanding r @ out, lp_verification := Some merged\<rparr>;
          settle_on = (\<lambda>ending. (sx\<lparr>sx_durations := durations,
                                   sx_leases := snd (complete_task (shard_id i) holderId t2 (sx_leases sx))\<rparr>,
                                 r'\<lparr>lp_ending := ending, lp_phase := Settling\<rparr>));
          give_back = (sx\<lparr>sx_durations := durations,
                          sx_leases := snd (surrender (shard_id i) holderId t2 (sx_leases sx))\<rparr>,
                       r'\<lparr>lp_phase := Placing\<rparr>)
      in case merged of
           V_disagreed groups fs gross \<Rightarrow> settle_on Ended_disagreed
         | V_agreed cid output ag n fs gross useful \<Rightarrow>
             if enough_replicas ctx n then settle_on Ended_agreed else give_back
         | V_insufficient reason fs \<Rightarrow> give_back)"

definition take_dispatched ::
  "('w, 'a) job_context \<Rightarrow> nat \<Rightarrow> rat \<Rightarrow> dispatched \<Rightarrow> rat \<Rightarrow> rat \<Rightarrow> 'w shared_state \<times> shard_run \<Rightarrow> 'w shared_state \<times> shard_run" where
  "take_dispatched ctx i startedAt d t1 t2 st =
     (let (sx, r) = st;
          note = (\<lambda>spec judged. r\<lparr>lp_speculated := lp_speculated r \<or> spec,
                    lp_judgedAt := (case lp_judgedAt r of None \<Rightarrow> judged | Some t \<Rightarrow> Some t)\<rparr>)
      in case d of
           Was_answered v out spec judged \<Rightarrow> take_answer ctx i startedAt v out t1 t2 (sx, note spec judged)
         | Has_lapsed spec judged \<Rightarrow>
             (sx\<lparr>sx_leases := snd (reap (jp_lc (jc_ports ctx)) t2 (Some (shard_id i)) (sx_leases sx))\<rparr>,
              (note spec judged)\<lparr>lp_phase := Placing\<rparr>))"

datatype regeneration =
    Placed_again "string list" "string rejection list" bool
  | Nowhere_left "string rejection list"

definition placeAgain ::
  "(string \<Rightarrow> string) \<Rightarrow> (string \<Rightarrow> string \<Rightarrow> int) \<Rightarrow> (string, 'a) admit option \<Rightarrow> placement_request \<Rightarrow> node_descriptor list
    \<Rightarrow> string list \<Rightarrow> 'a \<Rightarrow> regeneration \<times> 'a" where
  "placeAgain hash lc admit request pool tried a =
     (let remaining = filter (\<lambda>n. nd_nodeId n \<notin> set tried) pool
      in if length remaining = 0 then (Nowhere_left [], a)
         else case admit of
                None \<Rightarrow>
                  (case of_placement (hd (plan_placements (planPlacement lc [request] remaining))) of
                     Sp_placed ids degraded \<Rightarrow> (Placed_again ids [] degraded, a)
                   | Sp_unplaceable r \<Rightarrow> (Nowhere_left [], a))
              | Some f \<Rightarrow>
                  (let (offered, a') = planWithOffers hash lc [request] remaining \<lparr>oo_d = None, oo_admit = Some f\<rparr> a
                   in case offered of
                        [] \<Rightarrow> (Nowhere_left [], a')
                      | p # ps \<Rightarrow>
                          (case of_offered p of
                             Sp_placed ids degraded \<Rightarrow> (Placed_again ids (rejections_of p) degraded, a')
                           | Sp_unplaceable r \<Rightarrow> (Nowhere_left (rejections_of p), a'))))"

text \<open>How much is still missing: a shard that agreed at one of two needs one more replica, not two.\<close>

definition wanted_more :: "('w, 'a) job_context \<Rightarrow> shard_run \<Rightarrow> jsnum" where
  "wanted_more ctx r =
     (case lp_verification r of
        Some (V_agreed cid output ag n fs gross useful) \<Rightarrow> js_minus (jo_redundancy (jc_spec ctx)) (of_nat n)
      | _ \<Rightarrow> jo_redundancy (jc_spec ctx))"

definition place_step ::
  "('w, 'a) job_context \<Rightarrow> nat \<Rightarrow> 'a \<Rightarrow> shard_run \<Rightarrow> shard_run" where
  "place_step ctx i a r =
     (case fst (placeAgain (jp_hash (jc_ports ctx)) (jp_lc (jc_ports ctx)) (jp_admit (jc_ports ctx))
                  (requestFor (shard_at ctx i) (shard_id i) (wanted_more ctx r)) (gate_pool ctx i) (lp_attempted r) a) of
        Nowhere_left rejections \<Rightarrow>
          r\<lparr>lp_rejections := lp_rejections r @ rejections, lp_ending := No_untried_node, lp_phase := Settling\<rparr>
      | Placed_again ids rejections degraded \<Rightarrow>
          r\<lparr>lp_rejections := lp_rejections r @ rejections, lp_nodeIds := ids, lp_degraded := (lp_degraded r \<or> degraded),
            lp_phase := Granting\<rparr>)"

section \<open>What a shard settles on\<close>

definition settled_verification :: "nat \<Rightarrow> shard_run \<Rightarrow> shard_verification" where
  "settled_verification i r =
     (case lp_verification r of
        Some v \<Rightarrow> v
      | None \<Rightarrow> V_insufficient (if lp_ending r = Generations_spent then Generations_used i else None_left_untried i) [])"

text \<open>One record of the checkpoint log: everything completed so far, naming the previous handle.\<close>

definition record_checkpoint ::
  "('w, 'a) job_context \<Rightarrow> completed_shard \<Rightarrow> rat \<Rightarrow> 'w shared_state \<Rightarrow> submit_throw + 'w shared_state" where
  "record_checkpoint ctx shard now sx =
     (if \<not> sb_checkpoints (jc_options ctx) then Inr sx
      else let completed = sx_completed sx @ [shard];
               checkpoint = checkpointOf
                 \<lparr>ck_jobId = pj_jobId (jc_job ctx), ck_moduleCid = jo_moduleCid (jc_spec ctx),
                  ck_partitions = num_of_nat (length (jo_shards (jc_spec ctx))), ck_completed = completed,
                  ck_at = Fin (of_int (max 0 \<lfloor>now\<rfloor>)), ck_previous = sx_previous sx\<rparr>
           in case writeCheckpoint (jp_codec (jc_ports ctx)) (jp_cid_of (jc_ports ctx)) (jp_ops (jc_ports ctx)) checkpoint (sx_store sx) of
                Inl e \<Rightarrow> Inl (Checkpoint_not_encodable e)
              | Inr (handle, store) \<Rightarrow>
                  Inr (sx\<lparr>sx_completed := completed, sx_store := store, sx_previous := Some handle,
                          sx_published := sx_published sx @ [(handle, checkpoint)]\<rparr>))"

definition store_output :: "('w, 'a) job_context \<Rightarrow> cvalue \<Rightarrow> 'w shared_state \<Rightarrow> 'w shared_state" where
  "store_output ctx output sx =
     (case canonicalCid (jp_codec (jc_ports ctx)) (jp_cid_of (jc_ports ctx)) output of
        Inl e \<Rightarrow> sx
      | Inr (cid, bytes) \<Rightarrow> sx\<lparr>sx_store := snd (put_block (jp_ops (jc_ports ctx)) bytes (sx_store sx))\<rparr>)"

fun status_text :: "shard_verification \<Rightarrow> string" where
  "status_text (V_agreed cid output ag n fs gross useful) = ''agreed''"
| "status_text (V_disagreed groups fs gross) = ''disagreed''"
| "status_text (V_insufficient r fs) = ''insufficient''"

definition attestation_for ::
  "('w, 'a) job_context \<Rightarrow> nat \<Rightarrow> shard_verification \<Rightarrow> submit_throw + shard_attestation" where
  "attestation_for ctx i v =
     (case v of
        V_agreed cid output ag n fs gross useful \<Rightarrow>
          receiptFor (jp_codec (jc_ports ctx)) (jp_verify (jc_ports ctx)) (jp_x509 (jc_ports ctx)) ag
            \<lparr>w_moduleCid = jo_moduleCid (jc_spec ctx), w_inputCid = pj_inputCids (jc_job ctx) ! i,
             w_partitionIndex = num_of_nat i, w_outputCid = cid\<rparr>
            (descriptor_map (jo_nodes (jc_spec ctx))) (pj_now (jc_job ctx))
      | _ \<Rightarrow> Inr (noAgreementToAttest (status_text v)))"

definition result_of ::
  "('w, 'a) job_context \<Rightarrow> nat \<Rightarrow> shard_run \<Rightarrow> shard_verification \<Rightarrow> shard_attestation \<Rightarrow> shard_result" where
  "result_of ctx i r v attestation =
     \<lparr>sr_partitionIndex = i, sr_inputCid = pj_inputCids (jc_job ctx) ! i, sr_verification = v,
      sr_attempted = lp_attempted r, sr_speculated = lp_speculated r, sr_judgedAt = lp_judgedAt r, sr_disagreed = False,
      sr_copies = [], sr_generations = lp_generations r, sr_ending = lp_ending r,
      sr_degraded = (gt_degraded (gate_at ctx i) \<or>
        (case v of V_agreed cid output ag n fs gross useful \<Rightarrow> \<not> enough_replicas ctx n | _ \<Rightarrow> lp_degraded r)),
      sr_quorum = gt_quorum (gate_at ctx i), sr_attestation = attestation, sr_rejections = lp_rejections r\<rparr>"

fun winner_cid :: "shard_verification \<Rightarrow> string option" where
  "winner_cid (V_agreed cid output ag n fs gross useful) = Some cid"
| "winner_cid (V_disagreed groups fs gross) = None"
| "winner_cid (V_insufficient r fs) = None"

definition settle_shard ::
  "('w, 'a) job_context \<Rightarrow> nat \<Rightarrow> rat \<Rightarrow> 'w shared_state \<times> shard_run \<Rightarrow> submit_throw + 'w shared_state \<times> shard_run" where
  "settle_shard ctx i now st =
     (let (sx, r) = st;
          v = settled_verification i r;
          recorded = (case v of
              V_agreed cid output ag n fs gross useful \<Rightarrow>
                record_checkpoint ctx \<lparr>cs_index = of_nat i, cs_result = cid\<rparr> now (store_output ctx output sx)
            | _ \<Rightarrow> Inr sx)
      in case recorded of
           Inl e \<Rightarrow> Inl e
         | Inr sx' \<Rightarrow>
             (case attestation_for ctx i v of
                Inl e \<Rightarrow> Inl e
              | Inr attestation \<Rightarrow>
                  Inr (sx', r\<lparr>lp_phase := Settled (result_of ctx i r v attestation) (winner_cid v)\<rparr>)))"

section \<open>The job\<close>

record 'w job_state =
  jb_shared :: "'w shared_state"
  jb_runs :: "shard_run list"
  jb_threw :: "submit_throw option"

definition start_run :: "('w, 'a) job_context \<Rightarrow> nat \<Rightarrow> shard_run" where
  "start_run ctx i =
     (let p = jc_job ctx; inputCid = pj_inputCids p ! i; (placement, rejections) = pj_placements p ! i;
          run = (\<lambda>phase ids degraded. \<lparr>lp_phase = phase, lp_nodeIds = ids, lp_attempted = [], lp_rejections = rejections,
                   lp_outstanding = [], lp_verification = None, lp_generations = 0, lp_speculated = False, lp_judgedAt = None,
                   lp_degraded = degraded, lp_ending = No_untried_node\<rparr>)
      in case map_get (re_carried (pj_resumed p)) (of_nat i) of
           Some already \<Rightarrow> run (Settled (carriedResult i inputCid already) (Some (ca_resultCid already))) [] False
         | None \<Rightarrow>
             (case placement of
                Sp_unplaceable reason \<Rightarrow>
                  run (Settled (unplaceable_result i inputCid reason (gt_quorum (gate_at ctx i)) rejections) None) [] False
              | Sp_placed ids degraded \<Rightarrow> run Granting ids degraded))"

definition start_job :: "('w, 'a) job_context \<Rightarrow> 'w \<Rightarrow> 'w job_state" where
  "start_job ctx w =
     (let p = jc_job ctx
      in \<lparr>jb_shared = \<lparr>sx_leases = pj_leases p, sx_ledger = pj_ledger p, sx_durations = [], sx_store = w,
            sx_completed = map (\<lambda>(i, c). \<lparr>cs_index = i, cs_result = ca_resultCid c\<rparr>) (re_carried (pj_resumed p)),
            sx_previous = re_from (pj_resumed p), sx_published = []\<rparr>,
          jb_runs = map (start_run ctx) [0..<length (jo_shards (jc_spec ctx))], jb_threw = None\<rparr>)"

text \<open>What one shard can do next, with the shared state: its new run, or a throw that ends the job.\<close>

inductive shard_step ::
  "('w, 'a) job_context \<Rightarrow> nat \<Rightarrow> 'w shared_state \<Rightarrow> shard_run \<Rightarrow> submit_throw + 'w shared_state \<times> shard_run \<Rightarrow> bool"
  for ctx :: "('w, 'a) job_context" and i :: nat and sx :: "'w shared_state" and r :: shard_run where
  step_granting: "lp_phase r = Granting \<Longrightarrow> shard_step ctx i sx r (Inr (grant_generation ctx i t1 t2 t3 (sx, r)))"
| step_answer: "lp_phase r = Racing f \<Longrightarrow> map_get (fl_copies f) key = Some on \<Longrightarrow> dispatch_answer ctx i on v \<Longrightarrow>
    shard_step ctx i sx r (Inr (sx, r\<lparr>lp_phase := copy_answers key v now f\<rparr>))"
| step_tick: "lp_phase r = Racing f \<Longrightarrow> shard_step ctx i sx r (Inr (tick ctx i f woke now (sx, r)))"
| step_probe: "lp_phase r = Probing f woke \<Longrightarrow> shard_step ctx i sx r (Inr (probe_answered ctx i f woke answer now (sx, r)))"
| step_returned: "lp_phase r = Returned_with startedAt d \<Longrightarrow>
    shard_step ctx i sx r (Inr (take_dispatched ctx i startedAt d t1 t2 (sx, r)))"
| step_placing: "lp_phase r = Placing \<Longrightarrow> shard_step ctx i sx r (Inr (sx, place_step ctx i a r))"
| step_settling: "lp_phase r = Settling \<Longrightarrow> shard_step ctx i sx r (settle_shard ctx i now (sx, r))"

inductive job_step :: "('w, 'a) job_context \<Rightarrow> 'w job_state \<Rightarrow> 'w job_state \<Rightarrow> bool"
  for ctx :: "('w, 'a) job_context" where
  job_moves: "jb_threw st = None \<Longrightarrow> i < length (jb_runs st) \<Longrightarrow> shard_step ctx i (jb_shared st) (jb_runs st ! i) (Inr (sx, r)) \<Longrightarrow>
    job_step ctx st (st\<lparr>jb_shared := sx, jb_runs := (jb_runs st)[i := r]\<rparr>)"
| job_throws: "jb_threw st = None \<Longrightarrow> i < length (jb_runs st) \<Longrightarrow> shard_step ctx i (jb_shared st) (jb_runs st ! i) (Inl e) \<Longrightarrow>
    job_step ctx st (st\<lparr>jb_threw := Some e\<rparr>)"

inductive job_reached :: "('w, 'a) job_context \<Rightarrow> 'w \<Rightarrow> 'w job_state \<Rightarrow> bool"
  for ctx :: "('w, 'a) job_context" and w :: 'w where
  reached_start: "job_reached ctx w (start_job ctx w)"
| reached_step: "job_reached ctx w st \<Longrightarrow> job_step ctx st st' \<Longrightarrow> job_reached ctx w st'"

text \<open>Once every shard has settled, the late copies are compared and the job is accounted for.  \<open>late\<close> is
  what each outstanding copy of each shard comes to before the window closes.\<close>

fun settled_run :: "loop_phase \<Rightarrow> (shard_result \<times> string option) option" where
  "settled_run (Settled result winner) = Some (result, winner)"
| "settled_run Granting = None"
| "settled_run (Racing f) = None"
| "settled_run (Probing f woke) = None"
| "settled_run (Returned_with t d) = None"
| "settled_run Placing = None"
| "settled_run Settling = None"

definition DEFAULT_SPECULATION_WATCHDOG_MS :: rat where
  "DEFAULT_SPECULATION_WATCHDOG_MS = 250"

definition compare_grace :: "submit_options \<Rightarrow> rat" where
  "compare_grace options =
     (case sn_compareGraceMs (dial_of options) of
        Some g \<Rightarrow> g
      | None \<Rightarrow> (case sn_watchdogMs (dial_of options) of Some w \<Rightarrow> w | None \<Rightarrow> DEFAULT_SPECULATION_WATCHDOG_MS))"

definition conclude_job ::
  "('w, 'a) job_context \<Rightarrow> 'w job_state \<Rightarrow> (nat \<Rightarrow> nat \<Rightarrow> shard_verification option) \<Rightarrow> job_result option" where
  "conclude_job ctx st late =
     (if jb_threw st = None \<and> list_all (\<lambda>r. settled_run (lp_phase r) \<noteq> None) (jb_runs st)
      then let settled = map (\<lambda>r. the (settled_run (lp_phase r))) (jb_runs st);
               toCompare = map (\<lambda>i. (snd (settled ! i), map (\<lambda>k. (lp_outstanding (jb_runs st ! i) ! k, late i k))
                             [0..<length (lp_outstanding (jb_runs st ! i))])) [0..<length (jb_runs st)];
               copies = compareOutstanding (compare_grace (jc_options ctx)) toCompare
           in Some (finish_job (jc_spec ctx) (sx_leases (jb_shared st)) (sx_ledger (jb_shared st))
                 (zip (map fst settled) copies))
      else None)"

section \<open>What an answer can say of the nodes it asked\<close>

abbreviation agreeing_ids :: "shard_verification \<Rightarrow> string list" where
  "agreeing_ids v \<equiv> map ag_nodeId (agreeing_in v)"

fun well_counted :: "shard_verification \<Rightarrow> bool" where
  "well_counted (V_agreed cid output ag n fs gross useful) = (n = length ag)"
| "well_counted (V_disagreed groups fs gross) = True"
| "well_counted (V_insufficient r fs) = True"

lemma merge_agreeing: "mset (agreeing_ids (mergeVerifications v w)) \<subseteq># mset (agreeing_ids v @ agreeing_ids w)"
  and merge_counted: "well_counted (mergeVerifications v w)"
  by (cases v w rule: merge_cases; simp add: merge_inv_def)+

lemma mset_filter_map: "mset (map f (filter P xs)) \<subseteq># mset (map f xs)"
  by (simp add: image_mset_subseteq_mono)

lemma verdict_answer:
  assumes "answered \<noteq> []"
  shows "agreeing_ids (of_verdict (verdict answered fs)) = [] \<or>
      agreeing_ids (of_verdict (verdict answered fs)) = map an_nodeId answered"
    and "well_counted (of_verdict (verdict answered fs))"
proof -
  have "(agreeing_ids (of_verdict v) = [] \<or> agreeing_ids (of_verdict v) = map an_nodeId answered) \<and> well_counted (of_verdict v)"
    if "verdict answered fs = v" for v
    using assms that by (cases rule: verdict_cases) (simp_all add: o_def)
  then show "agreeing_ids (of_verdict (verdict answered fs)) = [] \<or>
      agreeing_ids (of_verdict (verdict answered fs)) = map an_nodeId answered"
    "well_counted (of_verdict (verdict answered fs))" by blast+
qed

lemma verdict_sub:
  assumes "answered \<noteq> []" "mset (map an_nodeId answered) \<subseteq># m"
  shows "mset (agreeing_ids (of_verdict (verdict answered fs))) \<subseteq># m \<and> well_counted (of_verdict (verdict answered fs))"
proof -
  from verdict_answer(1) [OF assms(1), of fs] have "mset (agreeing_ids (of_verdict (verdict answered fs))) \<subseteq># m"
    using assms(2) by (metis mset.simps(1) subset_mset.zero_le)
  with verdict_answer(2) [OF assms(1)] show ?thesis by blast
qed

lemma round_answers:
  "mset (map an_nodeId (receipt_answers (map (runOne codec cid_of t) es))) \<subseteq># mset (map ex_nodeId es)"
proof -
  from arg_cong [OF receipts_of_executors [of codec cid_of t es], of "map fst"]
  have "map an_nodeId (receipt_answers (map (runOne codec cid_of t) es)) =
      map ex_nodeId (filter (\<lambda>e. answer_cid codec cid_of t e \<noteq> None) es)" by (simp add: o_def)
  then show ?thesis using mset_filter_map by metis
qed

lemma subseteq_skip: "m \<subseteq># m' \<Longrightarrow> m \<subseteq># add_mset x m'"
  by (simp add: subset_mset.le_iff_add) (metis add_mset_add_single union_assoc)

lemma commits_from:
  "mset (map (\<lambda>c. cm_nodeId (cd_executor c)) (commits_made (fst (commit_round t cs s)))) \<subseteq># mset (map cm_nodeId cs)"
proof (induction cs arbitrary: s)
  case (Cons c cs)
  obtain x s1 where x: "cm_commit c t s = (x, s1)" by force
  obtain rs s2 where rs: "commit_round t cs s1 = (rs, s2)" by force
  from Cons [of s1] rs
  have IH: "mset (map (\<lambda>c. cm_nodeId (cd_executor c)) (commits_made rs)) \<subseteq># mset (map cm_nodeId cs)" by (simp only: fst_conv)
  show ?case
  proof (cases x)
    case (Threw m)
    with x rs IH show ?thesis by (simp add: subseteq_skip)
  next
    case (Returned y)
    with x rs IH show ?thesis by (cases y) (simp_all add: subseteq_skip)
  qed
qed simp

lemma reveals_from: "map fst (fst (reveal_round cs s)) = cs"
  by (induction cs arbitrary: s) (auto split: prod.splits, metis fst_conv)

lemma judged_from:
  "mset (map an_nodeId (receipt_answers (map (judge_reveal codec cid_of cid_bytes sha t) entries))) \<subseteq>#
     mset (map (\<lambda>e. cm_nodeId (cd_executor (fst e))) entries)"
proof (induction entries)
  case (Cons e es)
  show ?case
  proof (cases "judge_reveal codec cid_of cid_bytes sha t e")
    case (Answered a)
    then have "an_nodeId a = cm_nodeId (cd_executor (fst e))"
      by (auto simp: judge_reveal_def Let_def split: settled.splits reveal_outcome.splits sum.splits prod.splits if_splits)
    with Answered Cons show ?thesis by simp
  next
    case (Failed n r)
    with Cons show ?thesis by (simp add: subseteq_skip)
  qed
qed simp

lemma round_cases:
  fixes codec cid_of t es
  defines "answered \<equiv> receipt_answers (map (runOne codec cid_of t) es)"
  obtains r fs where "executeVerified codec cid_of t es = Insufficient r fs"
  | fs where "answered \<noteq> []" "executeVerified codec cid_of t es = verdict answered fs"
proof (cases "es = [] \<or> answered = []")
  case True
  then have "\<exists>r fs. executeVerified codec cid_of t es = Insufficient r fs"
    by (cases "es = []") (simp_all add: executeVerified_def answered_def Let_def)
  then show thesis using that(1) by blast
next
  case False
  then show thesis using that(2) [of "receipt_failures (map (runOne codec cid_of t) es)"]
    by (simp add: executeVerified_def answered_def Let_def)
qed

lemma ceremony_cases:
  fixes codec cid_of cid_bytes sha t cs s
  assumes "commit_round t cs s = (round1, s1)" "reveal_round (commits_made round1) s1 = (round2, s2)"
  defines "answered \<equiv> receipt_answers (map (judge_reveal codec cid_of cid_bytes sha t) round2)"
  obtains r fs where "fst (executeCommitReveal codec cid_of cid_bytes sha t cs s) = Insufficient r fs"
  | fs where "answered \<noteq> []" "fst (executeCommitReveal codec cid_of cid_bytes sha t cs s) = verdict answered fs"
proof (cases "length cs < MIN_CEREMONY_REPLICAS \<or> commits_made round1 = [] \<or> answered = []")
  case True
  then have "\<exists>r fs. fst (executeCommitReveal codec cid_of cid_bytes sha t cs s) = Insufficient r fs"
    using assms(1,2)
    by (cases "length cs < MIN_CEREMONY_REPLICAS"; cases "commits_made round1 = []")
      (simp_all add: executeCommitReveal_def answered_def Let_def del: reveal_round.simps)
  then show thesis using that(1) by blast
next
  case False
  then show thesis
    using that(2) [of "commit_failures round1 @ receipt_failures (map (judge_reveal codec cid_of cid_bytes sha t) round2)"] assms(1,2)
    by (simp add: executeCommitReveal_def answered_def Let_def)
qed

lemma ceremony_answers:
  "mset (agreeing_ids (of_verdict (fst (executeCommitReveal codec cid_of cid_bytes sha t cs s)))) \<subseteq># mset (map cm_nodeId cs) \<and>
   well_counted (of_verdict (fst (executeCommitReveal codec cid_of cid_bytes sha t cs s)))"
proof -
  obtain round1 s1 where r1: "commit_round t cs s = (round1, s1)" by force
  obtain round2 s2 where r2: "reveal_round (commits_made round1) s1 = (round2, s2)" by force
  let ?answered = "receipt_answers (map (judge_reveal codec cid_of cid_bytes sha t) round2)"
  have fst2: "map fst round2 = commits_made round1" using reveals_from [of "commits_made round1" s1] r2 by simp
  have "map (\<lambda>e. cm_nodeId (cd_executor (fst e))) round2 = map (\<lambda>c. cm_nodeId (cd_executor c)) (map fst round2)" by simp
  also note fst2
  finally have "mset (map (\<lambda>e. cm_nodeId (cd_executor (fst e))) round2) \<subseteq># mset (map cm_nodeId cs)"
    using commits_from [of t cs s] r1 by (simp only: fst_conv)
  from subset_mset.order_trans [OF judged_from this]
  have sub: "mset (map an_nodeId ?answered) \<subseteq># mset (map cm_nodeId cs)" .
  show ?thesis
  proof (cases rule: ceremony_cases [OF r1 r2, of codec cid_of cid_bytes sha])
    case (2 fs)
    from verdict_sub [OF 2(1) sub, of fs] show ?thesis unfolding 2(2) .
  qed simp
qed

lemma round_answer:
  "mset (agreeing_ids (of_verdict (executeVerified codec cid_of t es))) \<subseteq># mset (map ex_nodeId es) \<and>
   well_counted (of_verdict (executeVerified codec cid_of t es))"
proof (cases rule: round_cases [of codec cid_of t es])
  case (2 fs)
  from verdict_sub [OF 2(1) round_answers, of fs] show ?thesis unfolding 2(2) .
qed simp

lemma dispatch_answers:
  assumes "dispatch_answer ctx i on v"
  shows "mset (agreeing_ids v) \<subseteq># mset on \<and> well_counted v"
  using assms by (induction rule: dispatch_answer.induct) (rule round_answer ceremony_answers | simp)+

section \<open>What every shard keeps\<close>

text \<open>The nodes a shard may ever be asked on: the eligible ones of its gate's pool.\<close>

definition allowed_ids :: "('w, 'a) job_context \<Rightarrow> nat \<Rightarrow> string set" where
  "allowed_ids ctx i = nd_nodeId ` set (eligibleNodes (requestFor (shard_at ctx i) (shard_id i) (Fin 1)) (gate_pool ctx i))"

lemma eligible_request: "eligibleNodes (requestFor shard k n) nodes = eligibleNodes (requestFor shard k' n') nodes"
  by (cases shard) (simp_all add: eligibleNodes_def requestFor_def)

definition answered_ids :: "shard_verification option \<Rightarrow> string list" where
  "answered_ids v = (case v of None \<Rightarrow> [] | Some u \<Rightarrow> agreeing_ids u)"

definition in_flight_ids :: "flight \<Rightarrow> string list" where
  "in_flight_ids f = answered_ids (fl_answered f) @ concat (map_values (fl_copies f))"

fun phase_ids :: "loop_phase \<Rightarrow> string list" where
  "phase_ids (Racing f) = in_flight_ids f"
| "phase_ids (Probing f woke) = in_flight_ids f"
| "phase_ids (Returned_with t (Was_answered v out spec judged)) = agreeing_ids v"
| "phase_ids (Returned_with t (Has_lapsed spec judged)) = []"
| "phase_ids Granting = []"
| "phase_ids Placing = []"
| "phase_ids Settling = []"
| "phase_ids (Settled result winner) = []"

definition counted_option :: "shard_verification option \<Rightarrow> bool" where
  "counted_option v = (case v of None \<Rightarrow> True | Some u \<Rightarrow> well_counted u)"

fun phase_counted :: "loop_phase \<Rightarrow> bool" where
  "phase_counted (Racing f) = counted_option (fl_answered f)"
| "phase_counted (Probing f woke) = counted_option (fl_answered f)"
| "phase_counted (Returned_with t (Was_answered v out spec judged)) = well_counted v"
| "phase_counted (Returned_with t (Has_lapsed spec judged)) = True"
| "phase_counted Granting = True"
| "phase_counted Placing = True"
| "phase_counted Settling = True"
| "phase_counted (Settled result winner) = True"

text \<open>A result that would make its shard complete: enough replicas, each a different node it was allowed to ask.\<close>

definition fully_verified :: "('w, 'a) job_context \<Rightarrow> nat \<Rightarrow> shard_verification \<Rightarrow> bool" where
  "fully_verified ctx i v =
     (case v of
        V_agreed cid output ag n fs gross useful \<Rightarrow>
          n = length ag \<and> redundancy_of (jc_spec ctx) \<le> n \<and> distinct (map ag_nodeId ag) \<and> set (map ag_nodeId ag) \<subseteq> allowed_ids ctx i
      | _ \<Rightarrow> False)"

definition result_ok :: "('w, 'a) job_context \<Rightarrow> nat \<Rightarrow> shard_result \<Rightarrow> bool" where
  "result_ok ctx i result \<longleftrightarrow> sr_partitionIndex result = i \<and>
     (is_agreed (sr_verification result) \<and> \<not> sr_degraded result \<longrightarrow> fully_verified ctx i (sr_verification result))"

definition run_inv :: "('w, 'a) job_context \<Rightarrow> nat \<Rightarrow> shard_run \<Rightarrow> bool" where
  "run_inv ctx i r \<longleftrightarrow>
     distinct (lp_attempted r) \<and> set (lp_attempted r) \<subseteq> allowed_ids ctx i \<and>
     mset (answered_ids (lp_verification r) @ phase_ids (lp_phase r)) \<subseteq># mset (lp_attempted r) \<and>
     counted_option (lp_verification r) \<and> phase_counted (lp_phase r) \<and>
     (lp_phase r = Granting \<longrightarrow> lp_nodeIds r \<noteq> [] \<and> distinct (lp_nodeIds r) \<and> length (lp_nodeIds r) \<le> redundancy_of (jc_spec ctx) \<and>
        set (lp_nodeIds r) \<subseteq> allowed_ids ctx i - set (lp_attempted r)) \<and>
     (\<forall>result winner. lp_phase r = Settled result winner \<longrightarrow> result_ok ctx i result)"

lemma loop_top_cases: "loop_top now f = Racing f \<or> loop_top now f = lapse f"
  by (simp add: loop_top_def)

lemma lapse_ids [simp]: "phase_ids (lapse f) = []" "phase_counted (lapse f)" "lapse f \<noteq> Granting" "lapse f \<noteq> Settled result winner"
  by (simp_all add: lapse_def)

lemma loop_top_ids: "mset (phase_ids (loop_top now f)) \<subseteq># mset (in_flight_ids f)"
  "counted_option (fl_answered f) \<Longrightarrow> phase_counted (loop_top now f)"
  "loop_top now f \<noteq> Granting" "loop_top now f \<noteq> Settled result winner"
  by (simp_all add: loop_top_def)

lemma values_set: "mset (concat (map_values (map_set k v m))) \<subseteq># mset (concat (map_values m)) + mset v"
proof (induction m)
  case (Cons p m)
  then show ?case
  proof (cases "fst p = k")
    case True
    then show ?thesis by (cases p) (simp add: subset_mset.add_mono ac_simps)
  next
    case False
    with Cons show ?thesis by (cases p) (simp add: ac_simps)
  qed
qed simp

lemma values_delete: "map_get m k = Some v \<Longrightarrow> mset v + mset (concat (map_values (map_delete k m))) \<subseteq># mset (concat (map_values m))"
proof (induction m)
  case (Cons p m)
  obtain a b where p: "p = (a, b)" by force
  have del: "mset (concat (map_values (map_delete k m))) \<subseteq># mset (concat (map_values m))"
  proof (induction m)
    case (Cons q m)
    then show ?case by (cases q) (auto intro: subset_mset.add_increasing simp: subset_mset.add_mono)
  qed simp
  show ?case
  proof (cases "a = k")
    case True
    with Cons.prems p del show ?thesis by simp
  next
    case False
    with Cons p show ?thesis by (simp add: ac_simps)
  qed
qed simp

lemma copy_answers_ids:
  assumes "map_get (fl_copies f) key = Some on" "mset (agreeing_ids v) \<subseteq># mset on" "well_counted v" "counted_option (fl_answered f)"
  shows "mset (phase_ids (copy_answers key v now f)) \<subseteq># mset (in_flight_ids f)" "phase_counted (copy_answers key v now f)"
    "copy_answers key v now f \<noteq> Granting" "copy_answers key v now f \<noteq> Settled result winner"
proof -
  let ?copies = "map_delete key (fl_copies f)"
  let ?answered = "case fl_answered f of None \<Rightarrow> v | Some a \<Rightarrow> mergeVerifications a v"
  have ans: "mset (agreeing_ids ?answered) \<subseteq># mset (answered_ids (fl_answered f)) + mset (agreeing_ids v)"
    using merge_agreeing by (cases "fl_answered f") (simp_all add: answered_ids_def)
  also have "\<dots> \<subseteq># mset (answered_ids (fl_answered f)) + mset on" using assms(2) by simp
  finally have one: "mset (agreeing_ids ?answered) \<subseteq># mset (answered_ids (fl_answered f)) + mset on" .
  have "mset (agreeing_ids ?answered) + mset (concat (map_values ?copies)) \<subseteq># mset (in_flight_ids f)"
  proof -
    have "mset (agreeing_ids ?answered) + mset (concat (map_values ?copies)) \<subseteq>#
        mset (answered_ids (fl_answered f)) + (mset on + mset (concat (map_values ?copies)))"
      using one by (simp add: ac_simps subset_mset.add_mono)
    also have "\<dots> \<subseteq># mset (in_flight_ids f)"
      using values_delete [OF assms(1)] by (simp add: in_flight_ids_def subset_mset.add_mono)
    finally show ?thesis .
  qed
  moreover from this have "mset (agreeing_ids ?answered) \<subseteq># mset (in_flight_ids f)"
    by (metis mset_subset_eq_add_left subset_mset.order_trans)
  moreover have "well_counted ?answered" using assms(3) merge_counted by (cases "fl_answered f") simp_all
  ultimately show "mset (phase_ids (copy_answers key v now f)) \<subseteq># mset (in_flight_ids f)" "phase_counted (copy_answers key v now f)"
    "copy_answers key v now f \<noteq> Granting" "copy_answers key v now f \<noteq> Settled result winner"
    by (auto simp: copy_answers_def Let_def loop_top_def in_flight_ids_def answered_ids_def counted_option_def)
qed

lemma run_inv_phase:
  assumes "run_inv ctx i r" "mset (phase_ids p) \<subseteq># mset (phase_ids (lp_phase r))" "phase_counted p"
    "p \<noteq> Granting" "\<And>result winner. p \<noteq> Settled result winner"
  shows "run_inv ctx i (r\<lparr>lp_phase := p\<rparr>)"
proof -
  have "mset (answered_ids (lp_verification r)) + mset (phase_ids p) \<subseteq># mset (answered_ids (lp_verification r)) + mset (phase_ids (lp_phase r))"
    using assms(2) by simp
  also have "\<dots> \<subseteq># mset (lp_attempted r)" using assms(1) by (simp add: run_inv_def)
  finally show ?thesis using assms by (simp add: run_inv_def)
qed

lemma in_flight_frame [simp]: "in_flight_ids (f\<lparr>fl_watching := b\<rparr>) = in_flight_ids f" "in_flight_ids (f\<lparr>fl_renewable := b\<rparr>) = in_flight_ids f"
  "in_flight_ids (f\<lparr>fl_lease := l\<rparr>) = in_flight_ids f"
  by (simp_all add: in_flight_ids_def)

lemma grant_generation_inv:
  assumes "run_inv ctx i r" "lp_phase r = Granting"
  shows "run_inv ctx i (snd (grant_generation ctx i t1 t2 t3 (sx, r)))"
proof -
  obtain l t where g: "grant (shard_id i) (hd (lp_nodeIds r)) t1 (sx_leases sx) = (l, t)" by force
  show ?thesis
  proof (cases l)
    case None
    with g assms show ?thesis by (auto simp: grant_generation_def run_inv_def)
  next
    case (Some x)
    define f where "f = \<lparr>fl_lease = x, fl_startedAt = t2, fl_copies = [(hd (lp_nodeIds r), lp_nodeIds r)],
       fl_answered = None, fl_speculated = False, fl_judgedAt = None, fl_renewable = probes_holder ctx, fl_watching = speculation_enabled ctx\<rparr>"
    have f: "mset (phase_ids (loop_top t3 f)) \<subseteq># mset (lp_nodeIds r)" "phase_counted (loop_top t3 f)"
      using loop_top_ids(1,2) [where now = t3 and f = f] by (simp_all add: f_def in_flight_ids_def answered_ids_def counted_option_def)
    from assms have "mset (answered_ids (lp_verification r)) \<subseteq># mset (lp_attempted r)"
      by (simp add: run_inv_def)
    from subset_mset.add_mono [OF this f(1)]
    have "mset (answered_ids (lp_verification r)) + mset (phase_ids (loop_top t3 f)) \<subseteq># mset (lp_attempted r) + mset (lp_nodeIds r)" .
    with assms f(2) show ?thesis
      by (auto simp: grant_generation_def g Some run_inv_def f_def [symmetric] loop_top_ids(3,4))
  qed
qed

lemma speculate_cases:
  assumes "speculate ctx i woke f attempted durations ledger = (f', attempted', ledger')"
  obtains (still) b where "f' = f\<lparr>fl_watching := b\<rparr>" "attempted' = attempted" "ledger' = ledger"
  | (copied) t where "t \<in> allowed_ids ctx i" "t \<notin> set attempted" "attempted' = attempted @ [t]"
      "f' = f\<lparr>fl_speculated := True, fl_judgedAt := Some woke, fl_copies := map_set t [t] (fl_copies f)\<rparr>"
      "request_copy (l_taskId (fl_lease f)) ledger = (True, ledger')"
proof -
  let ?cand = "speculativeCandidates (requestFor (shard_at ctx i) (shard_id i) (Fin 1)) (gate_pool ctx i) attempted"
  let ?slow = "stragglers (jp_lc (jc_ports ctx))
      [\<lparr>if_taskId = l_taskId (fl_lease f), if_nodeId = l_nodeId (fl_lease f), if_startedAt = fl_startedAt f\<rparr>] woke
      \<lparr>so_completed = durations, so_factor = Some (straggler_factor ctx), so_minSamples = None\<rparr>"
  have same: thesis if "f' = f" "attempted' = attempted" "ledger' = ledger"
    using still [of "fl_watching f"] that by simp
  have no: "request_copy k ledger = (False, led) \<Longrightarrow> led = ledger" for k led
    by (auto simp: request_copy_def split: if_splits)
  note def = assms [unfolded speculate_def Let_def]
  show thesis
  proof (cases "fl_watching f")
    case False
    with def same show thesis by simp
  next
    case watching: True
    show thesis
    proof (cases "was_duplicated (l_taskId (fl_lease f)) ledger \<or> js_le (ledger_remaining ledger) 0")
      case True
      with def watching still [of False] show thesis by simp
    next
      case left: False
      show thesis
      proof (cases ?cand)
        case Nil
        with def watching left still [of False] show thesis by simp
      next
        case (Cons target others)
        then have "target \<in> set ?cand" by simp
        then have t: "nd_nodeId target \<in> allowed_ids ctx i" "nd_nodeId target \<notin> set attempted"
          by (auto simp: speculativeCandidates_def allowed_ids_def)
        show thesis
        proof (cases "?slow = []")
          case True
          with def watching left Cons same show thesis by simp
        next
          case slow: False
          obtain ok led where rc: "request_copy (l_taskId (fl_lease f)) ledger = (ok, led)" by force
          show thesis
          proof (cases ok)
            case True
            with def watching left Cons slow rc t copied [of "nd_nodeId target"] show thesis by simp
          next
            case False
            with def watching left Cons slow rc no still [of False] show thesis by simp
          qed
        qed
      qed
    qed
  qed
qed

lemma tick_phase:
  assumes "run_inv ctx i r'" "lp_phase r' = Racing f'"
  shows "run_inv ctx i (r'\<lparr>lp_phase := (if \<not> fl_renewable f' \<or> \<not> shouldRenew (fl_lease f') woke then loop_top now f' else Probing f' woke)\<rparr>)"
  using assms by (intro run_inv_phase) (auto simp: loop_top_ids run_inv_def)

lemma tick_inv:
  assumes "run_inv ctx i r" "lp_phase r = Racing f"
  shows "run_inv ctx i (snd (tick ctx i f woke now (sx, r)))"
proof (cases "lease_over (fl_lease f) woke")
  case True
  with assms show ?thesis by (simp add: tick_def run_inv_phase)
next
  case False
  obtain f' attempted ledger where s: "speculate ctx i woke f (lp_attempted r) (sx_durations sx) (sx_ledger sx) = (f', attempted, ledger)"
    by (metis prod_cases3)
  have "run_inv ctx i (r\<lparr>lp_attempted := attempted, lp_phase := Racing f'\<rparr>)"
    using s
  proof (cases rule: speculate_cases)
    case (still b)
    with assms show ?thesis by (simp add: run_inv_def)
  next
    case (copied t)
    have "mset (in_flight_ids f') \<subseteq># mset (in_flight_ids f) + mset [t]"
      using values_set [of t "[t]" "fl_copies f"] by (simp add: in_flight_ids_def copied subset_mset.add_mono)
    then have "mset (answered_ids (lp_verification r)) + mset (in_flight_ids f') \<subseteq>#
        (mset (answered_ids (lp_verification r)) + mset (in_flight_ids f)) + mset [t]"
      by (simp add: ac_simps)
    also have "\<dots> \<subseteq># mset (lp_attempted r) + mset [t]"
      using assms by (intro subset_mset.add_mono) (simp_all add: run_inv_def)
    finally show ?thesis using assms copied by (simp add: run_inv_def)
  qed
  from tick_phase [OF this, of f' woke now] False s show ?thesis by (simp add: tick_def)
qed

lemma probe_inv:
  assumes "run_inv ctx i r" "lp_phase r = Probing f woke"
  shows "run_inv ctx i (snd (probe_answered ctx i f woke answer now (sx, r)))"
proof -
  have "counted_option (fl_answered f)" using assms by (simp add: run_inv_def)
  then have go: "run_inv ctx i (r\<lparr>lp_phase := loop_top now (f\<lparr>fl_renewable := False\<rparr>)\<rparr>)"
    "run_inv ctx i (r\<lparr>lp_phase := loop_top now (f\<lparr>fl_lease := l\<rparr>)\<rparr>)" "run_inv ctx i (r\<lparr>lp_phase := lapse f\<rparr>)" for l
    using assms(2) loop_top_ids [where now = now and f = "f\<lparr>fl_renewable := False\<rparr>"]
      loop_top_ids [where now = now and f = "f\<lparr>fl_lease := l\<rparr>"] \<open>counted_option (fl_answered f)\<close>
    by (auto intro!: run_inv_phase [OF assms(1)])
  show ?thesis using go by (auto simp: probe_answered_def Let_def split: prod.splits option.splits)
qed

lemma take_answer_inv:
  assumes "run_inv ctx i r" "lp_phase r = Returned_with t (Was_answered v out spec judged)"
  shows "run_inv ctx i (snd (take_answer ctx i startedAt v out t1 t2 (sx, r\<lparr>lp_speculated := b, lp_judgedAt := j\<rparr>)))"
proof -
  define merged where "merged = (case lp_verification r of None \<Rightarrow> v | Some u \<Rightarrow> mergeVerifications u v)"
  from assms have inv: "mset (answered_ids (lp_verification r)) + mset (agreeing_ids v) \<subseteq># mset (lp_attempted r)" "well_counted v"
    by (simp_all add: run_inv_def)
  have "mset (agreeing_ids merged) \<subseteq># mset (answered_ids (lp_verification r)) + mset (agreeing_ids v)"
    using merge_agreeing by (cases "lp_verification r") (simp_all add: answered_ids_def merged_def)
  also note inv(1)
  finally have sub: "mset (agreeing_ids merged) \<subseteq># mset (lp_attempted r)" .
  have wc: "well_counted merged" using inv(2) merge_counted by (cases "lp_verification r") (simp_all add: merged_def)
  obtain p e where "snd (take_answer ctx i startedAt v out t1 t2 (sx, r\<lparr>lp_speculated := b, lp_judgedAt := j\<rparr>)) =
      r\<lparr>lp_speculated := b, lp_judgedAt := j, lp_outstanding := lp_outstanding r @ out, lp_verification := Some merged,
        lp_ending := e, lp_phase := p\<rparr> \<and> (p = Settling \<or> p = Placing)"
  proof (cases merged)
    case (V_agreed cid outp ag n fs gross useful)
    then show thesis
      by (cases "enough_replicas ctx n")
        (rule that [where p = Settling and e = Ended_agreed], simp add: take_answer_def Let_def merged_def [symmetric],
         rule that [where p = Placing and e = "lp_ending r"], simp add: take_answer_def Let_def merged_def [symmetric])
  next
    case (V_disagreed groups fs gross)
    then show thesis
      by (intro that [where p = Settling and e = Ended_disagreed]) (simp add: take_answer_def Let_def merged_def [symmetric])
  next
    case (V_insufficient reason fs)
    then show thesis
      by (intro that [where p = Placing and e = "lp_ending r"]) (simp add: take_answer_def Let_def merged_def [symmetric])
  qed
  with assms sub wc show ?thesis by (auto simp: run_inv_def answered_ids_def counted_option_def)
qed

lemma take_dispatched_inv:
  assumes "run_inv ctx i r" "lp_phase r = Returned_with startedAt d"
  shows "run_inv ctx i (snd (take_dispatched ctx i startedAt d t1 t2 (sx, r)))"
proof (cases d)
  case (Was_answered v out spec judged)
  from take_answer_inv [OF assms [unfolded this]] Was_answered show ?thesis by (simp add: take_dispatched_def Let_def)
next
  case (Has_lapsed spec judged)
  with assms show ?thesis by (auto simp: take_dispatched_def Let_def run_inv_def)
qed

lemma planPlacement_one: "hd (plan_placements (planPlacement lc [request] nodes)) = place_one lc nodes request"
  by (simp add: planPlacement_def Let_def)

lemma placed_again_chosen:
  assumes "placeAgain hash lc admit request pool tried a = (Placed_again ids rejections degraded, a')"
  shows "chosen_for request (filter (\<lambda>n. nd_nodeId n \<notin> set tried) pool) ids degraded"
proof -
  let ?remaining = "filter (\<lambda>n. nd_nodeId n \<notin> set tried) pool"
  have ne: "?remaining \<noteq> []" using assms by (auto simp: placeAgain_def)
  show ?thesis
  proof (cases admit)
    case None
    show ?thesis
    proof (cases "place_one lc ?remaining request")
      case (Placed sid ids' n deg)
      from chosen_by_load [OF this] Placed None ne assms show ?thesis
        by (simp add: placeAgain_def Let_def planPlacement_one of_placement_def)
    next
      case (Unplaceable sid reason)
      with None ne assms show ?thesis by (simp add: placeAgain_def Let_def planPlacement_one of_placement_def)
    qed
  next
    case (Some f)
    obtain offered a1 where o': "planWithOffers hash lc [request] ?remaining \<lparr>oo_d = None, oo_admit = Some f\<rparr> a = (offered, a1)" by force
    with planWithOffers_fit [of ?remaining "[request]" hash lc "\<lparr>oo_d = None, oo_admit = Some f\<rparr>" a]
    obtain p where p: "offered = [p]" "offered_fits ?remaining request p" by (auto simp: list_all2_Cons1)
    with assms ne Some o' show ?thesis
      by (auto simp: placeAgain_def Let_def offered_fits_def split: shard_placement.splits)
  qed
qed

text \<open>The job was prepared from its specification, and no two of its nodes have one id.\<close>

definition submitted :: "('w, 'a) job_context \<Rightarrow> 'w \<Rightarrow> bool" where
  "submitted ctx w \<longleftrightarrow> distinct (map nd_nodeId (jo_nodes (jc_spec ctx))) \<and>
     (\<exists>w0 a a'. prepare_job (jc_ports ctx) (jc_options ctx) (jc_spec ctx) (pj_now (jc_job ctx)) w0 a = (Inr (jc_job ctx), w, a'))"

lemma submitted_place:
  assumes "submitted ctx w"
  obtains ledger leases inputCids jobId resumed a a' where "spec_refusal (jc_spec ctx) = None"
    "new_speculation_ledger (num_of_nat (length (jo_shards (jc_spec ctx)))) (Some (fraction_of (jc_options ctx))) = Inr ledger"
    "new_lease_table (jo_leaseMs (jc_spec ctx)) (Some DEFAULT_MAX_GENERATIONS) = Inr leases"
    "place_job (jc_ports ctx) (jc_options ctx) (jc_spec ctx) (pj_now (jc_job ctx)) ledger leases inputCids jobId resumed a = (jc_job ctx, a')"
  using assms unfolding submitted_def by (metis prepare_job_places)

lemma gate_pool_distinct:
  assumes "submitted ctx w"
  shows "distinct (map nd_nodeId (gate_pool ctx i))"
proof -
  have d: "distinct (map nd_nodeId (candidate_nodes (jc_spec ctx)))"
    using assms by (simp add: submitted_def candidate_nodes_def distinct_map_filter)
  obtain ledger leases inputCids jobId resumed a a' where ok: "spec_refusal (jc_spec ctx) = None"
    and p: "place_job (jc_ports ctx) (jc_options ctx) (jc_spec ctx) (pj_now (jc_job ctx)) ledger leases inputCids jobId resumed a = (jc_job ctx, a')"
    using submitted_place [OF assms] by metis
  let ?q = "compose_for (jp_lc (jc_ports ctx)) (candidate_nodes (jc_spec ctx)) (redundancy_of (jc_spec ctx))"
  from place_job_gates(2) [OF p, of 0] spec_redundancy(3) [OF ok]
  have "gate_pool ctx i = candidate_nodes (jc_spec ctx) \<or> gate_pool ctx i = quorum_pool ?q (candidate_nodes (jc_spec ctx))"
    by (simp add: gate_pool_def split: pool_ref.splits)
  moreover have "distinct (map nd_nodeId (quorum_pool ?q (candidate_nodes (jc_spec ctx))))"
    using d by (auto simp: quorum_pool_def distinct_map_filter split: option.splits quorum_result.splits)
  ultimately show ?thesis using d by auto
qed

lemma wanted_more_bound:
  assumes "spec_refusal (jc_spec ctx) = None"
  shows "wanted_replicas (requestFor shard k (wanted_more ctx r)) \<le> redundancy_of (jc_spec ctx)"
proof -
  have w: "pr_redundancy (requestFor shard k n) = n" for n by (cases shard) (simp_all add: requestFor_def)
  have red: "jo_redundancy (jc_spec ctx) = Fin (of_nat (redundancy_of (jc_spec ctx)))"
    using spec_redundancy(2) [OF assms] .
  have less: "nat (int_of_num (js_minus (Fin (of_nat m)) (of_nat n))) \<le> m" for m n :: nat
  proof -
    have "of_nat m - (of_nat n :: rat) = of_int (int m - int n)" by simp
    then have "\<lfloor>of_nat m - (of_nat n :: rat)\<rfloor> = int m - int n" by (metis floor_of_int)
    then show ?thesis by simp
  qed
  show ?thesis
  proof (cases "lp_verification r")
    case None
    then show ?thesis by (simp add: w wanted_more_def red)
  next
    case (Some v)
    then show ?thesis
      by (cases v) (simp_all only: w wanted_more_def red less option.case shard_verification.case, simp_all)
  qed
qed

lemma chosen_fresh:
  assumes "chosen_for (requestFor (shard_at ctx i) (shard_id i) n) (filter (\<lambda>d. nd_nodeId d \<notin> set tried) (gate_pool ctx i)) ids deg"
    "submitted ctx w" "wanted_replicas (requestFor (shard_at ctx i) (shard_id i) n) \<le> redundancy_of (jc_spec ctx)"
  shows "ids \<noteq> [] \<and> distinct ids \<and> length ids \<le> redundancy_of (jc_spec ctx) \<and> set ids \<subseteq> allowed_ids ctx i - set tried"
proof -
  have "distinct (map nd_nodeId (filter (\<lambda>d. nd_nodeId d \<notin> set tried) (gate_pool ctx i)))"
    using gate_pool_distinct [OF assms(2)] by (simp add: distinct_map_filter)
  moreover have "nd_nodeId ` set (eligibleNodes (requestFor (shard_at ctx i) (shard_id i) n) (filter (\<lambda>d. nd_nodeId d \<notin> set tried) (gate_pool ctx i)))
      \<subseteq> allowed_ids ctx i - set tried"
    unfolding allowed_ids_def eligible_request [of _ "shard_id i" "Fin 1" _ "shard_id i" n] by (auto simp: eligible_filter)
  moreover note chosen = assms(1) [unfolded chosen_for_def]
  ultimately have "distinct ids" "set ids \<subseteq> allowed_ids ctx i - set tried" by (metis, metis subset_trans)
  with chosen assms(3) show ?thesis by linarith
qed

lemma place_step_inv:
  assumes "run_inv ctx i r" "lp_phase r = Placing" "submitted ctx w"
  shows "run_inv ctx i (place_step ctx i a r)"
proof -
  have ok: "spec_refusal (jc_spec ctx) = None" using submitted_place [OF assms(3)] by metis
  obtain g a' where g: "placeAgain (jp_hash (jc_ports ctx)) (jp_lc (jc_ports ctx)) (jp_admit (jc_ports ctx))
      (requestFor (shard_at ctx i) (shard_id i) (wanted_more ctx r)) (gate_pool ctx i) (lp_attempted r) a = (g, a')" by force
  show ?thesis
  proof (cases g)
    case (Placed_again ids rejections degraded)
    from chosen_fresh [OF placed_again_chosen [OF g [unfolded this]] assms(3) wanted_more_bound [OF ok]] assms g Placed_again
    show ?thesis by (simp add: place_step_def run_inv_def)
  next
    case (Nowhere_left rejections)
    with assms g show ?thesis by (simp add: place_step_def run_inv_def)
  qed
qed

lemma settle_inv:
  assumes "run_inv ctx i r" "lp_phase r = Settling" "settle_shard ctx i now (sx, r) = Inr (sx', r')"
  shows "run_inv ctx i r'"
proof -
  let ?v = "settled_verification i r"
  obtain attestation where r': "r' = r\<lparr>lp_phase := Settled (result_of ctx i r ?v attestation) (winner_cid ?v)\<rparr>"
    using assms(3) by (auto simp: settle_shard_def Let_def split: sum.splits)
  have "fully_verified ctx i ?v" if "is_agreed ?v" "\<not> sr_degraded (result_of ctx i r ?v attestation)"
  proof -
    from that(1) obtain v where v: "lp_verification r = Some v" "?v = v"
      by (cases "lp_verification r") (simp_all add: settled_verification_def)
    with that obtain cid outp ag n fs gross useful where ag: "v = V_agreed cid outp ag n fs gross useful" "enough_replicas ctx n"
      by (cases v) (simp_all add: result_of_def)
    from assms(1,2) v ag have sub: "mset (map ag_nodeId ag) \<subseteq># mset (lp_attempted r)" "n = length ag"
      by (simp_all add: run_inv_def answered_ids_def counted_option_def)
    with assms(1) have "distinct (map ag_nodeId ag)" "set (map ag_nodeId ag) \<subseteq> allowed_ids ctx i"
      using distinct_sub_mset [OF sub(1)] set_mset_mono [OF sub(1)] by (auto simp: run_inv_def)
    with v ag sub show ?thesis by (simp add: fully_verified_def enough_replicas_def)
  qed
  then have "result_ok ctx i (result_of ctx i r ?v attestation)" by (simp add: result_ok_def result_of_def)
  with assms(1,2) show ?thesis by (auto simp: r' run_inv_def)
qed

section \<open>What the whole job keeps\<close>

lemma step_run_inv:
  assumes "shard_step ctx i sx r (Inr (sx', r'))" "run_inv ctx i r" "submitted ctx w"
  shows "run_inv ctx i r'"
  using assms(1)
proof (cases rule: shard_step.cases)
  case (step_granting t1 t2 t3)
  with grant_generation_inv [OF assms(2), of t1 t2 t3 sx] show ?thesis by (metis snd_conv sum.inject(2))
next
  case (step_answer f key on v now)
  from dispatch_answers [OF step_answer(5)] have v: "mset (agreeing_ids v) \<subseteq># mset on" "well_counted v" by auto
  from assms(2) step_answer(3) have "counted_option (fl_answered f)" by (simp add: run_inv_def)
  note a = copy_answers_ids [OF step_answer(4) v this, of now]
  from step_answer a show ?thesis by (auto intro!: run_inv_phase [OF assms(2)])
next
  case (step_tick f woke now)
  with tick_inv [OF assms(2), of f woke now sx] show ?thesis by (metis snd_conv sum.inject(2))
next
  case (step_probe f woke answer now)
  with probe_inv [OF assms(2), of f woke answer now sx] show ?thesis by (metis snd_conv sum.inject(2))
next
  case (step_returned startedAt d t1 t2)
  with take_dispatched_inv [OF assms(2), of startedAt d t1 t2 sx] show ?thesis by (metis snd_conv sum.inject(2))
next
  case (step_placing a)
  with place_step_inv [OF assms(2) _ assms(3)] show ?thesis by simp
next
  case (step_settling now)
  from settle_inv [OF assms(2) step_settling(2) step_settling(1) [symmetric]] show ?thesis .
qed

lemma start_run_inv:
  assumes "submitted ctx w" "i < length (jo_shards (jc_spec ctx))"
  shows "run_inv ctx i (start_run ctx i)"
proof -
  let ?p = "jc_job ctx"
  obtain ledger leases inputCids jobId resumed a a' where ok: "spec_refusal (jc_spec ctx) = None"
    and pj: "place_job (jc_ports ctx) (jc_options ctx) (jc_spec ctx) (pj_now ?p) ledger leases inputCids jobId resumed a = (?p, a')"
    using submitted_place [OF assms(1)] by metis
  obtain placement rejections where pl: "pj_placements ?p ! i = (placement, rejections)" by force
  show ?thesis
  proof (cases "map_get (re_carried (pj_resumed ?p)) (of_nat i)")
    case (Some already)
    then show ?thesis
      by (simp add: start_run_def pl Let_def run_inv_def result_ok_def carriedResult_def answered_ids_def counted_option_def)
  next
    case None
    show ?thesis
    proof (cases placement)
      case (Sp_unplaceable reason)
      with None show ?thesis
        by (simp add: start_run_def pl Let_def run_inv_def result_ok_def unplaceable_result_def answered_ids_def counted_option_def)
    next
      case (Sp_placed ids deg)
      let ?g = "\<lparr>gs_index = i, gs_carried = (map_get (re_carried (pj_resumed ?p)) (of_nat i) \<noteq> None),
          gs_spec = jo_shards (jc_spec ctx) ! i, gs_gate = pj_gates ?p ! i\<rparr>"
      from conjunct1 [OF place_job_fits [OF pj assms(2)]] pl Sp_placed
      have fit: "placement_fits (pool_of ?p) (jo_redundancy (jc_spec ctx)) ?g (Sp_placed ids deg)" by (simp only: fst_conv)
      then have "not_placed ?g = None" by (cases "not_placed ?g") (simp_all add: placement_fits_def)
      with fit have "chosen_for (requestFor (shard_at ctx i) (shard_id i) (jo_redundancy (jc_spec ctx))) (gate_pool ctx i) ids deg"
        by (simp add: placement_fits_def request_of_def shard_at_def shard_id_def gate_pool_def gate_at_def)
      then have a: "chosen_for (requestFor (shard_at ctx i) (shard_id i) (jo_redundancy (jc_spec ctx)))
          (filter (\<lambda>d. nd_nodeId d \<notin> set []) (gate_pool ctx i)) ids deg" by simp
      have b: "wanted_replicas (requestFor (shard_at ctx i) (shard_id i) (jo_redundancy (jc_spec ctx))) \<le> redundancy_of (jc_spec ctx)"
        by (simp add: requestFor_def redundancy_of_def split: shard_spec.splits)
      from chosen_fresh [OF a assms(1) b] None Sp_placed show ?thesis
        by (simp add: start_run_def pl Let_def run_inv_def answered_ids_def counted_option_def)
    qed
  qed
qed

lemma job_runs_inv:
  assumes "job_reached ctx w st" "submitted ctx w"
  shows "length (jb_runs st) = length (jo_shards (jc_spec ctx)) \<and> (\<forall>i < length (jb_runs st). run_inv ctx i (jb_runs st ! i))"
  using assms(1)
proof (induction rule: job_reached.induct)
  case reached_start
  then show ?case using start_run_inv [OF assms(2)] by (simp add: start_job_def Let_def)
next
  case (reached_step st st')
  from reached_step(2) show ?case
  proof (cases rule: job_step.cases)
    case (job_moves i sx r)
    from step_run_inv [OF job_moves(4) _ assms(2)] reached_step.IH job_moves(1,3) show ?thesis
      by (auto simp: nth_list_update)
  next
    case (job_throws i e)
    with reached_step.IH show ?thesis by simp
  qed
qed

text \<open>What concluding leaves of each run.\<close>

lemma compare_length: "length (compareOutstanding g xs) = length xs"
  by (simp add: compareOutstanding_def)

lemma concluded_shards:
  assumes "conclude_job ctx st late = Some result"
  shows "length (jr_shards result) = length (jb_runs st) \<and>
    (\<forall>i < length (jb_runs st). \<exists>r winner copies. lp_phase (jb_runs st ! i) = Settled r winner \<and> jr_shards result ! i = with_copies r copies) \<and>
    jr_complete result = list_all shard_complete (jr_shards result)"
proof -
  have all: "list_all (\<lambda>r. settled_run (lp_phase r) \<noteq> None) (jb_runs st)"
    using assms by (simp add: conclude_job_def split: if_splits)
  define settled where "settled = map (\<lambda>r. the (settled_run (lp_phase r))) (jb_runs st)"
  obtain copies where c: "length copies = length (jb_runs st)"
    "result = finish_job (jc_spec ctx) (sx_leases (jb_shared st)) (sx_ledger (jb_shared st)) (zip (map fst settled) copies)"
  proof -
    define toCompare where "toCompare = map (\<lambda>i. (snd (settled ! i), map (\<lambda>k. (lp_outstanding (jb_runs st ! i) ! k, late i k))
        [0..<length (lp_outstanding (jb_runs st ! i))])) [0..<length (jb_runs st)]"
    have "result = finish_job (jc_spec ctx) (sx_leases (jb_shared st)) (sx_ledger (jb_shared st))
        (zip (map fst settled) (compareOutstanding (compare_grace (jc_options ctx)) toCompare))"
      using assms unfolding conclude_job_def Let_def settled_def [symmetric] toCompare_def [symmetric]
      by (simp split: if_splits)
    then show thesis by (rule that [rotated]) (simp add: compare_length toCompare_def)
  qed
  have "\<exists>r winner copies. lp_phase (jb_runs st ! i) = Settled r winner \<and> jr_shards result ! i = with_copies r copies"
    if "i < length (jb_runs st)" for i
  proof -
    from all that have "settled_run (lp_phase (jb_runs st ! i)) \<noteq> None" by (simp add: list_all_length)
    then obtain r winner where r: "lp_phase (jb_runs st ! i) = Settled r winner"
      by (cases "lp_phase (jb_runs st ! i)") auto
    with that c have "jr_shards result ! i = with_copies r (copies ! i)"
      by (simp add: finish_job_def Let_def settled_def)
    with r show ?thesis by blast
  qed
  with c show ?thesis by (simp add: finish_job_def Let_def settled_def)
qed

lemma with_copies_fields [simp]:
  "sr_partitionIndex (with_copies r cs) = sr_partitionIndex r" "sr_verification (with_copies r cs) = sr_verification r"
  "sr_degraded (with_copies r cs) = sr_degraded r"
  by (simp_all add: with_copies_def)

lemma with_copies_disagreed:
  "sr_disagreed (with_copies r cs) = (if cs = [] then sr_disagreed r else list_ex (\<lambda>c. case c of Copy_disagreed ns cids \<Rightarrow> True | _ \<Rightarrow> False) cs)"
  by (simp add: with_copies_def)

lemma allowed_owner:
  assumes "k \<in> allowed_ids ctx i"
  shows "\<exists>n \<in> set (gate_pool ctx i). nd_nodeId n = k \<and>
    (\<forall>v ow. shard_at ctx i = Sovereign_shard v ow \<longrightarrow> ow = Some (nd_ownerId n) \<and> canExecuteSovereign n)"
  using assms by (auto simp: allowed_ids_def eligible_filter requestFor_def split: shard_spec.splits)


text \<open>An inhabited instance: the one sovereign shard of the preparation's example, granted, answered by
  \<open>ann\<close>'s node, taken and settled.\<close>

definition demo_context :: "bool \<Rightarrow> (memory_store, nat) job_context" where
  "demo_context b = \<lparr>jc_spec = demo_spec, jc_ports = demo_ports, jc_options = demo_submit_options\<lparr>sb_checkpoints := b\<rparr>, jc_job = demo_job,
     jc_cid_bytes = (\<lambda>c. []), jc_sha256 = id\<rparr>"

lemma prepare_any_log: "prepare_job ports (options\<lparr>sb_checkpoints := b\<rparr>) spec now w a = prepare_job ports options spec now w a"
proof -
  have "fraction_of (options\<lparr>sb_checkpoints := b\<rparr>) = fraction_of options"
    "sb_resumeFrom (options\<lparr>sb_checkpoints := b\<rparr>) = sb_resumeFrom options"
    "place_job ports (options\<lparr>sb_checkpoints := b\<rparr>) = place_job ports options"
    by (simp_all add: fraction_of_def dial_of_def place_job_def fun_eq_iff)
  then show ?thesis unfolding prepare_job_def by (simp only:)
qed

lemma demo_submitted: "submitted (demo_context b) [(''i'', [0])]"
proof -
  have "distinct (map nd_nodeId demo_nodes)" by (simp add: demo_nodes_def demo_node_def)
  then show ?thesis using demo_prepared
    by (auto simp: submitted_def demo_context_def demo_spec_def [THEN arg_cong [of _ _ jo_nodes]] prepare_any_log demo_job_def [THEN arg_cong [of _ _ pj_now]])
qed

definition demo_answer :: executed where
  "demo_answer = \<lparr>xo_output = CStr ''z'', xo_cost = no_cost, xo_attestation = Signed_by_nobody\<rparr>"

definition demo_verification :: shard_verification where
  "demo_verification = V_agreed ''i'' (CStr ''z'') [\<lparr>ag_nodeId = ''a'', ag_attestation = Signed_by_nobody\<rparr>] 1 [] no_cost no_cost"

lemma demo_dispatch: "dispatch_answer (demo_context b) 0 [''a''] demo_verification"
proof -
  let ?e = "\<lparr>ex_nodeId = ''a'', ex_execute = (\<lambda>t. Returned (Executed demo_answer))\<rparr>"
  have enc: "encodeCanonical (\<lambda>v. Some [0]) (CStr ''z'') = Inr [0]" by (simp add: encodeCanonical_Inr)
  have "of_verdict (executeVerified (jp_codec (jc_ports (demo_context b))) (jp_cid_of (jc_ports (demo_context b))) (task_at (demo_context b) 0) [?e]) =
      demo_verification"
    using enc by (simp add: executeVerified_def demo_context_def demo_ports_def runOne_def demo_answer_def canonicalCid_def
        verdict_def result_groups_def group_by_def group_add_def gross_cost_def demo_verification_def no_cost_def)
  moreover have "\<not> uses_ceremony (jc_spec (demo_context b)) (shard_at (demo_context b) 0) (map ex_nodeId [?e])"
    by (simp add: uses_ceremony_def MIN_CEREMONY_REPLICAS_def)
  ultimately show ?thesis using answer_round [of "demo_context b" 0 "[?e]"] by simp
qed

lemma shard_id_0: "shard_id 0 = ''0''"
  unfolding shard_id_def by code_simp

definition demo_shard_run :: "loop_phase \<Rightarrow> string list \<Rightarrow> shard_verification option \<Rightarrow> nat \<Rightarrow> shard_ending \<Rightarrow> shard_run" where
  "demo_shard_run phase attempted v generation ending =
     \<lparr>lp_phase = phase, lp_nodeIds = [''a''], lp_attempted = attempted, lp_rejections = [], lp_outstanding = [],
      lp_verification = v, lp_generations = generation, lp_speculated = False, lp_judgedAt = None, lp_degraded = False,
      lp_ending = ending\<rparr>"

definition demo_flight :: flight where
  "demo_flight = \<lparr>fl_lease = \<lparr>l_taskId = ''0'', l_nodeId = ''a'', l_grantedAt = 0, l_renewedAt = None, l_expiresAt = Fin 30, l_generation = 1\<rparr>,
     fl_startedAt = 0, fl_copies = [(''a'', [''a''])], fl_answered = None, fl_speculated = False, fl_judgedAt = None,
     fl_renewable = False, fl_watching = False\<rparr>"

lemma demo_start: "jb_runs (start_job (demo_context b) w) = [demo_shard_run Granting [] None 0 No_untried_node]" "jb_threw (start_job (demo_context b) w) = None"
  "sx_leases (jb_shared (start_job (demo_context b) w)) = demo_lease_table"
  by (simp_all add: start_job_def start_run_def demo_context_def demo_spec_def demo_job_def demo_shard_run_def Let_def)

lemma demo_move:
  assumes "job_reached (demo_context b) w st" "jb_runs st = [r]" "jb_threw st = None" "shard_step (demo_context b) 0 (jb_shared st) r (Inr (sx, r'))"
  shows "\<exists>st'. job_reached (demo_context b) w st' \<and> jb_runs st' = [r'] \<and> jb_threw st' = None \<and> jb_shared st' = sx"
proof -
  have "job_step (demo_context b) st (st\<lparr>jb_shared := sx, jb_runs := (jb_runs st)[0 := r']\<rparr>)"
    using assms by (intro job_moves) simp_all
  from reached_step [OF assms(1) this] assms(2,3) show ?thesis by (intro exI) auto
qed

lemma demo_recorded: "\<exists>sx'. record_checkpoint (demo_context b) c 0 sx = Inr sx' \<and> (b \<longrightarrow> sx_published sx' \<noteq> [])"
proof (cases b)
  case True
  have enc: "encodeCanonical (\<lambda>v. Some [0]) (checkpoint_value (checkpointOf
      \<lparr>ck_jobId = x, ck_moduleCid = y, ck_partitions = Fin n, ck_completed = z, ck_at = Fin t, ck_previous = u\<rparr>)) = Inr [0]" for x y z u n t
    by (simp add: encodeCanonical_Inr checkpoint_value_def checkpointOf_def shard_value_def list_all_iff split: option.split)
  from True show ?thesis
    by (simp add: record_checkpoint_def demo_context_def Let_def writeCheckpoint_def canonicalCid_def demo_ports_def enc)
next
  case False
  then show ?thesis by (simp add: record_checkpoint_def demo_context_def)
qed

lemma demo_settled:
  "\<exists>st result. job_reached (demo_context b) w st \<and> jb_threw st = None \<and>
     jb_runs st = [demo_shard_run (Settled result (Some ''i'')) [''a''] (Some demo_verification) 1 Ended_agreed] \<and>
     sr_verification result = demo_verification \<and> \<not> sr_degraded result \<and> \<not> sr_disagreed result \<and>
     (b \<longrightarrow> sx_published (jb_shared st) \<noteq> [])"
proof -
  have "fst (grant ''0'' ''a'' 0 demo_lease_table) = Some (fl_lease demo_flight)"
    by (simp add: grant_def demo_lease_table_def grant_next_def generation_of_def Let_def demo_flight_def)
  then obtain t where g: "grant (shard_id 0) ''a'' 0 demo_lease_table = (Some (fl_lease demo_flight), t)"
    by (metis prod.collapse shard_id_0)
  have off: "\<not> probes_holder (demo_context b)" "\<not> speculation_enabled (demo_context b)"
    by (simp_all add: probes_holder_def speculation_enabled_def demo_context_def demo_ports_def demo_job_def)
  have alive: "\<not> lease_over (fl_lease demo_flight) 0" by (simp add: lease_over_def checkLease_def demo_flight_def)
  have granting: "grant_generation (demo_context b) 0 0 0 0 (sx, demo_shard_run Granting [] None 0 No_untried_node) =
      (sx\<lparr>sx_leases := t\<rparr>, demo_shard_run (Racing demo_flight) [''a''] None 1 No_untried_node)" if "sx_leases sx = demo_lease_table" for sx
    using g off alive that by (simp add: grant_generation_def demo_shard_run_def loop_top_def) (simp add: demo_flight_def Let_def)
  obtain s1 where s1: "job_reached (demo_context b) w s1" "jb_runs s1 = [demo_shard_run (Racing demo_flight) [''a''] None 1 No_untried_node]" "jb_threw s1 = None"
    using demo_move [OF reached_start demo_start(1,2)] step_granting [of "demo_shard_run Granting [] None 0 No_untried_node" "demo_context b" 0 _ 0 0 0]
      granting [OF demo_start(3)] by (metis demo_shard_run_def shard_run.select_convs(1))
  let ?answered = "Returned_with 0 (Was_answered demo_verification [] False None)"
  have "copy_answers ''a'' demo_verification 0 demo_flight = ?answered"
    by (simp add: copy_answers_def demo_flight_def demo_verification_def)
  with step_answer [of "demo_shard_run (Racing demo_flight) [''a''] None 1 No_untried_node" demo_flight "''a''" "[''a'']" "demo_context b" 0 demo_verification _ 0]
  have "shard_step (demo_context b) 0 sx (demo_shard_run (Racing demo_flight) [''a''] None 1 No_untried_node)
      (Inr (sx, demo_shard_run ?answered [''a''] None 1 No_untried_node))" for sx
    using demo_dispatch by (simp add: demo_shard_run_def demo_flight_def)
  from demo_move [OF s1 this] obtain s2 where s2: "job_reached (demo_context b) w s2" "jb_runs s2 = [demo_shard_run ?answered [''a''] None 1 No_untried_node]"
    "jb_threw s2 = None" by blast
  have "enough_replicas (demo_context b) 1" by (simp add: enough_replicas_def demo_context_def redundancy_of_def demo_spec_def)
  then have "snd (take_dispatched (demo_context b) 0 0 (Was_answered demo_verification [] False None) 0 0 (sx, demo_shard_run ?answered [''a''] None 1 No_untried_node)) =
      demo_shard_run Settling [''a''] (Some demo_verification) 1 Ended_agreed" for sx
    by (simp add: take_dispatched_def take_answer_def Let_def demo_verification_def demo_shard_run_def)
  with step_returned [of "demo_shard_run ?answered [''a''] None 1 No_untried_node" 0 "Was_answered demo_verification [] False None" "demo_context b" 0 _ 0 0]
  have "\<exists>sx'. shard_step (demo_context b) 0 sx (demo_shard_run ?answered [''a''] None 1 No_untried_node)
      (Inr (sx', demo_shard_run Settling [''a''] (Some demo_verification) 1 Ended_agreed))" for sx
    by (metis demo_shard_run_def shard_run.select_convs(1) prod.collapse)
  then obtain s3 where s3: "job_reached (demo_context b) w s3" "jb_runs s3 = [demo_shard_run Settling [''a''] (Some demo_verification) 1 Ended_agreed]"
    "jb_threw s3 = None" using demo_move [OF s2] by blast
  let ?r = "demo_shard_run Settling [''a''] (Some demo_verification) 1 Ended_agreed"
  have v: "settled_verification 0 ?r = demo_verification" by (simp add: settled_verification_def demo_shard_run_def)
  obtain att where att: "attestation_for (demo_context b) 0 demo_verification = Inr att"
    by (simp add: attestation_for_def demo_verification_def receiptFor_def check_replica_def demo_context_def demo_spec_def
        descriptor_map_def demo_nodes_def demo_node_def)
  let ?result = "result_of (demo_context b) 0 ?r demo_verification att"
  have rec: "\<exists>sx'. record_checkpoint (demo_context b) c 0 sx = Inr sx' \<and> (b \<longrightarrow> sx_published sx' \<noteq> [])" for c sx
    using demo_recorded by blast
  have "\<exists>sx'. settle_shard (demo_context b) 0 0 (sx, ?r) =
      Inr (sx', demo_shard_run (Settled ?result (Some ''i'')) [''a''] (Some demo_verification) 1 Ended_agreed) \<and> (b \<longrightarrow> sx_published sx' \<noteq> [])" for sx
  proof -
    obtain sx1 where "record_checkpoint (demo_context b) \<lparr>cs_index = of_nat 0, cs_result = ''i''\<rparr> 0
        (store_output (demo_context b) (CStr ''z'') sx) = Inr sx1" "b \<longrightarrow> sx_published sx1 \<noteq> []" using rec by blast
    with att v show ?thesis by (simp add: settle_shard_def Let_def) (simp add: demo_verification_def demo_shard_run_def)
  qed
  with step_settling [of ?r "demo_context b" 0 _ 0]
  have "\<exists>sx'. shard_step (demo_context b) 0 sx ?r (Inr (sx', demo_shard_run (Settled ?result (Some ''i'')) [''a''] (Some demo_verification) 1 Ended_agreed)) \<and>
      (b \<longrightarrow> sx_published sx' \<noteq> [])" for sx
    by (metis demo_shard_run_def shard_run.select_convs(1))
  then obtain s4 where s4: "job_reached (demo_context b) w s4" "b \<longrightarrow> sx_published (jb_shared s4) \<noteq> []"
    "jb_runs s4 = [demo_shard_run (Settled ?result (Some ''i'')) [''a''] (Some demo_verification) 1 Ended_agreed]" "jb_threw s4 = None"
    using demo_move [OF s3] by blast
  moreover have "\<not> sr_degraded ?result"
    using \<open>enough_replicas (demo_context b) 1\<close> by (simp add: result_of_def demo_verification_def gate_at_def demo_context_def demo_job_def demo_gate_def)
  ultimately show ?thesis by (intro exI [of _ s4] exI [of _ ?result]) (simp add: result_of_def)
qed


section \<open>How often a shard is dispatched\<close>

lemma generation_of_grant:
  assumes "grant k n now t = (l, t')"
  shows "generation_of t' k' = (if k' = k \<and> l \<noteq> None then generation_of t k + 1 else generation_of t k')"
proof -
  have nxt: "generation_of t2 k' = (if k' = k \<and> l \<noteq> None then generation_of t k + 1 else generation_of t k')"
    if "grant_next k n now t1 = (l, t2)" "generations t1 = generations t" for t1 t2
    using that by (auto simp: grant_next_def Let_def generation_of_def split: if_splits)
  show ?thesis
    using assms nxt [of t t'] nxt [of "expire l' now t" t' for l']
    by (auto simp: grant_def split: if_splits option.splits)
qed

lemma generation_of_others:
  "generation_of (snd (renew k n now t)) k' = generation_of t k'"
  "generation_of (snd (complete_task k n now t)) k' = generation_of t k'"
  "generation_of (snd (surrender k n now t)) k' = generation_of t k'"
  "generation_of (snd (reap lc now (Some k) t)) k' = generation_of t k'"
proof -
  show "generation_of (snd (renew k n now t)) k' = generation_of t k'"
    by (simp add: renew_def generation_of_def Let_def split: option.split)
  show "generation_of (snd (complete_task k n now t)) k' = generation_of t k'"
    by (simp add: complete_task_def generation_of_def split: option.split)
  show "generation_of (snd (surrender k n now t)) k' = generation_of t k'"
    by (simp add: surrender_def generation_of_def Let_def split: option.split)
  have one: "generation_of (snd (reap_one now l (out, t))) k' = generation_of t k'" for l out
    by (rule reap_one_cases) (simp_all add: generation_of_def)
  show "generation_of (snd (reap lc now (Some k) t)) k' = generation_of t k'"
    using one by (cases "map_get (held t) k") (simp_all add: reap_def reap_scope_def case_prod_unfold Let_def)
qed

lemma max_generations_step: "lease_step t t' \<Longrightarrow> maxGenerations t' = maxGenerations t"
proof (induction rule: lease_step.induct)
  case (step_grant t k n now)
  then show ?case
    by (auto simp: grant_def grant_next_def Let_def expire_def abandon_def split: option.splits if_splits)
next
  case (step_renew t k n now)
  then show ?case by (simp add: renew_def Let_def split: option.split)
next
  case (step_complete t k n now)
  then show ?case by (simp add: complete_task_def split: option.split)
next
  case (step_surrender t k n now)
  then show ?case by (simp add: surrender_def Let_def abandon_def split: option.split)
next
  case (step_reap t lc now task)
  have "maxGenerations (snd (foldl (\<lambda>st l. reap_one now l st) (out, t) ls)) = maxGenerations t" for out ls
  proof (induction ls arbitrary: out t)
    case (Cons l ls)
    obtain out' t' where r: "reap_one now l (out, t) = (out', t')" by force
    with reap_one_frame(1) [of now l out t] Cons [where out = out' and t = t'] show ?case by simp
  qed simp
  then show ?case by (simp add: reap_def case_prod_unfold Let_def)
qed

fun phase_lease :: "loop_phase \<Rightarrow> string \<Rightarrow> bool" where
  "phase_lease (Racing f) k = (l_taskId (fl_lease f) = k)"
| "phase_lease (Probing f woke) k = (l_taskId (fl_lease f) = k)"
| "phase_lease (Returned_with t d) k = True"
| "phase_lease Granting k = True"
| "phase_lease Placing k = True"
| "phase_lease Settling k = True"
| "phase_lease (Settled result winner) k = True"

definition run_books :: "('w, 'a) job_context \<Rightarrow> nat \<Rightarrow> 'w shared_state \<Rightarrow> shard_run \<Rightarrow> bool" where
  "run_books ctx i sx r \<longleftrightarrow> generation_of (sx_leases sx) (shard_id i) = lp_generations r \<and>
     length (lp_attempted r) \<le> redundancy_of (jc_spec ctx) * lp_generations r +
       (if shard_id i \<in> set (sl_duplicated (sx_ledger sx)) then 1 else 0) \<and>
     phase_lease (lp_phase r) (shard_id i)"

definition shard_frame :: "nat \<Rightarrow> 'w shared_state \<Rightarrow> 'w shared_state \<Rightarrow> bool" where
  "shard_frame i sx sx' \<longleftrightarrow>
     (sx_leases sx' = sx_leases sx \<or> lease_step (sx_leases sx) (sx_leases sx')) \<and>
     (\<forall>k. k \<noteq> shard_id i \<longrightarrow> generation_of (sx_leases sx') k = generation_of (sx_leases sx) k) \<and>
     (sx_ledger sx' = sx_ledger sx \<or> (\<exists>led. request_copy (shard_id i) (sx_ledger sx) = (True, led) \<and> sx_ledger sx' = led))"

lemma phase_lease_simps [simp]: "phase_lease (lapse f) k" "phase_lease (loop_top now f) k \<longleftrightarrow> lease_over (fl_lease f) now \<or> l_taskId (fl_lease f) = k"
  by (simp_all add: lapse_def loop_top_def)

lemma granted_task: "grant k n now t = (Some l, t') \<Longrightarrow> l_taskId l = k"
  by (auto simp: grant_def grant_next_def Let_def split: if_splits option.splits)

lemma renewed_task: "lease_inv t \<Longrightarrow> renew k n now t = (Some l, t') \<Longrightarrow> l_taskId l = k"
  using lease_inv_held(1) by (fastforce simp: renew_def Let_def split: if_splits option.splits)

lemma grant_books:
  assumes "run_books ctx i sx r" "run_inv ctx i r" "lp_phase r = Granting"
    "grant_generation ctx i t1 t2 t3 (sx, r) = (sx', r')"
  shows "shard_frame i sx sx' \<and> run_books ctx i sx' r'"
proof -
  obtain l t where g: "grant (shard_id i) (hd (lp_nodeIds r)) t1 (sx_leases sx) = (l, t)" by force
  have st: "lease_step (sx_leases sx) t" using step_grant [of "sx_leases sx" "shard_id i" "hd (lp_nodeIds r)" t1] g by simp
  note gen = generation_of_grant [OF g]
  have n: "length (lp_nodeIds r) \<le> redundancy_of (jc_spec ctx)" using assms(2,3) by (simp add: run_inv_def)
  show ?thesis
  proof (cases l)
    case None
    with assms g st gen show ?thesis by (auto simp: grant_generation_def run_books_def shard_frame_def)
  next
    case (Some x)
    with assms(1,4) g st gen n granted_task [OF g [unfolded Some]] show ?thesis
      by (auto simp: grant_generation_def run_books_def shard_frame_def Let_def algebra_simps)
  qed
qed

lemma tick_books:
  assumes "run_books ctx i sx r" "lp_phase r = Racing f" "tick ctx i f woke now (sx, r) = (sx', r')"
  shows "shard_frame i sx sx' \<and> run_books ctx i sx' r'"
proof (cases "lease_over (fl_lease f) woke")
  case True
  with assms show ?thesis by (auto simp: tick_def run_books_def shard_frame_def)
next
  case False
  obtain f' attempted ledger where s: "speculate ctx i woke f (lp_attempted r) (sx_durations sx) (sx_ledger sx) = (f', attempted, ledger)"
    by (metis prod_cases3)
  from s show ?thesis
  proof (cases rule: speculate_cases)
    case (still b)
    with assms s False show ?thesis by (auto simp: tick_def run_books_def shard_frame_def)
  next
    case (copied t)
    from copied(5) have d: "l_taskId (fl_lease f) \<notin> set (sl_duplicated (sx_ledger sx))"
      "set (sl_duplicated ledger) = insert (l_taskId (fl_lease f)) (set (sl_duplicated (sx_ledger sx)))"
      by (auto simp: request_copy_def set_add_def split: if_splits)
    with copied assms s False show ?thesis by (auto simp: tick_def run_books_def shard_frame_def)
  qed
qed

lemma take_answer_books:
  assumes "take_answer ctx i startedAt v out t1 t2 (sx, r) = (sx', r')"
  shows "(sx_leases sx' = snd (complete_task (shard_id i) (hd (lp_nodeIds r)) t2 (sx_leases sx)) \<or>
          sx_leases sx' = snd (surrender (shard_id i) (hd (lp_nodeIds r)) t2 (sx_leases sx))) \<and>
    sx_ledger sx' = sx_ledger sx \<and> lp_generations r' = lp_generations r \<and> lp_attempted r' = lp_attempted r \<and>
    (lp_phase r' = Settling \<or> lp_phase r' = Placing)"
proof -
  define merged where "merged = (case lp_verification r of None \<Rightarrow> v | Some u \<Rightarrow> mergeVerifications u v)"
  note def = assms [unfolded take_answer_def Let_def prod.case merged_def [symmetric]]
  show ?thesis
  proof (cases merged)
    case (V_agreed cid outp ag n fs gross useful)
    with def show ?thesis by (cases "enough_replicas ctx n") auto
  qed (use def in auto)
qed

lemma take_dispatched_books:
  assumes "run_books ctx i sx r" "take_dispatched ctx i startedAt d t1 t2 (sx, r) = (sx', r')"
  shows "shard_frame i sx sx' \<and> run_books ctx i sx' r'"
proof -
  let ?k = "shard_id i"
  note st = step_complete [of "sx_leases sx" ?k "hd (lp_nodeIds r)" t2] step_surrender [of "sx_leases sx" ?k "hd (lp_nodeIds r)" t2]
    step_reap [of "sx_leases sx" "jp_lc (jc_ports ctx)" t2 "Some ?k"]
  show ?thesis
  proof (cases d)
    case (Was_answered v out spec judged)
    define r0 where "r0 = r\<lparr>lp_speculated := lp_speculated r \<or> spec,
        lp_judgedAt := (case lp_judgedAt r of None \<Rightarrow> judged | Some t \<Rightarrow> Some t)\<rparr>"
    have "take_answer ctx i startedAt v out t1 t2 (sx, r0) = (sx', r')"
      using assms(2) by (simp add: take_dispatched_def Was_answered Let_def r0_def)
    from take_answer_books [OF this] st assms(1) generation_of_others show ?thesis
      by (auto simp: r0_def run_books_def shard_frame_def)
  next
    case (Has_lapsed spec judged)
    with assms st generation_of_others(4) [of "jp_lc (jc_ports ctx)" t2 ?k "sx_leases sx"] show ?thesis
      by (auto simp: take_dispatched_def Let_def run_books_def shard_frame_def)
  qed
qed

text \<open>What settling does to the shared state: the leases and the ledger stay; the log gains the shard's record.\<close>

definition logged_as :: "('w, 'a) job_context \<Rightarrow> nat \<Rightarrow> string option \<Rightarrow> 'w shared_state \<Rightarrow> 'w shared_state \<Rightarrow> bool" where
  "logged_as ctx i winner sx sx' \<longleftrightarrow>
     (case (if sb_checkpoints (jc_options ctx) then winner else None) of
        None \<Rightarrow> sx_completed sx' = sx_completed sx \<and> sx_previous sx' = sx_previous sx \<and> sx_published sx' = sx_published sx
      | Some cid \<Rightarrow>
          sx_completed sx' = sx_completed sx @ [\<lparr>cs_index = of_nat i, cs_result = cid\<rparr>] \<and>
          (\<exists>handle checkpoint bytes now. sx_previous sx' = Some handle \<and> sx_published sx' = sx_published sx @ [(handle, checkpoint)] \<and>
             canonicalCid (jp_codec (jc_ports ctx)) (jp_cid_of (jc_ports ctx)) (checkpoint_value checkpoint) = Inr (handle, bytes) \<and>
             checkpoint = checkpointOf
               \<lparr>ck_jobId = pj_jobId (jc_job ctx), ck_moduleCid = jo_moduleCid (jc_spec ctx),
                ck_partitions = num_of_nat (length (jo_shards (jc_spec ctx))), ck_completed = sx_completed sx',
                ck_at = now, ck_previous = sx_previous sx\<rparr>))"

lemma store_output_frame [simp]:
  "sx_leases (store_output ctx out' sx) = sx_leases sx" "sx_ledger (store_output ctx out' sx) = sx_ledger sx"
  "sx_completed (store_output ctx out' sx) = sx_completed sx" "sx_previous (store_output ctx out' sx) = sx_previous sx"
  "sx_published (store_output ctx out' sx) = sx_published sx"
  by (simp_all add: store_output_def split: sum.split prod.split)

lemma logged_after_store [simp]: "logged_as ctx i winner (store_output ctx out' sx) sx' = logged_as ctx i winner sx sx'"
  unfolding logged_as_def store_output_frame by (rule refl)

lemma record_checkpoint_logs:
  assumes "record_checkpoint ctx \<lparr>cs_index = of_nat i, cs_result = cid\<rparr> now sx = Inr sx'"
  shows "sx_leases sx' = sx_leases sx \<and> sx_ledger sx' = sx_ledger sx \<and> logged_as ctx i (Some cid) sx sx'"
proof (cases "sb_checkpoints (jc_options ctx)")
  case True
  then show ?thesis using assms
    by (auto simp: record_checkpoint_def Let_def writeCheckpoint_def logged_as_def split: sum.splits prod.splits)
next
  case False
  with assms show ?thesis by (simp add: record_checkpoint_def logged_as_def)
qed

lemma settle_shared:
  assumes "settle_shard ctx i now (sx, r) = Inr (sx', r')"
  shows "sx_leases sx' = sx_leases sx \<and> sx_ledger sx' = sx_ledger sx \<and>
    (\<exists>att. r' = r\<lparr>lp_phase := Settled (result_of ctx i r (settled_verification i r) att) (winner_cid (settled_verification i r))\<rparr>) \<and>
    logged_as ctx i (winner_cid (settled_verification i r)) sx sx'"
proof (cases "settled_verification i r")
  case (V_agreed cid outp ag n fs gross useful)
  with assms obtain sx1 where "record_checkpoint ctx \<lparr>cs_index = of_nat i, cs_result = cid\<rparr> now (store_output ctx outp sx) = Inr sx1"
    "sx' = sx1" "\<exists>att. r' = r\<lparr>lp_phase := Settled (result_of ctx i r (settled_verification i r) att) (Some cid)\<rparr>"
    by (auto simp: settle_shard_def Let_def split: sum.splits)
  with record_checkpoint_logs [OF this(1)] V_agreed show ?thesis by auto
qed (use assms in \<open>auto simp: settle_shard_def Let_def logged_as_def split: sum.splits\<close>)

lemma step_books:
  assumes "shard_step ctx i sx r (Inr (sx', r'))" "run_books ctx i sx r" "run_inv ctx i r" "lease_inv (sx_leases sx)"
  shows "shard_frame i sx sx' \<and> run_books ctx i sx' r'"
  using assms(1)
proof (cases rule: shard_step.cases)
  case (step_granting t1 t2 t3)
  from grant_books [OF assms(2,3)] step_granting show ?thesis by (metis sum.inject(2))
next
  case (step_answer f key on v now)
  with assms(2) show ?thesis
    by (auto simp: run_books_def shard_frame_def copy_answers_def Let_def)
next
  case (step_tick f woke now)
  from tick_books [OF assms(2)] step_tick show ?thesis by (metis sum.inject(2))
next
  case (step_probe f woke answer now)
  obtain l t where g: "renew (l_taskId (fl_lease f)) (l_nodeId (fl_lease f)) woke (sx_leases sx) = (l, t)" by force
  have k: "l_taskId (fl_lease f) = shard_id i" using assms(2) step_probe by (simp add: run_books_def)
  have st: "lease_step (sx_leases sx) t"
    using step_renew [of "sx_leases sx" "l_taskId (fl_lease f)" "l_nodeId (fl_lease f)" woke] g by simp
  have gen: "generation_of t k' = generation_of (sx_leases sx) k'" for k'
    using generation_of_others(1) [of "l_taskId (fl_lease f)" "l_nodeId (fl_lease f)" woke "sx_leases sx" k'] g by simp
  show ?thesis
  proof (cases "\<exists>x. l = Some x")
    case True
    then obtain x where x: "l = Some x" by blast
    from renewed_task [OF assms(4) g [unfolded x]] k x g st gen step_probe assms(2) show ?thesis
      by (auto simp: probe_answered_def run_books_def shard_frame_def split: if_splits)
  next
    case False
    with k g st gen step_probe assms(2) show ?thesis
      by (auto simp: probe_answered_def run_books_def shard_frame_def split: if_splits)
  qed
next
  case (step_returned startedAt d t1 t2)
  from take_dispatched_books [OF assms(2)] step_returned show ?thesis by (metis sum.inject(2))
next
  case (step_placing a)
  with assms(2) show ?thesis
    by (auto simp: place_step_def run_books_def shard_frame_def split: regeneration.splits)
next
  case (step_settling now)
  with settle_shared [of ctx i now sx r sx' r'] assms(2) show ?thesis by (auto simp: run_books_def shard_frame_def)
qed

definition job_books :: "('w, 'a) job_context \<Rightarrow> 'w job_state \<Rightarrow> bool" where
  "job_books ctx st \<longleftrightarrow> lease_inv (sx_leases (jb_shared st)) \<and> maxGenerations (sx_leases (jb_shared st)) = 3 \<and>
     (\<forall>q. fraction_of (jc_options ctx) = Fin q \<longrightarrow> ledger_inv (length (jo_shards (jc_spec ctx))) q (sx_ledger (jb_shared st))) \<and>
     (\<forall>i < length (jb_runs st). run_books ctx i (jb_shared st) (jb_runs st ! i))"

lemma place_job_fields:
  assumes "place_job ports options spec now ledger leases inputCids jobId resumed a = (p, a')"
  shows "pj_leases p = leases \<and> pj_ledger p = ledger \<and> pj_resumed p = resumed \<and> pj_jobId p = jobId \<and> pj_inputCids p = inputCids"
  using assms by (auto simp: place_job_def Let_def split: prod.splits)

lemma start_books:
  assumes "submitted ctx w"
  shows "job_books ctx (start_job ctx w)"
proof -
  obtain ledger leases inputCids jobId resumed a a' where led: "new_speculation_ledger (num_of_nat (length (jo_shards (jc_spec ctx))))
        (Some (fraction_of (jc_options ctx))) = Inr ledger"
    and lea: "new_lease_table (jo_leaseMs (jc_spec ctx)) (Some DEFAULT_MAX_GENERATIONS) = Inr leases"
    and pj: "place_job (jc_ports ctx) (jc_options ctx) (jc_spec ctx) (pj_now (jc_job ctx)) ledger leases inputCids jobId resumed a = (jc_job ctx, a')"
    using submitted_place [OF assms] by metis
  from place_job_fields [OF pj] have p: "pj_leases (jc_job ctx) = leases" "pj_ledger (jc_job ctx) = ledger" by auto
  have t: "maxGenerations leases = 3" "generations leases = []"
    using lea by (auto simp: new_lease_table_def DEFAULT_MAX_GENERATIONS_def Let_def split: if_splits)
  have run: "lp_generations (start_run ctx i) = 0 \<and> lp_attempted (start_run ctx i) = [] \<and> phase_lease (lp_phase (start_run ctx i)) k" for i k
    by (simp add: start_run_def Let_def split: prod.split option.split shard_placement.split)
  have "ledger_inv (length (jo_shards (jc_spec ctx))) q ledger" if "fraction_of (jc_options ctx) = Fin q" for q
    using led that by (auto simp: new_speculation_ledger_def Let_def ledger_inv_def allowance_for_def split: if_splits)
  with new_lease_table_inv [OF lea] t p run show ?thesis
    by (simp add: job_books_def start_job_def Let_def run_books_def generation_of_def)
qed

lemma requested_copy:
  assumes "request_copy k t = (True, t')"
  shows "(\<exists>ops. t' = run_ledger ops t) \<and> set (sl_duplicated t) \<subseteq> set (sl_duplicated t')"
proof -
  have "t' = run_ledger [Request_op k] t" using assms by (simp add: run_ledger_def)
  moreover have "set (sl_duplicated t) \<subseteq> set (sl_duplicated t')"
    using assms by (auto simp: request_copy_def set_add_def split: if_splits)
  ultimately show ?thesis by blast
qed

lemma job_books_reached:
  assumes "job_reached ctx w st" "submitted ctx w"
  shows "job_books ctx st"
  using assms(1)
proof (induction rule: job_reached.induct)
  case reached_start
  then show ?case using start_books [OF assms(2)] .
next
  case (reached_step st st')
  from reached_step(2) show ?case
  proof (cases rule: job_step.cases)
    case (job_moves i sx r)
    let ?sh = "jb_shared st" and ?runs = "jb_runs st"
    from job_runs_inv [OF reached_step(1) assms(2)] job_moves(3) have inv: "run_inv ctx i (?runs ! i)" by blast
    from reached_step.IH job_moves(3) have b: "run_books ctx i ?sh (?runs ! i)" "lease_inv (sx_leases ?sh)" by (auto simp: job_books_def)
    from step_books [OF job_moves(4) b(1) inv b(2)] have f: "shard_frame i ?sh sx" and r: "run_books ctx i sx r" by auto
    have led: "\<exists>ops. sx_ledger sx = run_ledger ops (sx_ledger ?sh)"
      "set (sl_duplicated (sx_ledger ?sh)) \<subseteq> set (sl_duplicated (sx_ledger sx))"
    proof -
      consider "sx_ledger sx = sx_ledger ?sh" | "request_copy (shard_id i) (sx_ledger ?sh) = (True, sx_ledger sx)"
        using f by (auto simp: shard_frame_def)
      then have "(\<exists>ops. sx_ledger sx = run_ledger ops (sx_ledger ?sh)) \<and> set (sl_duplicated (sx_ledger ?sh)) \<subseteq> set (sl_duplicated (sx_ledger sx))"
      proof cases
        case 1
        then show ?thesis by (intro conjI exI [of _ "[]"]) (simp_all add: run_ledger_def)
      next
        case 2
        from requested_copy [OF this] show ?thesis by blast
      qed
      then show "\<exists>ops. sx_ledger sx = run_ledger ops (sx_ledger ?sh)"
        "set (sl_duplicated (sx_ledger ?sh)) \<subseteq> set (sl_duplicated (sx_ledger sx))" by auto
    qed
    have lease: "lease_inv (sx_leases sx)" "maxGenerations (sx_leases sx) = 3"
      using f reached_step.IH lease_inv_step max_generations_step by (auto simp: shard_frame_def job_books_def)
    have others: "run_books ctx j sx (?runs ! j)" if "j < length ?runs" "j \<noteq> i" for j
    proof -
      have "shard_id j \<noteq> shard_id i" using that nat_text_inj by (auto simp: shard_id_def)
      with f have "generation_of (sx_leases sx) (shard_id j) = generation_of (sx_leases ?sh) (shard_id j)" by (simp add: shard_frame_def)
      with that reached_step.IH led(2) show ?thesis by (auto simp: job_books_def run_books_def split: if_splits)
    qed
    from led(1) reached_step.IH ledger_inv_run
    have "ledger_inv (length (jo_shards (jc_spec ctx))) q (sx_ledger sx)" if "fraction_of (jc_options ctx) = Fin q" for q
      using that by (auto simp: job_books_def)
    with lease others r job_moves(1,3) show ?thesis
      by (auto simp: job_books_def nth_list_update)
  next
    case (job_throws i e)
    with reached_step.IH show ?thesis by (simp add: job_books_def)
  qed
qed

lemma generation_bound: "lease_inv t \<Longrightarrow> generation_of t k \<le> maxGenerations t"
  by (auto simp: lease_inv_def generation_of_def split: option.splits)



section \<open>The checkpoints a job leaves\<close>

abbreviation log_of :: "'w shared_state \<Rightarrow> completed_shard list \<times> string option \<times> (string \<times> job_checkpoint) list" where
  "log_of sx \<equiv> (sx_completed sx, sx_previous sx, sx_published sx)"

definition unsettled :: "loop_phase \<Rightarrow> bool" where
  "unsettled p \<longleftrightarrow> (\<forall>result winner. p \<noteq> Settled result winner)"

lemma unsettled_simps [simp]: "unsettled (lapse f)" "unsettled (loop_top now f)" "unsettled (copy_answers key v now f)" "unsettled Settling"
  "unsettled Placing" "unsettled Granting" "unsettled (Racing f)" "unsettled (Probing f woke)" "unsettled (Returned_with t d)"
  by (simp_all add: unsettled_def lapse_def loop_top_def copy_answers_def Let_def)

lemma take_answer_log:
  assumes "take_answer ctx i startedAt v out t1 t2 (sx, r) = (sx', r')"
  shows "log_of sx' = log_of sx \<and> unsettled (lp_phase r')"
proof -
  define merged where "merged = (case lp_verification r of None \<Rightarrow> v | Some u \<Rightarrow> mergeVerifications u v)"
  note def = assms [unfolded take_answer_def Let_def prod.case merged_def [symmetric]]
  show ?thesis
  proof (cases merged)
    case (V_agreed cid outp ag n fs gross useful)
    with def show ?thesis by (cases "enough_replicas ctx n") auto
  qed (use def in auto)
qed

lemma step_log:
  assumes "shard_step ctx i sx r (Inr (sx', r'))" "lp_phase r \<noteq> Settling"
  shows "log_of sx' = log_of sx \<and> unsettled (lp_phase r') \<and> unsettled (lp_phase r)"
  using assms(1)
proof (cases rule: shard_step.cases)
  case (step_granting t1 t2 t3)
  then show ?thesis by (auto simp: grant_generation_def Let_def split: prod.splits option.splits)
next
  case (step_tick f woke now)
  then show ?thesis by (auto simp: tick_def split: prod.splits if_splits)
next
  case (step_probe f woke answer now)
  then show ?thesis by (auto simp: probe_answered_def Let_def split: prod.splits option.splits if_splits)
next
  case (step_returned startedAt d t1 t2)
  show ?thesis
  proof (cases d)
    case (Was_answered v out spec judged)
    define r0 where "r0 = r\<lparr>lp_speculated := lp_speculated r \<or> spec,
        lp_judgedAt := (case lp_judgedAt r of None \<Rightarrow> judged | Some t \<Rightarrow> Some t)\<rparr>"
    have "take_answer ctx i startedAt v out t1 t2 (sx, r0) = (sx', r')"
      using step_returned by (simp add: take_dispatched_def Was_answered Let_def r0_def)
    from take_answer_log [OF this] step_returned show ?thesis by simp
  next
    case (Has_lapsed spec judged)
    with step_returned show ?thesis by (auto simp: take_dispatched_def Let_def)
  qed
next
  case (step_placing a)
  then show ?thesis by (auto simp: place_step_def split: regeneration.splits)
qed (use assms(2) in auto)

text \<open>The published checkpoints \<open>ps\<close>, each naming the one before it, from \<open>from_handle\<close> on; each holds what was
  completed before the job, and the records up to its own.\<close>

definition chained ::
  "codec \<Rightarrow> (bytes \<Rightarrow> string) \<Rightarrow> string \<Rightarrow> string option \<Rightarrow> completed_shard list \<Rightarrow> completed_shard list
    \<Rightarrow> (string \<times> job_checkpoint) list \<Rightarrow> bool" where
  "chained codec cid_of jobId from_handle base recs ps \<longleftrightarrow>
     length recs = length ps \<and>
     (\<forall>k < length ps. ck_jobId (snd (ps ! k)) = jobId \<and>
        ck_previous (snd (ps ! k)) = (if k = 0 then from_handle else Some (fst (ps ! (k - 1)))) \<and>
        (\<exists>bytes. canonicalCid codec cid_of (checkpoint_value (snd (ps ! k))) = Inr (fst (ps ! k), bytes)) \<and>
        (\<exists>c. snd (ps ! k) = checkpointOf c \<and> ck_completed c = base @ take (Suc k) recs))"

lemma chained_snoc:
  assumes "chained codec cid_of jobId h base recs ps" "canonicalCid codec cid_of (checkpoint_value c) = Inr (handle, bytes)"
    "c = checkpointOf c0" "ck_completed c0 = base @ recs @ [x]" "ck_jobId c0 = jobId"
    "ck_previous c0 = (if ps = [] then h else Some (fst (last ps)))"
  shows "chained codec cid_of jobId h base (recs @ [x]) (ps @ [(handle, c)])"
proof -
  have len: "length recs = length ps" using assms(1) by (simp add: chained_def)
  have "ck_jobId (snd ((ps @ [(handle, c)]) ! k)) = jobId \<and>
        ck_previous (snd ((ps @ [(handle, c)]) ! k)) = (if k = 0 then h else Some (fst ((ps @ [(handle, c)]) ! (k - 1)))) \<and>
        (\<exists>bytes. canonicalCid codec cid_of (checkpoint_value (snd ((ps @ [(handle, c)]) ! k))) = Inr (fst ((ps @ [(handle, c)]) ! k), bytes)) \<and>
        (\<exists>c'. snd ((ps @ [(handle, c)]) ! k) = checkpointOf c' \<and> ck_completed c' = base @ take (Suc k) (recs @ [x]))"
    if "k < Suc (length ps)" for k
  proof (cases "k = length ps")
    case True
    have "ck_previous c0 = (if k = 0 then h else Some (fst ((ps @ [(handle, c)]) ! (k - 1))))"
      using assms(6) True by (cases ps rule: rev_cases) (simp_all add: nth_append)
    then show ?thesis using True assms(2-5) len by (auto simp: nth_append)
  next
    case False
    then have k: "k < length ps" using that by simp
    have "(ps @ [(handle, c)]) ! (k - 1) = ps ! (k - 1)" using k less_imp_diff_less [of k "length ps" 1] by (simp add: nth_append)
    moreover have "take (Suc k) (recs @ [x]) = take (Suc k) recs" using k len by simp
    ultimately show ?thesis using assms(1) k by (simp add: chained_def nth_append)
  qed
  with len show ?thesis by (simp add: chained_def)
qed

definition carried_records :: "('w, 'a) job_context \<Rightarrow> completed_shard list" where
  "carried_records ctx = map (\<lambda>(i, c). \<lparr>cs_index = i, cs_result = ca_resultCid c\<rparr>) (re_carried (pj_resumed (jc_job ctx)))"

definition log_inv :: "('w, 'a) job_context \<Rightarrow> 'w job_state \<Rightarrow> bool" where
  "log_inv ctx st \<longleftrightarrow>
     (let sx = jb_shared st; h = re_from (pj_resumed (jc_job ctx))
      in \<exists>recs. sx_completed sx = carried_records ctx @ recs \<and>
           chained (jp_codec (jc_ports ctx)) (jp_cid_of (jc_ports ctx)) (pj_jobId (jc_job ctx)) h (carried_records ctx) recs (sx_published sx) \<and>
           sx_previous sx = (if sx_published sx = [] then h else Some (fst (last (sx_published sx))))) \<and>
     (sb_checkpoints (jc_options ctx) \<longrightarrow> (\<forall>i < length (jb_runs st). \<forall>result cid. lp_phase (jb_runs st ! i) = Settled result (Some cid) \<longrightarrow>
        \<lparr>cs_index = of_nat i, cs_result = cid\<rparr> \<in> set (sx_completed (jb_shared st))))"

lemma start_log_inv: "log_inv ctx (start_job ctx w)"
proof -
  have "\<lparr>cs_index = of_nat i, cs_result = cid\<rparr> \<in> set (carried_records ctx)"
    if "lp_phase (start_run ctx i) = Settled result (Some cid)" for i result cid
  proof (cases "map_get (re_carried (pj_resumed (jc_job ctx))) (of_nat i)")
    case None
    with that show ?thesis by (simp add: start_run_def Let_def split: prod.splits shard_placement.splits)
  next
    case (Some already)
    with that have "cid = ca_resultCid already" by (simp add: start_run_def Let_def split: prod.splits)
    with map_get_mem [OF Some] show ?thesis by (force simp: carried_records_def)
  qed
  then show ?thesis by (simp add: log_inv_def start_job_def Let_def carried_records_def chained_def)
qed

lemma step_log_inv:
  assumes "job_step ctx st st'" "log_inv ctx st"
  shows "log_inv ctx st'"
  using assms(1)
proof (cases rule: job_step.cases)
  case (job_moves i sx r)
  let ?sh = "jb_shared st" and ?h = "re_from (pj_resumed (jc_job ctx))"
  let ?chained = "chained (jp_codec (jc_ports ctx)) (jp_cid_of (jc_ports ctx)) (pj_jobId (jc_job ctx)) ?h (carried_records ctx)"
  obtain recs where old: "sx_completed ?sh = carried_records ctx @ recs" "?chained recs (sx_published ?sh)"
    "sx_previous ?sh = (if sx_published ?sh = [] then ?h else Some (fst (last (sx_published ?sh))))"
    using assms(2) by (auto simp: log_inv_def Let_def)
  note settled_before = conjunct2 [OF assms(2) [unfolded log_inv_def]]
  show ?thesis
  proof (cases "lp_phase (jb_runs st ! i) = Settling")
    case False
    from step_log [OF job_moves(4) this] have f: "log_of sx = log_of ?sh" "unsettled (lp_phase r)" by auto
    have "\<lparr>cs_index = of_nat j, cs_result = cid\<rparr> \<in> set (sx_completed sx)"
      if "sb_checkpoints (jc_options ctx)" "j < length (jb_runs st)" "lp_phase ((jb_runs st)[i := r] ! j) = Settled result (Some cid)" for j result cid
    proof -
      have "j \<noteq> i" using f(2) that(2,3) by (auto simp: unsettled_def)
      with that settled_before f(1) show ?thesis by simp
    qed
    with old f job_moves(1) show ?thesis by (auto simp: log_inv_def Let_def)
  next
    case True
    from job_moves(4) True obtain now where "settle_shard ctx i now (?sh, jb_runs st ! i) = Inr (sx, r)"
      by (cases rule: shard_step.cases) auto
    from settle_shared [OF this] obtain result where r: "lp_phase r = Settled result (winner_cid (settled_verification i (jb_runs st ! i)))"
      and lg: "logged_as ctx i (winner_cid (settled_verification i (jb_runs st ! i))) ?sh sx" by auto
    define winner where "winner = winner_cid (settled_verification i (jb_runs st ! i))"
    have new: "\<exists>recs'. sx_completed sx = carried_records ctx @ recs' \<and> ?chained recs' (sx_published sx) \<and>
        sx_previous sx = (if sx_published sx = [] then ?h else Some (fst (last (sx_published sx))))"
      and keep: "set (sx_completed ?sh) \<subseteq> set (sx_completed sx)"
      and here: "\<And>cid. sb_checkpoints (jc_options ctx) \<Longrightarrow> winner = Some cid \<Longrightarrow>
        \<lparr>cs_index = of_nat i, cs_result = cid\<rparr> \<in> set (sx_completed sx)"
    proof -
      consider (none) "(if sb_checkpoints (jc_options ctx) then winner else None) = None"
        | (some) cid where "(if sb_checkpoints (jc_options ctx) then winner else None) = Some cid" by fastforce
      then have "(\<exists>recs'. sx_completed sx = carried_records ctx @ recs' \<and> ?chained recs' (sx_published sx) \<and>
          sx_previous sx = (if sx_published sx = [] then ?h else Some (fst (last (sx_published sx))))) \<and>
          set (sx_completed ?sh) \<subseteq> set (sx_completed sx) \<and>
          (\<forall>cid. sb_checkpoints (jc_options ctx) \<and> winner = Some cid \<longrightarrow> \<lparr>cs_index = of_nat i, cs_result = cid\<rparr> \<in> set (sx_completed sx))"
      proof cases
        case none
        with lg old show ?thesis by (auto simp: logged_as_def winner_def [symmetric] split: if_splits)
      next
        case some
        let ?x = "\<lparr>cs_index = of_nat i, cs_result = cid\<rparr>"
        from lg some obtain handle checkpoint bytes now' where w: "sx_completed sx = sx_completed ?sh @ [?x]"
          "sx_previous sx = Some handle" "sx_published sx = sx_published ?sh @ [(handle, checkpoint)]"
          "canonicalCid (jp_codec (jc_ports ctx)) (jp_cid_of (jc_ports ctx)) (checkpoint_value checkpoint) = Inr (handle, bytes)"
          "checkpoint = checkpointOf \<lparr>ck_jobId = pj_jobId (jc_job ctx), ck_moduleCid = jo_moduleCid (jc_spec ctx),
                ck_partitions = num_of_nat (length (jo_shards (jc_spec ctx))), ck_completed = sx_completed sx,
                ck_at = now', ck_previous = sx_previous ?sh\<rparr>"
          unfolding logged_as_def winner_def [symmetric] some option.case by blast
        from chained_snoc [OF old(2) w(4,5), of ?x] old w have "?chained (recs @ [?x]) (sx_published sx)" by simp
        with w old some show ?thesis by (auto split: if_splits)
      qed
      then show "\<exists>recs'. sx_completed sx = carried_records ctx @ recs' \<and> ?chained recs' (sx_published sx) \<and>
        sx_previous sx = (if sx_published sx = [] then ?h else Some (fst (last (sx_published sx))))"
        "set (sx_completed ?sh) \<subseteq> set (sx_completed sx)"
        "\<And>cid. sb_checkpoints (jc_options ctx) \<Longrightarrow> winner = Some cid \<Longrightarrow>
        \<lparr>cs_index = of_nat i, cs_result = cid\<rparr> \<in> set (sx_completed sx)" by blast+
    qed
    have "\<lparr>cs_index = of_nat j, cs_result = cid\<rparr> \<in> set (sx_completed sx)"
      if "sb_checkpoints (jc_options ctx)" "j < length (jb_runs st)" "lp_phase ((jb_runs st)[i := r] ! j) = Settled res (Some cid)" for j res cid
    proof (cases "j = i")
      case True
      with that r here show ?thesis by (simp add: winner_def)
    next
      case False
      with that settled_before keep show ?thesis by auto
    qed
    with new job_moves(1) show ?thesis by (auto simp: log_inv_def Let_def)
  qed
next
  case (job_throws i e)
  with assms(2) show ?thesis by (simp add: log_inv_def)
qed

text \<open>C30: The checkpoints of a job form one chain whatever order its shards settle in: each names the handle
  published just before it, the first the one the job was resumed from; each handle is the digest of the
  very checkpoint published under it, for this job; each holds what was carried and every record up to its own, so none
  forgets a shard; and once a shard has settled on a result, the log holds that result for it.\<close>

theorem checkpoints_form_a_chain:
  assumes "job_reached ctx w st"
  shows "\<exists>recs. sx_completed (jb_shared st) = carried_records ctx @ recs \<and>
    chained (jp_codec (jc_ports ctx)) (jp_cid_of (jc_ports ctx)) (pj_jobId (jc_job ctx)) (re_from (pj_resumed (jc_job ctx)))
      (carried_records ctx) recs (sx_published (jb_shared st)) \<and>
    (sb_checkpoints (jc_options ctx) \<longrightarrow> (\<forall>i < length (jb_runs st). \<forall>result cid.
       lp_phase (jb_runs st ! i) = Settled result (Some cid) \<longrightarrow>
       \<lparr>cs_index = of_nat i, cs_result = cid\<rparr> \<in> set (carried_records ctx @ recs)))"
proof -
  have "log_inv ctx st"
    using assms
  proof (induction rule: job_reached.induct)
    case reached_start
    show ?case by (rule start_log_inv)
  next
    case (reached_step st st')
    then show ?case using step_log_inv by blast
  qed
  then show ?thesis by (auto simp: log_inv_def Let_def)
qed

theorem checkpoints_form_a_chain_witness:
  "\<exists>st recs. job_reached (demo_context True) [(''i'', [0])] st \<and> sx_published (jb_shared st) \<noteq> [] \<and> recs \<noteq> [] \<and>
     \<lparr>cs_index = 0, cs_result = ''i''\<rparr> \<in> set recs"
proof -
  obtain st result where st: "job_reached (demo_context True) [(''i'', [0])] st" "sx_published (jb_shared st) \<noteq> []"
    "jb_runs st = [demo_shard_run (Settled result (Some ''i'')) [''a''] (Some demo_verification) 1 Ended_agreed]"
    using demo_settled [of True] by blast
  have none: "carried_records (demo_context True) = []" by (simp add: carried_records_def demo_context_def demo_job_def)
  have "sb_checkpoints (jc_options (demo_context True))" by (simp add: demo_context_def)
  with checkpoints_form_a_chain [OF st(1)] st(3) none obtain recs where "\<lparr>cs_index = 0, cs_result = ''i''\<rparr> \<in> set recs"
    by (auto simp: demo_shard_run_def)
  with st show ?thesis by (intro exI [of _ st] exI [of _ recs]) auto
qed

end
