(* ===== verification/Clients.thy ===== *)
theory Clients
  imports Agent Rpc
begin

text \<open>
  The requesting side of the wire, under \<open>packages/net/src\<close>: \<open>RemoteExecutor\<close> (\<open>remote-executor.ts\<close>),
  \<open>RpcBlockSource\<close> (\<open>agent.ts\<close>), \<open>FetchingBlockstore\<close> (\<open>block.ts\<close>), \<open>remoteDispatch\<close> (\<open>churn.ts\<close>),
  \<open>remoteCombineDispatch\<close> (\<open>combine.ts\<close>), \<open>findReservedPeers\<close> and \<open>serveReservations\<close> (\<open>rendezvous.ts\<close>),
  \<open>RpcRecordIndex\<close> and \<open>rpcAdmission\<close> (\<open>discovery.ts\<close>), \<open>enrolOverRpc\<close> (\<open>enrol-client.ts\<close>), \<open>discoverCandidates\<close>
  (\<open>discover-candidates.ts\<close>) and \<open>publishStartOutcome\<close> (\<open>start-report.ts\<close>).

  A request is a port: \<open>'w requester\<close> takes the peer and the body to a rejection or a reply, and threads the
  world \<open>'w\<close>.  What a reply is worth is decided here, whoever sent it.  \<open>answered_by\<close> closes the loop for the
  composed properties: the request is encoded, decoded and parsed as a peer does, and so is the reply.
\<close>

section \<open>Requests\<close>

text \<open>What a rejected request throws: an \<open>RpcFailure\<close>, or any other error with its message.\<close>

datatype request_rejection = Rpc_failure rpc_error | Other_error string

type_synonym 'w requester = "string \<Rightarrow> cvalue \<Rightarrow> 'w \<Rightarrow> (request_rejection + cvalue) \<times> 'w"

fun refusal_reason_text :: "send_refusal_reason \<Rightarrow> string" where
  "refusal_reason_text Per_peer_stream_budget = ''per-peer-stream-budget''"
| "refusal_reason_text Control_only_path = ''control-only-path''"

fun describe :: "(jsnum \<Rightarrow> string) \<Rightarrow> rpc_error \<Rightarrow> string" where
  "describe num (Timeout to afterMs) = ''rpc to '' @ to @ '' timed out after '' @ num (Fin afterMs) @ ''ms''"
| "describe num (Send_failed to detail) = ''rpc send to '' @ to @ '' failed: '' @ detail"
| "describe num (Send_refused to by' reason detail) =
     ''rpc send to '' @ to @ '' refused by '' @ by' @ '' ('' @ refusal_reason_text reason @ ''): '' @ detail"
| "describe num Rpc_closed = ''rpc endpoint closed''"
| "describe num (Undecodable_frame from' detail) = ''undecodable rpc frame from '' @ from' @ '': '' @ detail"

fun rejection_text :: "(jsnum \<Rightarrow> string) \<Rightarrow> request_rejection \<Rightarrow> string" where
  "rejection_text num (Rpc_failure e) = describe num e"
| "rejection_text num (Other_error s) = s"

text \<open>\<open>response.kind\<close>.\<close>

fun response_kind :: "parsed_response \<Rightarrow> string" where
  "response_kind (Parsed (Exec_response out)) = ''exec''"
| "response_kind (Parsed (Commit_response out)) = ''commit''"
| "response_kind (Parsed (Reveal_response out)) = ''reveal''"
| "response_kind (Parsed (Block_response b)) = ''block''"
| "response_kind (Parsed (Providers_response ks)) = ''providers''"
| "response_kind (Parsed (Records_response r)) = ''records''"
| "response_kind (Parsed (Offer_response a r c s)) = ''offer''"
| "response_kind (Parsed (Reservations_response ps)) = ''reservations''"
| "response_kind (Parsed (Report_response counts d)) = ''report''"
| "response_kind (Parsed (Combine_response c r a)) = ''combine''"
| "response_kind (Parsed (Enrol_response r)) = ''enrol''"
| "response_kind (Parsed (Enrol_challenge_response c)) = ''enrol-challenge''"
| "response_kind (Parsed (Error_response r)) = ''error''"
| "response_kind (Parsed_enrol r) = ''enrol''"

section \<open>Executing elsewhere\<close>

text \<open>A capability of \<open>None\<close> is \<open>dispatches-unauthenticated\<close>; a supplier may throw.\<close>

record remote_executor =
  rx_nodeId :: string
  rx_capability :: "(task \<Rightarrow> delegation list settled) option"

definition work_request :: "(task \<Rightarrow> delegation list option \<Rightarrow> agent_request) \<Rightarrow> remote_executor \<Rightarrow> task \<Rightarrow> agent_request settled" where
  "work_request mk x t =
     (case rx_capability x of
        None \<Rightarrow> Returned (mk t None)
      | Some supply \<Rightarrow>
          (case supply t of
             Threw e \<Rightarrow> Threw e
           | Returned chain \<Rightarrow> if length chain = 0 then Returned (mk t None) else Returned (mk t (Some chain))))"

text \<open>The \<open>try\<close> around a request: the supplier's exception is caught with the others.\<close>

definition ask_settled :: "'w requester \<Rightarrow> string \<Rightarrow> agent_request settled \<Rightarrow> 'w \<Rightarrow> (request_rejection + cvalue) \<times> 'w" where
  "ask_settled rq peer q w = (case q of Threw e \<Rightarrow> (Inl (Other_error e), w) | Returned r \<Rightarrow> rq peer (encodeRequest r) w)"

definition read_reply ::
  "(jsnum \<Rightarrow> string) \<Rightarrow> string \<Rightarrow> string \<Rightarrow> string \<Rightarrow> (parsed_response \<Rightarrow> 'a option) \<Rightarrow> request_rejection + cvalue \<Rightarrow> string + 'a" where
  "read_reply num peer dispatching kind wanted reply =
     (case reply of
        Inl cause \<Rightarrow> Inl (dispatching @ '' to '' @ peer @ '' failed: '' @ rejection_text num cause)
      | Inr body \<Rightarrow>
          (case parseResponse body of
             None \<Rightarrow> Inl (''malformed response from '' @ peer)
           | Some (Parsed (Error_response reason)) \<Rightarrow> Inl (''remote error from '' @ peer @ '': '' @ reason)
           | Some r \<Rightarrow>
               (case wanted r of
                  None \<Rightarrow> Inl (''unexpected '' @ response_kind r @ '' response to '' @ kind @ '' request'')
                | Some a \<Rightarrow> Inr a)))"

fun exec_outcome_of :: "parsed_response \<Rightarrow> execution_outcome option" where
  "exec_outcome_of (Parsed (Exec_response out)) = Some out"
| "exec_outcome_of _ = None"

fun commit_outcome_of :: "parsed_response \<Rightarrow> commit_outcome option" where
  "commit_outcome_of (Parsed (Commit_response out)) = Some out"
| "commit_outcome_of _ = None"

fun reveal_outcome_of :: "parsed_response \<Rightarrow> reveal_outcome option" where
  "reveal_outcome_of (Parsed (Reveal_response out)) = Some out"
| "reveal_outcome_of _ = None"

definition remote_execute :: "(jsnum \<Rightarrow> string) \<Rightarrow> 'w requester \<Rightarrow> remote_executor \<Rightarrow> task \<Rightarrow> 'w \<Rightarrow> execution_outcome \<times> 'w" where
  "remote_execute num rq x t w =
     (case ask_settled rq (rx_nodeId x) (work_request Exec_request x t) w of
        (reply, w') \<Rightarrow>
          (case read_reply num (rx_nodeId x) ''dispatch'' ''exec'' exec_outcome_of reply of
             Inl reason \<Rightarrow> Execution_failed reason | Inr out \<Rightarrow> out, w'))"

definition remote_commit :: "(jsnum \<Rightarrow> string) \<Rightarrow> 'w requester \<Rightarrow> remote_executor \<Rightarrow> task \<Rightarrow> 'w \<Rightarrow> commit_outcome \<times> 'w" where
  "remote_commit num rq x t w =
     (case ask_settled rq (rx_nodeId x) (work_request Commit_request x t) w of
        (reply, w') \<Rightarrow>
          (case read_reply num (rx_nodeId x) ''commit dispatch'' ''commit'' commit_outcome_of reply of
             Inl reason \<Rightarrow> Commit_refused reason | Inr out \<Rightarrow> out, w'))"

definition remote_reveal :: "(jsnum \<Rightarrow> string) \<Rightarrow> 'w requester \<Rightarrow> remote_executor \<Rightarrow> string \<Rightarrow> 'w \<Rightarrow> reveal_outcome \<times> 'w" where
  "remote_reveal num rq x handle w =
     (case rq (rx_nodeId x) (encodeRequest (Reveal_request handle)) w of
        (reply, w') \<Rightarrow>
          (case read_reply num (rx_nodeId x) ''reveal request'' ''reveal'' reveal_outcome_of reply of
             Inl reason \<Rightarrow> Reveal_refused reason | Inr out \<Rightarrow> out, w'))"

section \<open>Dispatching a shard by name\<close>

record shard_work =
  hw_shardId :: string
  hw_ownerId :: "string option"
  hw_label :: sovereignty

datatype dispatch_blame = Node_at_fault | Task_at_fault | Sender_at_fault

datatype dispatch_outcome = Shard_dispatched string | Shard_failed dispatch_blame string

text \<open>The store is the requestor's own; \<open>dispatch_ports\<close> is what \<open>remoteDispatch\<close> is given.\<close>

record ('w, 's) dispatch_ports =
  dp_rpc :: "'w requester"
  dp_num :: "jsnum \<Rightarrow> string"
  dp_codec :: codec
  dp_cid_of :: "bytes \<Rightarrow> string"
  dp_ops :: "'s store_ops"
  dp_taskFor :: "shard_work \<Rightarrow> task"
  dp_error_text :: "encode_error \<Rightarrow> string"

definition remoteDispatch :: "('w, 's) dispatch_ports \<Rightarrow> shard_work \<Rightarrow> string \<Rightarrow> 'w \<times> 's \<Rightarrow> dispatch_outcome \<times> 'w \<times> 's" where
  "remoteDispatch p shard nodeId st =
     (case st of (w, s) \<Rightarrow>
        (case dp_rpc p nodeId (encodeRequest (Exec_request (dp_taskFor p shard) None)) w of
           (Inl cause, w') \<Rightarrow>
             (case cause of
                Rpc_failure (Send_refused to by' reason detail) \<Rightarrow>
                  Shard_failed Sender_at_fault (''dispatch to '' @ nodeId @ '' refused by '' @ by' @ '': '' @ rejection_text (dp_num p) cause)
              | _ \<Rightarrow> Shard_failed Node_at_fault (''dispatch to '' @ nodeId @ '' failed: '' @ rejection_text (dp_num p) cause), w', s)
         | (Inr body, w') \<Rightarrow>
             (case parseResponse body of
                None \<Rightarrow> (Shard_failed Node_at_fault (''malformed response from '' @ nodeId), w', s)
              | Some (Parsed (Error_response reason)) \<Rightarrow>
                  (Shard_failed Node_at_fault (''remote error from '' @ nodeId @ '': '' @ reason), w', s)
              | Some (Parsed (Exec_response (Execution_failed reason))) \<Rightarrow> (Shard_failed Task_at_fault reason, w', s)
              | Some (Parsed (Exec_response (Executed x))) \<Rightarrow>
                  (case canonicalCid (dp_codec p) (dp_cid_of p) (xo_output x) of
                     Inl e \<Rightarrow> (Shard_failed Task_at_fault (''result from '' @ nodeId @ '' is not encodable: '' @ dp_error_text p e), w', s)
                   | Inr (cid, b) \<Rightarrow> (Shard_dispatched cid, w', snd (put_block (dp_ops p) b s)))
              | Some r \<Rightarrow>
                  (Shard_failed Node_at_fault
                     (''unexpected '' @ response_kind r @ '' response to exec request from '' @ nodeId), w', s))))"

section \<open>Blocks from peers\<close>

text \<open>\<open>RpcBlockSource.fetch\<close>: the first peer that has the block.\<close>

fun rpc_block :: "'w requester \<Rightarrow> string \<Rightarrow> string list \<Rightarrow> 'w \<Rightarrow> bytes option \<times> 'w" where
  "rpc_block rq cid [] w = (None, w)"
| "rpc_block rq cid (peer # peers) w =
     (case rq peer (encodeRequest (Block_request cid)) w of
        (Inl _, w') \<Rightarrow> rpc_block rq cid peers w'
      | (Inr body, w') \<Rightarrow>
          (case parseResponse body of
             Some (Parsed (Block_response (Some b))) \<Rightarrow> (Some b, w')
           | _ \<Rightarrow> rpc_block rq cid peers w'))"

section \<open>Combining elsewhere\<close>

text \<open>\<open>put\<close> is the requestor's own store, which may refuse; \<open>LocalStoreWriteFailed\<close> is the only exception.\<close>

datatype local_store_write_failed = Local_store_write_failed string string string

definition remoteCombineDispatch ::
  "'w requester \<Rightarrow> (string \<Rightarrow> string option) \<Rightarrow> (bytes \<Rightarrow> string) \<Rightarrow> (bytes \<Rightarrow> 's \<Rightarrow> string settled \<times> 's) \<Rightarrow> combine_task
    \<Rightarrow> string \<Rightarrow> 'w \<times> 's \<Rightarrow> (local_store_write_failed + attested_result combine_product option) \<times> 'w \<times> 's" where
  "remoteCombineDispatch rq parse cid_of put task executorId st =
     (case st of (w, s) \<Rightarrow>
        (case those (map parse (ct_inputCids task)) of
           None \<Rightarrow> (Inr None, w, s)
         | Some inputCids \<Rightarrow>
             (case rq executorId (encodeRequest (Combine_request (ct_nodeId task) inputCids (int (ct_level task)))) w of
                (Inl _, w1) \<Rightarrow> (Inr None, w1, s)
              | (Inr body, w1) \<Rightarrow>
                  (case parseResponse body of
                     Some (Parsed (Combine_response (Some cid) reason attestation)) \<Rightarrow>
                       (case rq executorId (encodeRequest (Block_request cid)) w1 of
                          (Inl _, w2) \<Rightarrow> (Inr None, w2, s)
                        | (Inr body', w2) \<Rightarrow>
                            (case parseResponse body' of
                               Some (Parsed (Block_response (Some b))) \<Rightarrow>
                                 if cid_of b \<noteq> cid then (Inr None, w2, s)
                                 else (case put b s of
                                         (Threw e, s') \<Rightarrow> (Inl (Local_store_write_failed (ct_nodeId task) cid e), w2, s')
                                       | (Returned _, s') \<Rightarrow> (Inr (Some \<lparr>cp_cid = cid, cp_attestation = attestation\<rparr>), w2, s'))
                             | _ \<Rightarrow> (Inr None, w2, s)))
                   | _ \<Rightarrow> (Inr None, w1, s)))))"

section \<open>Rendezvous\<close>

definition MAX_RESERVED_PEERS_PER_ANSWER :: nat where "MAX_RESERVED_PEERS_PER_ANSWER = 64"

definition circuit_addr :: "string \<Rightarrow> string \<Rightarrow> string" where
  "circuit_addr relay holder = ''/p2p/'' @ relay @ ''/p2p-circuit/webrtc/p2p/'' @ holder"

fun take_holders :: "string \<Rightarrow> string \<Rightarrow> string list \<Rightarrow> nat \<Rightarrow> string list \<Rightarrow> string list" where
  "take_holders self peer [] taken addrs = addrs"
| "take_holders self peer (holder # hs) taken addrs =
     (if holder = self then take_holders self peer hs taken addrs
      else if taken \<ge> MAX_RESERVED_PEERS_PER_ANSWER then addrs
      else take_holders self peer hs (taken + 1) (set_add (circuit_addr peer holder) addrs))"

fun ask_reservations :: "'w requester \<Rightarrow> string \<Rightarrow> string list \<Rightarrow> nat \<Rightarrow> string list \<Rightarrow> 'w \<Rightarrow> (nat \<times> string list) \<times> 'w" where
  "ask_reservations rq self [] answered addrs w = ((answered, addrs), w)"
| "ask_reservations rq self (peer # peers) answered addrs w =
     (case rq peer (encodeRequest Reservations_request) w of
        (Inl _, w') \<Rightarrow> ask_reservations rq self peers answered addrs w'
      | (Inr body, w') \<Rightarrow>
          (case parseResponse body of
             Some (Parsed (Reservations_response ids)) \<Rightarrow>
               ask_reservations rq self peers (answered + 1) (take_holders self peer ids 0 addrs) w'
           | _ \<Rightarrow> ask_reservations rq self peers answered addrs w'))"

record rendezvous =
  rz_answered :: nat
  rz_addrs :: "string list"

definition findReservedPeers :: "'w requester \<Rightarrow> string list \<Rightarrow> string \<Rightarrow> 'w \<Rightarrow> rendezvous \<times> 'w" where
  "findReservedPeers rq peers self w =
     (case ask_reservations rq self peers 0 [] w of
        ((answered, addrs), w') \<Rightarrow> (\<lparr>rz_answered = answered, rz_addrs = js_sort unit_cmp addrs\<rparr>, w'))"

text \<open>\<open>request.kind\<close>.\<close>

fun request_kind :: "agent_request \<Rightarrow> string" where
  "request_kind (Exec_request t c) = ''exec''"
| "request_kind (Commit_request t c) = ''commit''"
| "request_kind (Reveal_request h) = ''reveal''"
| "request_kind (Block_request c) = ''block''"
| "request_kind (Providers_request c) = ''providers''"
| "request_kind (Records_request k) = ''records''"
| "request_kind (Offer_request s) = ''offer''"
| "request_kind Reservations_request = ''reservations''"
| "request_kind (Report_request out d) = ''report''"
| "request_kind (Combine_request i cs l) = ''combine''"
| "request_kind (Enrol_request r) = ''enrol''"
| "request_kind Enrol_challenge_request = ''enrol-challenge''"

text \<open>A reservations port of \<open>None\<close> is \<open>relays-for-nobody\<close>.\<close>

definition serveReservations :: "('w \<Rightarrow> string list) option \<Rightarrow> cvalue \<Rightarrow> 'w \<Rightarrow> cvalue" where
  "serveReservations reservations body w =
     (case parseRequest body of
        None \<Rightarrow> encodeResponse (Error_response ''malformed request'')
      | Some q \<Rightarrow>
          if q \<noteq> Reservations_request
          then encodeResponse (Error_response (''this node serves reservations only, not '' @ request_kind q))
          else encodeResponse (Reservations_response (case reservations of None \<Rightarrow> [] | Some held \<Rightarrow> held w)))"

section \<open>Records and offers\<close>

definition ask_index :: "'w requester \<Rightarrow> string \<Rightarrow> agent_request \<Rightarrow> 'w \<Rightarrow> parsed_response option \<times> 'w" where
  "ask_index rq peer q w =
     (case rq peer (encodeRequest q) w of (Inl _, w') \<Rightarrow> (None, w') | (Inr body, w') \<Rightarrow> (parseResponse body, w'))"

text \<open>Every peer is asked, and the answers are gathered in the order of the peers.\<close>

fun gather_providers :: "'w requester \<Rightarrow> string \<Rightarrow> string list \<Rightarrow> string list \<Rightarrow> 'w \<Rightarrow> string list \<times> 'w" where
  "gather_providers rq cid [] found w = (found, w)"
| "gather_providers rq cid (peer # peers) found w =
     (case ask_index rq peer (Providers_request cid) w of
        (Some (Parsed (Providers_response ks)), w') \<Rightarrow> gather_providers rq cid peers (foldl (\<lambda>s k. set_add k s) found ks) w'
      | (_, w') \<Rightarrow> gather_providers rq cid peers found w')"

fun rpc_recordsFor :: "'w requester \<Rightarrow> string \<Rightarrow> string list \<Rightarrow> 'w \<Rightarrow> node_records option \<times> 'w" where
  "rpc_recordsFor rq nodeKey [] w = (None, w)"
| "rpc_recordsFor rq nodeKey (peer # peers) w =
     (case ask_index rq peer (Records_request nodeKey) w of
        (Some (Parsed (Records_response (Some r))), w') \<Rightarrow> (Some r, w')
      | (_, w') \<Rightarrow> rpc_recordsFor rq nodeKey peers w')"

definition rpc_record_index :: "'w requester \<Rightarrow> ('w \<Rightarrow> string list) \<Rightarrow> 'w record_index" where
  "rpc_record_index rq peers =
     \<lparr>ri_providers = (\<lambda>cid w. case gather_providers rq cid (peers w) [] w of
                         (found, w') \<Rightarrow> (Returned (js_sort unit_cmp found), w')),
      ri_recordsFor = (\<lambda>nodeKey w. case rpc_recordsFor rq nodeKey (peers w) w of (r, w') \<Rightarrow> (Returned r, w'))\<rparr>"

definition DEFAULT_PROBE_TIMEOUT_MS :: rat where "DEFAULT_PROBE_TIMEOUT_MS = 2000"

record 'w admission_options =
  ao_probeTimeoutMs :: "rat option"
  ao_local :: "(offer \<Rightarrow> 'w \<Rightarrow> string admission) option"

definition declined :: "string \<Rightarrow> string admission" where
  "declined reason = Refused reason None Declining_this_offer"

definition no_local_port :: string where
  "no_local_port = ''no local capacity port was supplied to rpcAdmission, so this node cannot answer an offer addressed to itself''"

definition ask_offer :: "(jsnum \<Rightarrow> string) \<Rightarrow> 'w requester \<Rightarrow> string \<Rightarrow> 'w admission_options \<Rightarrow> offer \<Rightarrow> 'w \<Rightarrow> string admission \<times> 'w" where
  "ask_offer num rq localId opts off w =
     (if of_nodeId off = localId
      then (case ao_local opts of None \<Rightarrow> declined no_local_port | Some would' \<Rightarrow> would' off w, w)
      else case rq (of_nodeId off) (encodeRequest (Offer_request (of_shardId off))) w of
             (Inl cause, w') \<Rightarrow> (declined (''unreachable: '' @ rejection_text num cause), w')
           | (Inr body, w') \<Rightarrow>
               (case parseResponse body of
                  Some (Parsed (Offer_response accepted reason capacity standing)) \<Rightarrow>
                    (if accepted then Accepted capacity else Refused reason capacity standing, w')
                | _ \<Rightarrow> (declined ''malformed offer response'', w')))"

text \<open>\<open>in_time\<close> says whether the reply settled before the timer: the one that settles first is the result.\<close>

definition rpcAdmission ::
  "(jsnum \<Rightarrow> string) \<Rightarrow> 'w requester \<Rightarrow> string \<Rightarrow> 'w admission_options \<Rightarrow> (offer \<Rightarrow> 'w \<Rightarrow> bool) \<Rightarrow> offer \<Rightarrow> 'w \<Rightarrow> string admission \<times> 'w" where
  "rpcAdmission num rq localId opts in_time off w =
     (case ask_offer num rq localId opts off w of
        (reply, w') \<Rightarrow>
          (if in_time off w then reply
           else declined (''unreachable: no answer in '' @
                  num (Fin (case ao_probeTimeoutMs opts of None \<Rightarrow> DEFAULT_PROBE_TIMEOUT_MS | Some t \<Rightarrow> t)) @ ''ms''), w'))"

section \<open>Enrolling over the wire\<close>

datatype ratified_field = F_nodeKey | F_userKey | F_operatorId | F_discoverability | F_relayIds

datatype enrol_result =
    Enrol_accepted node_certificate
  | Enrol_was_refused wire_refusal string
  | Enrol_unanswerable string
  | Enrol_unreachable string
  | Enrol_unratified ratified_field string

fun field_text :: "ratified_field \<Rightarrow> string" where
  "field_text F_nodeKey = ''nodeKey''"
| "field_text F_userKey = ''userKey''"
| "field_text F_operatorId = ''operatorId''"
| "field_text F_discoverability = ''discoverability''"
| "field_text F_relayIds = ''relayIds''"

definition enrol_mismatch :: "string \<Rightarrow> ratified_field \<Rightarrow> string \<Rightarrow> string \<Rightarrow> enrol_result" where
  "enrol_mismatch provider f expected found =
     Enrol_unratified f (''provider '' @ provider @ '' answered about a different '' @ field_text f @ '': asked for '' @ expected
       @ '', was given '' @ found)"

definition ratify :: "node_certificate \<Rightarrow> enrollment_request \<Rightarrow> string \<Rightarrow> enrol_result" where
  "ratify c r provider =
     (if c_nodeKey c \<noteq> er_nodeKey r then enrol_mismatch provider F_nodeKey (er_nodeKey r) (c_nodeKey c)
      else if c_userKey c \<noteq> er_userKey r then enrol_mismatch provider F_userKey (er_userKey r) (c_userKey c)
      else if c_operatorId c \<noteq> er_operatorId r then enrol_mismatch provider F_operatorId (er_operatorId r) (c_operatorId c)
      else if c_discoverability c \<noteq> er_discoverability r
      then enrol_mismatch provider F_discoverability (discoverability_text (er_discoverability r)) (discoverability_text (c_discoverability c))
      else let asked = js_sort unit_cmp (er_relayIds r); given = js_sort unit_cmp (c_relayIds c)
           in if length asked \<noteq> length given \<or> (\<exists>i < length asked. asked ! i \<noteq> given ! i)
              then enrol_mismatch provider F_relayIds (''['' @ js_join '', '' asked @ '']'') (''['' @ js_join '', '' given @ '']'')
              else Enrol_accepted c)"

definition unreachable_provider :: "(jsnum \<Rightarrow> string) \<Rightarrow> string \<Rightarrow> request_rejection \<Rightarrow> enrol_result" where
  "unreachable_provider num provider cause = Enrol_unreachable (''provider unreachable '' @ provider @ '': '' @ rejection_text num cause)"

definition unparsed_provider :: "string \<Rightarrow> enrol_result" where
  "unparsed_provider provider = Enrol_unanswerable (''provider '' @ provider @ '' sent a frame this build could not parse'')"

definition mintedBy :: "(jsnum \<Rightarrow> string) \<Rightarrow> 'w requester \<Rightarrow> string \<Rightarrow> 'w \<Rightarrow> (enrol_result + enrollment_challenge) \<times> 'w" where
  "mintedBy num rq provider w =
     (case rq provider (encodeRequest Enrol_challenge_request) w of
        (Inl cause, w') \<Rightarrow> (Inl (unreachable_provider num provider cause), w')
      | (Inr body, w') \<Rightarrow>
          (case parseResponse body of
             None \<Rightarrow> Inl (unparsed_provider provider)
           | Some (Parsed (Error_response reason)) \<Rightarrow> Inl (Enrol_unanswerable reason)
           | Some (Parsed (Enrol_challenge_response c)) \<Rightarrow> Inr c
           | Some r \<Rightarrow> Inl (Enrol_unanswerable (''provider '' @ provider @ '' answered a '' @ response_kind r
                        @ '' request, not an enrolment challenge'')), w'))"

text \<open>\<open>reply\<close> is \<open>pending.answering\<close>, which may throw; the promise then rejects.\<close>

definition enrolOverRpc ::
  "(jsnum \<Rightarrow> string) \<Rightarrow> 'w requester \<Rightarrow> string \<Rightarrow> enrollment_request \<Rightarrow> (enrollment_challenge \<Rightarrow> encode_error + challenge_answer)
    \<Rightarrow> 'w \<Rightarrow> (encode_error + enrol_result) \<times> 'w" where
  "enrolOverRpc num rq provider pending reply w =
     (case mintedBy num rq provider w of
        (Inl out, w') \<Rightarrow> (Inr out, w')
      | (Inr challenge, w') \<Rightarrow>
          (case reply challenge of
             Inl e \<Rightarrow> (Inl e, w')
           | Inr a \<Rightarrow>
               let r = pending\<lparr>er_freshness := Some a\<rparr>
               in case rq provider (encodeRequest (Enrol_request r)) w' of
                    (Inl cause, w'') \<Rightarrow> (Inr (unreachable_provider num provider cause), w'')
                  | (Inr body, w'') \<Rightarrow>
                      (Inr (case parseResponse body of
                              None \<Rightarrow> unparsed_provider provider
                            | Some (Parsed (Error_response reason)) \<Rightarrow> Enrol_unanswerable reason
                            | Some (Parsed_enrol (Parsed_certificate c)) \<Rightarrow> ratify c r provider
                            | Some (Parsed_enrol (Parsed_refusal f reason)) \<Rightarrow> Enrol_was_refused f reason
                            | Some x \<Rightarrow> Enrol_unanswerable (''provider '' @ provider @ '' answered a '' @ response_kind x
                                          @ '' request, not an enrolment'')), w'')))"

section \<open>Candidates\<close>

text \<open>An index of \<open>None\<close> is \<open>asks-connected-peers-only\<close>, a dispatch of \<open>None\<close> is \<open>dispatches-unauthenticated\<close>.\<close>

record 'w candidate_options =
  cd_rpc :: "'w requester"
  cd_peers :: "'w \<Rightarrow> string list"
  cd_index :: "'w record_index option"
  cd_trustedIssuers :: "string list"
  cd_now :: rat
  cd_peerIdFor :: "string \<Rightarrow> string option"
  cd_dispatch :: "(string \<Rightarrow> task \<Rightarrow> delegation list settled) option"

record candidate_set =
  ks_executors :: "remote_executor list"
  ks_nodes :: "node_descriptor list"
  ks_excluded :: "exclusion_reason list"
  ks_providers :: nat
  ks_undialable :: "string list"
  ks_replicaSets :: "replica_set list"

definition candidate_of :: "'w candidate_options \<Rightarrow> discovered_executor \<Rightarrow> string \<Rightarrow> remote_executor \<times> node_descriptor" where
  "candidate_of opts e peerId =
     (\<lparr>rx_nodeId = peerId, rx_capability = (case cd_dispatch opts of None \<Rightarrow> None | Some d \<Rightarrow> Some (d peerId))\<rparr>,
      \<lparr>nd_nodeId = peerId, nd_ownerId = c_userKey (de_certificate e),
       canExecuteSovereign = (c_userKey (de_certificate e) \<in> set (cb_sovereignFor (de_capabilities e))), nd_load = 0,
       nd_certificate = Some (de_certificate e)\<rparr>)"

fun dial_candidates ::
  "'w candidate_options \<Rightarrow> discovered_executor list \<Rightarrow> (remote_executor \<times> node_descriptor) list \<times> string list" where
  "dial_candidates opts [] = ([], [])"
| "dial_candidates opts (e # es) =
     (case dial_candidates opts es of
        (cs, undialable) \<Rightarrow>
          (case cd_peerIdFor opts (de_nodeKey e) of
             None \<Rightarrow> (cs, de_nodeKey e # undialable)
           | Some peerId \<Rightarrow> (candidate_of opts e peerId # cs, undialable)))"

definition discoverCandidates ::
  "codec \<Rightarrow> verifier \<Rightarrow> x509_codec \<Rightarrow> (string \<Rightarrow> string \<Rightarrow> int) \<Rightarrow> executor_query \<Rightarrow> 'w candidate_options \<Rightarrow> 'w
    \<Rightarrow> (discovery_error + candidate_set) \<times> 'w" where
  "discoverCandidates codec verify x lc q opts w =
     (let ix = (case cd_index opts of None \<Rightarrow> rpc_record_index (cd_rpc opts) (cd_peers opts) | Some ix \<Rightarrow> ix)
      in case discoverExecutors codec verify x q ix
                \<lparr>do_trustedIssuers = cd_trustedIssuers opts, do_now = cd_now opts, do_understands = UNDERSTOOD_EXTENSIONS\<rparr> w of
           (Inl e, w') \<Rightarrow> (Inl e, w')
         | (Inr found, w') \<Rightarrow>
             (let (cs, undialable) = dial_candidates opts (dr_executors found)
              in case resolveReplicaSets codec verify x lc (map de_certificate (dr_executors found)) (cd_trustedIssuers opts) (cd_now opts) of
                   Inl e \<Rightarrow> (Inl (Record_not_encodable e), w')
                 | Inr sets \<Rightarrow>
                     (Inr \<lparr>ks_executors = map fst cs, ks_nodes = map snd cs, ks_excluded = dr_excluded found,
                           ks_providers = dr_providers found, ks_undialable = undialable, ks_replicaSets = sets\<rparr>, w')))"

section \<open>Reporting a start\<close>

definition DEFAULT_MAX_PEERS :: int where "DEFAULT_MAX_PEERS = 8"

text \<open>\<open>slice(0, n)\<close>: a negative end counts from the end of the array.\<close>

definition slice_to :: "int \<Rightarrow> 'a list \<Rightarrow> 'a list" where
  "slice_to n xs = (if n \<ge> 0 then take (nat n) xs else take (nat (int (length xs) + n)) xs)"

record publish_options =
  po_peers :: "string list"
  po_outcome :: "start_outcome option"
  po_declinedLocally :: "jsnum option"
  po_maxPeers :: "int option"

record publish_result =
  pr_reached :: nat
  pr_asked :: nat
  pr_report :: start_report

definition count_as_number :: "int outcome_count \<Rightarrow> jsnum outcome_count" where
  "count_as_number e = \<lparr>oc_browser = oc_browser e, oc_result = oc_result e, oc_count = num_of_int (oc_count e)\<rparr>"

fun ask_reports :: "'w requester \<Rightarrow> start_outcome option \<Rightarrow> string list \<Rightarrow> nat \<Rightarrow> start_ledger \<Rightarrow> 'w \<Rightarrow> (nat \<times> start_ledger) \<times> 'w" where
  "ask_reports rq outc [] reached l w = ((reached, l), w)"
| "ask_reports rq outc (peer # peers) reached l w =
     (case rq peer (encodeRequest (Report_request outc None)) w of
        (Inl _, w') \<Rightarrow> ask_reports rq outc peers reached l w'
      | (Inr body, w') \<Rightarrow>
          (case parseResponse body of
             Some (Parsed (Report_response counts d)) \<Rightarrow>
               ask_reports rq outc peers (reached + 1) (mergeOverlapping (map count_as_number counts) (num_of_int d) l) w'
           | _ \<Rightarrow> ask_reports rq outc peers reached l w'))"

definition own_ledger :: "publish_options \<Rightarrow> start_ledger" where
  "own_ledger opts =
     decline (case po_declinedLocally opts of None \<Rightarrow> Fin 0 | Some n \<Rightarrow> n)
       (case po_outcome opts of None \<Rightarrow> empty_ledger | Some out \<Rightarrow> record_start out empty_ledger)"

definition publishStartOutcome :: "(string \<Rightarrow> string \<Rightarrow> int) \<Rightarrow> 'w requester \<Rightarrow> publish_options \<Rightarrow> 'w \<Rightarrow> publish_result \<times> 'w" where
  "publishStartOutcome lc rq opts w =
     (let peers = slice_to (case po_maxPeers opts of None \<Rightarrow> DEFAULT_MAX_PEERS | Some n \<Rightarrow> n) (po_peers opts)
      in case ask_reports rq (po_outcome opts) peers 0 (own_ledger opts) w of
           ((reached, l), w') \<Rightarrow> (\<lparr>pr_reached = reached, pr_asked = length peers, pr_report = ledger_report lc l\<rparr>, w'))"

section \<open>The fetching store\<close>

text \<open>
  \<open>FetchingBlockstore\<close> as a step relation: any number of \<open>get\<close> calls, their waits interleaved with the fetches they share
  and with the store's own puts.  A call is its index in \<open>fs_gets\<close>, a fetch its index in \<open>fs_attempts\<close>; \<open>fs_inFlight\<close> is the map
  from a CID to the promise of its fetch, which is that of the \<open>finally\<close>, so that a fetch settles and leaves the map at
  once.
\<close>

datatype get_call =
    Reading string
  | Missed string
  | Awaiting string nat
  | Got string "bytes option settled"

datatype fetch_attempt =
    Asking string
  | Storing string bytes
  | Settled_fetch string "bytes option settled"

record 's fetching =
  fs_local :: 's
  fs_inFlight :: "(string, nat) jsmap"
  fs_attempts :: "fetch_attempt list"
  fs_gets :: "get_call list"
  fs_fetched :: nat
  fs_rejected :: nat

definition new_fetching :: "'s \<Rightarrow> 's fetching" where
  "new_fetching s = \<lparr>fs_local = s, fs_inFlight = [], fs_attempts = [], fs_gets = [], fs_fetched = 0, fs_rejected = 0\<rparr>"

definition settle_fetch :: "nat \<Rightarrow> string \<Rightarrow> bytes option settled \<Rightarrow> 's fetching \<Rightarrow> 's fetching" where
  "settle_fetch a c r st =
     st\<lparr>fs_attempts := (fs_attempts st)[a := Settled_fetch c r], fs_inFlight := map_delete c (fs_inFlight st)\<rparr>"

text \<open>The call after its miss: it joins the fetch of its CID, or starts one.\<close>

definition join_or_fetch :: "nat \<Rightarrow> string \<Rightarrow> 's fetching \<Rightarrow> 's fetching" where
  "join_or_fetch g c st =
     (case map_get (fs_inFlight st) c of
        Some a \<Rightarrow> st\<lparr>fs_gets := (fs_gets st)[g := Awaiting c a]\<rparr>
      | None \<Rightarrow>
          (let a = length (fs_attempts st)
           in st\<lparr>fs_attempts := fs_attempts st @ [Asking c], fs_inFlight := map_set c a (fs_inFlight st),
                 fs_gets := (fs_gets st)[g := Awaiting c a]\<rparr>))"

text \<open>The source has answered the fetch \<open>a\<close>: bytes are checked against the CID before they are kept.\<close>

definition source_answered :: "(bytes \<Rightarrow> string) \<Rightarrow> nat \<Rightarrow> string \<Rightarrow> bytes option \<Rightarrow> 's fetching \<Rightarrow> 's fetching" where
  "source_answered cid_of a c found st =
     (case found of
        None \<Rightarrow> settle_fetch a c (Returned None) st
      | Some b \<Rightarrow>
          if cid_of b \<noteq> c then settle_fetch a c (Returned None) (st\<lparr>fs_rejected := fs_rejected st + 1\<rparr>)
          else st\<lparr>fs_attempts := (fs_attempts st)[a := Storing c b]\<rparr>)"

inductive fetch_step :: "(bytes \<Rightarrow> string) \<Rightarrow> 's store_ops \<Rightarrow> 's fetching \<Rightarrow> 's fetching \<Rightarrow> bool" for cid_of ops where
  step_get: "fetch_step cid_of ops st (st\<lparr>fs_gets := fs_gets st @ [Reading c]\<rparr>)"
| step_put: "fetch_step cid_of ops st (st\<lparr>fs_local := snd (put_block ops b (fs_local st))\<rparr>)"
| step_hit: "\<lbrakk>g < length (fs_gets st); fs_gets st ! g = Reading c; get_block ops c (fs_local st) = Some b\<rbrakk> \<Longrightarrow>
    fetch_step cid_of ops st (st\<lparr>fs_gets := (fs_gets st)[g := Got c (Returned (Some b))]\<rparr>)"
| step_read_threw: "\<lbrakk>g < length (fs_gets st); fs_gets st ! g = Reading c\<rbrakk> \<Longrightarrow>
    fetch_step cid_of ops st (st\<lparr>fs_gets := (fs_gets st)[g := Got c (Threw e)]\<rparr>)"
| step_miss: "\<lbrakk>g < length (fs_gets st); fs_gets st ! g = Reading c; get_block ops c (fs_local st) = None\<rbrakk> \<Longrightarrow>
    fetch_step cid_of ops st (st\<lparr>fs_gets := (fs_gets st)[g := Missed c]\<rparr>)"
| step_join: "\<lbrakk>g < length (fs_gets st); fs_gets st ! g = Missed c\<rbrakk> \<Longrightarrow> fetch_step cid_of ops st (join_or_fetch g c st)"
| step_source: "\<lbrakk>a < length (fs_attempts st); fs_attempts st ! a = Asking c\<rbrakk> \<Longrightarrow>
    fetch_step cid_of ops st (source_answered cid_of a c found st)"
| step_source_threw: "\<lbrakk>a < length (fs_attempts st); fs_attempts st ! a = Asking c\<rbrakk> \<Longrightarrow>
    fetch_step cid_of ops st (settle_fetch a c (Threw e) st)"
| step_stored: "\<lbrakk>a < length (fs_attempts st); fs_attempts st ! a = Storing c b\<rbrakk> \<Longrightarrow>
    fetch_step cid_of ops st
      (settle_fetch a c (Returned (Some b))
        (st\<lparr>fs_local := snd (put_block ops b (fs_local st)), fs_fetched := fs_fetched st + 1\<rparr>))"
| step_store_threw: "\<lbrakk>a < length (fs_attempts st); fs_attempts st ! a = Storing c b\<rbrakk> \<Longrightarrow>
    fetch_step cid_of ops st (settle_fetch a c (Threw e) st)"
| step_told: "\<lbrakk>g < length (fs_gets st); fs_gets st ! g = Awaiting c a; a < length (fs_attempts st);
      fs_attempts st ! a = Settled_fetch c' r\<rbrakk> \<Longrightarrow>
    fetch_step cid_of ops st (st\<lparr>fs_gets := (fs_gets st)[g := Got c r]\<rparr>)"

inductive fetch_reached :: "(bytes \<Rightarrow> string) \<Rightarrow> 's store_ops \<Rightarrow> 's \<Rightarrow> 's fetching \<Rightarrow> bool" for cid_of ops s where
  fetch_start: "fetch_reached cid_of ops s (new_fetching s)"
| fetch_more: "fetch_reached cid_of ops s st \<Longrightarrow> fetch_step cid_of ops st st' \<Longrightarrow> fetch_reached cid_of ops s st'"

section \<open>The fetching store keeps its word\<close>

fun live_fetch :: "string \<Rightarrow> fetch_attempt \<Rightarrow> bool" where
  "live_fetch c (Asking c') = (c' = c)"
| "live_fetch c (Storing c' b) = (c' = c)"
| "live_fetch c (Settled_fetch c' r) = False"

fun fetch_cid :: "fetch_attempt \<Rightarrow> string" where
  "fetch_cid (Asking c) = c"
| "fetch_cid (Storing c b) = c"
| "fetch_cid (Settled_fetch c r) = c"

text \<open>Bytes an attempt or a call holds are the bytes of its CID.\<close>

fun attempt_ok :: "(bytes \<Rightarrow> string) \<Rightarrow> fetch_attempt \<Rightarrow> bool" where
  "attempt_ok cid_of (Asking c) = True"
| "attempt_ok cid_of (Storing c b) = (cid_of b = c)"
| "attempt_ok cid_of (Settled_fetch c r) = (\<forall>b. r = Returned (Some b) \<longrightarrow> cid_of b = c)"

fun call_ok :: "(bytes \<Rightarrow> string) \<Rightarrow> fetch_attempt list \<Rightarrow> get_call \<Rightarrow> bool" where
  "call_ok cid_of as (Awaiting c a) = (a < length as \<and> fetch_cid (as ! a) = c)"
| "call_ok cid_of as (Got c r) = (\<forall>b. r = Returned (Some b) \<longrightarrow> cid_of b = c)"
| "call_ok cid_of as _ = True"

definition fetching_ok :: "(bytes \<Rightarrow> string) \<Rightarrow> 's fetching \<Rightarrow> bool" where
  "fetching_ok cid_of st \<longleftrightarrow>
     (\<forall>c a. map_get (fs_inFlight st) c = Some a \<longleftrightarrow> a < length (fs_attempts st) \<and> live_fetch c (fs_attempts st ! a)) \<and>
     (\<forall>x \<in> set (fs_attempts st). attempt_ok cid_of x) \<and> (\<forall>x \<in> set (fs_gets st). call_ok cid_of (fs_attempts st) x)"

lemma live_fetch_cid: "live_fetch c x \<Longrightarrow> fetch_cid x = c"
  by (cases x) auto

lemma all_update: "(\<forall>x \<in> set xs. P x) \<Longrightarrow> P y \<Longrightarrow> \<forall>x \<in> set (xs[i := y]). P x"
  using set_update_subset_insert by fastforce

lemma call_ok_more: "call_ok cid_of as x \<Longrightarrow> call_ok cid_of (as @ bs) x"
  by (cases x) (auto simp: nth_append)

lemma call_ok_update: "call_ok cid_of as x \<Longrightarrow> fetch_cid y = fetch_cid (as ! a) \<Longrightarrow> call_ok cid_of (as[a := y]) x"
proof (cases x)
  case (Awaiting c a')
  then show "call_ok cid_of as x \<Longrightarrow> fetch_cid y = fetch_cid (as ! a) \<Longrightarrow> call_ok cid_of (as[a := y]) x"
    by (cases "a' = a") auto
qed simp_all

lemma fetching_ok_gets:
  assumes "fetching_ok cid_of st" "call_ok cid_of (fs_attempts st) x"
  shows "fetching_ok cid_of (st\<lparr>fs_gets := (fs_gets st)[g := x]\<rparr>)"
  using assms all_update [of "fs_gets st" "call_ok cid_of (fs_attempts st)" x g] by (simp add: fetching_ok_def)

lemma fetching_map:
  "fetching_ok cid_of st \<Longrightarrow>
   map_get (fs_inFlight st) c = Some a \<longleftrightarrow> a < length (fs_attempts st) \<and> live_fetch c (fs_attempts st ! a)"
  by (simp add: fetching_ok_def)

lemma fetching_ok_settle:
  assumes "fetching_ok cid_of st" "a < length (fs_attempts st)" "live_fetch c (fs_attempts st ! a)"
    and "\<And>b. r = Returned (Some b) \<Longrightarrow> cid_of b = c"
  shows "fetching_ok cid_of (settle_fetch a c r st)"
proof -
  note c = live_fetch_cid [OF assms(3)]
  have mine: "map_get (fs_inFlight st) c = Some a" using assms(1-3) by (simp add: fetching_ok_def)
  have "map_get (map_delete c (fs_inFlight st)) c' = Some a' \<longleftrightarrow>
      a' < length ((fs_attempts st)[a := Settled_fetch c r]) \<and> live_fetch c' ((fs_attempts st)[a := Settled_fetch c r] ! a')" for c' a'
  proof (cases "a' = a")
    case True
    have "map_get (fs_inFlight st) c' = Some a \<Longrightarrow> c' = c"
      using assms(1) c by (auto simp: fetching_ok_def dest: live_fetch_cid)
    with True show ?thesis by auto
  next
    case False
    have "a' < length (fs_attempts st) \<and> live_fetch c (fs_attempts st ! a') \<Longrightarrow> a' = a"
      using mine fetching_map [OF assms(1)] by (metis option.inject)
    with False assms(1) show ?thesis by (auto simp: fetching_ok_def)
  qed
  moreover have "\<forall>x \<in> set (fs_gets st). call_ok cid_of ((fs_attempts st)[a := Settled_fetch c r]) x"
    using assms(1) c by (auto simp: fetching_ok_def intro: call_ok_update)
  moreover have "\<forall>x \<in> set ((fs_attempts st)[a := Settled_fetch c r]). attempt_ok cid_of x"
    using assms(1,4) by (intro all_update) (auto simp: fetching_ok_def)
  ultimately show ?thesis by (simp add: fetching_ok_def settle_fetch_def)
qed

lemma fetching_ok_join:
  assumes "fetching_ok cid_of st"
  shows "fetching_ok cid_of (join_or_fetch g c st)"
proof (cases "map_get (fs_inFlight st) c")
  case None
  let ?n = "length (fs_attempts st)"
  have "map_get (map_set c ?n (fs_inFlight st)) c' = Some a \<longleftrightarrow>
      a < length (fs_attempts st @ [Asking c]) \<and> live_fetch c' ((fs_attempts st @ [Asking c]) ! a)" for c' a
  proof (cases "a = ?n")
    case True
    have "map_get (fs_inFlight st) c' \<noteq> Some ?n" using assms by (auto simp: fetching_ok_def)
    with True show ?thesis by auto
  next
    case False
    have "\<not> (a < ?n \<and> live_fetch c (fs_attempts st ! a))" using None fetching_map [OF assms, of c a] by simp
    with False assms show ?thesis by (auto simp: fetching_ok_def nth_append less_Suc_eq)
  qed
  moreover have "\<forall>x \<in> set ((fs_gets st)[g := Awaiting c ?n]). call_ok cid_of (fs_attempts st @ [Asking c]) x"
    using assms by (intro all_update) (auto simp: fetching_ok_def intro: call_ok_more)
  moreover have "\<forall>x \<in> set (fs_attempts st @ [Asking c]). attempt_ok cid_of x" using assms by (auto simp: fetching_ok_def)
  ultimately show ?thesis using None by (simp add: fetching_ok_def join_or_fetch_def Let_def)
next
  case (Some a)
  with assms have "a < length (fs_attempts st)" "live_fetch c (fs_attempts st ! a)" by (auto simp: fetching_ok_def)
  with Some fetching_ok_gets [OF assms, of "Awaiting c a" g] show ?thesis
    by (simp add: join_or_fetch_def live_fetch_cid)
qed

lemma fetching_ok_counts [simp]:
  "fetching_ok cid_of (st\<lparr>fs_local := s\<rparr>) = fetching_ok cid_of st" "fetching_ok cid_of (st\<lparr>fs_fetched := n\<rparr>) = fetching_ok cid_of st"
  "fetching_ok cid_of (st\<lparr>fs_rejected := n\<rparr>) = fetching_ok cid_of st"
  by (simp_all add: fetching_ok_def)

lemma fetching_ok_storing:
  assumes "fetching_ok cid_of st" "a < length (fs_attempts st)" "fs_attempts st ! a = Asking c" "cid_of b = c"
  shows "fetching_ok cid_of (st\<lparr>fs_attempts := (fs_attempts st)[a := Storing c b]\<rparr>)"
proof -
  have "live_fetch c' ((fs_attempts st)[a := Storing c b] ! a') = live_fetch c' (fs_attempts st ! a')"
    if "a' < length (fs_attempts st)" for c' a'
    using assms(3) that by (cases "a' = a") auto
  moreover have "\<forall>x \<in> set (fs_gets st). call_ok cid_of ((fs_attempts st)[a := Storing c b]) x"
    using assms(1,3) by (auto simp: fetching_ok_def intro: call_ok_update)
  moreover have "\<forall>x \<in> set ((fs_attempts st)[a := Storing c b]). attempt_ok cid_of x"
    using assms(1,4) by (intro all_update) (auto simp: fetching_ok_def)
  ultimately show ?thesis using assms(1) by (simp add: fetching_ok_def cong: conj_cong)
qed

lemma fetching_ok_source:
  assumes "fetching_ok cid_of st" "a < length (fs_attempts st)" "fs_attempts st ! a = Asking c"
  shows "fetching_ok cid_of (source_answered cid_of a c found st)"
proof (cases found)
  case None
  have "fetching_ok cid_of (settle_fetch a c (Returned None) st)"
    by (rule fetching_ok_settle) (use assms in simp_all)
  with None show ?thesis by (simp add: source_answered_def)
next
  case (Some b)
  show ?thesis
  proof (cases "cid_of b = c")
    case True
    with Some assms show ?thesis by (simp add: source_answered_def fetching_ok_storing)
  next
    case False
    have "fetching_ok cid_of (settle_fetch a c (Returned None) (st\<lparr>fs_rejected := fs_rejected st + 1\<rparr>))"
      by (rule fetching_ok_settle) (use assms in simp_all)
    with Some False show ?thesis by (simp add: source_answered_def)
  qed
qed

lemma settle_local [simp]: "fs_local (settle_fetch a c r st) = fs_local st"
  by (simp add: settle_fetch_def)

lemma source_local [simp]: "fs_local (source_answered cid_of a c found st) = fs_local st"
  by (simp add: source_answered_def split: option.splits)

lemma join_local [simp]: "fs_local (join_or_fetch g c st) = fs_local st"
  by (simp add: join_or_fetch_def Let_def split: option.splits)

context blockstore
begin

lemma fetch_step_ok:
  assumes "fetch_step cid_of ops st st'" "fetching_ok cid_of st" "content_ok (fs_local st)"
  shows "fetching_ok cid_of st' \<and> content_ok (fs_local st')"
  using assms
proof (induction rule: fetch_step.induct)
  case (step_hit g st c b)
  then have "cid_of b = c" by (simp add: content_ok_def)
  with step_hit fetching_ok_gets [of cid_of st "Got c (Returned (Some b))" g] show ?case by simp
next
  case (step_told g st c a c' r)
  then have "call_ok cid_of (fs_attempts st) (Awaiting c a)" "attempt_ok cid_of (Settled_fetch c' r)"
    unfolding fetching_ok_def by (metis nth_mem)+
  with step_told fetching_ok_gets [of cid_of st "Got c r" g] show ?case by auto
next
  case (step_stored a st c b)
  then have "attempt_ok cid_of (Storing c b)" unfolding fetching_ok_def by (metis nth_mem)
  let ?st = "st\<lparr>fs_local := snd (put_block ops b (fs_local st)), fs_fetched := fs_fetched st + 1\<rparr>"
  have "fetching_ok cid_of (settle_fetch a c (Returned (Some b)) ?st)"
    by (rule fetching_ok_settle) (use step_stored \<open>attempt_ok cid_of (Storing c b)\<close> in simp_all)
  then show ?case using step_stored by (simp add: content_ok_put)
next
  case (step_store_threw a st c b e)
  have "fetching_ok cid_of (settle_fetch a c (Threw e) st)"
    by (rule fetching_ok_settle) (use step_store_threw in simp_all)
  then show ?case using step_store_threw by simp
next
  case (step_source_threw a st c e)
  have "fetching_ok cid_of (settle_fetch a c (Threw e) st)"
    by (rule fetching_ok_settle) (use step_source_threw in simp_all)
  then show ?case using step_source_threw by simp
next
  case (step_get st c)
  then show ?case by (simp add: fetching_ok_def)
qed (simp_all add: content_ok_put fetching_ok_gets fetching_ok_source fetching_ok_join)

lemma fetch_reached_ok:
  assumes "fetch_reached cid_of ops s st" "content_ok s"
  shows "fetching_ok cid_of st \<and> content_ok (fs_local st)"
  using assms
proof (induction rule: fetch_reached.induct)
  case fetch_start
  then show ?case by (simp add: new_fetching_def fetching_ok_def)
qed (blast dest: fetch_step_ok)

end

text \<open>Bytes in the fetching store's own block store, for the in-memory one.\<close>

lemma memory_content: "memory.content_ok cid_of s \<longleftrightarrow> (\<forall>c b. memory_get c s = Some b \<longrightarrow> cid_of b = c)"
  using memory.content_ok_def [of cid_of s] by (simp add: memory_ops_def)

text \<open>C36: A peer cannot pass off other bytes as a block: over any interleaving of gets, puts, fetches that succeed, come back
  empty, with the wrong bytes or not at all, what a get returns for a CID hashes to that CID, and so does every block the
  store keeps; there is never more than one fetch under way for a CID; and no get is left behind: the fetch a call awaits is
  a fetch of its own CID, still in the map of those under way, or settled with the outcome the call will be told.\<close>

theorem fetched_blocks_are_authentic:
  assumes "fetch_reached cid_of (memory_ops cid_of) s st" "\<And>c b. memory_get c s = Some b \<Longrightarrow> cid_of b = c"
  shows "(\<forall>c b. Got c (Returned (Some b)) \<in> set (fs_gets st) \<longrightarrow> cid_of b = c) \<and>
    (\<forall>c b. memory_get c (fs_local st) = Some b \<longrightarrow> cid_of b = c) \<and>
    (\<forall>a a' c. a < length (fs_attempts st) \<and> a' < length (fs_attempts st) \<and> live_fetch c (fs_attempts st ! a) \<and>
       live_fetch c (fs_attempts st ! a') \<longrightarrow> a = a') \<and>
    (\<forall>c a. Awaiting c a \<in> set (fs_gets st) \<longrightarrow> a < length (fs_attempts st) \<and>
       (map_get (fs_inFlight st) c = Some a \<or> (\<exists>r. fs_attempts st ! a = Settled_fetch c r)))"
proof -
  have "memory.content_ok cid_of s" using assms(2) by (simp add: memory_content)
  from memory.fetch_reached_ok [OF assms(1) this] have ok: "fetching_ok cid_of st" and "memory.content_ok cid_of (fs_local st)" by simp_all
  moreover have "a = a'" if "a < length (fs_attempts st)" "a' < length (fs_attempts st)" "live_fetch c (fs_attempts st ! a)"
    "live_fetch c (fs_attempts st ! a')" for a a' c
    using ok that unfolding fetching_ok_def by (metis option.inject)
  moreover have "cid_of b = c" if "Got c (Returned (Some b)) \<in> set (fs_gets st)" for c b
    using ok that by (auto simp: fetching_ok_def)
  moreover have "a < length (fs_attempts st) \<and> (map_get (fs_inFlight st) c = Some a \<or> (\<exists>r. fs_attempts st ! a = Settled_fetch c r))"
    if "Awaiting c a \<in> set (fs_gets st)" for c a
    using ok that by (cases "fs_attempts st ! a") (auto simp: fetching_ok_def)
  ultimately show ?thesis unfolding memory_content by blast
qed

section \<open>Across the wire\<close>

text \<open>A requester whose requests are encoded, decoded, parsed and served as at a peer, and whose replies come back the same way.\<close>

definition answered_by :: "codec \<Rightarrow> decoder \<Rightarrow> (string \<Rightarrow> agent_request \<Rightarrow> 'w \<Rightarrow> agent_response \<times> 'w) \<Rightarrow> 'w requester" where
  "answered_by codec decode agent peer body w =
     (case encodeCanonical codec body of
        Inl e \<Rightarrow> (Inl (Other_error ''not encodable''), w)
      | Inr b \<Rightarrow>
          (case Option.bind (decode b) parseRequest of
             None \<Rightarrow> (Inl (Rpc_failure (Undecodable_frame peer ''malformed request'')), w)
           | Some q \<Rightarrow>
               (case agent peer q w of
                  (x, w') \<Rightarrow>
                    (case encodeCanonical codec (encodeResponse x) of
                       Inl e \<Rightarrow> (Inl (Rpc_failure (Timeout peer DEFAULT_RPC_TIMEOUT_MS)), w')
                     | Inr b' \<Rightarrow>
                         (case decode b' of
                            None \<Rightarrow> (Inl (Rpc_failure (Undecodable_frame peer ''reply'')), w')
                          | Some v \<Rightarrow> (Inr v, w'))))))"

lemma wire_answer:
  assumes "codec_law codec decode" "encodeCanonical codec (encodeRequest q) = Inr b" "request_sendable q"
    and "agent peer q w = (x, w')" "encodeCanonical codec (encodeResponse x) = Inr b'" "response_sendable x"
  shows "\<exists>v. answered_by codec decode agent peer (encodeRequest q) w = (Inr v, w') \<and> parseResponse v = Some (arrived x)"
proof -
  have "decode b = Some (dag_sorted (encodeRequest q))" "decode b' = Some (dag_sorted (encodeResponse x))"
    using assms(1,2,5) by (simp_all add: codec_law_def encodeCanonical_Inr)
  then show ?thesis using assms(2,4,5) request_parsed [OF assms(3)] response_parsed [OF assms(6)]
    by (simp add: answered_by_def)
qed


section \<open>Reserved peers\<close>

lemma take_holders_spec:
  "distinct addrs \<Longrightarrow> distinct (take_holders self peer hs n addrs) \<and> set addrs \<subseteq> set (take_holders self peer hs n addrs) \<and>
   length (take_holders self peer hs n addrs) + n \<le> length addrs + max n MAX_RESERVED_PEERS_PER_ANSWER \<and>
   set (take_holders self peer hs n addrs) \<subseteq> set addrs \<union> {circuit_addr peer h | h. h \<in> set hs \<and> h \<noteq> self}"
proof (induction hs arbitrary: n addrs)
  case (Cons h hs)
  show ?case
  proof (cases "h = self \<or> n \<ge> MAX_RESERVED_PEERS_PER_ANSWER")
    case True
    with Cons show ?thesis by (cases "h = self") (simp, blast, auto)
  next
    case False
    have "length (set_add (circuit_addr peer h) addrs) \<le> length addrs + 1" by (simp add: set_add_def)
    with Cons.IH [of "set_add (circuit_addr peer h) addrs" "n + 1"] Cons.prems False show ?thesis by auto
  qed
qed simp

definition reserved_addrs :: "string \<Rightarrow> string list \<Rightarrow> string set" where
  "reserved_addrs self peers = {circuit_addr p h | p h. p \<in> set peers \<and> h \<noteq> self}"

lemma ask_reservations_spec:
  assumes "ask_reservations rq self peers k addrs w = ((k', addrs'), w')" "distinct addrs"
  shows "distinct addrs' \<and> k \<le> k' \<and> k' \<le> k + length peers \<and>
    length addrs' \<le> length addrs + (k' - k) * MAX_RESERVED_PEERS_PER_ANSWER \<and>
    set addrs' \<subseteq> set addrs \<union> reserved_addrs self peers"
  using assms
proof (induction peers arbitrary: k addrs w)
  case (Cons p ps)
  have sub: "reserved_addrs self ps \<subseteq> reserved_addrs self (p # ps)" by (auto simp: reserved_addrs_def)
  obtain ans w1 where a: "rq p (encodeRequest Reservations_request) w = (ans, w1)" by fastforce
  show ?case
  proof (cases "\<exists>body hs. ans = Inr body \<and> parseResponse body = Some (Parsed (Reservations_response hs))")
    case True
    then obtain body hs where t: "ans = Inr body" "parseResponse body = Some (Parsed (Reservations_response hs))" by blast
    let ?addrs = "take_holders self p hs 0 addrs"
    from Cons.prems a t have go: "ask_reservations rq self ps (k + 1) ?addrs w1 = ((k', addrs'), w')" by simp
    from take_holders_spec [OF Cons.prems(2), of self p hs 0] have th: "distinct ?addrs"
      "length ?addrs \<le> length addrs + MAX_RESERVED_PEERS_PER_ANSWER" "set ?addrs \<subseteq> set addrs \<union> reserved_addrs self (p # ps)"
      by (simp, simp, fastforce simp: reserved_addrs_def)
    from Cons.IH [OF go th(1)] have ih: "distinct addrs'" "k + 1 \<le> k'" "k' \<le> k + 1 + length ps"
      "length addrs' \<le> length ?addrs + (k' - (k + 1)) * MAX_RESERVED_PEERS_PER_ANSWER"
      "set addrs' \<subseteq> set ?addrs \<union> reserved_addrs self ps" by simp_all
    have "(k' - k) * MAX_RESERVED_PEERS_PER_ANSWER = MAX_RESERVED_PEERS_PER_ANSWER + (k' - (k + 1)) * MAX_RESERVED_PEERS_PER_ANSWER"
      using ih(2) by (metis Suc_diff_le Suc_eq_plus1 diff_Suc_Suc mult_Suc)
    with ih th sub show ?thesis by auto
  next
    case False
    have "ask_reservations rq self ps k addrs w1 = ((k', addrs'), w')"
    proof (cases ans)
      case (Inr body)
      with False Cons.prems(1) a show ?thesis
        by (cases "parseResponse body" rule: option.exhaust) (auto split: parsed_response.splits agent_response.splits)
    qed (use Cons.prems(1) a in simp)
    from Cons.IH [OF this Cons.prems(2)] sub show ?thesis by auto
  qed
qed (simp add: reserved_addrs_def)

text \<open>What strangers' relays can make a node dial is bounded: the addresses found are sorted and distinct, no more than
  sixty-four for each relay that answered however many it names, each leads through a relay that was asked, and none is
  that of the node itself.\<close>

theorem reserved_peers_are_bounded:
  assumes "findReservedPeers rq peers self w = (found, w')"
  shows "sorted (rz_addrs found) \<and> distinct (rz_addrs found) \<and> rz_answered found \<le> length peers \<and>
    length (rz_addrs found) \<le> rz_answered found * MAX_RESERVED_PEERS_PER_ANSWER \<and>
    (\<forall>addr \<in> set (rz_addrs found). \<exists>p h. p \<in> set peers \<and> h \<noteq> self \<and> addr = circuit_addr p h)"
proof -
  obtain k addrs w1 where a: "ask_reservations rq self peers 0 [] w = ((k, addrs), w1)"
    by (metis prod.exhaust)
  then have "found = \<lparr>rz_answered = k, rz_addrs = js_sort unit_cmp addrs\<rparr>" using assms by (simp add: findReservedPeers_def)
  moreover have "length (js_sort unit_cmp addrs) = length addrs" by (metis mset_js_sort size_mset)
  ultimately show ?thesis using ask_reservations_spec [OF a]
    by (simp add: reserved_addrs_def js_sort_is_sort) blast
qed

section \<open>Enrolment\<close>

lemma ratify_accepts:
  "ratify c r p = Enrol_accepted d \<longleftrightarrow>
     d = c \<and> c_nodeKey c = er_nodeKey r \<and> c_userKey c = er_userKey r \<and> c_operatorId c = er_operatorId r \<and>
     c_discoverability c = er_discoverability r \<and> mset (c_relayIds c) = mset (er_relayIds r)"
proof -
  have "(length xs \<noteq> length ys \<or> (\<exists>i < length xs. xs ! i \<noteq> ys ! i)) \<longleftrightarrow> xs \<noteq> ys" for xs ys :: "string list"
    by (metis nth_equalityI)
  moreover have "js_sort unit_cmp xs = js_sort unit_cmp ys \<longleftrightarrow> mset xs = mset ys" for xs ys :: "string list"
    by (metis mset_js_sort unit_sort_cong)
  ultimately show ?thesis by (auto simp: ratify_def enrol_mismatch_def Let_def)
qed

lemma enrolled_as_asked:
  assumes "enrol codec verify sign x ops r now t = (Enrolled c, t')"
  shows "c_nodeKey c = er_nodeKey r \<and> c_userKey c = er_userKey r \<and> c_operatorId c = er_operatorId r \<and>
    c_discoverability c = er_discoverability r \<and> mset (c_relayIds c) = mset (er_relayIds r) \<and>
    c_nextKeyCommitment c = er_nextKeyCommitment r"
proof -
  from assms have i: "issue_certificate codec sign x ops r now t = (Enrolled c, t')" and o: "er_operatorId r = operatorIdFor (er_userKey r)"
    by (auto simp: enrol_def Let_def split: sum.splits if_splits option.splits)
  from i have "c_nodeKey c = er_nodeKey r \<and> c_userKey c = er_userKey r \<and> c_operatorId c = operatorIdFor (er_userKey r) \<and>
    c_discoverability c = er_discoverability r \<and> c_relayIds c = js_sort unit_cmp (er_relayIds r) \<and> c_nextKeyCommitment c = er_nextKeyCommitment r"
    by (auto simp: issue_certificate_def certificate_fields_def Let_def split: sum.splits if_splits)
  with o show ?thesis by simp
qed

lemma accepted_was_ratified:
  assumes "enrolOverRpc num rq provider pending reply w = (Inr (Enrol_accepted d), w')"
  shows "\<exists>c f. ratify c (pending\<lparr>er_freshness := f\<rparr>) provider = Enrol_accepted d"
proof -
  obtain m w1 where m: "mintedBy num rq provider w = (m, w1)" by fastforce
  have "m \<noteq> Inl (Enrol_accepted d)"
    using m by (auto simp: mintedBy_def unreachable_provider_def unparsed_provider_def
        split: prod.splits sum.splits option.splits parsed_response.splits agent_response.splits)
  with m assms obtain ch a where ch: "m = Inr ch" "reply ch = Inr a"
    by (auto simp: enrolOverRpc_def split: sum.splits)
  obtain ans w2 where ans: "rq provider (encodeRequest (Enrol_request (pending\<lparr>er_freshness := Some a\<rparr>))) w1 = (ans, w2)" by fastforce
  with assms m ch obtain body where body: "ans = Inr body"
    by (cases ans) (auto simp: enrolOverRpc_def unreachable_provider_def)
  from assms m ch ans body show ?thesis
    by (auto simp: enrolOverRpc_def unparsed_provider_def
        split: option.splits parsed_response.splits agent_response.splits enrol_parsed.splits)
qed

text \<open>Enrolment over the wire ends with the certificate the authority issued, for the keys that asked: when the provider
  mints a challenge, the node answers it, and the authority certifies that very request, the node holds exactly the certificate issued;
  and whatever a provider sends, a certificate the node accepts names its own node key, user key, operator and
  discoverability, and its own relays in some order.\<close>

theorem enrolment_over_the_wire:
  assumes "codec_law codec decode" "er_nextKeyCommitment pending = None" "reply ch = Inr a" "r = pending\<lparr>er_freshness := Some a\<rparr>"
    and "agent provider Enrol_challenge_request w = (Enrol_challenge_response ch, w1)" "ec_nonce ch \<noteq> []"
    and "agent provider (Enrol_request r) w1 = (Enrol_response (Enrol_ok c), w2)"
    and "enrol codec' verify sign x ops r now t = (Enrolled c, t')"
    and "encodeCanonical codec (encodeRequest Enrol_challenge_request) = Inr b1" "encodeCanonical codec (encodeRequest (Enrol_request r)) = Inr b2"
    and "encodeCanonical codec (encodeResponse (Enrol_challenge_response ch)) = Inr b3"
    and "encodeCanonical codec (encodeResponse (Enrol_response (Enrol_ok c))) = Inr b4"
  shows "enrolOverRpc num (answered_by codec decode agent) provider pending reply w = (Inr (Enrol_accepted c), w2) \<and>
    (\<forall>rq w d w'. enrolOverRpc num rq provider pending reply w = (Inr (Enrol_accepted d), w') \<longrightarrow>
       c_nodeKey d = er_nodeKey pending \<and> c_userKey d = er_userKey pending \<and> c_operatorId d = er_operatorId pending \<and>
       c_discoverability d = er_discoverability pending \<and> mset (c_relayIds d) = mset (er_relayIds pending))"
proof
  have s: "request_sendable Enrol_challenge_request" "request_sendable (Enrol_request r)"
    "response_sendable (Enrol_challenge_response ch)" "response_sendable (Enrol_response (Enrol_ok c))"
    using assms(2,4,6) by simp_all
  obtain v where v: "answered_by codec decode agent provider (encodeRequest Enrol_challenge_request) w = (Inr v, w1)"
    "parseResponse v = Some (Parsed (Enrol_challenge_response ch))"
    using wire_answer [where agent = agent, OF assms(1,9) s(1) assms(5,11) s(3)] by auto
  obtain u where u: "answered_by codec decode agent provider (encodeRequest (Enrol_request r)) w1 = (Inr u, w2)"
    "parseResponse u = Some (Parsed_enrol (Parsed_certificate (c\<lparr>c_nextKeyCommitment := None\<rparr>)))"
    using wire_answer [where agent = agent, OF assms(1,10) s(2) assms(7,12) s(4)] by auto
  note issued = enrolled_as_asked [OF assms(8)]
  have "c_nextKeyCommitment c = None" using issued assms(2,4) by simp
  then have "c\<lparr>c_nextKeyCommitment := None\<rparr> = c" by simp
  with u have c: "parseResponse u = Some (Parsed_enrol (Parsed_certificate c))" by simp
  have "ratify c r provider = Enrol_accepted c" using issued by (simp add: ratify_accepts)
  then show "enrolOverRpc num (answered_by codec decode agent) provider pending reply w = (Inr (Enrol_accepted c), w2)"
    using assms(3) v u(1) c by (simp add: enrolOverRpc_def mintedBy_def assms(4))
next
  show "\<forall>rq w d w'. enrolOverRpc num rq provider pending reply w = (Inr (Enrol_accepted d), w') \<longrightarrow>
       c_nodeKey d = er_nodeKey pending \<and> c_userKey d = er_userKey pending \<and> c_operatorId d = er_operatorId pending \<and>
       c_discoverability d = er_discoverability pending \<and> mset (c_relayIds d) = mset (er_relayIds pending)"
    using accepted_was_ratified by (fastforce simp: ratify_accepts)
qed

section \<open>Candidates are vouched for\<close>

lemma dial_candidates_spec:
  "dial_candidates opts es =
     (map (\<lambda>e. candidate_of opts e (the (cd_peerIdFor opts (de_nodeKey e)))) (filter (\<lambda>e. cd_peerIdFor opts (de_nodeKey e) \<noteq> None) es),
      map de_nodeKey (filter (\<lambda>e. cd_peerIdFor opts (de_nodeKey e) = None) es))"
  by (induction es) (auto split: option.splits)

lemma discovered_papers:
  assumes "discoverExecutors codec verify x q ix opts s = (Inr d, s')"
  shows "(\<forall>e \<in> set (dr_executors d). \<exists>r. papers_in_order codec verify x q opts (de_nodeKey e) r \<and>
       de_certificate e = nr_certificate r \<and> de_capabilities e = nr_capabilities r) \<and>
    length (dr_executors d) + length (dr_excluded d) = dr_providers d"
proof -
  obtain listed s1 where l: "ri_providers ix (eq_inputCid q) s = (Returned listed, s1)"
    using assms by (auto simp: discoverExecutors_def split: prod.splits settled.splits)
  let ?ps = "js_sort unit_cmp (set_of_list listed)"
  from assms l obtain found excluded executors where f: "fulfilled (fst (ask_all ix ?ps s1)) = Inr found"
    and j: "judge_all (judge_provider codec verify x q opts) found = Inr (excluded, executors)"
    and d: "d = \<lparr>dr_executors = executors, dr_excluded = excluded, dr_providers = length ?ps\<rparr>"
    by (auto simp: discoverExecutors_def Let_def split: prod.splits sum.splits)
  from judge_all_facts [OF j] have e: "\<forall>e. e \<in> set executors \<longleftrightarrow> (\<exists>k r. (k, Some r) \<in> set found \<and> papers_in_order codec verify x q opts k r \<and>
        e = \<lparr>de_nodeKey = k, de_certificate = nr_certificate r, de_capabilities = nr_capabilities r\<rparr>)"
    and m: "mset (map de_nodeKey executors @ map excluded_key excluded) = mset (map fst found)" by simp_all
  from arg_cong [OF m, of size] have "length executors + length excluded = length ?ps"
    using ask_all_keys [OF f] by (metis length_append length_map size_mset)
  then show ?thesis using e by (fastforce simp: d)
qed

text \<open>A shard is only ever offered to a node somebody vouched for: every candidate comes from a certificate that a trusted issuer
  signed and a capability record its node signed for the same key; it is dialled at the address of that key, its owner is the certificate's
  user, and it counts as cleared for sovereign work exactly when its record clears its own owner; executors and descriptors
  correspond, and every provider that was found is a candidate, excluded with a reason, or named as undialable.\<close>

theorem candidates_are_vouched_for:
  assumes "discoverCandidates codec verify x lc q opts w = (Inr ks, w')"
  shows "map rx_nodeId (ks_executors ks) = map nd_nodeId (ks_nodes ks) \<and>
    (\<forall>n \<in> set (ks_nodes ks). \<exists>c caps. nd_certificate n = Some c \<and>
       verifyCertificate codec verify x c (cd_trustedIssuers opts) (cd_now opts) = Certificate_ok c \<and>
       verifyCapabilityRecord codec verify caps (cd_now opts) = Inr True \<and> cb_nodeKey caps = c_nodeKey c \<and>
       cd_peerIdFor opts (c_nodeKey c) = Some (nd_nodeId n) \<and> nd_ownerId n = c_userKey c \<and>
       (canExecuteSovereign n \<longleftrightarrow> c_userKey c \<in> set (cb_sovereignFor caps))) \<and>
    length (ks_nodes ks) + length (ks_undialable ks) + length (ks_excluded ks) = ks_providers ks"
proof -
  let ?opts = "\<lparr>do_trustedIssuers = cd_trustedIssuers opts, do_now = cd_now opts, do_understands = UNDERSTOOD_EXTENSIONS\<rparr>"
  let ?ix = "case cd_index opts of None \<Rightarrow> rpc_record_index (cd_rpc opts) (cd_peers opts) | Some ix \<Rightarrow> ix"
  let ?dials = "\<lambda>e. cd_peerIdFor opts (de_nodeKey e) \<noteq> None"
  let ?cand = "\<lambda>e. candidate_of opts e (the (cd_peerIdFor opts (de_nodeKey e)))"
  obtain res w1 where res: "discoverExecutors codec verify x q ?ix ?opts w = (res, w1)" by fastforce
  with assms obtain d where d: "discoverExecutors codec verify x q ?ix ?opts w = (Inr d, w1)"
    by (cases res) (auto simp: discoverCandidates_def Let_def)
  with assms have ks: "ks_executors ks = map (fst \<circ> ?cand) (filter ?dials (dr_executors d))"
    "ks_nodes ks = map (snd \<circ> ?cand) (filter ?dials (dr_executors d))"
    "ks_undialable ks = map de_nodeKey (filter (\<lambda>e. \<not> ?dials e) (dr_executors d))"
    "ks_excluded ks = dr_excluded d" "ks_providers ks = dr_providers d"
    by (auto simp: discoverCandidates_def Let_def dial_candidates_spec split: sum.splits)
  note papers = discovered_papers [OF d]
  have "map rx_nodeId (ks_executors ks) = map nd_nodeId (ks_nodes ks)"
    by (simp add: ks candidate_of_def)
  moreover have "\<exists>c caps. nd_certificate n = Some c \<and>
       verifyCertificate codec verify x c (cd_trustedIssuers opts) (cd_now opts) = Certificate_ok c \<and>
       verifyCapabilityRecord codec verify caps (cd_now opts) = Inr True \<and> cb_nodeKey caps = c_nodeKey c \<and>
       cd_peerIdFor opts (c_nodeKey c) = Some (nd_nodeId n) \<and> nd_ownerId n = c_userKey c \<and>
       (canExecuteSovereign n \<longleftrightarrow> c_userKey c \<in> set (cb_sovereignFor caps))" if n: "n \<in> set (ks_nodes ks)" for n
  proof -
    from n obtain e peerId where e: "e \<in> set (dr_executors d)" "cd_peerIdFor opts (de_nodeKey e) = Some peerId"
      "n = snd (candidate_of opts e peerId)" by (auto simp: ks)
    with papers obtain r where "papers_in_order codec verify x q ?opts (de_nodeKey e) r"
      "de_certificate e = nr_certificate r" "de_capabilities e = nr_capabilities r" by blast
    with e(2,3) show ?thesis
      by (intro exI [of _ "nr_certificate r"] exI [of _ "nr_capabilities r"]) (simp add: papers_in_order_def candidate_of_def)
  qed
  moreover have "length (ks_nodes ks) + length (ks_undialable ks) + length (ks_excluded ks) = ks_providers ks"
    using papers sum_length_filter_compl [of ?dials "dr_executors d"] by (simp add: ks)
  ultimately show ?thesis by blast
qed

section \<open>Combining elsewhere\<close>

text \<open>A combine done elsewhere is checked before it is believed: a product comes back only when the executor's own claim was
  followed by bytes that hash to it, and those bytes are then in the requestor's store under the product's CID, with
  every block that was there before; otherwise the store is as it was, and the only exception is that of this node's own storage.\<close>

theorem combined_elsewhere_is_held_here:
  assumes "remoteCombineDispatch rq parse cid_of (\<lambda>b s. if full b s then (Threw e, s) else (Returned (cid_of b), map_set (cid_of b) b s)) task executorId (w, s)
      = (out, w', s')"
  shows "case out of
      Inr (Some p) \<Rightarrow> (\<exists>b. cid_of b = cp_cid p \<and> memory_get (cp_cid p) s' = Some b) \<and>
        (\<forall>c. c \<noteq> cp_cid p \<longrightarrow> memory_get c s' = memory_get c s)
    | Inr None \<Rightarrow> s' = s
    | Inl (Local_store_write_failed combineId c e') \<Rightarrow> s' = s \<and> combineId = ct_nodeId task \<and> (\<exists>b. cid_of b = c \<and> full b s)"
  using assms
  by (auto simp: remoteCombineDispatch_def memory_get_def split: option.splits prod.splits sum.splits parsed_response.splits
      agent_response.splits if_splits)

section \<open>Demonstrations\<close>

text \<open>A codec that knows the values of a list, and its decoder.\<close>

fun table_codec :: "cvalue list \<Rightarrow> codec" where
  "table_codec [] v = None"
| "table_codec (x # xs) v = (if v = x then Some [0] else map_option (\<lambda>b. 1 # b) (table_codec xs v))"

fun table_decode :: "cvalue list \<Rightarrow> decoder" where
  "table_decode (x # xs) (b # bs) = (if b = 0 then Some (dag_sorted x) else table_decode xs bs)"
| "table_decode _ _ = None"

lemma table_law: "codec_law (table_codec vs) (table_decode vs)"
  unfolding codec_law_def
proof (induction vs)
  case (Cons x xs)
  show ?case by (intro allI impI) (use Cons in \<open>auto split: if_splits\<close>)
qed simp

lemma table_encodes: "v \<in> set vs \<Longrightarrow> all_finite v \<Longrightarrow> \<exists>b. encodeCanonical (table_codec vs) v = Inr b"
proof -
  have "v \<in> set vs \<Longrightarrow> table_codec vs v \<noteq> None" by (induction vs) auto
  then show "v \<in> set vs \<Longrightarrow> all_finite v \<Longrightarrow> \<exists>b. encodeCanonical (table_codec vs) v = Inr b"
    by (auto simp: encodeCanonical_Inr)
qed

definition demo_awaited :: "memory_store fetching" where
  "demo_awaited = (new_fetching [])\<lparr>fs_gets := [Reading (toHex [1])]\<rparr>"

definition demo_missed :: "memory_store fetching" where
  "demo_missed = demo_awaited\<lparr>fs_gets := [Missed (toHex [1])]\<rparr>"

theorem fetched_blocks_are_authentic_witness:
  "\<exists>st. fetch_reached toHex (memory_ops toHex) [] st \<and>
     fs_gets st = [Awaiting (toHex [1]) 0] \<and> map_get (fs_inFlight st) (toHex [1]) = Some 0"
proof -
  let ?c = "toHex [1]" and ?ops = "memory_ops toHex"
  have "demo_awaited = (new_fetching [])\<lparr>fs_gets := fs_gets (new_fetching []) @ [Reading ?c]\<rparr>"
    by (simp add: demo_awaited_def new_fetching_def)
  then have "fetch_reached toHex ?ops [] demo_awaited" by (metis fetch_more fetch_start step_get)
  moreover have "fetch_step toHex ?ops demo_awaited (demo_awaited\<lparr>fs_gets := (fs_gets demo_awaited)[0 := Missed ?c]\<rparr>)"
    by (rule step_miss) (simp_all add: demo_awaited_def new_fetching_def memory_ops_def memory_get_def)
  then have "fetch_step toHex ?ops demo_awaited demo_missed" by (simp add: demo_missed_def demo_awaited_def new_fetching_def del: toHex.simps)
  ultimately have "fetch_reached toHex ?ops [] demo_missed" by (rule fetch_more)
  moreover have "fetch_step toHex ?ops demo_missed (join_or_fetch 0 ?c demo_missed)"
    by (rule step_join) (simp_all add: demo_missed_def demo_awaited_def new_fetching_def del: toHex.simps)
  ultimately have r: "fetch_reached toHex ?ops [] (join_or_fetch 0 ?c demo_missed)" by (rule fetch_more)
  have st: "fs_gets (join_or_fetch 0 ?c demo_missed) = [Awaiting ?c 0]" "fs_attempts (join_or_fetch 0 ?c demo_missed) = [Asking ?c]"
    by (simp_all add: join_or_fetch_def demo_missed_def demo_awaited_def new_fetching_def Let_def del: toHex.simps)
  have "\<And>c b. memory_get c [] = Some b \<Longrightarrow> toHex b = c" by (simp add: memory_get_def)
  from fetched_blocks_are_authentic [OF r this] st have "map_get (fs_inFlight (join_or_fetch 0 ?c demo_missed)) ?c = Some 0"
    by (simp del: toHex.simps)
  with r st show ?thesis by blast
qed

definition demo_remote :: remote_executor where
  "demo_remote = \<lparr>rx_nodeId = ''bob'', rx_capability = Some (\<lambda>t. Returned [demo_delegation])\<rparr>"


theorem reserved_peers_are_bounded_witness:
  "\<exists>found. findReservedPeers (\<lambda>p b w. (Inr (encodeResponse (Reservations_response [''me'', ''bob''])), w)) [''relay''] ''me'' () = (found, ()) \<and>
     rz_answered found = 1 \<and> length (rz_addrs found) \<le> 64"
proof -
  let ?rq = "\<lambda>p b w. (Inr (encodeResponse (Reservations_response [''me'', ''bob''])), w)"
  have f: "findReservedPeers ?rq [''relay''] ''me'' () = (\<lparr>rz_answered = 1, rz_addrs = [circuit_addr ''relay'' ''bob'']\<rparr>, ())"
    by code_simp
  with reserved_peers_are_bounded [OF f] show ?thesis by (auto simp: MAX_RESERVED_PEERS_PER_ANSWER_def)
qed

lemma enrol_freshness: "enrol codec verify sign x ops (r\<lparr>er_freshness := f\<rparr>) now t = enrol codec verify sign x ops r now t"
  by (cases r) (hypsubst, unfold enrol_def issue_certificate_def certificate_fields_def enrollment_request.simps, rule refl)

theorem enrolment_over_the_wire_witness:
  "\<exists>vs agent c w. fst (enrolOverRpc (\<lambda>n. []) (answered_by (table_codec vs) (table_decode vs) agent) ''issuer'' (demo_request_for [1])
     (\<lambda>ch. Inr \<lparr>ca_nonce = ec_nonce ch, ca_proof = ''p''\<rparr>) (w :: unit)) = Inr (Enrol_accepted c)"
proof -
  let ?ch = "\<lparr>ec_nonce = ''n'', ec_expiresAt = 9\<rparr>" and ?p = "demo_request_for [1]"
  let ?a = "\<lparr>ca_nonce = ''n'', ca_proof = ''p''\<rparr>"
  let ?r = "?p\<lparr>er_freshness := Some ?a\<rparr>"
  obtain c t' where "enrol demo_codec demo_verify (\<lambda>m k. k) demo_x509 in_process ?p 100 demo_authority = (Enrolled c, t')"
    using demo_enrolled by blast
  then have e: "enrol demo_codec demo_verify (\<lambda>m k. k) demo_x509 in_process ?r 100 demo_authority = (Enrolled c, t')"
    by (simp only: enrol_freshness)
  let ?agent = "\<lambda>p q w. (if q = Enrol_challenge_request then Enrol_challenge_response ?ch else Enrol_response (Enrol_ok c), w)"
  let ?vs = "[encodeRequest Enrol_challenge_request, encodeRequest (Enrol_request ?r), encodeResponse (Enrol_challenge_response ?ch),
     encodeResponse (Enrol_response (Enrol_ok c))]"
  have fin: "all_finite v" if "v \<in> set ?vs" for v
    using that by (auto simp: enrollmentRequestToValue_def enrollmentResultToValue_def certificateToValue_def list_all_iff demo_request_for_def
        split: option.splits)
  have enc: "\<exists>b. encodeCanonical (table_codec ?vs) v = Inr b" if "v \<in> set ?vs" for v
    using table_encodes [OF that fin [OF that]] .
  obtain b1 where b1: "encodeCanonical (table_codec ?vs) (encodeRequest Enrol_challenge_request) = Inr b1" using enc by auto
  obtain b2 where b2: "encodeCanonical (table_codec ?vs) (encodeRequest (Enrol_request ?r)) = Inr b2"
    using enc [of "encodeRequest (Enrol_request ?r)"] by auto
  obtain b3 where b3: "encodeCanonical (table_codec ?vs) (encodeResponse (Enrol_challenge_response ?ch)) = Inr b3"
    using enc [of "encodeResponse (Enrol_challenge_response ?ch)"] by auto
  obtain b4 where b4: "encodeCanonical (table_codec ?vs) (encodeResponse (Enrol_response (Enrol_ok c))) = Inr b4"
    using enc [of "encodeResponse (Enrol_response (Enrol_ok c))"] by auto
  have "er_nextKeyCommitment ?p = None" by (simp add: demo_request_for_def)
  note wired = enrolment_over_the_wire [OF table_law this, of "\<lambda>ch. Inr \<lparr>ca_nonce = ec_nonce ch, ca_proof = ''p''\<rparr>" ?ch ?a ?r ?agent "''issuer''" "()" "()" c "()",
      OF _ refl _ _ _ e b1 b2 b3 b4, of "\<lambda>n. []"]
  have "fst (enrolOverRpc (\<lambda>n. []) (answered_by (table_codec ?vs) (table_decode ?vs) ?agent) ''issuer'' ?p
     (\<lambda>ch. Inr \<lparr>ca_nonce = ec_nonce ch, ca_proof = ''p''\<rparr>) ()) = Inr (Enrol_accepted c)"
    by (subst conjunct1 [OF wired]) simp_all
  then show ?thesis by blast
qed

definition demo_candidate_options :: "memory_index candidate_options" where
  "demo_candidate_options = \<lparr>cd_rpc = (\<lambda>p b w. (Inl (Rpc_failure Rpc_closed), w)), cd_peers = (\<lambda>w. []), cd_index = Some memory_record_index,
     cd_trustedIssuers = [toHex [9]], cd_now = 5, cd_peerIdFor = (\<lambda>k. Some ''bob''), cd_dispatch = None\<rparr>"

theorem candidates_are_vouched_for_witness:
  "\<exists>ks w'. discoverCandidates demo_codec demo_verify demo_x509 (\<lambda>a b. 0) demo_query demo_candidate_options demo_index = (Inr ks, w') \<and>
     map nd_nodeId (ks_nodes ks) = [''bob''] \<and>
     verifyCertificate demo_codec demo_verify demo_x509 demo_node_cert [toHex [9]] 5 = Certificate_ok demo_node_cert"
proof -
  have o: "\<lparr>do_trustedIssuers = cd_trustedIssuers demo_candidate_options, do_now = cd_now demo_candidate_options, do_understands = UNDERSTOOD_EXTENSIONS\<rparr> =
      demo_discovery_options"
    by (simp add: demo_candidate_options_def demo_discovery_options_def UNDERSTOOD_EXTENSIONS_def del: toHex.simps)
  have ix: "cd_index demo_candidate_options = Some memory_record_index" by (simp add: demo_candidate_options_def)
  have "resolveReplicaSets demo_codec demo_verify demo_x509 (\<lambda>a b. 0) (map de_certificate (dr_executors demo_discovered))
      (cd_trustedIssuers demo_candidate_options) (cd_now demo_candidate_options) \<noteq> Inl e" for e
    using demo_in_order
    by (simp add: resolveReplicaSets_def demo_discovered_def papers_in_order_def demo_candidate_options_def demo_discovery_options_def del: toHex.simps)
  then obtain sets where "resolveReplicaSets demo_codec demo_verify demo_x509 (\<lambda>a b. 0) (map de_certificate (dr_executors demo_discovered))
      (cd_trustedIssuers demo_candidate_options) (cd_now demo_candidate_options) = Inr sets" by (metis sum.exhaust)
  then obtain ks w' where d: "discoverCandidates demo_codec demo_verify demo_x509 (\<lambda>a b. 0) demo_query demo_candidate_options demo_index = (Inr ks, w')"
    and n: "ks_nodes ks = map snd (fst (dial_candidates demo_candidate_options (dr_executors demo_discovered)))"
    using demo_discover by (simp add: discoverCandidates_def o ix dial_candidates_spec)
  have nodes: "ks_nodes ks = [snd (candidate_of demo_candidate_options \<lparr>de_nodeKey = toHex [1], de_certificate = demo_node_cert, de_capabilities = demo_published\<rparr> ''bob'')]"
    unfolding n by (simp add: dial_candidates_spec demo_discovered_def demo_candidate_options_def del: toHex.simps)
  with candidates_are_vouched_for [OF d]
  have "verifyCertificate demo_codec demo_verify demo_x509 demo_node_cert (cd_trustedIssuers demo_candidate_options) (cd_now demo_candidate_options) = Certificate_ok demo_node_cert"
    by (auto simp: candidate_of_def)
  with d nodes show ?thesis by (simp add: candidate_of_def demo_candidate_options_def del: toHex.simps)
qed

definition demo_combiner :: "unit requester" where
  "demo_combiner = (\<lambda>p b w. (Inr (encodeResponse (if b = encodeRequest (Block_request (toHex [1])) then Block_response (Some [1])
     else Combine_response (Some (toHex [1])) [] Signed_by_nobody)), w))"

theorem combined_elsewhere_is_held_here_witness:
  "\<exists>b. memory_get (toHex [1]) (snd (snd (remoteCombineDispatch demo_combiner Some toHex
       (\<lambda>b s. if False then (Threw [], s) else (Returned (toHex b), map_set (toHex b) b s))
       \<lparr>ct_nodeId = ''n'', ct_inputCids = [''x'', ''y''], ct_level = 1\<rparr> ''bob'' ((), [])))) = Some b \<and> toHex b = toHex [1]"
proof -
  let ?put = "\<lambda>b s. if False then (Threw [], s) else (Returned (toHex b), map_set (toHex b) b s)"
  let ?task = "\<lparr>ct_nodeId = ''n'', ct_inputCids = [''x'', ''y''], ct_level = 1\<rparr>"
  have r: "remoteCombineDispatch demo_combiner Some toHex ?put ?task ''bob'' ((), []) =
      (Inr (Some \<lparr>cp_cid = toHex [1], cp_attestation = Signed_by_nobody\<rparr>), (), [(toHex [1], [1])])"
    by code_simp
  from combined_elsewhere_is_held_here [OF r] r show ?thesis by (auto simp del: toHex.simps)
qed

end
