(* ===== verification/Reduce_Job.thy ===== *)
theory Reduce_Job
  imports Clients Combiner Submit
begin

text \<open>
  From a job to its aggregate, under \<open>packages/net/src\<close>: \<open>reduceJob\<close> (\<open>reduce-job.ts\<close>), which projects the agreed shards to
  partials, reduces them over the tree and says how the aggregation is attested; \<open>reduceSovereignJob\<close>
  (\<open>reduce-sovereign.ts\<close>), its arm for owner-pinned shards; and \<open>submitJobWithEgress\<close> (\<open>submit-with-egress.ts\<close>), which
  has every guard watch a job's rows while it runs.

  As in \<open>Reduce_Run\<close>, a dispatch is a function of the task and the executor: \<open>ng_remote\<close> is
  \<open>remoteCombineDispatch\<close> over this job's network, \<open>ng_own\<close> is \<open>localDispatch\<close> over its store.  What the wrapper around
  the dispatch observed is read off the run, node by node.  A reason the source words is a value with the numbers it
  interpolates.
\<close>

section \<open>Options\<close>

record combine_here =
  ch_localId :: string
  ch_would :: "offer \<Rightarrow> string admission"
  ch_authorize :: "(authorized_work \<Rightarrow> string option) option"

text \<open>A placement of \<open>None\<close> is \<open>requires-remote-combining\<close>; anchors of \<open>None\<close> are \<open>checks-no-combine-signatures\<close>; contributors
  of \<open>None\<close> are \<open>attributes-each-shard-to-its-own-partition-index\<close>.\<close>

record reduce_job_options =
  jn_executors :: "string list"
  jn_project :: "cvalue \<Rightarrow> nat \<Rightarrow> cvalue settled"
  jn_fanout :: "jsnum option"
  jn_redundancy :: "int option"
  jn_trustedIssuers :: "string list option"
  jn_contributors :: "(nat, string) jsmap option"
  jn_placement :: "combine_here option"

record reduce_ports =
  ng_codec :: codec
  ng_verify :: verifier
  ng_x509 :: x509_codec
  ng_cid_of :: "bytes \<Rightarrow> string"
  ng_hash :: "string \<Rightarrow> string"
  ng_collate :: "string \<Rightarrow> string \<Rightarrow> int"
  ng_parse :: "string \<Rightarrow> string option"
  ng_remote :: "attested_result combine_dispatch"
  ng_own :: "attested_result combine_dispatch"
  ng_clock :: rat

definition contributorFor :: "nat \<Rightarrow> (nat, string) jsmap option \<Rightarrow> string option" where
  "contributorFor i attribution =
     (case attribution of None \<Rightarrow> Some (''shard-'' @ nat_text i) | Some m \<Rightarrow> map_get m i)"

section \<open>Combining here\<close>

definition localCombinePlacement :: "reduce_ports \<Rightarrow> reduce_job_options \<Rightarrow> attested_result local_combine_placement" where
  "localCombinePlacement ports opts =
     \<lparr>lp_admits = (\<lambda>task.
        case jn_placement opts of
          None \<Rightarrow> Local_refused ''this caller requires remote combining, so the requestor did not offer itself this combine''
        | Some here \<Rightarrow>
            (case ch_would here \<lparr>of_shardId = ''combine:'' @ js_join '','' (ct_inputCids task), of_nodeId = ch_localId here\<rparr> of
               Refused reason capacity standing \<Rightarrow> Local_refused reason
             | Accepted capacity \<Rightarrow>
                 (case ch_authorize here of
                    None \<Rightarrow> Local_admitted
                  | Some authorize \<Rightarrow>
                      (case those (map (ng_parse ports) (ct_inputCids task)) of
                         None \<Rightarrow> Local_refused ''this combine names an input this requestor could not parse as a CID''
                       | Some cids \<Rightarrow>
                           (case authorize (Combine_work \<lparr>cw_combineId = ct_nodeId task, cw_inputCids = cids, cw_level = int (ct_level task)\<rparr> []) of
                              Some refusal \<Rightarrow> Local_refused (''unauthorized: '' @ refusal)
                            | None \<Rightarrow> Local_admitted))))),
      lp_dispatch = ng_own ports\<rparr>"

section \<open>What was observed\<close>

record combine_observation =
  co_inputCids :: "string list"
  co_replicas :: "(string \<times> attested_result) list"

type_synonym observations = "(string, combine_observation) jsmap"

text \<open>The remote answers to one combine, in the order they came.\<close>

definition remote_answers ::
  "(string \<Rightarrow> string) \<Rightarrow> (string \<Rightarrow> string \<Rightarrow> int) \<Rightarrow> attested_result reduce_run \<Rightarrow> combine_task \<Rightarrow> attested_result produced list" where
  "remote_answers hash lc run task = drop (length (fst (combine_locally run task))) (fst (replica_answers hash lc run task))"

definition observe_answer :: "combine_task \<Rightarrow> observations \<Rightarrow> attested_result produced \<Rightarrow> observations" where
  "observe_answer task observed p =
     (case map_get observed (ct_nodeId task) of
        None \<Rightarrow> map_set (ct_nodeId task) \<lparr>co_inputCids = ct_inputCids task, co_replicas = [(pd_cid p, pd_attestation p)]\<rparr> observed
      | Some e \<Rightarrow> map_set (ct_nodeId task) (e\<lparr>co_replicas := co_replicas e @ [(pd_cid p, pd_attestation p)]\<rparr>) observed)"

definition observe_node ::
  "(string \<Rightarrow> string) \<Rightarrow> (string \<Rightarrow> string \<Rightarrow> int) \<Rightarrow> attested_result reduce_run \<Rightarrow> (string, string) jsmap \<Rightarrow> observations
    \<Rightarrow> reduce_tree_node \<Rightarrow> observations" where
  "observe_node hash lc run known observed node =
     (case those (map (map_get known) (rn_children node)) of
        None \<Rightarrow> observed
      | Some cids \<Rightarrow>
          (let task = \<lparr>ct_nodeId = rn_id node, ct_inputCids = cids, ct_level = rn_level node\<rparr>
           in foldl (observe_answer task) observed (remote_answers hash lc run task)))"

definition observe_level ::
  "(string \<Rightarrow> string) \<Rightarrow> (string \<Rightarrow> string \<Rightarrow> int) \<Rightarrow> attested_result reduce_run \<Rightarrow> attested_result reduce_state \<times> observations \<Rightarrow> nat
    \<Rightarrow> attested_result reduce_state \<times> observations" where
  "observe_level hash lc run st level =
     (run_level hash lc run level (fst st),
      foldl (observe_node hash lc run (resolved (fst st))) (snd st)
        (filter (\<lambda>n. rn_level n = level) (rt_nodes (rr_tree run))))"

definition observed_in :: "(string \<Rightarrow> string) \<Rightarrow> (string \<Rightarrow> string \<Rightarrow> int) \<Rightarrow> attested_result reduce_run \<Rightarrow> observations" where
  "observed_in hash lc run =
     (if rr_executors run = [] then []
      else snd (foldl (observe_level hash lc run) (start_state (rr_tree run), []) [1..<Suc (max_level (rt_nodes (rr_tree run)))]))"

section \<open>How the aggregation is attested\<close>

datatype combine_unaccounted =
    Combined_here
  | No_agreed_statement
  | No_replica_recorded
  | Replica_signs_nothing
  | Replica_refused attestation_refusal
  | Many_under_one_key nat "string list"

datatype no_aggregate_reason =
    Merged_nothing
  | Checks_no_signatures
  | No_checked_combine "(string \<times> combine_unaccounted) list"
  | Some_checked_combines nat nat "(string \<times> combine_unaccounted) list"

datatype aggregate_attestation =
    Aggregate_receipt attestation_receipt
  | No_verified_aggregate no_aggregate_reason nat nat

fun check_combine_replicas ::
  "(string \<Rightarrow> attested_result \<Rightarrow> attestation_result) \<Rightarrow> (string \<times> attested_result) list
    \<Rightarrow> encode_error + node_certificate list \<times> combine_unaccounted list" where
  "check_combine_replicas check [] = Inr ([], [])"
| "check_combine_replicas check ((cid, att) # rest) =
     (case att of
        Signed_by_nobody \<Rightarrow> map_sum id (\<lambda>(cs, us). (cs, Replica_signs_nothing # us)) (check_combine_replicas check rest)
      | Attested a \<Rightarrow>
          (case check cid att of
             Attestation_threw e \<Rightarrow> Inl e
           | Attestation_refused refusal \<Rightarrow> map_sum id (\<lambda>(cs, us). (cs, Replica_refused refusal # us)) (check_combine_replicas check rest)
           | Attestation_ok c \<Rightarrow> map_sum id (\<lambda>(cs, us). (c # cs, us)) (check_combine_replicas check rest)))"

text \<open>One tree node: at most one receipt, and what stands against it.\<close>

definition node_receipt ::
  "(string list \<Rightarrow> string \<Rightarrow> attested_result \<Rightarrow> attestation_result) \<Rightarrow> attested_result reduce_outcome \<Rightarrow> observations \<Rightarrow> reduce_tree_node
    \<Rightarrow> encode_error + attestation_receipt list \<times> (string \<times> combine_unaccounted) list" where
  "node_receipt check outc observed node =
     (let unaccounted = \<lambda>us. map (Pair (rn_id node)) us
      in if rn_id node \<in> set (ro_locallyCombined outc) then Inr ([], unaccounted [Combined_here])
         else if map_get (ro_attestations outc) (rn_id node) = None then Inr ([], unaccounted [No_agreed_statement])
         else case map_get observed (rn_id node) of
                None \<Rightarrow> Inr ([], unaccounted [No_replica_recorded])
              | Some seen \<Rightarrow>
                  if length (co_replicas seen) = 0 then Inr ([], unaccounted [No_replica_recorded])
                  else (case check_combine_replicas (check (co_inputCids seen)) (co_replicas seen) of
                          Inl e \<Rightarrow> Inl e
                        | Inr (verified, us) \<Rightarrow>
                            (let keys = set_of_list (map c_nodeKey verified)
                             in if length keys \<noteq> length verified
                                then Inr ([], unaccounted (us @ [Many_under_one_key (length verified) keys]))
                                else if length verified = 0 then Inr ([], unaccounted us)
                                else Inr ([attestationReceipt verified], unaccounted us))))"

fun node_receipts ::
  "(reduce_tree_node \<Rightarrow> encode_error + attestation_receipt list \<times> (string \<times> combine_unaccounted) list) \<Rightarrow> reduce_tree_node list
    \<Rightarrow> encode_error + attestation_receipt list \<times> (string \<times> combine_unaccounted) list" where
  "node_receipts f [] = Inr ([], [])"
| "node_receipts f (n # ns) =
     (case f n of
        Inl e \<Rightarrow> Inl e
      | Inr (rs, us) \<Rightarrow> map_sum id (\<lambda>(rs', us'). (rs @ rs', us @ us')) (node_receipts f ns))"

definition weakest_receipt :: "attestation_receipt \<Rightarrow> attestation_receipt \<Rightarrow> attestation_receipt" where
  "weakest_receipt weakest r = (if attestationRank (ar_strength r) < attestationRank (ar_strength weakest) then r else weakest)"

definition aggregateAttestationOf ::
  "codec \<Rightarrow> verifier \<Rightarrow> x509_codec \<Rightarrow> reduce_tree \<Rightarrow> attested_result reduce_outcome \<Rightarrow> observations \<Rightarrow> string list option \<Rightarrow> rat
    \<Rightarrow> encode_error + aggregate_attestation" where
  "aggregateAttestationOf codec verify x tree outc observed trustedIssuers now =
     (let combines = length (rt_nodes tree)
      in if combines = 0 then Inr (No_verified_aggregate Merged_nothing 0 0)
         else case trustedIssuers of
                None \<Rightarrow> Inr (No_verified_aggregate Checks_no_signatures combines 0)
              | Some trusted \<Rightarrow>
                  (case node_receipts (node_receipt (\<lambda>inputs cid att. verifyCombineAttestation codec verify x att inputs cid trusted now)
                          outc observed) (rt_nodes tree) of
                     Inl e \<Rightarrow> Inl e
                   | Inr (receipts, unaccounted) \<Rightarrow>
                       if length unaccounted > 0 \<or> length receipts \<noteq> combines
                       then Inr (No_verified_aggregate
                              (if length receipts = 0 then No_checked_combine unaccounted
                               else Some_checked_combines (length receipts) combines unaccounted) combines (length receipts))
                       else Inr (Aggregate_receipt (foldl weakest_receipt (hd receipts) (tl receipts)))))"

section \<open>Reducing a job\<close>

datatype reduce_refusal =
    No_executor
  | Projection_threw nat string
  | Projection_not_partial nat
  | Projection_not_encodable nat encode_error
  | Projection_too_big nat nat
  | No_contributor nat
  | No_agreed_partial

datatype reduce_throw = Tree_threw reduce_error | Combine_check_threw encode_error

record reduce_job_result =
  jq_outcome :: "attested_result reduce_outcome"
  jq_tree :: reduce_tree
  jq_leaves :: "string list"
  jq_skipped :: "nat list"
  jq_aggregateAttestation :: aggregate_attestation

record 's gathered =
  gd_contributions :: "reduce_contribution list"
  gd_leaves :: "string list"
  gd_skipped :: "nat list"
  gd_store :: 's

fun gather_partials :: "reduce_ports \<Rightarrow> 's store_ops \<Rightarrow> reduce_job_options \<Rightarrow> shard_result list \<Rightarrow> 's gathered \<Rightarrow> reduce_refusal + 's gathered" where
  "gather_partials ports ops opts [] g = Inr g"
| "gather_partials ports ops opts (shard # shards) g =
     (case sr_verification shard of
        V_agreed cid outp ag n fs gross useful \<Rightarrow>
          (case jn_project opts outp (sr_partitionIndex shard) of
             Threw e \<Rightarrow> Inl (Projection_threw (sr_partitionIndex shard) e)
           | Returned partial \<Rightarrow>
               if asFabricPartial partial = None then Inl (Projection_not_partial (sr_partitionIndex shard))
               else (case canonicalCid (ng_codec ports) (ng_cid_of ports) partial of
                       Inl e \<Rightarrow> Inl (Projection_not_encodable (sr_partitionIndex shard) e)
                     | Inr (leaf, bytes) \<Rightarrow>
                         if length bytes > MAX_PARTIAL_BYTES then Inl (Projection_too_big (sr_partitionIndex shard) (length bytes))
                         else (case contributorFor (sr_partitionIndex shard) (jn_contributors opts) of
                                 None \<Rightarrow> Inl (No_contributor (sr_partitionIndex shard))
                               | Some who \<Rightarrow>
                                   gather_partials ports ops opts shards
                                     (g\<lparr>gd_store := snd (put_block ops bytes (gd_store g)), gd_leaves := gd_leaves g @ [leaf],
                                        gd_contributions := gd_contributions g @ [\<lparr>contributorId = who, rc_cid = leaf\<rparr>]\<rparr>))))
      | _ \<Rightarrow> gather_partials ports ops opts shards (g\<lparr>gd_skipped := gd_skipped g @ [sr_partitionIndex shard]\<rparr>))"

definition reduce_run_of :: "reduce_ports \<Rightarrow> reduce_job_options \<Rightarrow> reduce_tree \<Rightarrow> attested_result reduce_run" where
  "reduce_run_of ports opts tree =
     \<lparr>rr_tree = tree, rr_executors = jn_executors opts, rr_dispatch = ng_remote ports,
      rr_localCombine = Some (localCombinePlacement ports opts), rr_redundancy = jn_redundancy opts\<rparr>"

definition reduceJob ::
  "reduce_ports \<Rightarrow> 's store_ops \<Rightarrow> job_result \<Rightarrow> reduce_job_options \<Rightarrow> 's \<Rightarrow> reduce_throw + (reduce_refusal + reduce_job_result \<times> 's)" where
  "reduceJob ports ops job opts s =
     (if length (jn_executors opts) = 0 then Inr (Inl No_executor)
      else case gather_partials ports ops opts (jr_shards job) \<lparr>gd_contributions = [], gd_leaves = [], gd_skipped = [], gd_store = s\<rparr> of
             Inl refusal \<Rightarrow> Inr (Inl refusal)
           | Inr g \<Rightarrow>
               if length (gd_contributions g) = 0 then Inr (Inl No_agreed_partial)
               else (case deriveReduceTree (ng_hash ports) (gd_contributions g)
                            (case jn_fanout opts of None \<Rightarrow> num_of_nat DEFAULT_FANOUT | Some f \<Rightarrow> f) of
                       Inl e \<Rightarrow> Inl (Tree_threw e)
                     | Inr tree \<Rightarrow>
                         (let run = reduce_run_of ports opts tree;
                              outc = executeReduce (ng_hash ports) (ng_collate ports) run
                          in case aggregateAttestationOf (ng_codec ports) (ng_verify ports) (ng_x509 ports) tree outc
                                    (observed_in (ng_hash ports) (ng_collate ports) run) (jn_trustedIssuers opts) (ng_clock ports) of
                               Inl e \<Rightarrow> Inl (Combine_check_threw e)
                             | Inr att \<Rightarrow>
                                 Inr (Inr (\<lparr>jq_outcome = outc, jq_tree = tree, jq_leaves = gd_leaves g, jq_skipped = gd_skipped g,
                                            jq_aggregateAttestation = att\<rparr>, gd_store g)))))"

section \<open>Owner-pinned shards\<close>

definition MIN_SOVEREIGN_COMBINE_REPLICAS :: int where "MIN_SOVEREIGN_COMBINE_REPLICAS = 2"

text \<open>Evidence of \<open>None\<close> is \<open>holds-no-egress-manifest\<close>.\<close>

record sovereign_reduce_options =
  sn_executors :: "string list"
  sn_project :: "cvalue \<Rightarrow> nat \<Rightarrow> cvalue settled"
  sn_fanout :: "jsnum option"
  sn_redundancy :: "int option"
  sn_trustedIssuers :: "string list option"
  sn_egress :: "egress_manifest list option"

record sovereign_contribution =
  sc_ownerId :: string
  sc_partitionIndex :: nat
  sc_partialCid :: string
  sc_operators :: "string list"

record egress_reading =
  er_manifests :: nat
  er_registeredSovereign :: nat
  er_pinnedShards :: nat
  er_totalBytes :: nat

record sovereign_aggregate =
  sg_outcome :: "attested_result reduce_outcome"
  sg_tree :: reduce_tree
  sg_contributions :: "sovereign_contribution list"
  sg_aggregateAttestation :: aggregate_attestation
  sg_egress :: egress_reading

datatype sovereign_refusal =
    Too_few_replicas int
  | Nothing_pinned
  | No_manifest
  | Empty_manifests
  | Manifest_violates string string nat "string list"
  | Under_registered nat nat
  | Shard_not_pinned nat
  | No_owner_receipt nat string absence_reason
  | Owner_not_attested nat string "string list"
  | Others_attested_too nat string "string list"
  | None_agreed nat
  | Reduce_refused reduce_refusal
  | Contributions_mismatch nat nat
  | Same_address string string
  | Nothing_merged
  | Weak_combine nat

text \<open>A sovereign shard without an owner is refused by \<open>submitJob\<close>; here it pins its index to no one.\<close>

definition pinned_shards :: "job_spec \<Rightarrow> (nat, string option) jsmap" where
  "pinned_shards spec =
     foldl (\<lambda>m (i, sh). case sh of Public_shard v \<Rightarrow> m | Sovereign_shard v ow \<Rightarrow> map_set i ow m) []
       (zip [0..<length (jo_shards spec)] (jo_shards spec))"

definition attestedOwnerOf :: "shard_result \<Rightarrow> string \<Rightarrow> sovereign_refusal + string list" where
  "attestedOwnerOf shard pinnedTo =
     (case sr_attestation shard of
        No_verified_attestation reason replicas verified \<Rightarrow> Inl (No_owner_receipt (sr_partitionIndex shard) pinnedTo reason)
      | Receipt receipt \<Rightarrow>
          (let keys = ar_userKeys receipt
           in if pinnedTo \<notin> set keys then Inl (Owner_not_attested (sr_partitionIndex shard) pinnedTo keys)
              else if length keys > 1
              then Inl (Others_attested_too (sr_partitionIndex shard) pinnedTo (filter (\<lambda>key. key \<noteq> pinnedTo) keys))
              else Inr (ar_operators receipt)))"

fun first_violation :: "egress_manifest list \<Rightarrow> sovereign_refusal option" where
  "first_violation [] = None"
| "first_violation (m # ms) =
     (if length (em_violations m) > 0
      then Some (Manifest_violates (em_nodeId m) (em_ownerId m) (length (em_violations m)) (set_of_list (em_violations m)))
      else first_violation ms)"

text \<open>The admission loop: who contributed, without the address of a partial that is not computed yet.\<close>

fun admit_shards ::
  "(nat, string option) jsmap \<Rightarrow> shard_result list \<Rightarrow> (string \<times> nat \<times> string list) list \<Rightarrow> (nat, string) jsmap
    \<Rightarrow> sovereign_refusal + (string \<times> nat \<times> string list) list \<times> (nat, string) jsmap" where
  "admit_shards pinned [] contributions attribution = Inr (contributions, attribution)"
| "admit_shards pinned (shard # shards) contributions attribution =
     (case Option.bind (map_get pinned (sr_partitionIndex shard)) id of
        None \<Rightarrow> Inl (Shard_not_pinned (sr_partitionIndex shard))
      | Some ow \<Rightarrow>
          if \<not> is_agreed (sr_verification shard) then admit_shards pinned shards contributions attribution
          else (case attestedOwnerOf shard ow of
                  Inl refusal \<Rightarrow> Inl refusal
                | Inr operators \<Rightarrow>
                    admit_shards pinned shards (contributions @ [(ow, sr_partitionIndex shard, operators)])
                      (map_set (sr_partitionIndex shard) ow attribution)))"

fun repeated_address :: "(string \<times> string) list \<Rightarrow> sovereign_contribution list \<Rightarrow> (string \<times> string) option" where
  "repeated_address seen [] = None"
| "repeated_address seen (c # cs) =
     (if (sc_ownerId c, sc_partialCid c) \<in> set seen then Some (sc_ownerId c, sc_partialCid c)
      else repeated_address ((sc_ownerId c, sc_partialCid c) # seen) cs)"

definition least_registered :: "egress_manifest list \<Rightarrow> nat" where
  "least_registered ms = foldl (\<lambda>least m. min least (em_registeredSovereign m)) (em_registeredSovereign (hd ms)) (tl ms)"

definition sovereign_job_options :: "sovereign_reduce_options \<Rightarrow> int \<Rightarrow> (nat, string) jsmap \<Rightarrow> reduce_job_options" where
  "sovereign_job_options opts wanted attribution =
     \<lparr>jn_executors = sn_executors opts, jn_project = sn_project opts, jn_fanout = sn_fanout opts, jn_redundancy = Some wanted,
      jn_trustedIssuers = sn_trustedIssuers opts, jn_contributors = Some attribution, jn_placement = None\<rparr>"

definition admitted_contributions :: "(string \<times> nat \<times> string list) list \<Rightarrow> string list \<Rightarrow> sovereign_contribution list" where
  "admitted_contributions contributions leaves =
     map2 (\<lambda>(ow, i, operators) cid. \<lparr>sc_ownerId = ow, sc_partitionIndex = i, sc_partialCid = cid, sc_operators = operators\<rparr>)
       contributions leaves"

text \<open>After the reduce: its leaves are paired with the contributions, and the result is judged.\<close>

definition judge_sovereign ::
  "egress_manifest list \<Rightarrow> (nat, string option) jsmap \<Rightarrow> (string \<times> nat \<times> string list) list \<Rightarrow> reduce_job_result
    \<Rightarrow> sovereign_refusal + sovereign_aggregate covered_aggregate" where
  "judge_sovereign manifests pinned contributions reduced =
     (if length (jq_leaves reduced) \<noteq> length contributions
      then Inl (Contributions_mismatch (length contributions) (length (jq_leaves reduced)))
      else let admitted = admitted_contributions contributions (jq_leaves reduced)
           in case repeated_address [] admitted of
                Some (ow, cid) \<Rightarrow> Inl (Same_address ow cid)
              | None \<Rightarrow>
                  if length (rt_nodes (jq_tree reduced)) = 0 then Inl Nothing_merged
                  else if int (ro_minReplicas (jq_outcome reduced)) < MIN_SOVEREIGN_COMBINE_REPLICAS
                  then Inl (Weak_combine (ro_minReplicas (jq_outcome reduced)))
                  else Inr (withCoverage
                        \<lparr>sg_outcome = jq_outcome reduced, sg_tree = jq_tree reduced, sg_contributions = admitted,
                         sg_aggregateAttestation = jq_aggregateAttestation reduced,
                         sg_egress = \<lparr>er_manifests = length manifests, er_registeredSovereign = least_registered manifests,
                                     er_pinnedShards = length pinned,
                                     er_totalBytes = foldl (\<lambda>sum m. sum + em_totalBytes m) 0 manifests\<rparr>\<rparr>
                        (set_of_list (List.map_filter id (map_values pinned))) (map sc_ownerId admitted)))"

definition reduceSovereignJob ::
  "reduce_ports \<Rightarrow> 's store_ops \<Rightarrow> job_result \<Rightarrow> job_spec \<Rightarrow> sovereign_reduce_options \<Rightarrow> 's
    \<Rightarrow> reduce_throw + (sovereign_refusal + sovereign_aggregate covered_aggregate)" where
  "reduceSovereignJob ports ops job spec opts s =
     (let wanted = (case sn_redundancy opts of None \<Rightarrow> MIN_SOVEREIGN_COMBINE_REPLICAS | Some r \<Rightarrow> r);
          pinned = pinned_shards spec
      in if wanted < MIN_SOVEREIGN_COMBINE_REPLICAS then Inr (Inl (Too_few_replicas wanted))
         else if length pinned = 0 then Inr (Inl Nothing_pinned)
         else case sn_egress opts of
                None \<Rightarrow> Inr (Inl No_manifest)
              | Some manifests \<Rightarrow>
                  if length manifests = 0 then Inr (Inl Empty_manifests)
                  else (case first_violation manifests of
                          Some refusal \<Rightarrow> Inr (Inl refusal)
                        | None \<Rightarrow>
                            if least_registered manifests < length pinned
                            then Inr (Inl (Under_registered (length pinned) (least_registered manifests)))
                            else (case admit_shards pinned (jr_shards job) [] [] of
                                    Inl refusal \<Rightarrow> Inr (Inl refusal)
                                  | Inr (contributions, attribution) \<Rightarrow>
                                      if length contributions = 0 then Inr (Inl (None_agreed (length pinned)))
                                      else (case reduceJob ports ops job (sovereign_job_options opts wanted attribution) s of
                                              Inl e \<Rightarrow> Inl e
                                            | Inr (Inl refusal) \<Rightarrow> Inr (Inl (Reduce_refused refusal))
                                            | Inr (Inr (reduced, s')) \<Rightarrow> Inr (judge_sovereign manifests pinned contributions reduced)))))"

section \<open>Guards around a job\<close>

definition sliceManifest :: "egress_guard \<Rightarrow> nat \<Rightarrow> nat \<Rightarrow> egress_manifest" where
  "sliceManifest g from' registered =
     (let full = manifest g; entries = drop from' (em_entries full)
      in \<lparr>em_nodeId = em_nodeId full, em_ownerId = em_ownerId full, em_entries = entries,
          em_totalBytes = foldl (\<lambda>sum e. if ee_violation e = None then sum + ee_bytes e else sum) 0 entries,
          em_violations = List.map_filter ee_violation entries, em_registeredSovereign = registered\<rparr>)"

text \<open>Every guard watches every sovereign shard that can be encoded; a hold is kept with the index of its guard.\<close>

fun guard_all :: "string \<Rightarrow> bytes \<Rightarrow> nat \<Rightarrow> egress_guard list \<Rightarrow> (nat \<times> egress_hold) list \<times> egress_guard list" where
  "guard_all label payload k [] = ([], [])"
| "guard_all label payload k (g # gs) =
     (let (h, g') = guard_payload label payload g; (hs, gs') = guard_all label payload (Suc k) gs in ((k, h) # hs, g' # gs'))"

fun watch_shards ::
  "codec \<Rightarrow> (bytes \<Rightarrow> string) \<Rightarrow> shard_spec list \<Rightarrow> (nat \<times> egress_hold) list \<times> nat \<times> egress_guard list
    \<Rightarrow> (nat \<times> egress_hold) list \<times> nat \<times> egress_guard list" where
  "watch_shards codec cid_of [] st = st"
| "watch_shards codec cid_of (shard # shards) (hs0, registered, guards) =
     (case shard of
        Public_shard v \<Rightarrow> watch_shards codec cid_of shards (hs0, registered, guards)
      | Sovereign_shard v ow \<Rightarrow>
          (case canonicalCid codec cid_of v of
             Inl e \<Rightarrow> watch_shards codec cid_of shards (hs0, registered, guards)
           | Inr (label, payload) \<Rightarrow>
               (let (hs, guards') = guard_all label payload 0 guards
                in watch_shards codec cid_of shards (hs0 @ hs, registered + 1, guards'))))"

definition release_all :: "(nat \<times> egress_hold) list \<Rightarrow> egress_guard list \<Rightarrow> egress_guard list" where
  "release_all hs0 guards = foldl (\<lambda>gs (k, h). gs[k := snd (release_hold h (gs ! k))]) guards hs0"

text \<open>\<open>submit\<close> is \<open>submitJob\<close>, during which the guards record what is sent.\<close>

definition submitJobWithEgress ::
  "codec \<Rightarrow> (bytes \<Rightarrow> string) \<Rightarrow> (egress_guard list \<Rightarrow> 'w \<Rightarrow> ('e + job_result) settled \<times> egress_guard list \<times> 'w) \<Rightarrow> job_spec
    \<Rightarrow> egress_guard list \<Rightarrow> 'w \<Rightarrow> ('e + job_result \<times> egress_manifest list) settled \<times> egress_guard list \<times> 'w" where
  "submitJobWithEgress codec cid_of submit spec guards w =
     (let (hs0, registered, watching) = watch_shards codec cid_of (jo_shards spec) ([], 0, guards);
          before = map (\<lambda>g. length (eg_entries g)) watching;
          (result, after, w') = submit watching w
      in (case result of
            Threw e \<Rightarrow> Threw e
          | Returned (Inl e) \<Rightarrow> Returned (Inl e)
          | Returned (Inr job) \<Rightarrow> Returned (Inr (job, map2 (\<lambda>g from'. sliceManifest g from' registered) after before)),
          release_all hs0 after, w'))"

section \<open>Lemmas\<close>

lemma admit_shards_step:
  "admit_shards pinned (shard # shards) cs attr = Inr r \<longleftrightarrow>
    (\<exists>ow. map_get pinned (sr_partitionIndex shard) = Some (Some ow) \<and>
      (if is_agreed (sr_verification shard)
       then \<exists>operators. attestedOwnerOf shard ow = Inr operators \<and>
         admit_shards pinned shards (cs @ [(ow, sr_partitionIndex shard, operators)]) (map_set (sr_partitionIndex shard) ow attr) = Inr r
       else admit_shards pinned shards cs attr = Inr r))"
  by (auto simp: bind_eq_Some_conv split: option.splits sum.splits)

lemma attested_owner_ok:
  "attestedOwnerOf shard ow = Inr operators \<longleftrightarrow>
    (\<exists>r. sr_attestation shard = Receipt r \<and> ar_userKeys r = [ow] \<and> ar_operators r = operators)"
proof -
  have "ow \<in> set keys \<and> \<not> length keys > 1 \<longleftrightarrow> keys = [ow]" for keys :: "string list"
    by (cases keys; cases "tl keys") auto
  then show ?thesis by (auto simp: attestedOwnerOf_def Let_def split: shard_attestation.splits)
qed

text \<open>What the admission loop admits: the agreed shards, each under the owner the job pinned it to.\<close>

definition owner_run :: "(nat, string option) jsmap \<Rightarrow> shard_result \<Rightarrow> string \<times> nat \<times> string list \<Rightarrow> bool" where
  "owner_run pinned shard c =
     (case c of (ow, i, operators) \<Rightarrow>
        sr_partitionIndex shard = i \<and> map_get pinned i = Some (Some ow) \<and>
        (\<exists>r. sr_attestation shard = Receipt r \<and> ar_userKeys r = [ow] \<and> ar_operators r = operators))"

abbreviation agreed_shards :: "shard_result list \<Rightarrow> shard_result list" where
  "agreed_shards \<equiv> filter (\<lambda>sh. is_agreed (sr_verification sh))"

lemma admitted_shards:
  "admit_shards pinned shards cs attr = Inr (cs', attr') \<Longrightarrow>
    \<exists>new. cs' = cs @ new \<and> list_all2 (owner_run pinned) (agreed_shards shards) new"
proof (induction shards arbitrary: cs attr)
  case (Cons shard shards)
  then obtain ow where ow: "map_get pinned (sr_partitionIndex shard) = Some (Some ow)"
    unfolding admit_shards_step by blast
  show ?case
  proof (cases "is_agreed (sr_verification shard)")
    case True
    with Cons.prems ow obtain operators where
      ops: "attestedOwnerOf shard ow = Inr operators"
      and "admit_shards pinned shards (cs @ [(ow, sr_partitionIndex shard, operators)]) (map_set (sr_partitionIndex shard) ow attr) = Inr (cs', attr')"
      unfolding admit_shards_step by auto
    from Cons.IH [OF this(2)] obtain new where
      "cs' = cs @ (ow, sr_partitionIndex shard, operators) # new" "list_all2 (owner_run pinned) (agreed_shards shards) new" by auto
    moreover have "owner_run pinned shard (ow, sr_partitionIndex shard, operators)"
      using ow ops by (simp add: owner_run_def attested_owner_ok)
    ultimately show ?thesis using True by auto
  next
    case False
    then show ?thesis using Cons ow by (simp add: admit_shards_step)
  qed
qed simp

lemma repeated_address_None:
  "repeated_address seen cs = None \<longleftrightarrow>
    distinct (map (\<lambda>c. (sc_ownerId c, sc_partialCid c)) cs) \<and> (\<forall>c \<in> set cs. (sc_ownerId c, sc_partialCid c) \<notin> set seen)"
  by (induction cs arbitrary: seen) (auto simp: image_iff)

lemma first_violation_None: "first_violation ms = None \<longleftrightarrow> (\<forall>m \<in> set ms. em_violations m = [])"
  by (induction ms) auto

lemma foldl_min_le: "foldl (\<lambda>l m. min l (f m)) a ms \<le> a \<and> (\<forall>m \<in> set ms. foldl (\<lambda>l m. min l (f m)) a ms \<le> f m)"
  for f :: "'a \<Rightarrow> nat"
proof (induction ms arbitrary: a)
  case (Cons m ms)
  from Cons [of "min a (f m)"] show ?case by auto
qed simp

lemma least_registered_le: "m \<in> set ms \<Longrightarrow> least_registered ms \<le> em_registeredSovereign m"
  using foldl_min_le [of em_registeredSovereign "em_registeredSovereign (hd ms)" "tl ms"]
  by (cases ms) (auto simp: least_registered_def)

lemma sovereign_accepted:
  assumes "reduceSovereignJob ports ops job spec opts s = Inr (Inr agg)"
  obtains manifests contributions attribution reduced s' where
    "sn_egress opts = Some manifests" "manifests \<noteq> []" "\<forall>m \<in> set manifests. em_violations m = []"
    "length (pinned_shards spec) \<le> least_registered manifests"
    "admit_shards (pinned_shards spec) (jr_shards job) [] [] = Inr (contributions, attribution)" "contributions \<noteq> []"
    "reduceJob ports ops job
       (sovereign_job_options opts (case sn_redundancy opts of None \<Rightarrow> MIN_SOVEREIGN_COMBINE_REPLICAS | Some r \<Rightarrow> r) attribution) s
      = Inr (Inr (reduced, s'))"
    "judge_sovereign manifests (pinned_shards spec) contributions reduced = Inr agg"
  using assms unfolding reduceSovereignJob_def Let_def
  by (auto split: if_splits option.splits sum.splits prod.splits simp: first_violation_None not_less)


lemma judge_sovereign_accepts:
  assumes "judge_sovereign manifests pinned contributions reduced = Inr agg"
  shows "length (jq_leaves reduced) = length contributions" (is ?len)
    and "sg_contributions (aggregate_value agg) = admitted_contributions contributions (jq_leaves reduced)" (is ?contribs)
    and "distinct (map (\<lambda>c. (sc_ownerId c, sc_partialCid c)) (sg_contributions (aggregate_value agg)))" (is ?once)
    and "2 \<le> ro_minReplicas (sg_outcome (aggregate_value agg))" (is ?two)
    and "sg_outcome (aggregate_value agg) = jq_outcome reduced" (is ?outcome)
    and "aggregate_coverage agg = coverageOf (set_of_list (List.map_filter id (map_values pinned)))
           (map sc_ownerId (sg_contributions (aggregate_value agg)))" (is ?coverage)
proof -
  let ?admitted = "admitted_contributions contributions (jq_leaves reduced)"
  show len: ?len using assms by (auto simp: judge_sovereign_def split: if_splits)
  have rest: "(case repeated_address [] ?admitted of
      Some (ow, cid) \<Rightarrow> Inl (Same_address ow cid)
    | None \<Rightarrow> if length (rt_nodes (jq_tree reduced)) = 0 then Inl Nothing_merged
        else if int (ro_minReplicas (jq_outcome reduced)) < MIN_SOVEREIGN_COMBINE_REPLICAS
        then Inl (Weak_combine (ro_minReplicas (jq_outcome reduced)))
        else Inr (withCoverage
          \<lparr>sg_outcome = jq_outcome reduced, sg_tree = jq_tree reduced, sg_contributions = ?admitted,
           sg_aggregateAttestation = jq_aggregateAttestation reduced,
           sg_egress = \<lparr>er_manifests = length manifests, er_registeredSovereign = least_registered manifests,
             er_pinnedShards = length pinned, er_totalBytes = foldl (\<lambda>sum m. sum + em_totalBytes m) 0 manifests\<rparr>\<rparr>
          (set_of_list (List.map_filter id (map_values pinned))) (map sc_ownerId ?admitted))) = Inr agg"
    using assms len by (simp add: judge_sovereign_def Let_def)
  then have none: "repeated_address [] ?admitted = None" by (auto split: option.splits)
  with rest show ?contribs ?outcome ?coverage by (auto simp: withCoverage_def split: if_splits)
  with none show ?once by (simp add: repeated_address_None)
  from rest none show ?two by (auto simp: withCoverage_def MIN_SOVEREIGN_COMBINE_REPLICAS_def split: if_splits)
qed

definition merged_evidence :: "sovereign_reduce_options \<Rightarrow> job_spec \<Rightarrow> bool" where
  "merged_evidence opts spec \<longleftrightarrow>
     (\<exists>ms. sn_egress opts = Some ms \<and> ms \<noteq> [] \<and>
       (\<forall>m \<in> set ms. em_violations m = [] \<and> length (pinned_shards spec) \<le> em_registeredSovereign m))"

text \<open>A contribution and the shard it came from.\<close>

definition owners_own :: "(nat, string option) jsmap \<Rightarrow> shard_result \<Rightarrow> sovereign_contribution \<Rightarrow> bool" where
  "owners_own pinned sh c \<longleftrightarrow>
     sr_partitionIndex sh = sc_partitionIndex c \<and> map_get pinned (sc_partitionIndex c) = Some (Some (sc_ownerId c)) \<and>
     (\<exists>r. sr_attestation sh = Receipt r \<and> ar_userKeys r = [sc_ownerId c] \<and> ar_operators r = sc_operators c)"

lemma list_all2_into_map2:
  "list_all2 P xs ys \<Longrightarrow> length zs = length ys \<Longrightarrow> (\<And>x y z. P x y \<Longrightarrow> Q x (f y z)) \<Longrightarrow> list_all2 Q xs (map2 f ys zs)"
  by (auto simp: list_all2_conv_all_nth)

lemma list_all2_same_map: "list_all2 P xs ys \<Longrightarrow> (\<And>x y. P x y \<Longrightarrow> f x = g y) \<Longrightarrow> map f xs = map g ys"
  by (induction rule: list_all2_induct) auto

lemma owner_run_own:
  "owner_run pinned sh (ow, i, operators) \<Longrightarrow>
    owners_own pinned sh \<lparr>sc_ownerId = ow, sc_partitionIndex = i, sc_partialCid = cid, sc_operators = operators\<rparr>"
  by (auto simp: owner_run_def owners_own_def)

lemma sovereign_result:
  assumes "reduceSovereignJob ports ops job spec opts s = Inr (Inr agg)"
  shows "list_all2 (owners_own (pinned_shards spec)) (agreed_shards (jr_shards job)) (sg_contributions (aggregate_value agg))" (is ?own)
    and "sg_contributions (aggregate_value agg) \<noteq> []" (is ?some)
    and "distinct (map (\<lambda>c. (sc_ownerId c, sc_partialCid c)) (sg_contributions (aggregate_value agg)))" (is ?once)
    and "2 \<le> ro_minReplicas (sg_outcome (aggregate_value agg))" (is ?two)
    and "merged_evidence opts spec" (is ?evidence)
    and "aggregate_coverage agg = coverageOf (set_of_list (List.map_filter id (map_values (pinned_shards spec))))
           (map sc_ownerId (sg_contributions (aggregate_value agg)))" (is ?coverage)
proof -
  obtain manifests contributions attribution reduced s' where
    acc: "sn_egress opts = Some manifests" "manifests \<noteq> []" "\<forall>m \<in> set manifests. em_violations m = []"
      "length (pinned_shards spec) \<le> least_registered manifests"
      "admit_shards (pinned_shards spec) (jr_shards job) [] [] = Inr (contributions, attribution)" "contributions \<noteq> []"
    and judged: "judge_sovereign manifests (pinned_shards spec) contributions reduced = Inr agg"
    using assms by (rule sovereign_accepted)
  note result = judge_sovereign_accepts [OF judged]
  from result(3,4,6) show ?once ?two ?coverage .
  from admitted_shards [OF acc(5)] have "list_all2 (owner_run (pinned_shards spec)) (agreed_shards (jr_shards job)) contributions"
    by simp
  then show ?own
    unfolding result(2) admitted_contributions_def by (rule list_all2_into_map2) (use result(1) in \<open>auto intro: owner_run_own\<close>)
  have "length (sg_contributions (aggregate_value agg)) = length contributions"
    using result(1) by (simp add: result(2) admitted_contributions_def)
  then show ?some using acc(6) by auto
  have "length (pinned_shards spec) \<le> em_registeredSovereign m" if "m \<in> set manifests" for m
    using acc(4) least_registered_le [OF that] by simp
  with acc(1,2,3) show ?evidence by (simp add: merged_evidence_def)
qed


lemma pinned_shards_ok: "map_ok (pinned_shards spec)"
  unfolding pinned_shards_def by (rule foldl_invariant [where I = map_ok]) (auto split: shard_spec.splits simp: map_ok_set)

lemma pinned_owners:
  "set (set_of_list (List.map_filter id (map_values (pinned_shards spec)))) =
    {ow. \<exists>i. map_get (pinned_shards spec) i = Some (Some ow)}"
  by (force simp: map_filter_def map_get_iff [OF pinned_shards_ok])

text \<open>An inhabited instance: two of ann's shards, one of which did not agree, and one of bob's, combined on two nodes.\<close>

definition demo_owned :: "nat \<Rightarrow> string \<Rightarrow> shard_verification \<Rightarrow> shard_result" where
  "demo_owned i ow v =
     \<lparr>sr_partitionIndex = i, sr_inputCid = ''i'', sr_verification = v, sr_attempted = [], sr_speculated = False,
      sr_judgedAt = None, sr_disagreed = False, sr_copies = [], sr_generations = 0, sr_ending = Ended_agreed,
      sr_degraded = False, sr_quorum = Not_attempted Owner_is_one_operator,
      sr_attestation = Receipt \<lparr>ar_strength = Owner_attested, ar_replicas = 1, ar_operators = [''op''], ar_issuers = [''is''],
        ar_userKeys = [ow], ar_sharedRelay = None\<rparr>, sr_rejections = []\<rparr>"

definition demo_agreed :: shard_verification where
  "demo_agreed = V_agreed ''o'' (CNum (Fin 1)) [] 1 [] no_cost no_cost"

definition demo_owned_job :: job_result where
  "demo_owned_job =
     \<lparr>jr_moduleCid = ''m'',
      jr_shards = [demo_owned 0 ''ann'' demo_agreed, demo_owned 1 ''ann'' (V_disagreed [] [] no_cost), demo_owned 2 ''bob'' demo_agreed],
      jr_attestation = No_verified_attestation Answer_carried 0 0, jr_complete = False, jr_gross = no_cost, jr_useful = no_cost,
      jr_verificationMultiplier = 1, jr_redispatches = 0, jr_leaseHistory = [], jr_speculationMultiplier = 1,
      jr_speculationSpent = 0, jr_coverage = None\<rparr>"

definition demo_owned_spec :: job_spec where
  "demo_owned_spec = demo_spec\<lparr>jo_shards := [Sovereign_shard (CStr ''x'') (Some ''ann''), Sovereign_shard (CStr ''y'') (Some ''ann''),
     Sovereign_shard (CStr ''z'') (Some ''bob'')]\<rparr>"

definition demo_rows :: "nat \<Rightarrow> cvalue" where
  "demo_rows i = CObj [(''counts'', CObj []), (''rows'', CNum (Fin (rat_of_nat i)))]"

definition demo_reduce_ports :: reduce_ports where
  "demo_reduce_ports =
     \<lparr>ng_codec = (\<lambda>v. Some [if v = demo_rows 0 then 0 else 1]), ng_verify = (\<lambda>s m k. Some True), ng_x509 = plain_x509,
      ng_cid_of = (\<lambda>b. if b = [0] then ''p'' else ''q''), ng_hash = mark, ng_collate = unit_cmp, ng_parse = Some,
      ng_remote = (\<lambda>t e. Some \<lparr>cp_cid = ''r'', cp_attestation = Signed_by_nobody\<rparr>), ng_own = (\<lambda>t e. None), ng_clock = 7\<rparr>"

definition demo_sovereign_options :: sovereign_reduce_options where
  "demo_sovereign_options =
     \<lparr>sn_executors = [''e'', ''f''], sn_project = (\<lambda>v i. Returned (demo_rows i)), sn_fanout = None, sn_redundancy = None,
      sn_trustedIssuers = None,
      sn_egress = Some [\<lparr>em_nodeId = ''n'', em_ownerId = ''ann'', em_entries = [], em_totalBytes = 0, em_violations = [],
        em_registeredSovereign = 3\<rparr>]\<rparr>"

abbreviation demo_sovereign :: "reduce_throw + (sovereign_refusal + sovereign_aggregate covered_aggregate)" where
  "demo_sovereign \<equiv> reduceSovereignJob demo_reduce_ports (memory_ops (ng_cid_of demo_reduce_ports)) demo_owned_job demo_owned_spec
     demo_sovereign_options []"

lemma demo_sovereign_accepted: "\<exists>agg. demo_sovereign = Inr (Inr agg)"
proof -
  have "case demo_sovereign of Inr (Inr agg) \<Rightarrow> True | _ \<Rightarrow> False" by code_simp
  then show ?thesis by (auto split: sum.splits)
qed


text \<open>C38: What coverage is counted over: an accepted sovereign aggregate is reported complete as soon as every owner
  with a pinned shard has one that agreed, however many of that owner's other shards did not.  \<open>submitJob\<close> asks
  an owner for all of the shards it owes before it counts the owner as covered.\<close>

theorem sovereign_coverage_ignores_missing_shards:
  assumes "reduceSovereignJob ports ops job spec opts s = Inr (Inr agg)"
  shows "coverage_complete (aggregate_coverage agg) \<longleftrightarrow>
    (\<forall>i ow. map_get (pinned_shards spec) i = Some (Some ow) \<longrightarrow>
      (\<exists>sh \<in> set (agreed_shards (jr_shards job)). map_get (pinned_shards spec) (sr_partitionIndex sh) = Some (Some ow)))"
proof -
  let ?contributors = "sc_ownerId ` set (sg_contributions (aggregate_value agg))"
  let ?owner = "\<lambda>sh. map_get (pinned_shards spec) (sr_partitionIndex sh)"
  note result = sovereign_result [OF assms]
  have "map ?owner (agreed_shards (jr_shards job)) = map (\<lambda>c. Some (Some (sc_ownerId c))) (sg_contributions (aggregate_value agg))"
    using result(1) by (rule list_all2_same_map) (simp add: owners_own_def)
  from arg_cong [OF this, of set] have "?owner ` set (agreed_shards (jr_shards job)) = (Some \<circ> Some) ` ?contributors"
    by (simp add: image_image)
  then have own: "?contributors = {ow. \<exists>sh \<in> set (agreed_shards (jr_shards job)). ?owner sh = Some (Some ow)}"
    by (auto simp: set_eq_iff image_iff) (metis option.inject)+
  have "coverage_complete (aggregate_coverage agg) \<longleftrightarrow>
      set (set_of_list (List.map_filter id (map_values (pinned_shards spec)))) = ?contributors"
    using result(2) coverage_report_exact unfolding result(6) by (metis (no_types, lifting) image_set image_is_empty set_empty)
  then show ?thesis unfolding pinned_owners own by blast
qed

theorem sovereign_coverage_ignores_missing_shards_witness:
  "\<exists>agg. demo_sovereign = Inr (Inr agg) \<and> coverage_complete (aggregate_coverage agg) \<and>
     \<not> is_agreed (sr_verification (jr_shards demo_owned_job ! 1)) \<and>
     map_get (pinned_shards demo_owned_spec) (sr_partitionIndex (jr_shards demo_owned_job ! 1)) = Some (Some ''ann'')"
proof -
  obtain agg where agg: "demo_sovereign = Inr (Inr agg)" using demo_sovereign_accepted ..
  have pinned: "pinned_shards demo_owned_spec = [(0, Some ''ann''), (1, Some ''ann''), (2, Some ''bob'')]" by code_simp
  have agreed: "agreed_shards (jr_shards demo_owned_job) = [demo_owned 0 ''ann'' demo_agreed, demo_owned 2 ''bob'' demo_agreed]"
    by (simp add: demo_owned_job_def demo_owned_def demo_agreed_def)
  have other: "jr_shards demo_owned_job ! 1 = demo_owned 1 ''ann'' (V_disagreed [] [] no_cost)" by (simp add: demo_owned_job_def)
  have "coverage_complete (aggregate_coverage agg)"
    unfolding sovereign_coverage_ignores_missing_shards [OF agg] agreed pinned by (auto simp: demo_owned_def split: if_splits)
  with agg show ?thesis unfolding other pinned by (auto simp: demo_owned_def)
qed

section \<open>The receipt of an aggregate\<close>

text \<open>A combine that nothing stands against: it was done elsewhere, and every replica's statement was checked.\<close>

definition vouched_combine ::
  "(string list \<Rightarrow> string \<Rightarrow> attested_result \<Rightarrow> attestation_result) \<Rightarrow> attested_result reduce_outcome \<Rightarrow> observations \<Rightarrow> reduce_tree_node
    \<Rightarrow> node_certificate list \<Rightarrow> bool" where
  "vouched_combine check outc observed node certs \<longleftrightarrow>
     rn_id node \<notin> set (ro_locallyCombined outc) \<and> map_get (ro_attestations outc) (rn_id node) \<noteq> None \<and>
     certs \<noteq> [] \<and> distinct (map c_nodeKey certs) \<and>
     (\<exists>seen. map_get observed (rn_id node) = Some seen \<and>
        list_all2 (\<lambda>(cid, att) c. check (co_inputCids seen) cid att = Attestation_ok c) (co_replicas seen) certs)"

lemma checked_replicas:
  "check_combine_replicas check reps = Inr (certs, []) \<Longrightarrow>
    list_all2 (\<lambda>(cid, att) c. check cid att = Attestation_ok c) reps certs"
  by (induction check reps arbitrary: certs rule: check_combine_replicas.induct)
    (auto split: attested_result.splits attestation_result.splits sum.splits prod.splits simp: map_sum_def)

lemma distinct_by_set_of_list: "length (set_of_list (map f xs)) = length xs \<Longrightarrow> distinct (map f xs)"
  by (metis card_distinct length_map length_set_of_list)

lemma node_receipt_clean:
  assumes "node_receipt check outc observed node = Inr (rs, [])"
  shows "rs = [] \<or> (\<exists>certs. rs = [attestationReceipt certs] \<and> vouched_combine check outc observed node certs)"
proof (cases "map_get observed (rn_id node)")
  case None
  then show ?thesis using assms by (auto simp: node_receipt_def Let_def split: if_splits)
next
  case (Some seen)
  show ?thesis
  proof (cases "check_combine_replicas (check (co_inputCids seen)) (co_replicas seen)")
    case (Inl e)
    then show ?thesis using assms Some by (auto simp: node_receipt_def Let_def split: if_splits)
  next
    case (Inr p)
    then obtain certs us where p: "check_combine_replicas (check (co_inputCids seen)) (co_replicas seen) = Inr (certs, us)"
      by (cases p) auto
    show ?thesis
      using assms Some checked_replicas [of "check (co_inputCids seen)" "co_replicas seen" certs]
      by (auto simp: node_receipt_def Let_def p vouched_combine_def split: if_splits dest: distinct_by_set_of_list)
  qed
qed

lemma node_receipt_one: "node_receipt check outc observed node = Inr (rs, us) \<Longrightarrow> length rs \<le> 1"
  by (auto simp: node_receipt_def Let_def split: if_splits option.splits sum.splits prod.splits)

lemma node_receipts_clean:
  assumes "node_receipts f ns = Inr (rs, [])" and one: "\<And>n rs us. f n = Inr (rs, us) \<Longrightarrow> length rs \<le> 1"
  shows "length rs \<le> length ns \<and> (length rs = length ns \<longrightarrow> list_all2 (\<lambda>n r. f n = Inr ([r], [])) ns rs)"
  using assms(1)
proof (induction ns arbitrary: rs)
  case (Cons n ns)
  from Cons.prems obtain here rest where parts: "f n = Inr (here, [])" "node_receipts f ns = Inr (rest, [])" "rs = here @ rest"
    by (auto split: sum.splits prod.splits simp: map_sum_def)
  have "length here \<le> 1" by (rule one [OF parts(1)])
  with Cons.IH [OF parts(2)] parts(1,3) show ?case by (cases here) auto
qed simp

lemma weakest_fold:
  "foldl weakest_receipt r rs \<in> set (r # rs) \<and>
    (\<forall>r' \<in> set (r # rs). attestationRank (ar_strength (foldl weakest_receipt r rs)) \<le> attestationRank (ar_strength r'))"
proof (induction rs arbitrary: r)
  case (Cons x rs)
  have "weakest_receipt r x \<in> {r, x}" "attestationRank (ar_strength (weakest_receipt r x)) \<le> attestationRank (ar_strength r)"
    "attestationRank (ar_strength (weakest_receipt r x)) \<le> attestationRank (ar_strength x)"
    by (auto simp: weakest_receipt_def)
  with Cons [of "weakest_receipt r x"] show ?case by (auto intro: le_trans)
qed simp

lemma aggregate_receipt_parts:
  assumes "aggregateAttestationOf codec verify x tree outc observed trustedIssuers now = Inr (Aggregate_receipt r)"
  shows "\<exists>trusted certs_of.
    trustedIssuers = Some trusted \<and>
    (\<forall>node \<in> set (rt_nodes tree).
       vouched_combine (\<lambda>inputs cid att. verifyCombineAttestation codec verify x att inputs cid trusted now) outc observed
         node (certs_of node) \<and>
       attestationRank (ar_strength r) \<le> attestationRank (classifyAttestation (certs_of node))) \<and>
    (\<exists>node \<in> set (rt_nodes tree). r = attestationReceipt (certs_of node))"
proof -
  obtain trusted where trusted: "trustedIssuers = Some trusted"
    using assms by (auto simp: aggregateAttestationOf_def Let_def split: if_splits option.splits)
  define check where "check = (\<lambda>inputs cid att. verifyCombineAttestation codec verify x att inputs cid trusted now)"
  obtain rs where rs: "node_receipts (node_receipt check outc observed) (rt_nodes tree) = Inr (rs, [])"
    "length rs = length (rt_nodes tree)" "rt_nodes tree \<noteq> []" "r = foldl weakest_receipt (hd rs) (tl rs)"
    using assms by (auto simp: aggregateAttestationOf_def Let_def trusted check_def split: if_splits sum.splits)
  have each: "list_all2 (\<lambda>n r. node_receipt check outc observed n = Inr ([r], [])) (rt_nodes tree) rs"
    using node_receipts_clean [OF rs(1)] node_receipt_one rs(2) by blast
  have "\<forall>n \<in> set (rt_nodes tree). \<exists>certs. node_receipt check outc observed n = Inr ([attestationReceipt certs], []) \<and>
      vouched_combine check outc observed n certs"
  proof
    fix n assume "n \<in> set (rt_nodes tree)"
    with each obtain r' where r': "node_receipt check outc observed n = Inr ([r'], [])"
      by (auto simp: list_all2_conv_all_nth in_set_conv_nth)
    from node_receipt_clean [OF this] obtain certs where "r' = attestationReceipt certs" "vouched_combine check outc observed n certs"
      by auto
    with r' show "\<exists>certs. node_receipt check outc observed n = Inr ([attestationReceipt certs], []) \<and>
      vouched_combine check outc observed n certs" by blast
  qed
  from bchoice [OF this] obtain certs_of where
    vouched: "\<forall>n \<in> set (rt_nodes tree). node_receipt check outc observed n = Inr ([attestationReceipt (certs_of n)], []) \<and>
      vouched_combine check outc observed n (certs_of n)" by blast
  have "rs = map (\<lambda>n. attestationReceipt (certs_of n)) (rt_nodes tree)"
  proof -
    have "list_all2 (\<lambda>r n. r = attestationReceipt (certs_of n)) rs (rt_nodes tree)"
      using each vouched by (fastforce simp: list_all2_conv_all_nth)
    then show ?thesis by (induction rule: list_all2_induct) auto
  qed
  then have set_rs: "set rs = (\<lambda>n. attestationReceipt (certs_of n)) ` set (rt_nodes tree)" by simp
  have "hd rs # tl rs = rs" using rs(2,3) by (cases rs) auto
  with weakest_fold [of "hd rs" "tl rs"]
  have weakest: "r \<in> set rs" "\<forall>r' \<in> set rs. attestationRank (ar_strength r) \<le> attestationRank (ar_strength r')"
    by (simp_all add: rs(4))
  have "ar_strength (attestationReceipt cs) = classifyAttestation cs" for cs by (simp add: attestationReceipt_def)
  with weakest have "\<exists>n \<in> set (rt_nodes tree). r = attestationReceipt (certs_of n)"
    "\<forall>n \<in> set (rt_nodes tree). attestationRank (ar_strength r) \<le> attestationRank (classifyAttestation (certs_of n))"
    unfolding set_rs by auto
  with vouched show ?thesis unfolding check_def trusted by blast
qed

lemma reduce_job_parts:
  assumes "reduceJob ports ops job opts s = Inr (Inr (q, s'))"
  shows "jq_outcome q = executeReduce (ng_hash ports) (ng_collate ports) (reduce_run_of ports opts (jq_tree q))" (is ?outcome)
    and "aggregateAttestationOf (ng_codec ports) (ng_verify ports) (ng_x509 ports) (jq_tree q) (jq_outcome q)
      (observed_in (ng_hash ports) (ng_collate ports) (reduce_run_of ports opts (jq_tree q))) (jn_trustedIssuers opts) (ng_clock ports)
      = Inr (jq_aggregateAttestation q)" (is ?attestation)
    and "\<exists>g. gather_partials ports ops opts (jr_shards job) \<lparr>gd_contributions = [], gd_leaves = [], gd_skipped = [], gd_store = s\<rparr> = Inr g \<and>
      gd_leaves g = jq_leaves q \<and> gd_skipped g = jq_skipped q \<and> gd_store g = s' \<and> gd_contributions g \<noteq> [] \<and>
      deriveReduceTree (ng_hash ports) (gd_contributions g)
        (case jn_fanout opts of None \<Rightarrow> num_of_nat DEFAULT_FANOUT | Some f \<Rightarrow> f) = Inr (jq_tree q)" (is ?gathered)
  using assms by (auto simp: reduceJob_def Let_def split: if_splits sum.splits)

text \<open>C39: A receipt over an aggregate speaks for every combine: when \<open>reduceJob\<close> hands one out, anchors were given, and
  every node of the tree was combined elsewhere, by replicas of which each one's statement was checked against
  the inputs that were sent and the CID that came back, under node keys that are all different; the receipt
  is the one of a combine of the tree, and no combine's is weaker.\<close>

theorem aggregate_receipt_speaks_for_every_combine:
  assumes "reduceJob ports ops job opts s = Inr (Inr (q, s'))" "jq_aggregateAttestation q = Aggregate_receipt r"
  shows "\<exists>trusted certs_of.
    jn_trustedIssuers opts = Some trusted \<and>
    (\<forall>node \<in> set (rt_nodes (jq_tree q)).
       vouched_combine (\<lambda>inputs cid att. verifyCombineAttestation (ng_codec ports) (ng_verify ports) (ng_x509 ports) att inputs cid
         trusted (ng_clock ports)) (jq_outcome q) (observed_in (ng_hash ports) (ng_collate ports) (reduce_run_of ports opts (jq_tree q)))
         node (certs_of node) \<and>
       attestationRank (ar_strength r) \<le> attestationRank (classifyAttestation (certs_of node))) \<and>
    (\<exists>node \<in> set (rt_nodes (jq_tree q)). r = attestationReceipt (certs_of node))"
proof -
  let ?observed = "observed_in (ng_hash ports) (ng_collate ports) (reduce_run_of ports opts (jq_tree q))"
  have "aggregateAttestationOf (ng_codec ports) (ng_verify ports) (ng_x509 ports) (jq_tree q) (jq_outcome q) ?observed
      (jn_trustedIssuers opts) (ng_clock ports) = Inr (Aggregate_receipt r)"
    using reduce_job_parts [OF assms(1)] assms(2) by simp
  then show ?thesis by (rule aggregate_receipt_parts)
qed

definition demo_signed_answer :: "string \<Rightarrow> attested_result" where
  "demo_signed_answer e = Attested \<lparr>ra_certificate = demo_result_cert\<lparr>c_nodeKey := (if e = ''e'' then toHex [5] else toHex [6])\<rparr>,
     ra_signature = toHex [0]\<rparr>"

definition demo_signed_ports :: reduce_ports where
  "demo_signed_ports = demo_reduce_ports\<lparr>ng_remote := (\<lambda>t e. Some \<lparr>cp_cid = ''r'', cp_attestation = demo_signed_answer e\<rparr>)\<rparr>"

definition demo_reduce_options :: reduce_job_options where
  "demo_reduce_options = (sovereign_job_options demo_sovereign_options 2 [])\<lparr>jn_contributors := None, jn_trustedIssuers := Some [toHex [9]]\<rparr>"

abbreviation demo_reduced :: "reduce_throw + (reduce_refusal + reduce_job_result \<times> memory_store)" where
  "demo_reduced \<equiv> reduceJob demo_signed_ports (memory_ops (ng_cid_of demo_signed_ports)) demo_owned_job demo_reduce_options []"

theorem aggregate_receipt_speaks_for_every_combine_witness:
  "\<exists>q s' r. demo_reduced = Inr (Inr (q, s')) \<and> jq_aggregateAttestation q = Aggregate_receipt r \<and>
     (\<exists>node \<in> set (rt_nodes (jq_tree q)). \<exists>certs. r = attestationReceipt certs)"
proof -
  have "case demo_reduced of Inr (Inr (q, s')) \<Rightarrow> (case jq_aggregateAttestation q of Aggregate_receipt r \<Rightarrow> True | _ \<Rightarrow> False) | _ \<Rightarrow> False"
    by code_simp
  then obtain q s' r where q: "demo_reduced = Inr (Inr (q, s'))" "jq_aggregateAttestation q = Aggregate_receipt r"
    by (auto split: sum.splits aggregate_attestation.splits)
  from aggregate_receipt_speaks_for_every_combine [OF this] q show ?thesis by blast
qed

section \<open>Watched while it runs\<close>

fun encoded_rows :: "codec \<Rightarrow> (bytes \<Rightarrow> string) \<Rightarrow> shard_spec list \<Rightarrow> (string \<times> bytes) list" where
  "encoded_rows codec cid_of [] = []"
| "encoded_rows codec cid_of (Public_shard v # shards) = encoded_rows codec cid_of shards"
| "encoded_rows codec cid_of (Sovereign_shard v ow # shards) =
     (case canonicalCid codec cid_of v of
        Inl e \<Rightarrow> encoded_rows codec cid_of shards
      | Inr row \<Rightarrow> row # encoded_rows codec cid_of shards)"

definition holds_of :: "egress_guard \<Rightarrow> string \<Rightarrow> nat" where
  "holds_of g l = (case map_get (eg_guarded g) l of None \<Rightarrow> 0 | Some p \<Rightarrow> gp_holds p)"

definition watch_row :: "string \<times> bytes \<Rightarrow> egress_guard \<Rightarrow> egress_guard" where
  "watch_row row g = snd (guard_payload (fst row) (snd row) g)"

definition row_holds :: "nat \<Rightarrow> string \<times> bytes \<Rightarrow> (nat \<times> egress_hold) list" where
  "row_holds n row = map (\<lambda>k. (k, \<lparr>ho_label = fst row, ho_given = False\<rparr>)) [0..<n]"

lemma guard_all_form:
  "guard_all label payload k gs =
    (map (\<lambda>i. (i, \<lparr>ho_label = label, ho_given = False\<rparr>)) [k..<k + length gs], map (watch_row (label, payload)) gs)"
  by (induction gs arbitrary: k) (simp_all add: watch_row_def guard_payload_def upt_conv_Cons del: upt_Suc)

lemma watch_shards_form:
  "watch_shards codec cid_of shards (hs, n, gs) =
    (hs @ concat (map (row_holds (length gs)) (encoded_rows codec cid_of shards)), n + length (encoded_rows codec cid_of shards),
     map (fold watch_row (encoded_rows codec cid_of shards)) gs)"
  by (induction codec cid_of shards arbitrary: hs n gs rule: encoded_rows.induct)
    (auto simp: guard_all_form row_holds_def split: sum.splits)

lemma holds_watch_row: "holds_of (watch_row row g) l = holds_of g l + (if fst row = l then 1 else 0)"
  by (simp add: holds_of_def watch_row_def guard_payload_def split: option.split)

lemma holds_watched: "holds_of (fold watch_row rows g) l = holds_of g l + length (filter (\<lambda>row. fst row = l) rows)"
  by (induction rows arbitrary: g) (simp_all add: holds_watch_row)

lemma holds_release: "\<not> ho_given h \<Longrightarrow> holds_of (snd (release_hold h g)) l = holds_of g l - (if ho_label h = l then 1 else 0)"
  by (auto simp: holds_of_def release_hold_def split: option.split)

lemma release_all_holds:
  "\<forall>(k, h) \<in> set hs. \<not> ho_given h \<and> k < length gs \<Longrightarrow> k < length gs \<Longrightarrow>
    holds_of (release_all hs gs ! k) l = holds_of (gs ! k) l - length (filter (\<lambda>(j, h). j = k \<and> ho_label h = l) hs)"
proof (induction hs arbitrary: gs)
  case (Cons x hs)
  obtain j h where x: "x = (j, h)" by (cases x)
  from Cons.IH [of "gs[j := snd (release_hold h (gs ! j))]"] Cons.prems show ?case
    by (auto simp: release_all_def x nth_list_update holds_release)
qed (simp add: release_all_def)

lemma release_all_length [simp]: "length (release_all hs gs) = length gs"
  by (induction hs arbitrary: gs) (auto simp: release_all_def)

lemma row_holds_of: "k < n \<Longrightarrow> length (filter (\<lambda>(j, h). j = k \<and> ho_label h = l) (concat (map (row_holds n) rows))) =
    length (filter (\<lambda>row. fst row = l) rows)"
proof (induction rows)
  case (Cons row rows)
  have "filter (\<lambda>i. i = k) [0..<n] = [k]" using Cons.prems
    by (induction n) (auto simp: less_Suc_eq)
  with Cons show ?case by (cases "fst row = l") (simp_all add: row_holds_def filter_map o_def)
qed simp

lemma watched_payload:
  "row \<in> set rows \<Longrightarrow> \<exists>p \<in> set rows. fst p = fst row \<and>
    map_option gp_payload (map_get (eg_guarded (fold watch_row rows g)) (fst row)) = Some (snd p)"
proof (induction rows rule: rev_induct)
  case (snoc r rows)
  show ?case
  proof (cases "fst r = fst row")
    case True
    then show ?thesis by (simp add: watch_row_def guard_payload_def)
  next
    case False
    with snoc show ?thesis by (auto simp: watch_row_def guard_payload_def)
  qed
qed simp

text \<open>C40: A job's rows are watched while it runs and no longer: when \<open>submitJob\<close> is entered, every guard holds
  each encodable owner-pinned row once more than before, under its CID and with a row's bytes of that CID; each
  manifest reports that number of rows; and when the job is over, however it ended, every guard holds what it
  held before and what the job itself left with it.\<close>

theorem rows_are_watched_while_the_job_runs:
  assumes run: "submitJobWithEgress codec cid_of submit spec guards w = (res, out, w')"
    and leaves: "\<And>watching after r w1. submit watching w = (r, after, w1) \<Longrightarrow> length after = length watching \<and>
      (\<forall>k < length after. \<forall>l. holds_of (after ! k) l = holds_of (watching ! k) l + extra k l)"
  shows "\<exists>watching r after. submit watching w = (r, after, w') \<and> length watching = length guards \<and> length out = length guards \<and>
    (\<forall>k < length guards.
       (\<forall>l. holds_of (watching ! k) l = holds_of (guards ! k) l + length (filter (\<lambda>row. fst row = l) (encoded_rows codec cid_of (jo_shards spec)))) \<and>
       (\<forall>(l, b) \<in> set (encoded_rows codec cid_of (jo_shards spec)).
          \<exists>b'. (l, b') \<in> set (encoded_rows codec cid_of (jo_shards spec)) \<and>
            map_option gp_payload (map_get (eg_guarded (watching ! k)) l) = Some b') \<and>
       (\<forall>l. holds_of (out ! k) l = holds_of (guards ! k) l + extra k l)) \<and>
    (\<forall>job ms. res = Returned (Inr (job, ms)) \<longrightarrow>
       (\<forall>m \<in> set ms. em_registeredSovereign m = length (encoded_rows codec cid_of (jo_shards spec))))"
proof -
  let ?rows = "encoded_rows codec cid_of (jo_shards spec)"
  let ?hs = "concat (map (row_holds (length guards)) ?rows)"
  define watching where "watching = map (fold watch_row ?rows) guards"
  obtain r after w1 where submitted: "submit watching w = (r, after, w1)" by (cases "submit watching w")
  note done' = run [unfolded submitJobWithEgress_def watch_shards_form append_Nil prod.case Let_def, folded watching_def, unfolded submitted prod.case]
  have out: "out = release_all ?hs after" "w' = w1" using done' by simp_all
  have len: "length after = length guards" and after: "k < length guards \<Longrightarrow> holds_of (after ! k) l = holds_of (watching ! k) l + extra k l" for k l
    using leaves [OF submitted] by (simp_all add: watching_def)
  have watched: "holds_of (watching ! k) l = holds_of (guards ! k) l + length (filter (\<lambda>row. fst row = l) ?rows)" if "k < length guards" for k l
    using that by (simp add: watching_def holds_watched)
  have given: "\<forall>(k, h) \<in> set ?hs. \<not> ho_given h \<and> k < length after" by (auto simp: row_holds_def len)
  have released: "holds_of (out ! k) l = holds_of (guards ! k) l + extra k l" if "k < length guards" for k l
    using release_all_holds [OF given, of k l] that by (simp_all add: out(1) len after watched row_holds_of)
  have payload: "\<forall>(l, b) \<in> set ?rows. \<exists>b'. (l, b') \<in> set ?rows \<and>
      map_option gp_payload (map_get (eg_guarded (watching ! k)) l) = Some b'" if "k < length guards" for k
    using that watched_payload [of _ ?rows "guards ! k"] by (fastforce simp: watching_def)
  have "\<forall>m \<in> set ms. em_registeredSovereign m = length ?rows" if "res = Returned (Inr (job, ms))" for job ms
    using done' that by (auto simp: sliceManifest_def Let_def split: settled.splits sum.splits)
  moreover have "length watching = length guards" "length out = length guards" by (simp_all add: watching_def out(1) len)
  ultimately show ?thesis using submitted watched payload released out(2) by blast
qed

definition demo_guard :: egress_guard where
  "demo_guard = snd (guard_payload ''q'' [4] (new_egress_guard ''n'' ''ann''))"

theorem rows_are_watched_while_the_job_runs_witness:
  "\<exists>job m out. submitJobWithEgress (ng_codec demo_reduce_ports) (ng_cid_of demo_reduce_ports) (\<lambda>gs w. (Returned (Inr demo_owned_job) :: (string + job_result) settled, gs, w))
       demo_owned_spec [demo_guard] () = (Returned (Inr (job, [m])), [out], ()) \<and>
     em_registeredSovereign m = 3 \<and> holds_of out ''q'' = holds_of demo_guard ''q''"
proof -
  let ?submit = "\<lambda>gs w. (Returned (Inr demo_owned_job) :: (string + job_result) settled, gs, w :: unit)"
  let ?run = "submitJobWithEgress (ng_codec demo_reduce_ports) (ng_cid_of demo_reduce_ports) ?submit demo_owned_spec [demo_guard] ()"
  have "case ?run of (Returned (Inr (job, [m])), [out], w) \<Rightarrow> True | _ \<Rightarrow> False" by code_simp
  then obtain job m out where run: "?run = (Returned (Inr (job, [m])), [out], ())"
    by (auto split: prod.splits settled.splits sum.splits list.splits)
  have rows: "length (encoded_rows (ng_codec demo_reduce_ports) (ng_cid_of demo_reduce_ports) (jo_shards demo_owned_spec)) = 3" by code_simp
  have "em_registeredSovereign m = 3 \<and> holds_of out ''q'' = holds_of demo_guard ''q''"
    using rows_are_watched_while_the_job_runs [OF run, where extra = "\<lambda>k l. 0"] unfolding rows by auto
  with run show ?thesis by blast
qed

section \<open>From shards to leaves\<close>

text \<open>The partial an agreed shard contributes.\<close>

definition projects_to :: "reduce_ports \<Rightarrow> reduce_job_options \<Rightarrow> shard_result \<Rightarrow> string \<Rightarrow> bool" where
  "projects_to ports opts sh leaf \<longleftrightarrow>
     (\<exists>cid outp ag n fs gross useful partial bytes. sr_verification sh = V_agreed cid outp ag n fs gross useful \<and>
        jn_project opts outp (sr_partitionIndex sh) = Returned partial \<and> asFabricPartial partial \<noteq> None \<and>
        canonicalCid (ng_codec ports) (ng_cid_of ports) partial = Inr (leaf, bytes) \<and> length bytes \<le> MAX_PARTIAL_BYTES)"

lemma gathered_leaves:
  "gather_partials ports ops opts shards g = Inr g' \<Longrightarrow> \<exists>ls.
    gd_leaves g' = gd_leaves g @ ls \<and> list_all2 (projects_to ports opts) (agreed_shards shards) ls \<and>
    gd_skipped g' = gd_skipped g @ map sr_partitionIndex (filter (\<lambda>sh. \<not> is_agreed (sr_verification sh)) shards) \<and>
    (\<exists>cs. gd_contributions g' = gd_contributions g @ cs \<and> map rc_cid cs = ls \<and>
      map (\<lambda>c. Some (contributorId c)) cs = map (\<lambda>sh. contributorFor (sr_partitionIndex sh) (jn_contributors opts)) (agreed_shards shards))"
proof (induction shards arbitrary: g)
  case (Cons sh shards)
  show ?case
  proof (cases "sr_verification sh")
    case (V_agreed cid outp ag n fs gross useful)
    with Cons.prems obtain partial leaf bytes who where parts: "jn_project opts outp (sr_partitionIndex sh) = Returned partial"
      "asFabricPartial partial \<noteq> None" "canonicalCid (ng_codec ports) (ng_cid_of ports) partial = Inr (leaf, bytes)"
      "length bytes \<le> MAX_PARTIAL_BYTES" "contributorFor (sr_partitionIndex sh) (jn_contributors opts) = Some who"
      by (auto split: settled.splits if_splits sum.splits option.splits)
    let ?g = "g\<lparr>gd_store := snd (put_block ops bytes (gd_store g)), gd_leaves := gd_leaves g @ [leaf],
      gd_contributions := gd_contributions g @ [\<lparr>contributorId = who, rc_cid = leaf\<rparr>]\<rparr>"
    have "gather_partials ports ops opts shards ?g = Inr g'" using Cons.prems V_agreed parts by simp
    from Cons.IH [OF this] obtain ls cs where
      rest: "gd_leaves g' = (gd_leaves g @ [leaf]) @ ls" "list_all2 (projects_to ports opts) (agreed_shards shards) ls"
        "gd_skipped g' = gd_skipped g @ map sr_partitionIndex (filter (\<lambda>sh. \<not> is_agreed (sr_verification sh)) shards)"
        "gd_contributions g' = (gd_contributions g @ [\<lparr>contributorId = who, rc_cid = leaf\<rparr>]) @ cs" "map rc_cid cs = ls"
        "map (\<lambda>c. Some (contributorId c)) cs = map (\<lambda>sh. contributorFor (sr_partitionIndex sh) (jn_contributors opts)) (agreed_shards shards)"
      by auto
    have "projects_to ports opts sh leaf" using V_agreed parts by (auto simp: projects_to_def)
    then show ?thesis using rest V_agreed parts(5)
      by (intro exI [of _ "leaf # ls"] conjI exI [of _ "\<lparr>contributorId = who, rc_cid = leaf\<rparr> # cs"]) auto
  next
    case (V_disagreed groups fs gross)
    then have "gather_partials ports ops opts shards (g\<lparr>gd_skipped := gd_skipped g @ [sr_partitionIndex sh]\<rparr>) = Inr g'"
      using Cons.prems by simp
    from Cons.IH [OF this] show ?thesis using V_disagreed by simp
  next
    case (V_insufficient r fs)
    then have "gather_partials ports ops opts shards (g\<lparr>gd_skipped := gd_skipped g @ [sr_partitionIndex sh]\<rparr>) = Inr g'"
      using Cons.prems by simp
    from Cons.IH [OF this] show ?thesis using V_insufficient by simp
  qed
qed simp

lemma reduced_leaves:
  assumes "reduceJob ports ops job opts s = Inr (Inr (q, s'))"
  obtains cs where "list_all2 (projects_to ports opts) (agreed_shards (jr_shards job)) (jq_leaves q)"
    "jq_skipped q = map sr_partitionIndex (filter (\<lambda>sh. \<not> is_agreed (sr_verification sh)) (jr_shards job))"
    "map rc_cid cs = jq_leaves q"
    "map (\<lambda>c. Some (contributorId c)) cs = map (\<lambda>sh. contributorFor (sr_partitionIndex sh) (jn_contributors opts)) (agreed_shards (jr_shards job))"
    "deriveReduceTree (ng_hash ports) cs (case jn_fanout opts of None \<Rightarrow> num_of_nat DEFAULT_FANOUT | Some f \<Rightarrow> f) = Inr (jq_tree q)"
  using reduce_job_parts(3) [OF assms] by (auto dest!: gathered_leaves)

end
