(* ===== verification/Spec2Isabelle.thy ===== *)
theory Spec2Isabelle
  imports Lease Placement Capacity Speculation Governor Coverage Reduce_Run Naming Quorum Enrollment Checkpoint Attestation Verify Combiner Commit_Store Egress Rpc Protocol Throttle Agent Shard_Loop Clients Reduce_Job
begin

text \<open>
  A verification development for o2.services, a peer-to-peer compute fabric: a requestor splits a job
  into shards, places them on other people's nodes, has each computed redundantly, and reduces the partial results in a tree.
  The program is TypeScript; the portable kernel is \<open>packages/core/src\<close> and the network layer above any
  transport is \<open>packages/net/src\<close>.

  The parts and how they meet.  A job's shards are \<^emph>\<open>placed\<close> (\<open>Sovereignty\<close> by owner and clearance, \<open>Placement\<close>
  by offers that a node's \<open>Capacity\<close> answers) and \<^emph>\<open>leased\<close> (\<open>Lease\<close>), with copies of stragglers bounded by \<open>Speculation\<close>.  A
  node runs a shard under \<open>Governor\<close> and \<open>Throttle\<close>, its answer is signed (\<open>Attestation\<close>), compared with the answers of
  other nodes (\<open>Verify\<close>, whose committers are answered from \<open>Commit_Store\<close>) that a quorum of unrelated operators
  gave (\<open>Quorum\<close>), and merged up a tree (\<open>Reduce_Tree\<close>, \<open>Reduce_Run\<close>, \<open>Combiner\<close>).  Progress is kept in \<open>Checkpoint\<close>s.
  Who a node is comes from \<open>Enrollment\<close>, what it may run from \<open>Capability\<close> chains and signed names (\<open>Naming\<close>), where to find it from
  \<open>Discovery\<close>.  Nodes talk by requests (\<open>Protocol\<close>) over \<open>Rpc\<close> over a \<open>Transport\<close>, behind a guard that
  keeps owners' bytes in (\<open>Egress\<close>).

  Theories and code.  Paths are under \<open>packages\<close>; a definition has the name of the function, class member or type it
  models, in a form the logic allows (\<open>take_offer\<close> for \<open>LocalCapacity.offer\<close>).

  \<^item> \<open>Prelude\<close>: the JavaScript values every theory uses.  \<open>Canonical\<close>: \<open>core/src/canonical/encode.ts\<close> and \<open>hex.ts\<close>.
  \<^item> \<open>Lease\<close>: \<open>core/src/lease.ts\<close>; the table as a step relation, rebuilt from its event log; dispatches
    bounded; a late report refused.
  \<^item> \<open>Sovereignty\<close>, \<open>Placement\<close>, \<open>Capacity\<close>: \<open>core/src/sovereignty.ts\<close>, \<open>core/src/placement.ts\<close>; a sovereign shard stays with its
    owner; what a plan books was admitted and fits the node's slots; locale \<open>admission_control\<close>.
  \<^item> \<open>Speculation\<close>, \<open>Governor\<close>, \<open>Throttle\<close>, \<open>Coverage\<close>: \<open>core/src/speculation.ts\<close>, \<open>governor.ts\<close>, \<open>coverage.ts\<close>,
    \<open>net/src/governed-executor.ts\<close>, \<open>counting-executor.ts\<close>; the copy budget; turns of throttled calls.
  \<^item> \<open>Reduce_Tree\<close>, \<open>Reduce_Run\<close>, \<open>Combiner\<close>: \<open>core/src/reduce.ts\<close> and the merge of \<open>core/src/job\<close>; the tree depends on the set of contributions and covers
    each once; one live executor completes it.  The section below puts the three together: the root is the sum.
  \<^item> \<open>Capability\<close>, \<open>Naming\<close>, \<open>Enrollment\<close>, \<open>Quorum\<close>, \<open>Attestation\<close>: the files of those names in \<open>core/src\<close>; exactly which chains,
    records, certificates, quorums and signatures are accepted, and what is true of what was.
  \<^item> \<open>Verify\<close>, \<open>Commit_Store\<close>: \<open>core/src/job/verify.ts\<close>, \<open>commit-reveal.ts\<close>, \<open>net/src/commit-store.ts\<close>; a counted answer was
    committed to before any was revealed, and is revealed once, to the peer it was committed to.
  \<^item> \<open>Checkpoint\<close>: \<open>core/src/checkpoint.ts\<close> and the in-memory block store; locale \<open>blockstore\<close>.
  \<^item> \<open>Transport\<close>, \<open>Egress\<close>, \<open>Rpc\<close>, \<open>Protocol\<close>: \<open>core/src/transport/memory.ts\<close>, \<open>net/src/egress.ts\<close>, \<open>rpc.ts\<close>, \<open>protocol.ts\<close>; locale
    \<open>transport\<close>, interpreted on the in-process network and on the guard around it; held bytes never leave; a request settles once
    and by its peer; frames round trip.
  \<^item> \<open>Discovery\<close>, \<open>Start_Outcome\<close>: \<open>core/src/discovery.ts\<close>, \<open>start-outcome.ts\<close>.

  Conventions.  A number that a guard may find fractional, infinite or NaN is a \<open>jsnum\<close>; past the guard it is exact (\<open>nat\<close>, \<open>int\<close>,
  \<open>rat\<close>), so rounding of binary floating point is not modelled.  Maps and sets iterate in insertion order.  A string is a list of
  code units, none above 255; a CID is its text.  What is not under \<open>src\<close> is a parameter: the DAG-CBOR codec, SHA-256, Ed25519, collation,
  random bytes, the clock.  Its documented behaviour is a named hypothesis (\<open>codec_law\<close>, a signature that verifies for its own message).
  An exception is a value of a sum or of \<open>settled\<close>.  Calls that suspend are either threaded in the order the code starts them or the steps of a
  relation that interleaves them; the state after any interleaving is what its theorem speaks of.

  Termination and fuel.  All loops of the model are total but two, which are partial functions to \<open>option\<close> with a proof that they return: the walk over
  checkpoints (\<open>chain_loop\<close>, over a finite store) and the remaining work of a checkpoint.  The layers of the reduce tree recur on the number of
  nodes left, which a fanout of two or more decreases; the offer loop on the candidates not yet asked.  No fuel is used.

  Not modelled: WebAssembly execution (the engine is the platform's), the libp2p, IndexedDB, file-system and durable-object adapters (the
  code only forwards to libraries that are not under \<open>src\<close>), page and command-line code, benchmark drivers.  Planned next: the
  executor guards and the serving agent (\<open>net/src/agent.ts\<close>), job submission (\<open>core/src/job/submit.ts\<close>), the X.509 codec.
\<close>

section \<open>A whole aggregation\<close>

text \<open>
  The reduce tree, its run over executors that may die or lie, and the merge, put together.  \<open>content\<close>
  is the value stored under a CID; a combine done right stores the merge of its inputs.
\<close>

lemma list_all2_unique:
  "list_all2 (\<lambda>x b. P x b \<and> (\<forall>c. P x c \<longrightarrow> c = b)) xs bs \<Longrightarrow> list_all2 P xs cs \<Longrightarrow> cs = bs"
  by (induction xs bs arbitrary: cs rule: list_all2_induct) (auto simp: list_all2_Cons1)

lemma covers_unique:
  assumes "distinct (map rn_id ns)" "\<And>n. n \<in> set ns \<Longrightarrow> rn_id n \<notin> set ls"
  shows "covers ns ls i fs \<Longrightarrow> covers ns ls i gs \<Longrightarrow> gs = fs"
proof (induction arbitrary: gs rule: covers.induct)
  case (covers_leaf i)
  from covers_leaf(2,1) show ?case by (cases rule: covers.cases) (use assms(2) in auto)
next
  case (covers_node n fss)
  from covers_node.prems show ?case
  proof (cases rule: covers.cases)
    case covers_leaf
    then show ?thesis using assms(2) covers_node.hyps(1) by auto
  next
    case (covers_node n' gss)
    then have "n' = n" using assms(1) \<open>n \<in> set ns\<close> by (auto dest: inj_onD simp: distinct_map)
    then have "list_all2 (covers ns ls) (rn_children n) gss" using covers_node(4) by simp
    with covers_node.IH have "gss = fss" by (rule list_all2_unique)
    then show ?thesis using covers_node(2) by simp
  qed
qed

lemma tree_value_sum:
  assumes merge: "\<And>cids. meaning (content (F cids)) = sum_list (map (meaning \<circ> content) cids)"
  shows "tree_value F ls ns i c \<Longrightarrow>
    \<exists>ks. covers ns (map leaf_id ls) i (map leaf_id ks) \<and> set ks \<subseteq> set ls \<and>
      (meaning (content c) :: rat) = sum_list (map (meaning \<circ> content \<circ> leaf_cid) ks)"
proof (induction rule: tree_value.induct)
  case (value_leaf l)
  then show ?case by (intro exI [of _ "[l]"]) (simp add: covers_leaf)
next
  case (value_node n cids)
  have "\<exists>kss. list_all2 (\<lambda>i ks. covers ns (map leaf_id ls) i (map leaf_id ks)) xs kss \<and> set (concat kss) \<subseteq> set ls \<and>
      sum_list (map (meaning \<circ> content) ys) = sum_list (map (meaning \<circ> content \<circ> leaf_cid) (concat kss))"
    if "list_all2 (\<lambda>i c. tree_value F ls ns i c \<and> (\<exists>ks. covers ns (map leaf_id ls) i (map leaf_id ks) \<and> set ks \<subseteq> set ls \<and>
      meaning (content c) = sum_list (map (meaning \<circ> content \<circ> leaf_cid) ks))) xs ys" for xs ys
    using that
  proof (induction rule: list_all2_induct)
    case (Cons x xs y ys)
    then obtain ks kss where "covers ns (map leaf_id ls) x (map leaf_id ks)" "set ks \<subseteq> set ls"
      "meaning (content y) = sum_list (map (meaning \<circ> content \<circ> leaf_cid) ks)"
      "list_all2 (\<lambda>i ks. covers ns (map leaf_id ls) i (map leaf_id ks)) xs kss" "set (concat kss) \<subseteq> set ls"
      "sum_list (map (meaning \<circ> content) ys) = sum_list (map (meaning \<circ> content \<circ> leaf_cid) (concat kss))"
      by blast
    then show ?case by (intro exI [of _ "ks # kss"]) (simp add: o_def)
  qed simp
  from this [OF value_node.IH] obtain kss where
    k: "list_all2 (\<lambda>i ks. covers ns (map leaf_id ls) i (map leaf_id ks)) (rn_children n) kss" "set (concat kss) \<subseteq> set ls"
      "sum_list (map (meaning \<circ> content) cids) = sum_list (map (meaning \<circ> content \<circ> leaf_cid) (concat kss))" by blast
  have "list_all2 (covers ns (map leaf_id ls)) (rn_children n) (map (map leaf_id) kss)"
    using k(1) by (simp add: list_all2_map2)
  from covers_node [OF value_node.hyps(1) this] k(2,3) merge [of cids] show ?case
    by (intro exI [of _ "concat kss"]) (simp add: map_concat o_def)
qed

text \<open>The aggregate is the sum of the contributions: when a run over a derived tree reports success and,
  among the replicas that answered each combine, one stored the merge of its inputs, the value
  under the root has as many rows, and of every word the count, that the distinct contributions
  have together, each of them counted once.  The ids of the tree's nodes are assumed not to
  collide.\<close>

theorem distributed_aggregate_is_the_sum:
  assumes "deriveReduceTree h cs f = Inr (rr_tree run)" "\<forall>c \<in> set cs. CHR 0x00 \<notin> set (rc_cid c)"
    and "distinct (tree_leaf_ids (rr_tree run) @ map rn_id (rt_nodes (rr_tree run)))"
    and "ro_ok (executeReduce hash lc run)"
    and "\<And>task. fst (replica_answers hash lc run task) \<noteq> [] \<Longrightarrow>
      \<exists>q \<in> set (fst (replica_answers hash lc run task)). pd_cid q = F (ct_inputCids task)"
    and "\<And>cids. content (F cids) = dag_sorted (fabricCombiner (map content cids))"
  shows "\<exists>c. ro_rootCid (executeReduce hash lc run) = Some c \<and>
    rows_of (content c) = (\<Sum>l \<in> leaf_of ` set cs. rows_of (content (leaf_cid l))) \<and>
    (\<forall>w. count_of w (content c) = (\<Sum>l \<in> leaf_of ` set cs. count_of w (content (leaf_cid l))))"
proof -
  let ?t = "rr_tree run" and ?ls = "rt_leaves (rr_tree run)" and ?ns = "rt_nodes (rr_tree run)"
  obtain c where root: "ro_rootCid (executeReduce hash lc run) = Some c" "tree_value F ?ls ?ns (rt_rootId ?t) c"
    using reduce_run_value [OF assms(4,5)] by blast
  note leaves = derived_covers [OF assms(1,2)]
  have sums: "(meaning (content c) :: rat) = (\<Sum>l \<in> leaf_of ` set cs. meaning (content (leaf_cid l)))"
    if "\<And>vs. meaning (dag_sorted (fabricCombiner vs)) = sum_list (map meaning vs)" for meaning
  proof -
    have "meaning (content (F cids)) = sum_list (map (meaning \<circ> content) cids)" for cids
      using that [of "map content cids"] by (simp add: assms(6) o_def)
    from tree_value_sum [OF this root(2)] obtain ks where
      ks: "covers ?ns (map leaf_id ?ls) (rt_rootId ?t) (map leaf_id ks)" "set ks \<subseteq> set ?ls"
        "meaning (content c) = sum_list (map (meaning \<circ> content \<circ> leaf_cid) ks)" by blast
    have "map leaf_id ks = map leaf_id ?ls"
      by (rule covers_unique [OF _ _ conjunct2 [OF conjunct2 [OF conjunct2 [OF leaves]]] ks(1)])
        (use assms(3) in auto)
    moreover have "inj_on leaf_id (set ?ls)" using assms(3) by (simp add: distinct_map)
    ultimately have "ks = ?ls" using ks(2) by (metis map_inj_on subset_Un_eq)
    moreover have "distinct ?ls" using assms(3) by (simp add: distinct_map)
    ultimately show ?thesis using ks(3) leaves
      by (simp add: sum_list_distinct_conv_sum_set)
  qed
  have "count_of w (content c) = (\<Sum>l \<in> leaf_of ` set cs. count_of w (content (leaf_cid l)))" for w
    by (rule sums) (simp add: dag_combined_says total_count_def)
  moreover have "rows_of (content c) = (\<Sum>l \<in> leaf_of ` set cs. rows_of (content (leaf_cid l)))"
    by (rule sums) (simp add: dag_combined_says)
  ultimately show ?thesis using root(1) by blast
qed

text \<open>A store in which a CID's letters are its rows; \<open>glue\<close> keeps the letters of its parts.\<close>

definition demo_letters :: "string \<Rightarrow> rat" where
  "demo_letters c = of_nat (length (filter (\<lambda>x. x \<noteq> CHR ''+'') c))"

definition demo_content :: "string \<Rightarrow> cvalue" where
  "demo_content c = dag_sorted (CObj [(''counts'', CObj []), (''rows'', CNum (Fin (demo_letters c)))])"

lemma demo_content_rows: "rows_of (demo_content c) = demo_letters c" "words_of (demo_content c) = {}"
  by (simp_all add: rows_of_def words_of_def asFabricPartial_def asRecord_def demo_content_def dag_key_cmp_def js_or_def num_cmp_def)

lemma glue_letters: "demo_letters (glue cids) = sum_list (map demo_letters cids)"
  by (induction cids rule: induct_list012) (simp_all add: glue_def demo_letters_def)

lemma demo_content_merge: "demo_content (glue cids) = dag_sorted (fabricCombiner (map demo_content cids))"
proof -
  have "all_words (map demo_content cids) = {}" by (simp add: all_words_def demo_content_rows)
  then have "fabricCombiner (map demo_content cids) =
      CObj [(''counts'', CObj []), (''rows'', CNum (Fin (demo_letters (glue cids))))]"
    by (simp add: fabricCombiner_form demo_content_rows o_def glue_letters)
  then show ?thesis by (simp only: demo_content_def)
qed

theorem distributed_aggregate_is_the_sum_witness:
  "\<exists>c. ro_rootCid (executeReduce mark unit_cmp demo_run) = Some c \<and> rows_of (demo_content c) = 15"
proof -
  let ?cs = "map demo_contribution [''b'', ''a'', ''c'']"
  have ids: "distinct (tree_leaf_ids (rr_tree demo_run) @ map rn_id (rt_nodes (rr_tree demo_run)))"
    by (simp add: demo_run_def demo_tree_def deriveReduceTree_def demo_leaves [simplified demo_contribution_def list.map] leaves_of_def tree_layers.simps Let_def
        demo_contribution_def leaf_of_def leafId_def mark_def num_cmp_def)
  have cids: "\<forall>c \<in> set ?cs. CHR 0x00 \<notin> set (rc_cid c)" by (simp add: demo_contribution_def)
  have rows: "(\<Sum>l \<in> leaf_of ` set ?cs. rows_of (demo_content (leaf_cid l))) = 15"
    by (simp add: demo_contribution_def leaf_of_def leafId_def demo_content_rows demo_letters_def)
  show ?thesis
    using distributed_aggregate_is_the_sum [OF demo_run_tree cids ids demo_run_ok demo_run_honest demo_content_merge] rows
    by auto
qed

section \<open>A job and its aggregate\<close>

lemma own_leaves_differ:
  assumes "map (\<lambda>c. Some (contributorId c)) cs = map (\<lambda>sh. contributorFor (sr_partitionIndex sh) None) shs"
    and "distinct (map sr_partitionIndex shs)" "\<forall>c \<in> set cs. CHR 0x00 \<notin> set (rc_cid c)"
  shows "distinct cs" "inj_on leaf_of (set cs)"
proof -
  have "map contributorId cs = map (\<lambda>sh. ''shard-'' @ nat_text (sr_partitionIndex sh)) shs"
    using assms(1) by (induction cs arbitrary: shs) (auto simp: contributorFor_def Cons_eq_map_conv)
  then have ids: "map contributorId cs = map (\<lambda>i. ''shard-'' @ nat_text i) (map sr_partitionIndex shs)" by simp
  have "inj_on (\<lambda>i. ''shard-'' @ nat_text i) A" for A by (auto intro!: inj_onI dest: nat_text_inj)
  then have "distinct (map contributorId cs)" unfolding ids using assms(2) by (subst distinct_map) blast
  then show "distinct cs" by (simp add: distinct_map)
  show "inj_on leaf_of (set cs)"
  proof (rule inj_onI)
    fix c d assume "c \<in> set cs" "d \<in> set cs" "leaf_of c = leaf_of d"
    then show "c = d" using leafId_inj [of "contributorId c" "rc_cid c" "contributorId d" "rc_cid d"] assms(3)
      by (auto simp: leaf_of_def)
  qed
qed

text \<open>C2: The answer of a job is the sum over its shards: when \<open>reduceJob\<close>, run with each shard attributed to its own
  index, reports success, the leaves are the projected partials of the agreed shards, one each and in their
  order, the skipped shards are exactly the others, and, where among the replicas that answered each combine
  one stored the merge of its inputs, the value under the root has as many rows, and of every word the count,
  that those partials have together.  The ids of the tree's nodes are assumed not to collide.\<close>

theorem reduced_job_is_the_sum_of_its_shards:
  assumes reduced: "reduceJob ports ops job opts s = Inr (Inr (q, s'))" and own: "jn_contributors opts = None"
    and indices: "distinct (map sr_partitionIndex (agreed_shards (jr_shards job)))"
    and cids: "\<forall>c \<in> set (jq_leaves q). CHR 0x00 \<notin> set c"
    and ids: "distinct (tree_leaf_ids (jq_tree q) @ map rn_id (rt_nodes (jq_tree q)))"
    and ok: "ro_ok (jq_outcome q)"
    and honest: "\<And>task. fst (replica_answers (ng_hash ports) (ng_collate ports) (reduce_run_of ports opts (jq_tree q)) task) \<noteq> [] \<Longrightarrow>
      \<exists>p \<in> set (fst (replica_answers (ng_hash ports) (ng_collate ports) (reduce_run_of ports opts (jq_tree q)) task)).
        pd_cid p = F (ct_inputCids task)"
    and merge: "\<And>cids. content (F cids) = dag_sorted (fabricCombiner (map content cids))"
  shows "list_all2 (projects_to ports opts) (agreed_shards (jr_shards job)) (jq_leaves q) \<and>
    jq_skipped q = map sr_partitionIndex (filter (\<lambda>sh. \<not> is_agreed (sr_verification sh)) (jr_shards job)) \<and>
    (\<exists>c. ro_rootCid (jq_outcome q) = Some c \<and>
      rows_of (content c) = sum_list (map (rows_of \<circ> content) (jq_leaves q)) \<and>
      (\<forall>w. count_of w (content c) = sum_list (map (count_of w \<circ> content) (jq_leaves q))))"
proof -
  let ?run = "reduce_run_of ports opts (jq_tree q)"
  obtain cs where gathered: "list_all2 (projects_to ports opts) (agreed_shards (jr_shards job)) (jq_leaves q)"
      "jq_skipped q = map sr_partitionIndex (filter (\<lambda>sh. \<not> is_agreed (sr_verification sh)) (jr_shards job))"
    and leaves: "map rc_cid cs = jq_leaves q"
      "map (\<lambda>c. Some (contributorId c)) cs = map (\<lambda>sh. contributorFor (sr_partitionIndex sh) None) (agreed_shards (jr_shards job))"
    and tree: "deriveReduceTree (ng_hash ports) cs (case jn_fanout opts of None \<Rightarrow> num_of_nat DEFAULT_FANOUT | Some f \<Rightarrow> f)
        = Inr (rr_tree ?run)"
    using reduced_leaves [OF reduced] own by (metis reduce_run.simps(1) reduce_run_of_def)
  have no_NUL: "\<forall>c \<in> set cs. CHR 0x00 \<notin> set (rc_cid c)" using cids leaves(1) by (metis image_eqI list.set_map)
  have sums: "(\<Sum>l \<in> leaf_of ` set cs. f (content (leaf_cid l))) = sum_list (map (f \<circ> content) (jq_leaves q))" for f :: "cvalue \<Rightarrow> rat"
  proof -
    have "(\<Sum>l \<in> leaf_of ` set cs. f (content (leaf_cid l))) = (\<Sum>c \<in> set cs. f (content (rc_cid c)))"
      unfolding sum.reindex [OF own_leaves_differ(2) [OF leaves(2) indices no_NUL]] by (simp add: leaf_of_def)
    then show ?thesis using own_leaves_differ(1) [OF leaves(2) indices no_NUL]
      by (simp add: sum_list_distinct_conv_sum_set o_def flip: leaves(1))
  qed
  have "distinct (tree_leaf_ids (rr_tree ?run) @ map rn_id (rt_nodes (rr_tree ?run)))"
    using ids by (simp add: reduce_run_of_def)
  moreover have outcome: "jq_outcome q = executeReduce (ng_hash ports) (ng_collate ports) ?run" by (rule reduce_job_parts(1) [OF reduced])
  ultimately show ?thesis
    using distributed_aggregate_is_the_sum [OF tree no_NUL _ _ honest merge] ok gathered unfolding sums by simp
qed

text \<open>An inhabited instance: partials of one row and of three, combined by two nodes that do it right.\<close>

definition demo_sum_ports :: reduce_ports where
  "demo_sum_ports = demo_reduce_ports\<lparr>ng_codec := (\<lambda>v. Some [if v = demo_rows 1 then 0 else 1]),
     ng_cid_of := (\<lambda>b. if b = [0] then ''p'' else ''qqq''),
     ng_remote := (\<lambda>t e. Some \<lparr>cp_cid = glue (ct_inputCids t), cp_attestation = Signed_by_nobody\<rparr>)\<rparr>"

definition demo_sum_options :: reduce_job_options where
  "demo_sum_options = demo_reduce_options\<lparr>jn_project := (\<lambda>v i. Returned (demo_rows (i + 1)))\<rparr>"

abbreviation demo_summed :: "reduce_throw + (reduce_refusal + reduce_job_result \<times> memory_store)" where
  "demo_summed \<equiv> reduceJob demo_sum_ports (memory_ops (ng_cid_of demo_sum_ports)) demo_owned_job demo_sum_options []"

lemma demo_sum_honest:
  assumes "fst (replica_answers h lc (reduce_run_of demo_sum_ports demo_sum_options t) task) \<noteq> []"
  shows "\<exists>p \<in> set (fst (replica_answers h lc (reduce_run_of demo_sum_ports demo_sum_options t) task)). pd_cid p = glue (ct_inputCids task)"
proof -
  let ?run = "reduce_run_of demo_sum_ports demo_sum_options t"
  obtain p where p: "p \<in> set (fst (replica_answers h lc ?run task))" using assms by (meson last_in_set)
  have "fst (combine_locally ?run task) = []"
    by (simp add: combine_locally_def reduce_run_of_def localCombinePlacement_def demo_sum_options_def demo_reduce_options_def sovereign_job_options_def)
  then have "\<exists>e a. rr_dispatch ?run task e = Some a \<and> pd_cid p = cp_cid a"
    using ask_executors_answers [OF p [unfolded replica_answers_def]] by auto
  with p show ?thesis by (auto simp: reduce_run_of_def demo_sum_ports_def)
qed

theorem reduced_job_is_the_sum_of_its_shards_witness:
  "\<exists>q s' c. demo_summed = Inr (Inr (q, s')) \<and> jq_skipped q = [1] \<and> ro_rootCid (jq_outcome q) = Some c \<and> rows_of (demo_content c) = 4"
proof -
  have "case demo_summed of Inr (Inr (q, s')) \<Rightarrow>
      distinct (tree_leaf_ids (jq_tree q) @ map rn_id (rt_nodes (jq_tree q))) \<and> ro_ok (jq_outcome q) \<and> jq_leaves q = [''p'', ''qqq'']
    | _ \<Rightarrow> False"
    by code_simp
  then obtain q s' where q: "demo_summed = Inr (Inr (q, s'))"
    "distinct (tree_leaf_ids (jq_tree q) @ map rn_id (rt_nodes (jq_tree q)))" "ro_ok (jq_outcome q)" "jq_leaves q = [''p'', ''qqq'']"
    by (auto split: sum.splits)
  have job: "map sr_partitionIndex (agreed_shards (jr_shards demo_owned_job)) = [0, 2]"
    "map sr_partitionIndex (filter (\<lambda>sh. \<not> is_agreed (sr_verification sh)) (jr_shards demo_owned_job)) = [1]" by code_simp+
  have opts: "jn_contributors demo_sum_options = None" by code_simp
  have sum: "sum_list (map (rows_of \<circ> demo_content) [''p'', ''qqq'']) = 4" by (simp add: demo_content_rows demo_letters_def)
  have "\<forall>c \<in> set (jq_leaves q). CHR 0x00 \<notin> set c" by (simp add: q(4))
  from reduced_job_is_the_sum_of_its_shards [OF q(1) opts _ this q(2,3) demo_sum_honest demo_content_merge] q(1) show ?thesis
    unfolding q(4) sum job by auto
qed

end
